(* ===== verification/MCSB_Prelude.thy ===== *)
theory MCSB_Prelude
  imports Main "HOL-Library.Word" "HOL-Library.Multiset"
begin

unbundle bit_operations_syntax

text \<open>
  Shared vocabulary of the development.

  \<^item> Machine integers: \<open>u8\<close>, \<open>u16\<close>, \<open>u32\<close>, \<open>u64\<close> are HOL words; their \<open>+\<close> and \<open>-\<close>
    wrap as the C++ unsigned types do.
  \<^item> The result of a C++ operation on a state: \<open>Ok\<close> (it returned a value), \<open>Throw\<close> (a
    \<open>std::runtime_error\<close> left it; the state is the one reached at the \<open>throw\<close>, because C++
    does not roll anything back) or \<open>Crash\<close> (a failed \<open>assert\<close>, an out-of-range vector
    access, a null dereference, unlinking an object from a list it is not on, or a loop that
    does not end: nothing can be said about the
    program afterwards, and no \<open>catch\<close> sees it).
  \<^item> \<open>bind_o\<close> is the sequencing of statements, \<open>for_each\<close> a counting loop over an array,
    \<open>catch_o\<close> a \<open>try\<close>/\<open>catch\<close>.
  \<^item> \<open>sat r Q E\<close> says that \<open>r\<close> does not crash, that a normal result satisfies \<open>Q\<close> and an
    exception satisfies \<open>E\<close>; the rules of the collection \<open>sat_rules\<close> take it apart along the
    structure of the program.
\<close>

section \<open>Machine integers\<close>

type_synonym u8 = "8 word"
type_synonym u16 = "16 word"
type_synonym u32 = "32 word"
type_synonym u64 = "64 word"

section \<open>Outcomes of C++ operations\<close>

datatype fault = AssertionFailed | OutOfBounds | NullDereference | ListCorruption | DivideByZero | NonTermination

datatype ('a, 's) outcome = Ok 'a 's | Throw string 's | Crash fault

fun bind_o :: "('a, 's) outcome \<Rightarrow> ('a \<Rightarrow> 's \<Rightarrow> ('b, 's) outcome) \<Rightarrow> ('b, 's) outcome" where
  "bind_o (Ok a s) f = f a s"
| "bind_o (Throw e s) f = Throw e s"
| "bind_o (Crash c) f = Crash c"

fun catch_o :: "('a, 's) outcome \<Rightarrow> (string \<Rightarrow> 's \<Rightarrow> ('a, 's) outcome) \<Rightarrow> ('a, 's) outcome" where
  "catch_o (Ok a s) h = Ok a s"
| "catch_o (Throw e s) h = h e s"
| "catch_o (Crash c) h = Crash c"

text \<open>Running an operation of a component inside the state of its owner.\<close>

fun lift_o :: "('t \<Rightarrow> 's) \<Rightarrow> ('a, 't) outcome \<Rightarrow> ('a, 's) outcome" where
  "lift_o put (Ok a t) = Ok a (put t)"
| "lift_o put (Throw e t) = Throw e (put t)"
| "lift_o put (Crash c) = Crash c"

fun for_each :: "('b \<Rightarrow> 's \<Rightarrow> (unit, 's) outcome) \<Rightarrow> 'b list \<Rightarrow> 's \<Rightarrow> (unit, 's) outcome" where
  "for_each f [] s = Ok () s"
| "for_each f (x # xs) s = bind_o (f x s) (\<lambda>_. for_each f xs)"

fun sat :: "('a, 's) outcome \<Rightarrow> ('a \<Rightarrow> 's \<Rightarrow> bool) \<Rightarrow> (string \<Rightarrow> 's \<Rightarrow> bool) \<Rightarrow> bool" where
  "sat (Ok a s) Q E = Q a s"
| "sat (Throw e s) Q E = E e s"
| "sat (Crash c) Q E = False"

named_theorems sat_rules \<open>rules that take \<open>sat\<close> apart\<close>

lemma sat_mono:
  assumes "sat r Q E" and "\<And>a s. Q a s \<Longrightarrow> Q' a s" and "\<And>e s. E e s \<Longrightarrow> E' e s"
  shows "sat r Q' E'"
  using assms by (cases r) auto

lemma sat_bind [sat_rules]:
  assumes "sat r R E" and "\<And>a s. R a s \<Longrightarrow> sat (f a s) Q E"
  shows "sat (bind_o r f) Q E"
  using assms by (cases r) auto

lemma sat_catch [sat_rules]:
  assumes "sat r Q R" and "\<And>e s. R e s \<Longrightarrow> sat (h e s) Q E"
  shows "sat (catch_o r h) Q E"
  using assms by (cases r) auto

lemma sat_lift [simp]:
  "sat (lift_o put r) Q E = sat r (\<lambda>a t. Q a (put t)) (\<lambda>e t. E e (put t))"
  by (cases r) auto

lemma sat_for_each [sat_rules]:
  assumes "\<And>x s. x \<in> set xs \<Longrightarrow> I s \<Longrightarrow> sat (f x s) (\<lambda>_. I) E" and "I s"
  shows "sat (for_each f xs s) (\<lambda>_. I) E"
  using assms
proof (induction xs arbitrary: s)
  case Nil
  then show ?case by simp
next
  case (Cons x xs)
  from Cons.prems have "sat (f x s) (\<lambda>_. I) E" by simp
  then show ?case
    by (simp, rule sat_bind) (use Cons in auto)
qed

lemma sat_OkD: "sat r Q E \<Longrightarrow> r = Ok a s \<Longrightarrow> Q a s"
  by simp

lemma sat_ThrowD: "sat r Q E \<Longrightarrow> r = Throw e s \<Longrightarrow> E e s"
  by simp

lemma sat_not_Crash: "sat r Q E \<Longrightarrow> r \<noteq> Crash c"
  by auto

lemma bind_o_assoc: "bind_o (bind_o r f) g = bind_o r (\<lambda>a s. bind_o (f a s) g)"
  by (cases r) auto

lemma for_each_append:
  "for_each f (xs @ ys) s = bind_o (for_each f xs s) (\<lambda>_. for_each f ys)"
proof (induction xs arbitrary: s)
  case (Cons x xs)
  then have "for_each f (xs @ ys) = (\<lambda>s. bind_o (for_each f xs s) (\<lambda>_. for_each f ys))"
    by blast
  then show ?case by (simp add: bind_o_assoc)
qed simp

lemma bind_o_Ok_iff: "bind_o r f = Ok b t \<longleftrightarrow> (\<exists>a s. r = Ok a s \<and> f a s = Ok b t)"
  by (cases r) auto

section \<open>Lists\<close>

lemma distinct_remove1_set: "distinct xs \<Longrightarrow> set (remove1 x xs) = set xs - {x}"
  by (rule set_remove1_eq)

lemma length_remove1_mem: "x \<in> set xs \<Longrightarrow> length (remove1 x xs) = length xs - 1"
  by (simp add: length_remove1)

lemma sum_list_update_nat:
  fixes f :: "'a \<Rightarrow> nat"
  assumes "k < length xs"
  shows "sum_list (map f (xs[k := y])) + f (xs ! k) = sum_list (map f xs) + f y"
  using assms by (induction xs arbitrary: k) (auto split: nat.split)

lemma filter_update_length:
  assumes "k < length xs"
  shows "length (filter P (xs[k := y])) + (if P (xs ! k) then 1 else 0)
    = length (filter P xs) + (if P y then 1 else 0)"
  using assms
proof (induction xs arbitrary: k)
  case (Cons x xs)
  then show ?case by (cases k) fastforce+
qed simp

lemma filter_enumerate_none:
  "\<forall>x \<in> set xs. \<not> P x \<Longrightarrow> filter (\<lambda>(i, x). P x) (enumerate n xs) = []"
  by (induction xs arbitrary: n) auto

lemma map_nth_update_other: "r \<notin> set xs \<Longrightarrow> map ((!) (bs[r := v])) xs = map ((!) bs) xs"
  by (rule map_cong [OF refl]) (metis nth_list_update_neq)

section \<open>Pools of objects\<close>

text \<open>
  The program keeps every pooled object (slab, segment, request) on exactly one of several
  intrusive lists.  The invariant is stated with multisets: together the lists hold every
  object of the pool once.
\<close>

definition pool :: "nat list \<Rightarrow> nat \<Rightarrow> bool" where
  "pool xs n \<longleftrightarrow> mset xs = mset [0..<n]"

lemma pool_distinct: "pool xs n \<Longrightarrow> distinct xs"
  unfolding pool_def by (metis distinct_upt mset_eq_imp_distinct_iff)

lemma pool_set: "pool xs n \<Longrightarrow> set xs = {0..<n}"
  unfolding pool_def by (metis mset_eq_setD set_upt)

lemma pool_length: "pool xs n \<Longrightarrow> length xs = n"
  unfolding pool_def by (metis diff_zero length_upt size_mset)

lemma pool_mem: "pool xs n \<Longrightarrow> x \<in> set xs \<longleftrightarrow> x < n"
  by (simp add: pool_set)

lemma pool_cong: "mset xs = mset ys \<Longrightarrow> pool xs n = pool ys n"
  by (simp add: pool_def)

lemma pool_grow: "pool xs n \<Longrightarrow> pool (xs @ [n..<n + k]) (n + k)"
  using upt_add_eq_append [of 0 n k] by (simp add: pool_def)

lemma pool_Nil: "pool [] 0"
  by (simp add: pool_def)

lemma mset_concat_update:
  "i < length xss \<Longrightarrow> mset (concat (xss[i := ys])) + mset (xss ! i) = mset (concat xss) + mset ys"
proof (induction xss arbitrary: i)
  case (Cons xs xss)
  then show ?case by (cases i) (auto simp: ac_simps)
qed simp

section \<open>Words\<close>

lemma unat_dec: "x \<noteq> 0 \<Longrightarrow> unat (x - 1) = unat x - 1"
  by (rule unat_minus_one)

lemma unat_inc: "x \<noteq> - 1 \<Longrightarrow> unat (x + 1) = Suc (unat x)"
  by (metis add.commute add_eq_0_iff unatSuc)

lemma unat_ucast_u32_u64 [simp]: "unat (ucast (x :: u32) :: u64) = unat x"
proof -
  have "unat x < 2 ^ 64" using unsigned_less [of x, where ?'a = nat] by simp
  then show ?thesis by (simp add: unsigned_ucast_eq take_bit_nat_eq_self)
qed

lemma unat_ucast_u64_u32: "unat (x :: u64) < 2 ^ 32 \<Longrightarrow> unat (ucast x :: u32) = unat x"
  by (simp add: unsigned_ucast_eq take_bit_nat_eq_self)

lemma ucast_u32_u64_0_iff [simp]: "(ucast (x :: u32) :: u64) = 0 \<longleftrightarrow> x = 0"
  by (metis unat_eq_zero unat_ucast_u32_u64)

lemma unat_add_u64:
  "unat a + unat b < 2 ^ 64 \<Longrightarrow> unat (a + b :: u64) = unat a + unat b"
  by (simp add: unat_word_ariths)

lemma unat_add_u32:
  "unat a + unat b < 2 ^ 32 \<Longrightarrow> unat (a + b :: u32) = unat a + unat b"
  by (simp add: unat_word_ariths)

lemma unat_minus_1_u32: "unat (- 1 :: u32) = 2 ^ 32 - 1"
  by (simp add: unsigned_minus_1_eq_mask mask_eq_exp_minus_1)

lemma unat_inc_u32: "unat (x :: u32) < 2 ^ 32 - 1 \<Longrightarrow> unat (x + 1) = Suc (unat x)"
  by (rule unat_inc) (auto simp: unat_minus_1_u32)

lemma unat_of_nat_u64: "n < 2 ^ 64 \<Longrightarrow> unat (of_nat n :: u64) = n"
  by (simp add: unsigned_of_nat take_bit_nat_eq_self)

lemma unat_of_nat_u32: "n < 2 ^ 32 \<Longrightarrow> unat (of_nat n :: u32) = n"
  by (simp add: unsigned_of_nat take_bit_nat_eq_self)

lemma of_nat_u64_eq_0: "n < 2 ^ 64 \<Longrightarrow> (of_nat n :: u64) = 0 \<longleftrightarrow> n = 0"
  by (metis unat_eq_zero unat_of_nat_u64)

lemma unat_neg_u32:
  fixes x :: u32
  assumes "x \<noteq> 0"
  shows "unat (- x) = 2 ^ 32 - unat x"
proof -
  have "unat (- x + x) = (unat (- x) + unat x) mod 2 ^ 32" by (simp only: unat_word_ariths) simp
  then have "(unat (- x) + unat x) mod 2 ^ 32 = 0" by simp
  then obtain k where k: "unat (- x) + unat x = 2 ^ 32 * k" by auto
  have "0 < unat x" "unat x < 2 ^ 32" "unat (- x) < 2 ^ 32"
    using assms unsigned_less [of x, where ?'a = nat] unsigned_less [of "- x", where ?'a = nat]
    by (simp_all add: unat_gt_0)
  with k have "k = 1" by (cases k) auto
  with k show ?thesis by simp
qed

lemma nth_update_unat_neq: "i \<noteq> j \<Longrightarrow> xs[unat i := v] ! unat j = xs ! unat j"
  by (metis nth_list_update_neq unsigned_word_eqI)

lemma unat_gt_0_iff: "0 < unat x \<longleftrightarrow> x \<noteq> 0"
  by (simp add: unat_gt_0)

section \<open>Bytes\<close>

text \<open>Little-endian words, as the processors the program runs on store them.\<close>

definition le_word :: "u8 \<Rightarrow> u8 \<Rightarrow> u8 \<Rightarrow> u8 \<Rightarrow> u32" where
  "le_word b0 b1 b2 b3 =
     ucast b0 OR push_bit 8 (ucast b1) OR push_bit 16 (ucast b2) OR push_bit 24 (ucast b3)"

definition bytes32 :: "u32 \<Rightarrow> u8 list" where
  "bytes32 w = [ucast w, ucast (drop_bit 8 w), ucast (drop_bit 16 w), ucast (drop_bit 24 w)]"

definition bytes16 :: "u16 \<Rightarrow> u8 list" where
  "bytes16 w = [ucast w, ucast (drop_bit 8 w)]"

definition le_half :: "u8 \<Rightarrow> u8 \<Rightarrow> u16" where
  "le_half b0 b1 = ucast b0 OR push_bit 8 (ucast b1)"

lemma bit_ucast_u8: "bit (ucast (b :: u8) :: u32) n \<longleftrightarrow> n < 8 \<and> bit b n"
  by (auto simp: bit_simps dest: bit_imp_le_length)

lemma bit_ucast_u8_16: "bit (ucast (b :: u8) :: u16) n \<longleftrightarrow> n < 8 \<and> bit b n"
  by (auto simp: bit_simps dest: bit_imp_le_length)

lemma bit_ucast_down: "bit (ucast (w :: u32) :: u8) n \<longleftrightarrow> n < 8 \<and> bit w n"
  by (auto simp: bit_simps)

lemma bit_ucast_down_16: "bit (ucast (w :: u16) :: u8) n \<longleftrightarrow> n < 8 \<and> bit w n"
  by (auto simp: bit_simps)

lemma le_word_bytes32:
  "le_word (ucast w) (ucast (drop_bit 8 w)) (ucast (drop_bit 16 w)) (ucast (drop_bit 24 w)) = w"
proof (rule bit_eqI)
  fix n assume "possible_bit TYPE(u32) n"
  then have "n < 32" by simp
  then consider "n < 8" | "8 \<le> n" "n < 16" | "16 \<le> n" "n < 24" | "24 \<le> n" "n < 32" by fastforce
  then show "bit (le_word (ucast w) (ucast (drop_bit 8 w)) (ucast (drop_bit 16 w)) (ucast (drop_bit 24 w))) n = bit w n"
    by cases (auto simp: le_word_def bit_or_iff bit_push_bit_iff bit_ucast_u8 bit_ucast_down bit_drop_bit_eq)
qed

lemma le_half_bytes16: "le_half (ucast w) (ucast (drop_bit 8 w)) = w"
  unfolding le_half_def
  by (rule bit_eqI)
    (auto simp: bit_or_iff bit_push_bit_iff bit_ucast_u8_16 bit_ucast_down_16 bit_drop_bit_eq dest: bit_imp_le_length)

lemma length_bytes32 [simp]: "length (bytes32 w) = 4" "length (bytes16 v) = 2"
  by (simp_all add: bytes32_def bytes16_def)

text \<open>The words of a byte array; an incomplete word at the end is left out.\<close>

fun words :: "u8 list \<Rightarrow> u32 list" where
  "words (b0 # b1 # b2 # b3 # bs) = le_word b0 b1 b2 b3 # words bs"
| "words _ = []"

definition bytes_of :: "u32 list \<Rightarrow> u8 list" where
  "bytes_of ws = concat (map bytes32 ws)"

lemma bytes_of_simps [simp]:
  "bytes_of [] = []" "bytes_of (w # ws) = bytes32 w @ bytes_of ws" "bytes_of (vs @ ws) = bytes_of vs @ bytes_of ws"
  by (simp_all add: bytes_of_def)

lemma length_bytes_of [simp]: "length (bytes_of ws) = 4 * length ws"
  by (induction ws) simp_all

lemma words_bytes32 [simp]: "words (bytes32 w @ bs) = w # words bs"
  by (simp add: bytes32_def le_word_bytes32)

lemma words_bytes_of [simp]: "words (bytes_of ws @ bs) = ws @ words bs"
  by (induction ws) simp_all

lemma length_words: "length (words bs) = length bs div 4"
  by (induction bs rule: words.induct) auto

end
