(* ===== verification/Intrusive_List.thy ===== *)
theory Intrusive_List
  imports MCSB_Prelude
begin

text \<open>
  \<open>IntrusiveList\<close> and \<open>IntrusiveListHook\<close> (src/MCSB/IntrusiveList.h) at the level of
  pointers.  A hook is an address; the heap gives its \<open>next_\<close> and \<open>prev_\<close>.  A list object is
  the address of its \<open>root_\<close> hook and its \<open>size_\<close>.  An iterator is an address.

  \<open>dll h r xs\<close> says that the hooks of \<open>r # xs\<close> form one ring in the heap \<open>h\<close>; the lemmas show
  that every operation changes the ring the way the operation on lists does and leaves every
  other ring alone.  The other theories use lists of indices for intrusive lists; the facts
  proved here are what justifies that.
\<close>

section \<open>Model\<close>

type_synonym addr = nat

record hooks =
  next_of :: "addr \<Rightarrow> addr"
  prev_of :: "addr \<Rightarrow> addr"

definition set_next :: "addr \<Rightarrow> addr \<Rightarrow> hooks \<Rightarrow> hooks" where
  "set_next a v h = h\<lparr>next_of := (next_of h)(a := v)\<rparr>"

definition set_prev :: "addr \<Rightarrow> addr \<Rightarrow> hooks \<Rightarrow> hooks" where
  "set_prev a v h = h\<lparr>prev_of := (prev_of h)(a := v)\<rparr>"

definition hook_new :: "addr \<Rightarrow> hooks \<Rightarrow> hooks" where
  "hook_new this h = set_prev this this (set_next this this h)"

definition detached :: "addr \<Rightarrow> hooks \<Rightarrow> bool" where
  "detached this h \<longleftrightarrow> next_of h this = this"

definition hook_insert :: "addr \<Rightarrow> addr \<Rightarrow> hooks \<Rightarrow> (unit, hooks) outcome" where
  "hook_insert this node h =
     (if \<not> detached this h then Crash AssertionFailed
      else let h1 = set_next this node h;
               h2 = set_prev this (prev_of h1 node) h1;
               h3 = set_next (prev_of h2 this) this h2
           in Ok () (set_prev node this h3))"

definition hook_insert_after :: "addr \<Rightarrow> addr \<Rightarrow> hooks \<Rightarrow> (unit, hooks) outcome" where
  "hook_insert_after this node h = hook_insert this (next_of h node) h"

definition hook_remove :: "addr \<Rightarrow> hooks \<Rightarrow> (unit, hooks) outcome" where
  "hook_remove this h =
     (if detached this h then Crash AssertionFailed
      else let h1 = set_prev (next_of h this) (prev_of h this) h;
               h2 = set_next (prev_of h1 this) (next_of h1 this) h1
           in Ok () (set_prev this this (set_next this this h2)))"

record ilist =
  root :: addr
  isize :: u64

type_synonym ilist_state = "ilist \<times> hooks"

definition il_empty :: "ilist_state \<Rightarrow> bool" where
  "il_empty = (\<lambda>(l, h). next_of h (root l) = root l)"

definition il_front :: "ilist_state \<Rightarrow> addr" where
  "il_front = (\<lambda>(l, h). next_of h (root l))"

definition il_back :: "ilist_state \<Rightarrow> addr" where
  "il_back = (\<lambda>(l, h). prev_of h (root l))"

text \<open>The hook operation, then \<open>++size_\<close> or \<open>--size_\<close>.\<close>

definition il_grow :: "(unit, hooks) outcome \<Rightarrow> ilist \<Rightarrow> (unit, ilist_state) outcome" where
  "il_grow r l = lift_o (\<lambda>h. (l\<lparr>isize := isize l + 1\<rparr>, h)) r"

definition il_shrink :: "(unit, hooks) outcome \<Rightarrow> ilist \<Rightarrow> (unit, ilist_state) outcome" where
  "il_shrink r l = lift_o (\<lambda>h. (l\<lparr>isize := isize l - 1\<rparr>, h)) r"

definition il_push_front :: "addr \<Rightarrow> ilist_state \<Rightarrow> (unit, ilist_state) outcome" where
  "il_push_front t = (\<lambda>(l, h). il_grow (hook_insert_after t (root l) h) l)"

definition il_push_back :: "addr \<Rightarrow> ilist_state \<Rightarrow> (unit, ilist_state) outcome" where
  "il_push_back t = (\<lambda>(l, h). il_grow (hook_insert t (root l) h) l)"

definition il_pop_front :: "ilist_state \<Rightarrow> (unit, ilist_state) outcome" where
  "il_pop_front = (\<lambda>(l, h). il_shrink (hook_remove (il_front (l, h)) h) l)"

definition il_pop_back :: "ilist_state \<Rightarrow> (unit, ilist_state) outcome" where
  "il_pop_back = (\<lambda>(l, h). il_shrink (hook_remove (il_back (l, h)) h) l)"

definition il_insert :: "addr \<Rightarrow> addr \<Rightarrow> ilist_state \<Rightarrow> (addr, ilist_state) outcome" where
  "il_insert p t = (\<lambda>(l, h). bind_o (il_grow (hook_insert t p h) l) (\<lambda>_. Ok t))"

definition il_erase :: "addr \<Rightarrow> ilist_state \<Rightarrow> (addr, ilist_state) outcome" where
  "il_erase p = (\<lambda>(l, h). let p' = next_of h p in bind_o (il_shrink (hook_remove p h) l) (\<lambda>_. Ok p'))"

text \<open>
  \<open>erase(f, l)\<close>, \<open>remove(const T&)\<close> and the destructor are loops; \<open>fuel\<close> bounds the number of
  iterations.  \<open>eq\<close> is \<open>operator==\<close> of the element type against the argument.
\<close>

fun il_erase_range :: "nat \<Rightarrow> addr \<Rightarrow> addr \<Rightarrow> ilist_state \<Rightarrow> (addr, ilist_state) outcome" where
  "il_erase_range 0 f e s = Crash NonTermination"
| "il_erase_range (Suc fuel) f e s =
     (if f = e then Ok f s
      else bind_o (il_erase f s) (\<lambda>f'. il_erase_range fuel f' e))"

fun il_remove_loop :: "nat \<Rightarrow> (addr \<Rightarrow> bool) \<Rightarrow> addr \<Rightarrow> addr \<Rightarrow> ilist_state \<Rightarrow> (unit, ilist_state) outcome" where
  "il_remove_loop 0 eq it e s = Crash NonTermination"
| "il_remove_loop (Suc fuel) eq it e s =
     (if it = e then Ok () s
      else if eq it then bind_o (il_erase it s) (\<lambda>it'. il_remove_loop fuel eq it' e)
      else il_remove_loop fuel eq (next_of (snd s) it) e s)"

definition il_remove :: "nat \<Rightarrow> (addr \<Rightarrow> bool) \<Rightarrow> ilist_state \<Rightarrow> (unit, ilist_state) outcome" where
  "il_remove fuel eq s = il_remove_loop fuel eq (il_front s) (root (fst s)) s"

fun il_destroy :: "nat \<Rightarrow> ilist_state \<Rightarrow> (unit, ilist_state) outcome" where
  "il_destroy 0 s = Crash NonTermination"
| "il_destroy (Suc fuel) s = (if il_empty s then Ok () s else bind_o (il_pop_back s) (\<lambda>_. il_destroy fuel))"

section \<open>Rings\<close>

text \<open>\<open>links h a xs b\<close>: walking from \<open>a\<close> along \<open>next_\<close> visits \<open>xs\<close> and arrives at \<open>b\<close>, and \<open>prev_\<close> goes back.\<close>

fun links :: "hooks \<Rightarrow> addr \<Rightarrow> addr list \<Rightarrow> addr \<Rightarrow> bool" where
  "links h a [] b \<longleftrightarrow> next_of h a = b \<and> prev_of h b = a"
| "links h a (x # xs) b \<longleftrightarrow> next_of h a = x \<and> prev_of h x = a \<and> links h x xs b"

definition dll :: "hooks \<Rightarrow> addr \<Rightarrow> addr list \<Rightarrow> bool" where
  "dll h r xs \<longleftrightarrow> links h r xs r \<and> distinct (r # xs)"

lemma links_append: "links h a (xs @ y # ys) b \<longleftrightarrow> links h a xs y \<and> links h y ys b"
  by (induction xs arbitrary: a) auto

lemma links_cong:
  assumes "\<And>u. u \<in> set (a # xs) \<Longrightarrow> next_of h' u = next_of h u"
    and "\<And>u. u \<in> set (xs @ [b]) \<Longrightarrow> prev_of h' u = prev_of h u"
  shows "links h' a xs b = links h a xs b"
  using assms by (induction xs arbitrary: a) auto

lemma links_last: "links h a xs b \<Longrightarrow> prev_of h b = last (a # xs)"
  by (induction xs arbitrary: a) auto

lemma links_first: "links h a xs b \<Longrightarrow> next_of h a = hd (xs @ [b])"
  by (cases xs) auto

lemma set_next_prev_simps [simp]:
  "next_of (set_next a v h) = (next_of h)(a := v)" "prev_of (set_next a v h) = prev_of h"
  "next_of (set_prev a v h) = next_of h" "prev_of (set_prev a v h) = (prev_of h)(a := v)"
  by (simp_all add: set_next_def set_prev_def)

text \<open>Replacing the last edge of a segment.\<close>

lemma links_redirect:
  assumes "links h a xs b" "distinct (a # xs)" "distinct (xs @ [b])" "n \<notin> set (xs @ [b])"
    and "\<And>u. u \<noteq> last (a # xs) \<Longrightarrow> next_of h' u = next_of h u \<or> u \<notin> set (a # xs)"
    and "\<And>u. u \<in> set xs \<Longrightarrow> prev_of h' u = prev_of h u"
    and "next_of h' (last (a # xs)) = n" "prev_of h' n = last (a # xs)"
  shows "links h' a xs n"
proof (cases xs rule: rev_exhaust)
  case Nil
  with assms show ?thesis by simp
next
  case (snoc ys y)
  have "links h a ys y" using assms(1) snoc by (simp add: links_append)
  moreover have "links h' a ys y = links h a ys y"
  proof (rule links_cong)
    fix u assume u: "u \<in> set (a # ys)"
    with assms(2) snoc have "u \<noteq> last (a # xs)" "u \<in> set (a # xs)" by auto
    with assms(5) show "next_of h' u = next_of h u" by blast
  next
    fix u assume "u \<in> set (ys @ [y])"
    with assms(6) snoc show "prev_of h' u = prev_of h u" by simp
  qed
  ultimately show ?thesis using assms(7,8) snoc by (simp add: links_append)
qed

section \<open>Inserting and removing a hook\<close>

definition same_but :: "addr set \<Rightarrow> hooks \<Rightarrow> hooks \<Rightarrow> bool" where
  "same_but A h h' \<longleftrightarrow> (\<forall>u. u \<notin> A \<longrightarrow> next_of h' u = next_of h u \<and> prev_of h' u = prev_of h u)"

lemma dll_frame:
  assumes "dll h r ys" "same_but A h h'" "set (r # ys) \<inter> A = {}"
  shows "dll h' r ys"
proof -
  have "u \<notin> A" if "u \<in> set (r # ys) \<or> u \<in> set (ys @ [r])" for u
    using assms(3) that by auto
  then have "links h' r ys r = links h r ys r"
    using assms(2) by (intro links_cong) (auto simp: same_but_def)
  with assms(1) show ?thesis by (simp add: dll_def)
qed

text \<open>Inserting before \<open>n\<close>, where \<open>n\<close> is the first of \<open>zs @ [r]\<close>: before an element, or before the root.\<close>

lemma hook_insert_dll:
  assumes ring: "dll h r (ys @ zs)" and new: "detached t h" "t \<notin> set (r # ys @ zs)"
    and n: "n = hd (zs @ [r])"
  obtains h' where "hook_insert t n h = Ok () h'" "dll h' r (ys @ t # zs)"
    "same_but (set (t # r # ys @ zs)) h h'"
proof -
  let ?p = "last (r # ys)"
  define h' where "h' = set_prev n t (set_next ?p t (set_prev t ?p (set_next t n h)))"
  have d: "distinct (r # ys @ zs)" and l: "links h r (ys @ zs) r" using ring by (simp_all add: dll_def)
  have ly: "links h r ys n" using l n by (cases zs) (auto simp: links_append)
  have p: "prev_of h n = ?p" by (rule links_last [OF ly])
  have pin: "?p \<in> set (r # ys)" by (rule last_in_set) simp
  have tn: "t \<noteq> n" "t \<noteq> ?p" using new(2) n pin by (cases zs; auto)+
  have hn: "next_of h' u = (if u = ?p then t else if u = t then n else next_of h u)"
    and hp: "prev_of h' u = (if u = n then t else if u = t then ?p else prev_of h u)" for u
    using tn by (auto simp: h'_def)
  have "hook_insert t n h = Ok () h'"
    using new(1) tn p by (simp add: hook_insert_def h'_def Let_def)
  moreover have "links h' r ys t"
  proof (rule links_redirect [OF ly])
    show "distinct (ys @ [n])" using d n by (cases zs) auto
    show "\<And>u. u \<in> set ys \<Longrightarrow> prev_of h' u = prev_of h u"
      using d new(2) n hp by (cases zs) auto
  qed (use d new(2) tn hn hp in \<open>auto split: if_splits\<close>)
  moreover have "links h' t zs r"
  proof (cases zs)
    case Nil
    then show ?thesis using n hn hp tn by simp
  next
    case (Cons z zs')
    have "links h z zs' r" using l Cons by (simp add: links_append)
    moreover have "links h' z zs' r = links h z zs' r"
      using d new(2) n Cons pin by (intro links_cong) (auto simp: hn hp)
    ultimately show ?thesis using Cons n hn hp tn by simp
  qed
  moreover have "same_but (set (t # r # ys @ zs)) h h'"
    using pin n by (cases zs) (auto simp: same_but_def hn hp)
  ultimately show ?thesis
    using that [of h'] d new(2) by (auto simp: dll_def links_append)
qed

lemma hook_remove_dll:
  assumes ring: "dll h r (ys @ t # zs)"
  obtains h' where "hook_remove t h = Ok () h'" "dll h' r (ys @ zs)" "detached t h'"
    "next_of h t = hd (zs @ [r])" "same_but (set (t # r # ys @ zs)) h h'"
proof -
  let ?p = "last (r # ys)" and ?n = "hd (zs @ [r])"
  define h' where "h' = set_prev t t (set_next t t (set_next ?p ?n (set_prev ?n ?p h)))"
  have d: "distinct (r # ys @ t # zs)" and ly: "links h r ys t" and lz: "links h t zs r"
    using ring by (simp_all add: dll_def links_append)
  have p: "prev_of h t = ?p" by (rule links_last [OF ly])
  have n: "next_of h t = ?n" by (rule links_first [OF lz])
  have pin: "?p \<in> set (r # ys)" by (rule last_in_set) simp
  have nin: "?n \<in> set (zs @ [r])" by (cases zs) auto
  have tn: "t \<noteq> ?n" "t \<noteq> ?p" using d pin nin by auto
  have hn: "next_of h' u = (if u = t then t else if u = ?p then ?n else next_of h u)"
    and hp: "prev_of h' u = (if u = t then t else if u = ?n then ?p else prev_of h u)" for u
    by (auto simp: h'_def)
  have "hook_remove t h = Ok () h'"
    using tn p n by (simp add: hook_remove_def detached_def h'_def Let_def)
  moreover have ly': "links h' r ys ?n"
  proof (rule links_redirect [OF ly])
    show "?n \<notin> set (ys @ [t])" using d by (cases zs) auto
    show "\<And>u. u \<in> set ys \<Longrightarrow> prev_of h' u = prev_of h u"
      using d hp by (cases zs) auto
  qed (use d tn hn hp in \<open>auto split: if_splits\<close>)
  moreover have "links h' r (ys @ zs) r"
  proof (cases zs)
    case Nil
    then show ?thesis using ly' by simp
  next
    case (Cons z zs')
    have "links h z zs' r" using lz Cons by simp
    moreover have "links h' z zs' r = links h z zs' r"
      using d Cons pin by (intro links_cong) (auto simp: hn hp)
    ultimately show ?thesis using Cons ly' by (simp add: links_append)
  qed
  moreover have "same_but (set (t # r # ys @ zs)) h h'"
    using pin nin by (auto simp: same_but_def hn hp)
  ultimately show ?thesis
    using that [of h'] d n by (simp add: dll_def detached_def hn)
qed

section \<open>The list object\<close>

definition ilist_rep :: "ilist_state \<Rightarrow> addr list \<Rightarrow> bool" where
  "ilist_rep = (\<lambda>(l, h) xs. dll h (root l) xs \<and> isize l = of_nat (length xs))"

lemma ilist_rep_empty: "ilist_rep s xs \<Longrightarrow> il_empty s \<longleftrightarrow> xs = []"
  by (cases s, cases xs) (auto simp: ilist_rep_def il_empty_def dll_def)

lemma ilist_rep_front: "ilist_rep s (x # xs) \<Longrightarrow> il_front s = x"
  by (cases s) (auto simp: ilist_rep_def il_front_def dll_def)

lemma ilist_rep_back: "ilist_rep s (xs @ [x]) \<Longrightarrow> il_back s = x"
  by (cases s) (auto simp: ilist_rep_def il_back_def dll_def links_append)

lemma ilist_rep_new: "ilist_rep (\<lparr>root = r, isize = 0\<rparr>, hook_new r h) []"
  by (simp add: ilist_rep_def dll_def hook_new_def)

text \<open>The memory an operation on the list \<open>s\<close> with elements \<open>xs\<close> may touch.\<close>

definition footprint :: "ilist_state \<Rightarrow> addr list \<Rightarrow> addr set" where
  "footprint = (\<lambda>(l, h) xs. set (root l # xs))"

lemma il_insert_rep:
  assumes "ilist_rep s (ys @ zs)" "detached t (snd s)" "t \<notin> footprint s (ys @ zs)"
    and "p = hd (zs @ [root (fst s)])"
  obtains s' where "il_insert p t s = Ok t s'" "ilist_rep s' (ys @ t # zs)" "root (fst s') = root (fst s)"
    "same_but (insert t (footprint s (ys @ zs))) (snd s) (snd s')"
proof (cases s)
  case (Pair l h)
  from assms Pair obtain h' where "hook_insert t p h = Ok () h'" "dll h' (root l) (ys @ t # zs)"
    "same_but (set (t # root l # ys @ zs)) h h'"
    by (auto intro: hook_insert_dll [of h "root l" ys zs t p] simp: ilist_rep_def footprint_def)
  with Pair assms that [of "(l\<lparr>isize := isize l + 1\<rparr>, h')"] show ?thesis
    by (simp add: il_insert_def il_grow_def ilist_rep_def footprint_def)
qed

lemma il_push_back_insert:
  "il_push_back t s = bind_o (il_insert (root (fst s)) t s) (\<lambda>_ s'. Ok () s')"
  by (cases s, cases "hook_insert t (root (fst s)) (snd s)") (auto simp: il_push_back_def il_insert_def il_grow_def)

lemma il_push_front_insert:
  "il_push_front t s = bind_o (il_insert (il_front s) t s) (\<lambda>_ s'. Ok () s')"
  by (cases s, cases "hook_insert t (il_front s) (snd s)")
    (auto simp: il_push_front_def il_insert_def il_grow_def il_front_def hook_insert_after_def)

lemma il_push_back_rep:
  assumes "ilist_rep s xs" "detached t (snd s)" "t \<notin> footprint s xs"
  obtains s' where "il_push_back t s = Ok () s'" "ilist_rep s' (xs @ [t])" "root (fst s') = root (fst s)"
    "same_but (insert t (footprint s xs)) (snd s) (snd s')"
  by (rule il_insert_rep [of s xs "[]" t "root (fst s)"])
    (use assms in \<open>auto intro: that simp: il_push_back_insert\<close>)

lemma il_push_front_rep:
  assumes "ilist_rep s xs" "detached t (snd s)" "t \<notin> footprint s xs"
  obtains s' where "il_push_front t s = Ok () s'" "ilist_rep s' (t # xs)" "root (fst s') = root (fst s)"
    "same_but (insert t (footprint s xs)) (snd s) (snd s')"
proof -
  have "il_front s = hd (xs @ [root (fst s)])"
    using assms(1) by (cases s, cases xs) (auto simp: ilist_rep_def il_front_def dll_def)
  from il_insert_rep [of s "[]" xs t, OF _ _ _ this] assms
  obtain s' where "il_insert (il_front s) t s = Ok t s'" "ilist_rep s' (t # xs)"
    "root (fst s') = root (fst s)" "same_but (insert t (footprint s xs)) (snd s) (snd s')"
    unfolding append_Nil by blast
  with that show ?thesis by (simp add: il_push_front_insert)
qed

lemma il_erase_rep:
  assumes "ilist_rep s (ys @ t # zs)"
  obtains s' where "il_erase t s = Ok (hd (zs @ [root (fst s)])) s'" "ilist_rep s' (ys @ zs)"
    "root (fst s') = root (fst s)" "detached t (snd s')"
    "same_but (footprint s (ys @ t # zs)) (snd s) (snd s')"
proof (cases s)
  case (Pair l h)
  from assms Pair obtain h' where h': "hook_remove t h = Ok () h'" "dll h' (root l) (ys @ zs)" "detached t h'"
    "next_of h t = hd (zs @ [root l])" "same_but (set (t # root l # ys @ zs)) h h'"
    by (auto intro: hook_remove_dll [of h "root l" ys t zs] simp: ilist_rep_def)
  moreover have "set (t # root l # ys @ zs) = set (root l # ys @ t # zs)" by auto
  ultimately show ?thesis
    using Pair assms that [of "(l\<lparr>isize := isize l - 1\<rparr>, h')"]
    by (simp add: il_erase_def il_shrink_def ilist_rep_def footprint_def)
qed

lemma il_pop_erase:
  "il_pop_front s = bind_o (il_erase (il_front s) s) (\<lambda>_ s'. Ok () s')"
  "il_pop_back s = bind_o (il_erase (il_back s) s) (\<lambda>_ s'. Ok () s')"
  by (cases s, cases "hook_remove (il_front s) (snd s)";
      auto simp: il_pop_front_def il_erase_def il_shrink_def)
    (cases s, cases "hook_remove (il_back s) (snd s)";
      auto simp: il_pop_back_def il_erase_def il_shrink_def)

lemma il_pop_front_rep:
  assumes "ilist_rep s (x # xs)"
  obtains s' where "il_pop_front s = Ok () s'" "ilist_rep s' xs" "root (fst s') = root (fst s)"
    "detached x (snd s')" "same_but (footprint s (x # xs)) (snd s) (snd s')"
  by (rule il_erase_rep [of s "[]" x xs])
    (use assms in \<open>auto intro: that simp: il_pop_erase ilist_rep_front\<close>)

lemma il_pop_back_rep:
  assumes "ilist_rep s (xs @ [x])"
  obtains s' where "il_pop_back s = Ok () s'" "ilist_rep s' xs" "root (fst s') = root (fst s)"
    "detached x (snd s')" "same_but (footprint s (xs @ [x])) (snd s) (snd s')"
  by (rule il_erase_rep [of s xs x "[]"])
    (use assms in \<open>auto intro: that simp: il_pop_erase ilist_rep_back\<close>)

section \<open>The loops\<close>

lemma il_erase_range_rep:
  assumes "ilist_rep s (ys @ zs @ ws)" "length zs < fuel"
    and "f = hd (zs @ ws @ [root (fst s)])" "e = hd (ws @ [root (fst s)])"
  shows "\<exists>s'. il_erase_range fuel f e s = Ok e s' \<and> ilist_rep s' (ys @ ws) \<and> root (fst s') = root (fst s)"
  using assms
proof (induction zs arbitrary: s f fuel)
  case Nil
  then show ?case by (cases fuel) auto
next
  case (Cons z zs)
  from Cons.prems(2) obtain fuel' where fuel: "fuel = Suc fuel'" by (cases fuel) auto
  have f: "f = z" using Cons.prems(3) by simp
  have "distinct (root (fst s) # ys @ z # zs @ ws)"
    using Cons.prems(1) by (cases s) (auto simp: ilist_rep_def dll_def)
  then have ne: "f \<noteq> e" using f Cons.prems(4) by (cases ws) auto
  have "ilist_rep s (ys @ z # zs @ ws)" using Cons.prems(1) by simp
  from il_erase_rep [OF this]
  obtain s1 where s1: "il_erase z s = Ok (hd ((zs @ ws) @ [root (fst s)])) s1" "ilist_rep s1 (ys @ zs @ ws)"
    "root (fst s1) = root (fst s)" by blast
  have "\<exists>s'. il_erase_range fuel' (hd ((zs @ ws) @ [root (fst s)])) e s1 = Ok e s'
    \<and> ilist_rep s' (ys @ ws) \<and> root (fst s') = root (fst s1)"
    using Cons.prems fuel s1 by (intro Cons.IH) auto
  with s1 fuel f ne show ?case by simp
qed

lemma il_remove_loop_rep:
  assumes "ilist_rep s (ys @ zs)" "length zs < fuel" "it = hd (zs @ [root (fst s)])"
  shows "\<exists>s'. il_remove_loop fuel eq it (root (fst s)) s = Ok () s'
    \<and> ilist_rep s' (ys @ filter (\<lambda>x. \<not> eq x) zs) \<and> root (fst s') = root (fst s)"
  using assms
proof (induction zs arbitrary: s it fuel ys)
  case Nil
  then show ?case by (cases fuel) auto
next
  case (Cons z zs)
  from Cons.prems(2) obtain fuel' where fuel: "fuel = Suc fuel'" "length zs < fuel'" by (cases fuel) auto
  have it: "it = z" using Cons.prems(3) by simp
  have ne: "z \<noteq> root (fst s)" using Cons.prems(1) by (cases s) (auto simp: ilist_rep_def dll_def)
  show ?case
  proof (cases "eq z")
    case True
    from il_erase_rep [OF Cons.prems(1)]
    obtain s1 where s1: "il_erase z s = Ok (hd (zs @ [root (fst s)])) s1" "ilist_rep s1 (ys @ zs)"
      "root (fst s1) = root (fst s)" by blast
    with Cons.IH [OF s1(2) fuel(2), of "hd (zs @ [root (fst s)])"] it ne True fuel show ?thesis by simp
  next
    case False
    have "next_of (snd s) z = hd (zs @ [root (fst s)])"
      using Cons.prems(1) links_first [of "snd s" z zs "root (fst s)"]
      by (cases s) (auto simp: ilist_rep_def dll_def links_append)
    with Cons.IH [of s "ys @ [z]" fuel' "hd (zs @ [root (fst s)])"] Cons.prems(1) it ne False fuel
    show ?thesis by simp
  qed
qed

lemma il_destroy_rep:
  assumes "ilist_rep s xs" "length xs < fuel"
  shows "\<exists>s'. il_destroy fuel s = Ok () s' \<and> ilist_rep s' [] \<and> root (fst s') = root (fst s)
    \<and> (\<forall>x \<in> set xs. detached x (snd s')) \<and> same_but (footprint s xs) (snd s) (snd s')"
  using assms
proof (induction xs arbitrary: s fuel rule: rev_induct)
  case Nil
  then show ?case by (cases fuel) (auto simp: ilist_rep_empty same_but_def)
next
  case (snoc x xs)
  from snoc.prems(2) obtain fuel' where fuel: "fuel = Suc fuel'" "length xs < fuel'" by (cases fuel) auto
  from il_pop_back_rep [OF snoc.prems(1)]
  obtain s1 where s1: "il_pop_back s = Ok () s1" "ilist_rep s1 xs" "root (fst s1) = root (fst s)"
    "detached x (snd s1)" "same_but (footprint s (xs @ [x])) (snd s) (snd s1)" by blast
  have fp: "x \<notin> footprint s1 xs" "footprint s1 xs \<subseteq> footprint s (xs @ [x])"
    using snoc.prems(1) s1(3) by (cases s; cases s1; auto simp: ilist_rep_def dll_def footprint_def)+
  obtain s2 where s2: "il_destroy fuel' s1 = Ok () s2" "ilist_rep s2 []" "root (fst s2) = root (fst s1)"
    "\<forall>x \<in> set xs. detached x (snd s2)" "same_but (footprint s1 xs) (snd s1) (snd s2)"
    using snoc.IH [OF s1(2) fuel(2)] by blast
  have "detached x (snd s2)" using s2(5) s1(4) fp(1) by (simp add: detached_def same_but_def)
  moreover have "same_but (footprint s (xs @ [x])) (snd s) (snd s2)"
    using s1(5) s2(5) fp(2) by (auto simp: same_but_def)
  ultimately show ?case
    using s1 s2 fuel ilist_rep_empty [OF snoc.prems(1)] by auto
qed

section \<open>Several lists over one heap\<close>

text \<open>
  The interface the managers rely on: lists over shared hooks, where an operation on one list
  leaves the others alone.  \<open>fp l xs\<close> is the memory of a list with elements \<open>xs\<close>.
\<close>

locale hook_lists =
  fixes rep :: "'l \<Rightarrow> 'h \<Rightarrow> addr list \<Rightarrow> bool"
    and fp :: "'l \<Rightarrow> addr list \<Rightarrow> addr set"
    and loose :: "addr \<Rightarrow> 'h \<Rightarrow> bool"
    and first :: "'l \<times> 'h \<Rightarrow> addr"
    and pop_first :: "'l \<times> 'h \<Rightarrow> (unit, 'l \<times> 'h) outcome"
    and push_last :: "addr \<Rightarrow> 'l \<times> 'h \<Rightarrow> (unit, 'l \<times> 'h) outcome"
  assumes fp_set: "fp l xs = fp l [] \<union> set xs"
    and rep_distinct: "rep l h xs \<Longrightarrow> distinct xs \<and> fp l [] \<inter> set xs = {}"
    and first: "rep l h (x # xs) \<Longrightarrow> first (l, h) = x"
    and pop_first: "rep l h (x # xs) \<Longrightarrow>
      \<exists>l' h'. pop_first (l, h) = Ok () (l', h') \<and> rep l' h' xs \<and> loose x h' \<and> fp l' [] = fp l []
        \<and> (\<forall>k ys. rep k h ys \<and> fp k ys \<inter> fp l (x # xs) = {} \<longrightarrow> rep k h' ys)"
    and push_last: "rep l h xs \<Longrightarrow> loose x h \<Longrightarrow> x \<notin> fp l xs \<Longrightarrow>
      \<exists>l' h'. push_last x (l, h) = Ok () (l', h') \<and> rep l' h' (xs @ [x]) \<and> fp l' [] = fp l []
        \<and> (\<forall>k ys. rep k h ys \<and> fp k ys \<inter> insert x (fp l xs) = {} \<longrightarrow> rep k h' ys)"
begin

definition move_first :: "'l \<Rightarrow> 'l \<Rightarrow> 'h \<Rightarrow> (addr \<times> 'l \<times> 'l, 'h) outcome" where
  "move_first a b h =
     (let x = first (a, h) in
      case pop_first (a, h) of
        Ok _ s \<Rightarrow> (case push_last x (b, snd s) of
                     Ok _ t \<Rightarrow> Ok (x, fst s, fst t) (snd t)
                   | Throw e t \<Rightarrow> Throw e (snd t) | Crash c \<Rightarrow> Crash c)
      | Throw e s \<Rightarrow> Throw e (snd s) | Crash c \<Rightarrow> Crash c)"

lemma move_first_rep:
  assumes a: "rep a h (x # xs)" and b: "rep b h ys" and k: "rep k h zs"
    and ab: "fp a (x # xs) \<inter> fp b ys = {}" and kd: "fp k zs \<inter> (fp a (x # xs) \<union> fp b ys) = {}"
  shows "\<exists>a' b' h'. move_first a b h = Ok (x, a', b') h' \<and> rep a' h' xs \<and> rep b' h' (ys @ [x]) \<and> rep k h' zs"
proof -
  obtain a' h1 where p: "pop_first (a, h) = Ok () (a', h1)" "rep a' h1 xs" "loose x h1" "fp a' [] = fp a []"
    and keep: "\<And>k ys. rep k h ys \<Longrightarrow> fp k ys \<inter> fp a (x # xs) = {} \<Longrightarrow> rep k h1 ys"
    using pop_first [OF a] by blast
  have b1: "rep b h1 ys" using keep b ab by (simp add: Int_commute)
  have k1: "rep k h1 zs" using keep k kd by blast
  have xa: "x \<in> fp a (x # xs)" using fp_set [of a "x # xs"] by simp
  then have "x \<notin> fp b ys" using ab by blast
  from push_last [OF b1 p(3) this] obtain b' h2 where
    q: "push_last x (b, h1) = Ok () (b', h2)" "rep b' h2 (ys @ [x])"
    and keep2: "\<And>k zs. rep k h1 zs \<Longrightarrow> fp k zs \<inter> insert x (fp b ys) = {} \<Longrightarrow> rep k h2 zs"
    by blast
  have "x \<notin> fp a' xs"
    using rep_distinct [OF a] p(4) fp_set [of a' xs] by auto
  moreover have "fp a' xs \<inter> fp b ys = {}"
    using ab p(4) fp_set [of a' xs] fp_set [of a "x # xs"] by auto
  ultimately have "rep a' h2 xs" using keep2 [OF p(2)] by blast
  moreover have "rep k h2 zs" using keep2 [OF k1] kd xa by blast
  ultimately show ?thesis
    using p q first [OF a] by (simp add: move_first_def)
qed

end

definition irep :: "ilist \<Rightarrow> hooks \<Rightarrow> addr list \<Rightarrow> bool" where
  "irep l h xs \<longleftrightarrow> ilist_rep (l, h) xs"

definition ifp :: "ilist \<Rightarrow> addr list \<Rightarrow> addr set" where
  "ifp l xs = set (root l # xs)"

lemma irep_frame:
  "irep k h ys \<Longrightarrow> same_but A h h' \<Longrightarrow> ifp k ys \<inter> A = {} \<Longrightarrow> irep k h' ys"
  using dll_frame [of h "root k" ys A h'] by (simp add: irep_def ilist_rep_def ifp_def)

interpretation il: hook_lists irep ifp detached il_front il_pop_front il_push_back
proof unfold_locales
  show "ifp l xs = ifp l [] \<union> set xs" for l xs by (simp add: ifp_def)
  show "irep l h xs \<Longrightarrow> distinct xs \<and> ifp l [] \<inter> set xs = {}" for l h xs
    by (auto simp: irep_def ilist_rep_def dll_def ifp_def)
  show "irep l h (x # xs) \<Longrightarrow> il_front (l, h) = x" for l h x xs
    by (simp add: irep_def ilist_rep_front)
  show "\<exists>l' h'. il_pop_front (l, h) = Ok () (l', h') \<and> irep l' h' xs \<and> detached x h' \<and> ifp l' [] = ifp l []
      \<and> (\<forall>k ys. irep k h ys \<and> ifp k ys \<inter> ifp l (x # xs) = {} \<longrightarrow> irep k h' ys)"
    if "irep l h (x # xs)" for l h x xs
  proof -
    from il_pop_front_rep [of "(l, h)" x xs] that obtain s' where
      "il_pop_front (l, h) = Ok () s'" "ilist_rep s' xs" "root (fst s') = root l"
      "detached x (snd s')" "same_but (ifp l (x # xs)) h (snd s')"
      unfolding irep_def footprint_def ifp_def case_prod_conv fst_conv snd_conv by blast
    then show ?thesis
      using irep_frame [of _ h _ "ifp l (x # xs)" "snd s'"]
      by (intro exI [of _ "fst s'"] exI [of _ "snd s'"]) (auto simp: irep_def ifp_def)
  qed
  show "\<exists>l' h'. il_push_back x (l, h) = Ok () (l', h') \<and> irep l' h' (xs @ [x]) \<and> ifp l' [] = ifp l []
      \<and> (\<forall>k ys. irep k h ys \<and> ifp k ys \<inter> insert x (ifp l xs) = {} \<longrightarrow> irep k h' ys)"
    if "irep l h xs" "detached x h" "x \<notin> ifp l xs" for l h x xs
  proof -
    from il_push_back_rep [of "(l, h)" xs x] that obtain s' where
      "il_push_back x (l, h) = Ok () s'" "ilist_rep s' (xs @ [x])" "root (fst s') = root l"
      "same_but (insert x (ifp l xs)) h (snd s')"
      unfolding irep_def footprint_def ifp_def case_prod_conv fst_conv snd_conv by blast
    then show ?thesis
      using irep_frame [of _ h _ "insert x (ifp l xs)" "snd s'"]
      by (intro exI [of _ "fst s'"] exI [of _ "snd s'"]) (auto simp: irep_def ifp_def)
  qed
qed

section \<open>Properties\<close>

text \<open>
  Inserting a detached element before an iterator (an element of the list, or \<open>end()\<close>)
  puts it there, counts it, and leaves every other list over the same hooks as it was.
\<close>

theorem insert_refines:
  assumes "ilist_rep (l, h) (ys @ zs)" and "detached t h" and "t \<notin> set (root l # ys @ zs)"
    and "p = hd (zs @ [root l])"
    and "ilist_rep (k, h) ws" and "set (root k # ws) \<inter> set (t # root l # ys @ zs) = {}"
  shows "\<exists>l' h'. il_insert p t (l, h) = Ok t (l', h') \<and> root l' = root l
    \<and> ilist_rep (l', h') (ys @ t # zs) \<and> ilist_rep (k, h') ws"
proof -
  obtain s' where s': "il_insert p t (l, h) = Ok t s'" "ilist_rep s' (ys @ t # zs)" "root (fst s') = root l"
    "same_but (insert t (footprint (l, h) (ys @ zs))) h (snd s')"
    using il_insert_rep [of "(l, h)" ys zs t p] assms by (auto simp: footprint_def)
  have "irep k (snd s') ws"
    by (rule irep_frame [of k h ws]) (use assms s' in \<open>auto simp: irep_def ifp_def footprint_def\<close>)
  with s' show ?thesis by (intro exI [of _ "fst s'"] exI [of _ "snd s'"]) (simp add: irep_def)
qed

definition ring0 :: hooks where
  "ring0 = \<lparr>next_of = id, prev_of = id\<rparr>"

lemma ring0_facts:
  "ilist_rep (\<lparr>root = r, isize = 0\<rparr>, ring0) []" "detached a ring0"
  by (simp_all add: ilist_rep_def dll_def ring0_def detached_def)

theorem insert_refines_witness:
  "\<exists>l' h'. il_insert 0 5 (\<lparr>root = 0, isize = 0\<rparr>, ring0) = Ok 5 (l', h')
    \<and> ilist_rep (l', h') [5] \<and> ilist_rep (\<lparr>root = 1, isize = 0\<rparr>, h') []"
  using insert_refines [of "\<lparr>root = 0, isize = 0\<rparr>" ring0 "[]" "[]" 5 0 "\<lparr>root = 1, isize = 0\<rparr>" "[]"] ring0_facts
  by auto

text \<open>
  erasing an element returns the iterator after it, leaves the other elements in order,
  detaches the element, and leaves every other list over the same hooks as it was.
\<close>

theorem erase_refines:
  assumes "ilist_rep (l, h) (ys @ t # zs)"
    and "ilist_rep (k, h) ws" and "set (root k # ws) \<inter> set (root l # ys @ t # zs) = {}"
  shows "\<exists>l' h'. il_erase t (l, h) = Ok (hd (zs @ [root l])) (l', h') \<and> root l' = root l
    \<and> ilist_rep (l', h') (ys @ zs) \<and> detached t h' \<and> ilist_rep (k, h') ws"
proof -
  obtain s' where s': "il_erase t (l, h) = Ok (hd (zs @ [root l])) s'" "ilist_rep s' (ys @ zs)"
    "root (fst s') = root l" "detached t (snd s')" "same_but (footprint (l, h) (ys @ t # zs)) h (snd s')"
    using il_erase_rep [OF assms(1)] by (metis fst_conv snd_conv)
  have "irep k (snd s') ws"
    by (rule irep_frame [of k h ws]) (use assms s' in \<open>auto simp: irep_def ifp_def footprint_def\<close>)
  with s' show ?thesis by (intro exI [of _ "fst s'"] exI [of _ "snd s'"]) (simp add: irep_def)
qed

definition ring1 :: hooks where
  "ring1 = \<lparr>next_of = id(0 := 5, 5 := 6, 6 := 0), prev_of = id(0 := 6, 6 := 5, 5 := 0)\<rparr>"

lemma ring1_facts:
  "ilist_rep (\<lparr>root = 0, isize = 2\<rparr>, ring1) [5, 6]" "ilist_rep (\<lparr>root = 1, isize = 0\<rparr>, ring1) []"
  by (simp_all add: ilist_rep_def dll_def ring1_def)

theorem erase_refines_witness:
  "\<exists>l' h'. il_erase 5 (\<lparr>root = 0, isize = 2\<rparr>, ring1) = Ok 6 (l', h') \<and> ilist_rep (l', h') [6] \<and> detached 5 h'"
  using erase_refines [of "\<lparr>root = 0, isize = 2\<rparr>" ring1 "[]" 5 "[6]" "\<lparr>root = 1, isize = 0\<rparr>" "[]"] ring1_facts
  by auto

text \<open>
  C23: removal by value visits each element once, ends within size + 1 iterations, and keeps
  exactly the elements that are not equal to the argument, in order.
\<close>

theorem remove_refines:
  assumes "ilist_rep s xs" and "length xs < fuel"
  shows "\<exists>s'. il_remove fuel eq s = Ok () s' \<and> ilist_rep s' (filter (\<lambda>x. \<not> eq x) xs)"
proof -
  have "il_front s = hd (xs @ [root (fst s)])"
    using assms(1) by (cases s, cases xs) (auto simp: ilist_rep_def il_front_def dll_def)
  then show ?thesis
    using il_remove_loop_rep [of s "[]" xs fuel "il_front s" eq] assms by (auto simp: il_remove_def)
qed

theorem remove_refines_witness:
  "\<exists>s'. il_remove 3 (\<lambda>x. x = 5) (\<lparr>root = 0, isize = 2\<rparr>, ring1) = Ok () s' \<and> ilist_rep s' [6]"
  using remove_refines [OF ring1_facts(1), of 3 "\<lambda>x. x = 5"] by simp

text \<open>
  moving the front of one list to the back of another (what the managers do to take an
  object from its pool) changes those two lists accordingly and no third list over the same
  hooks.
\<close>

theorem move_front_refines:
  assumes "irep a h (x # xs)" and "irep b h ys" and "irep k h zs"
    and "ifp a (x # xs) \<inter> ifp b ys = {}" and "ifp k zs \<inter> (ifp a (x # xs) \<union> ifp b ys) = {}"
  shows "\<exists>a' b' h'. il.move_first a b h = Ok (x, a', b') h'
    \<and> irep a' h' xs \<and> irep b' h' (ys @ [x]) \<and> irep k h' zs"
  by (rule il.move_first_rep [OF assms])

theorem move_front_refines_witness:
  "\<exists>a' b' h'. il.move_first \<lparr>root = 0, isize = 2\<rparr> \<lparr>root = 1, isize = 0\<rparr> ring1 = Ok (5, a', b') h'
    \<and> irep a' h' [6] \<and> irep b' h' [5]"
proof -
  have "ilist_rep (\<lparr>root = 2, isize = 0\<rparr>, ring1) []" by (simp add: ilist_rep_def dll_def ring1_def)
  then show ?thesis
    using move_front_refines [of "\<lparr>root = 0, isize = 2\<rparr>" ring1 5 "[6]" "\<lparr>root = 1, isize = 0\<rparr>" "[]"
        "\<lparr>root = 2, isize = 0\<rparr>" "[]"] ring1_facts
    by (auto simp: irep_def ifp_def)
qed

end
