(* ===== verification/Crc32c.thy ===== *)
theory Crc32c
  imports MCSB_Prelude
begin

unbundle bit_operations_syntax

text \<open>
  CRC-32C (src/crc32c.cc): the table-driven routine and the one that uses the SSE4.2 \<open>CRC32\<close>
  instructions.  The two instructions are inline assembly: they are the parameters \<open>sse8\<close> and
  \<open>sse32\<close>, with the behaviour the processor manual documents as the locale \<open>crc_instructions\<close>.

  A buffer is its address (only its alignment matters) and its bytes; reading past its end is
  \<open>OutOfBounds\<close>.  \<open>size_t\<close> has 64 bits.  The lemmas show that the table routine computes the
  bitwise definition, that the accelerated one agrees with it on buffers that reach an aligned
  address, and that it runs off the end of shorter unaligned buffers.
\<close>

section \<open>Model\<close>

definition kPolynomialCRC32C :: u32 where "kPolynomialCRC32C = 0x82F63B78"

definition crc_bit :: "u32 \<Rightarrow> u32 \<Rightarrow> u32" where
  "crc_bit poly crc = (if bit crc 0 then poly XOR drop_bit 1 crc else drop_bit 1 crc)"

definition table_entry :: "u32 \<Rightarrow> nat \<Rightarrow> u32" where
  "table_entry poly i = (crc_bit poly ^^ 8) (of_nat i)"

definition initialize_crc_table :: "u32 \<Rightarrow> u32 list" where
  "initialize_crc_table poly = map (table_entry poly) [0..<256]"

record crc_globals =
  crc32c_table :: "u32 list"
  isAccelerated :: bool

definition crc_globals_init :: crc_globals where
  "crc_globals_init = \<lparr>crc32c_table = 1 # replicate 255 0, isAccelerated = False\<rparr>"

fun table_loop :: "u32 list \<Rightarrow> u32 \<Rightarrow> u8 list \<Rightarrow> u32" where
  "table_loop tab crc [] = crc"
| "table_loop tab crc (b # bs) =
     table_loop tab (tab ! unat ((crc XOR ucast b) AND 0xff) XOR drop_bit 8 crc) bs"

text \<open>\<open>update_crc32c_sse42\<close>: three loops over the address, the remaining bytes and \<open>len\<close>.\<close>

type_synonym crc_result = "u32 + fault"

fun align_loop ::
  "(u32 \<Rightarrow> u8 \<Rightarrow> u32) \<Rightarrow> u32 \<Rightarrow> nat \<Rightarrow> u8 list \<Rightarrow> u64 \<Rightarrow> (u32 \<times> u8 list \<times> u64) + fault" where
  "align_loop sse8 crc a bs len =
     (if a mod 4 = 0 then Inl (crc, bs, len)
      else if len = 0 then Inl (crc, bs, len - 1)
      else case bs of [] \<Rightarrow> Inr OutOfBounds
           | b # bs' \<Rightarrow> align_loop sse8 (sse8 crc b) (a + 1) bs' (len - 1))"

declare align_loop.simps [simp del]

fun word_loop ::
  "(u32 \<Rightarrow> u32 \<Rightarrow> u32) \<Rightarrow> u32 \<Rightarrow> u8 list \<Rightarrow> u64 \<Rightarrow> (u32 \<times> u8 list \<times> u64) + fault" where
  "word_loop sse32 crc (b0 # b1 # b2 # b3 # bs) len =
     (if len \<ge> 4 then word_loop sse32 (sse32 crc (le_word b0 b1 b2 b3)) bs (len - 4)
      else Inl (crc, b0 # b1 # b2 # b3 # bs, len))"
| "word_loop sse32 crc bs len = (if len \<ge> 4 then Inr OutOfBounds else Inl (crc, bs, len))"

fun byte_loop :: "(u32 \<Rightarrow> u8 \<Rightarrow> u32) \<Rightarrow> u32 \<Rightarrow> u8 list \<Rightarrow> u64 \<Rightarrow> crc_result" where
  "byte_loop sse8 crc [] len = (if len = 0 then Inl crc else Inr OutOfBounds)"
| "byte_loop sse8 crc (b # bs) len = (if len = 0 then Inl crc else byte_loop sse8 (sse8 crc b) bs (len - 1))"

definition update_crc32c_sse42 ::
  "(u32 \<Rightarrow> u8 \<Rightarrow> u32) \<Rightarrow> (u32 \<Rightarrow> u32 \<Rightarrow> u32) \<Rightarrow> u32 \<Rightarrow> nat \<Rightarrow> u8 list \<Rightarrow> u64 \<Rightarrow> crc_result" where
  "update_crc32c_sse42 sse8 sse32 crc a bs len =
     (case align_loop sse8 crc a bs len of
        Inr f \<Rightarrow> Inr f
      | Inl (crc, bs, len) \<Rightarrow>
          (case word_loop sse32 crc bs len of
             Inr f \<Rightarrow> Inr f
           | Inl (crc, bs, len) \<Rightarrow> byte_loop sse8 crc bs len))"

text \<open>\<open>has_sse42\<close> is the bit 20 of ECX that the \<open>CPUID\<close> instruction reports.\<close>

definition crc32c_is_accelerated :: "bool \<Rightarrow> bool \<Rightarrow> crc_globals \<Rightarrow> bool \<times> crc_globals" where
  "crc32c_is_accelerated has_sse42 useAccelerated g =
     (let g1 = (if crc32c_table g ! 0 \<noteq> 0 then g\<lparr>crc32c_table := initialize_crc_table kPolynomialCRC32C\<rparr> else g);
          acc = (useAccelerated \<and> has_sse42)
      in (acc, g1\<lparr>isAccelerated := acc\<rparr>))"

definition update_crc32c ::
  "bool \<Rightarrow> (u32 \<Rightarrow> u8 \<Rightarrow> u32) \<Rightarrow> (u32 \<Rightarrow> u32 \<Rightarrow> u32) \<Rightarrow> u32 \<Rightarrow> nat \<Rightarrow> u8 list \<Rightarrow> crc_globals
     \<Rightarrow> crc_result \<times> crc_globals" where
  "update_crc32c has_sse42 sse8 sse32 crc a bs g =
     (let len = of_nat (length bs) in
      if isAccelerated g then (update_crc32c_sse42 sse8 sse32 crc a bs len, g)
      else let (acc, g') = (if crc32c_table g ! 0 \<noteq> 0 then crc32c_is_accelerated has_sse42 True g else (False, g))
           in if acc then (update_crc32c_sse42 sse8 sse32 crc a bs len, g')
              else (Inl (table_loop (crc32c_table g') crc bs), g'))"

definition crc32c ::
  "bool \<Rightarrow> (u32 \<Rightarrow> u8 \<Rightarrow> u32) \<Rightarrow> (u32 \<Rightarrow> u32 \<Rightarrow> u32) \<Rightarrow> nat \<Rightarrow> u8 list \<Rightarrow> crc_globals
     \<Rightarrow> crc_result \<times> crc_globals" where
  "crc32c has_sse42 sse8 sse32 a bs g =
     (case update_crc32c has_sse42 sse8 sse32 0xffffffff a bs g of
        (Inl crc, g') \<Rightarrow> (Inl (crc XOR 0xffffffff), g')
      | (Inr f, g') \<Rightarrow> (Inr f, g'))"

section \<open>The bitwise definition\<close>

text \<open>The reference: each byte is added to the low bits, then eight polynomial steps.\<close>

definition crc_byte :: "u32 \<Rightarrow> u32 \<Rightarrow> u8 \<Rightarrow> u32" where
  "crc_byte poly crc b = (crc_bit poly ^^ 8) (crc XOR ucast b)"

definition crc_bytes :: "u32 \<Rightarrow> u32 \<Rightarrow> u8 list \<Rightarrow> u32" where
  "crc_bytes poly crc bs = foldl (crc_byte poly) crc bs"

lemma funpow_8: "(f ^^ 8) x = f (f (f (f (f (f (f (f x)))))))"
  by (simp add: numeral_eq_Suc)

lemma crc_bit_xor: "crc_bit poly (x XOR y) = crc_bit poly x XOR crc_bit poly y"
  by (auto simp: crc_bit_def bit_xor_iff drop_bit_xor ac_simps)

lemma crc_bits_xor: "(crc_bit poly ^^ k) (x XOR y) = (crc_bit poly ^^ k) x XOR (crc_bit poly ^^ k) y"
  by (induction k) (simp_all add: crc_bit_xor)

lemma crc_bits_shift:
  assumes "\<forall>i < k. \<not> bit x i"
  shows "(crc_bit poly ^^ k) x = drop_bit k x"
  using assms
proof (induction k)
  case (Suc k)
  then have "(crc_bit poly ^^ Suc k) x = crc_bit poly (drop_bit k x)" by simp
  also have "\<dots> = drop_bit 1 (drop_bit k x)"
    using Suc.prems by (simp add: crc_bit_def bit_drop_bit_eq)
  finally show ?case by (simp add: drop_bit_drop_bit)
qed simp

lemma low_high: "(x :: u32) = (x AND mask k) XOR (x AND NOT (mask k))"
  by (rule bit_eqI) (auto simp: bit_and_iff bit_xor_iff bit_not_iff bit_mask_iff)

lemma crc_bits_split:
  "(crc_bit poly ^^ k) x = (crc_bit poly ^^ k) (x AND mask k) XOR drop_bit k x"
proof -
  have "(crc_bit poly ^^ k) (x AND NOT (mask k)) = drop_bit k (x AND NOT (mask k))"
    by (rule crc_bits_shift) (simp add: bit_and_iff bit_not_iff bit_mask_iff)
  also have "\<dots> = drop_bit k x"
    by (rule bit_eqI) (auto simp: bit_drop_bit_eq bit_and_iff bit_not_iff bit_mask_iff dest: bit_imp_le_length)
  finally show ?thesis
    using low_high [of x k] crc_bits_xor [of k poly "x AND mask k" "x AND NOT (mask k)"] by simp
qed

lemma mask_8: "(mask 8 :: u32) = 0xff"
  by (simp add: mask_eq_exp_minus_1)

lemma table_entry_low: "table_entry poly (unat ((x :: u32) AND 0xff)) = (crc_bit poly ^^ 8) (x AND mask 8)"
  by (simp add: table_entry_def mask_8)

lemma unat_and_ff: "unat ((x :: u32) AND 0xff) < 256"
proof -
  have "x AND mask 8 \<le> mask 8" by (simp add: word_and_le1)
  then have "unat (x AND mask 8) \<le> unat (mask 8 :: u32)" by (simp add: word_le_nat_alt)
  then show ?thesis by (simp add: mask_8)
qed

text \<open>One step of the table routine is one byte of the bitwise definition.\<close>

lemma table_step:
  "initialize_crc_table poly ! unat ((crc XOR ucast (b :: u8)) AND 0xff) XOR drop_bit 8 crc = crc_byte poly crc b"
proof -
  have "drop_bit 8 (ucast b :: u32) = 0"
    by (rule bit_eqI) (auto simp: bit_drop_bit_eq bit_simps dest: bit_imp_le_length)
  then have "drop_bit 8 (crc XOR ucast b) = drop_bit 8 crc"
    by (simp add: drop_bit_xor)
  then show ?thesis
    using crc_bits_split [of 8 poly "crc XOR ucast b"] unat_and_ff [of "crc XOR ucast b"]
    by (simp add: initialize_crc_table_def table_entry_low crc_byte_def)
qed

lemma table_loop_eq: "table_loop (initialize_crc_table poly) crc bs = crc_bytes poly crc bs"
  by (induction bs arbitrary: crc) (simp_all add: table_step crc_bytes_def)

section \<open>The instructions\<close>

lemma le_word_xor:
  "le_word b0 b1 b2 b3 = ucast b0 XOR push_bit 8 (ucast b1) XOR push_bit 16 (ucast b2) XOR push_bit 24 (ucast b3)"
  unfolding le_word_def
  by (rule bit_eqI) (auto simp: bit_or_iff bit_xor_iff bit_push_bit_iff bit_ucast_u8)

lemma crc_bits_push:
  assumes "k \<le> 24"
  shows "(crc_bit poly ^^ (n + k)) (push_bit k (ucast (b :: u8))) = (crc_bit poly ^^ n) (ucast b)"
proof -
  have "(crc_bit poly ^^ k) (push_bit k (ucast b)) = drop_bit k (push_bit k (ucast b))"
    by (rule crc_bits_shift) (simp add: bit_push_bit_iff)
  also have "\<dots> = ucast b"
    using assms by (intro bit_eqI) (auto simp: bit_drop_bit_eq bit_push_bit_iff bit_ucast_u8)
  finally show ?thesis by (simp add: funpow_add)
qed

text \<open>32 steps on a little-endian word are the four bytes in memory order.\<close>

lemma crc_word:
  "(crc_bit poly ^^ 32) (crc XOR le_word b0 b1 b2 b3) = crc_bytes poly crc [b0, b1, b2, b3]"
proof -
  let ?s = "\<lambda>k x. (crc_bit poly ^^ k) x"
  have "?s 32 (push_bit 8 (ucast b1)) = ?s 24 (ucast b1)" "?s 32 (push_bit 16 (ucast b2)) = ?s 16 (ucast b2)"
    "?s 32 (push_bit 24 (ucast b3)) = ?s 8 (ucast b3)"
    using crc_bits_push [of 8 24 poly b1] crc_bits_push [of 16 16 poly b2] crc_bits_push [of 24 8 poly b3]
    by simp_all
  then have "?s 32 (crc XOR le_word b0 b1 b2 b3)
    = ?s 32 (crc XOR ucast b0) XOR ?s 24 (ucast b1) XOR ?s 16 (ucast b2) XOR ?s 8 (ucast b3)"
    by (simp add: le_word_xor crc_bits_xor ac_simps)
  moreover have "?s 8 (?s 8 x) = ?s 16 x" "?s 8 (?s 16 x) = ?s 24 x" "?s 8 (?s 24 x) = ?s 32 x" for x
    using funpow_add [of 8 8 "crc_bit poly"] funpow_add [of 8 16 "crc_bit poly"] funpow_add [of 8 24 "crc_bit poly"]
    by (simp_all del: funpow.simps)
  ultimately show ?thesis
    by (simp add: crc_bytes_def crc_byte_def crc_bits_xor xor.assoc del: funpow.simps)
qed

text \<open>
  What the processor manual says of the two \<open>CRC32\<close> instructions: they add their operand to
  the running remainder modulo the Castagnoli polynomial.
\<close>

locale crc_instructions =
  fixes sse8 :: "u32 \<Rightarrow> u8 \<Rightarrow> u32" and sse32 :: "u32 \<Rightarrow> u32 \<Rightarrow> u32"
  assumes sse8: "sse8 crc b = (crc_bit kPolynomialCRC32C ^^ 8) (crc XOR ucast b)"
    and sse32: "sse32 crc w = (crc_bit kPolynomialCRC32C ^^ 32) (crc XOR w)"
begin

lemma byte_loop_eq:
  "length bs < 2 ^ 64 \<Longrightarrow> byte_loop sse8 crc bs (of_nat (length bs)) = Inl (crc_bytes kPolynomialCRC32C crc bs)"
proof (induction bs arbitrary: crc)
  case (Cons b bs)
  then have "(of_nat (length (b # bs)) :: u64) \<noteq> 0"
    by (subst of_nat_u64_eq_0) simp_all
  with Cons show ?case by (simp add: crc_bytes_def crc_byte_def sse8)
qed (simp add: crc_bytes_def)

lemma word_loop_eq:
  "length bs < 2 ^ 64 \<Longrightarrow>
    \<exists>us vs. bs = us @ vs \<and> word_loop sse32 crc bs (of_nat (length bs))
      = Inl (crc_bytes kPolynomialCRC32C crc us, vs, of_nat (length vs))"
proof (induction bs arbitrary: crc rule: length_induct)
  case (1 bs)
  show ?case
  proof (cases "\<exists>b0 b1 b2 b3 bs'. bs = b0 # b1 # b2 # b3 # bs'")
    case True
    then obtain b0 b1 b2 b3 bs' where bs: "bs = b0 # b1 # b2 # b3 # bs'" by blast
    have "unat (of_nat (length bs) :: u64) = length bs' + 4"
      using 1(2) bs by (subst unat_of_nat_u64) simp_all
    then have len: "(of_nat (length bs) :: u64) \<ge> 4" by (simp add: word_le_nat_alt)
    have eq: "(of_nat (length bs) :: u64) - 4 = of_nat (length bs')" using bs by simp
    have "length bs' < length bs" "length bs' < 2 ^ 64" using 1(2) bs by auto
    from 1(1) [rule_format, OF this, of "sse32 crc (le_word b0 b1 b2 b3)"] obtain us vs where
      "bs' = us @ vs" "word_loop sse32 (sse32 crc (le_word b0 b1 b2 b3)) bs' (of_nat (length bs'))
        = Inl (crc_bytes kPolynomialCRC32C (sse32 crc (le_word b0 b1 b2 b3)) us, vs, of_nat (length vs))"
      by blast
    moreover have "sse32 crc (le_word b0 b1 b2 b3) = crc_bytes kPolynomialCRC32C crc [b0, b1, b2, b3]"
      by (simp only: sse32 crc_word)
    ultimately show ?thesis
      using len eq bs
      by - (rule exI [of _ "b0 # b1 # b2 # b3 # us"], rule exI [of _ vs], simp add: crc_bytes_def)
  next
    case False
    then have short: "length bs < 4"
      by (auto simp: not_le [symmetric] numeral_eq_Suc Suc_le_length_iff)
    have "unat (of_nat (length bs) :: u64) = length bs"
      using 1(2) by (rule unat_of_nat_u64)
    with short have "\<not> (of_nat (length bs) :: u64) \<ge> 4" by (simp add: word_le_nat_alt)
    with short have "word_loop sse32 crc bs (of_nat (length bs)) = Inl (crc, bs, of_nat (length bs))"
      by (cases "(sse32, crc, bs, of_nat (length bs) :: u64)" rule: word_loop.cases) auto
    then show ?thesis by - (rule exI [of _ "[]"], rule exI [of _ bs], simp add: crc_bytes_def)
  qed
qed

lemma align_loop_eq:
  assumes "(4 - a mod 4) mod 4 \<le> length bs" "length bs < 2 ^ 64"
  shows "\<exists>us vs. bs = us @ vs \<and> align_loop sse8 crc a bs (of_nat (length bs))
    = Inl (crc_bytes kPolynomialCRC32C crc us, vs, of_nat (length vs))"
  using assms
proof (induction bs arbitrary: a crc)
  case Nil
  then have "a mod 4 = 0" by (simp split: if_splits) presburger
  then show ?case by (simp add: crc_bytes_def align_loop.simps)
next
  case (Cons b bs)
  show ?case
  proof (cases "a mod 4 = 0")
    case True
    then show ?thesis by - (rule exI [of _ "[]"], rule exI [of _ "b # bs"], simp add: crc_bytes_def align_loop.simps)
  next
    case False
    have "(4 - (a + 1) mod 4) mod 4 \<le> length bs"
      using Cons.prems(1) False by (simp add: mod_Suc) presburger
    moreover have "length bs < 2 ^ 64" using Cons.prems(2) by simp
    ultimately obtain us vs where "bs = us @ vs"
      "align_loop sse8 (sse8 crc b) (a + 1) bs (of_nat (length bs))
        = Inl (crc_bytes kPolynomialCRC32C (sse8 crc b) us, vs, of_nat (length vs))"
      using Cons.IH [of "a + 1" "sse8 crc b"] by blast
    moreover have "(of_nat (length (b # bs)) :: u64) \<noteq> 0"
      using Cons.prems(2) by (subst of_nat_u64_eq_0) simp_all
    ultimately show ?thesis
      using False by - (rule exI [of _ "b # us"], rule exI [of _ vs], simp add: align_loop.simps [of _ _ a] crc_bytes_def sse8 [of crc b] crc_byte_def)
  qed
qed

lemma update_sse42_eq:
  assumes "(4 - a mod 4) mod 4 \<le> length bs" "length bs < 2 ^ 64"
  shows "update_crc32c_sse42 sse8 sse32 crc a bs (of_nat (length bs)) = Inl (crc_bytes kPolynomialCRC32C crc bs)"
proof -
  obtain us vs where 1: "bs = us @ vs" "align_loop sse8 crc a bs (of_nat (length bs))
    = Inl (crc_bytes kPolynomialCRC32C crc us, vs, of_nat (length vs))"
    using align_loop_eq [OF assms] by blast
  obtain ws xs where 2: "vs = ws @ xs" "word_loop sse32 (crc_bytes kPolynomialCRC32C crc us) vs (of_nat (length vs))
    = Inl (crc_bytes kPolynomialCRC32C (crc_bytes kPolynomialCRC32C crc us) ws, xs, of_nat (length xs))"
    using word_loop_eq [of vs "crc_bytes kPolynomialCRC32C crc us"] 1(1) assms(2) by auto
  have 3: "length xs < 2 ^ 64" using 1(1) 2(1) assms(2) by simp
  show ?thesis
    unfolding update_crc32c_sse42_def
    using 1 2 byte_loop_eq [OF 3] by (simp add: crc_bytes_def)
qed

end

interpretation crc: crc_instructions "crc_byte kPolynomialCRC32C"
  "\<lambda>crc w. (crc_bit kPolynomialCRC32C ^^ 32) (crc XOR w)"
  by unfold_locales (simp_all add: crc_byte_def)

section \<open>The two routines\<close>

lemma word_loop_overrun:
  "length bs < 2 ^ 62 \<Longrightarrow> unat len > length bs + 4 \<Longrightarrow> word_loop sse32 crc bs len = Inr OutOfBounds"
proof (induction sse32 crc bs len rule: word_loop.induct)
  case (1 sse32 crc b0 b1 b2 b3 bs len)
  then have "len \<ge> 4" by (simp add: word_le_nat_alt)
  moreover from this have "unat (len - 4) = unat len - 4" by (simp add: unat_sub)
  ultimately show ?case using 1 by simp
qed (auto simp: word_le_nat_alt)

lemma align_loop_overrun:
  assumes "length bs < (4 - a mod 4) mod 4"
  shows "\<exists>crc'. align_loop sse8 crc a bs (of_nat (length bs)) = Inl (crc', [], - 1)"
  using assms
proof (induction bs arbitrary: a crc)
  case (Cons b bs)
  have a: "a mod 4 \<noteq> 0"
  proof
    assume "a mod 4 = 0"
    with Cons.prems show False by simp
  qed
  have "length bs < (4 - (a + 1) mod 4) mod 4"
    using Cons.prems a by (simp add: mod_Suc) presburger
  moreover have "length (b # bs) < 2 ^ 64" using Cons.prems by (rule less_trans) simp
  then have "(of_nat (length (b # bs)) :: u64) \<noteq> 0" by (subst of_nat_u64_eq_0) simp_all
  ultimately show ?case using Cons.IH [of "a + 1"] a by (simp add: align_loop.simps [of _ _ a])
next
  case Nil
  then have "a mod 4 \<noteq> 0" by (cases "a mod 4 = 0") simp_all
  then show ?case by (simp add: align_loop.simps)
qed

text \<open>The globals of the module: the table is not computed yet, or it is the table of the polynomial.\<close>

definition crc_globals_ok :: "bool \<Rightarrow> crc_globals \<Rightarrow> bool" where
  "crc_globals_ok has_sse42 g \<longleftrightarrow>
     (crc32c_table g ! 0 \<noteq> 0 \<and> \<not> isAccelerated g
      \<or> crc32c_table g = initialize_crc_table kPolynomialCRC32C) \<and> (isAccelerated g \<longrightarrow> has_sse42)"

lemma crc_bits_0: "(crc_bit poly ^^ k) 0 = 0"
  by (induction k) (simp_all add: crc_bit_def)

lemma initialized_0: "initialize_crc_table poly ! 0 = 0"
  by (simp add: initialize_crc_table_def table_entry_def crc_bits_0 del: funpow.simps)

text \<open>
  C24: whichever routine \<open>crc32c\<close> chooses (the table, computed on first use, or the
  instructions), it returns the CRC-32C of the buffer by the bitwise definition, provided the
  instructions behave as documented and, when they are used, the buffer is not so short that
  it ends before the first 4-byte boundary after its start.
\<close>

theorem crc32c_correct:
  assumes "crc_instructions sse8 sse32" and g: "crc_globals_ok has_sse42 g" and len: "length bs < 2 ^ 64"
    and reach: "\<not> has_sse42 \<or> (4 - a mod 4) mod 4 \<le> length bs"
  shows "\<exists>g'. crc32c has_sse42 sse8 sse32 a bs g
      = (Inl (crc_bytes kPolynomialCRC32C 0xffffffff bs XOR 0xffffffff), g') \<and> crc_globals_ok has_sse42 g'"
proof -
  have sse: "update_crc32c_sse42 sse8 sse32 crc a bs (of_nat (length bs)) = Inl (crc_bytes kPolynomialCRC32C crc bs)"
    if has_sse42 for crc
    using crc_instructions.update_sse42_eq [OF assms(1)] reach len that by blast
  show ?thesis
  proof (cases "isAccelerated g")
    case True
    with g sse show ?thesis by (simp add: crc32c_def update_crc32c_def crc_globals_ok_def)
  next
    case False
    with g sse show ?thesis
      by (cases has_sse42)
        (auto simp: crc32c_def update_crc32c_def crc_globals_ok_def crc32c_is_accelerated_def
          initialized_0 table_loop_eq)
  qed
qed

theorem crc32c_correct_witness:
  "\<exists>g'. crc32c False (crc_byte kPolynomialCRC32C) (\<lambda>crc w. (crc_bit kPolynomialCRC32C ^^ 32) (crc XOR w)) 1
      [49, 50, 51, 52, 53, 54, 55, 56, 57] crc_globals_init = (Inl 0xE3069283, g')"
proof -
  have "crc_bytes kPolynomialCRC32C 0xffffffff [49, 50, 51, 52, 53, 54, 55, 56, 57] XOR 0xffffffff = 0xE3069283"
    by (simp add: crc_bytes_def crc_byte_def funpow_8 crc_bit_def kPolynomialCRC32C_def)
  moreover have "crc_globals_ok False crc_globals_init"
    by (simp add: crc_globals_ok_def crc_globals_init_def)
  ultimately show ?thesis
    using crc32c_correct [OF crc.crc_instructions_axioms, of False crc_globals_init "[49, 50, 51, 52, 53, 54, 55, 56, 57]" 1]
    by auto
qed

text \<open>
  C25: a buffer that ends before the first 4-byte boundary after its start makes the
  accelerated routine read past the end of the buffer: the alignment loop decrements the
  length once more after it reached 0.
\<close>

theorem update_sse42_overrun:
  assumes "length bs < (4 - a mod 4) mod 4"
  shows "update_crc32c_sse42 sse8 sse32 crc a bs (of_nat (length bs)) = Inr OutOfBounds"
proof -
  obtain crc' where "align_loop sse8 crc a bs (of_nat (length bs)) = Inl (crc', [], - 1)"
    using align_loop_overrun [OF assms] by blast
  moreover have "word_loop sse32 crc' [] (- 1) = Inr OutOfBounds"
    by (rule word_loop_overrun) (simp_all add: unsigned_minus_1_eq_mask mask_eq_exp_minus_1)
  ultimately show ?thesis by (simp add: update_crc32c_sse42_def)
qed

theorem update_sse42_overrun_witness:
  "update_crc32c_sse42 (crc_byte kPolynomialCRC32C) (\<lambda>crc w. (crc_bit kPolynomialCRC32C ^^ 32) (crc XOR w))
     0xffffffff 1 [7, 8] (of_nat (length [7 :: u8, 8])) = Inr OutOfBounds"
  by (rule update_sse42_overrun) simp

end
