(* ===== verification/Socket_Endpoint.thy ===== *)
theory Socket_Endpoint
  imports MCSB_Prelude
begin

text \<open>
  \<open>SocketEndpoint\<close> (src/SocketEndpoint.cc) and the protocol of src/MCSB/SocketProtocol.h: the
  messages between the manager and its clients over a stream socket.

  \<^item> The socket: \<open>sock_out\<close> is what the kernel has accepted from this endpoint; \<open>kernel\<close> is what
    the coming \<open>send\<close>/\<open>sendmsg\<close> calls answer, and when it is used up the kernel accepts
    everything.  \<open>blockRetry\<close> is what the virtual \<open>HandleSendWouldBlock\<close> returns (true for a
    client, which waits; false for the manager's proxies).  What \<open>recv\<close> returns is an argument.
  \<^item> The receiver: the pending bytes of \<open>recvBuf\<close> are an argument of \<open>Parse\<close>; a virtual handler
    is a function on the state of the object, called with an \<open>endpoint_call\<close>.  \<open>HandleValidatePeer\<close>
    and \<open>HandleGroupID\<close> are never overridden and are part of the dispatch.
  \<^item> Counts and lengths are natural numbers: messages are short.
\<close>

section \<open>Protocol\<close>

definition kProtocolMagic :: u32 where "kProtocolMagic = 0x4253434D"
definition kProtocolVersion :: u32 where "kProtocolVersion = 1"
definition kSlabMask :: u32 where "kSlabMask = 0x80000000"
definition kToken :: u32 where "kToken = 0xFFFFFFFF"
definition kMaxPayloadSize :: nat where "kMaxPayloadSize = 1024"
definition kMaxCtrlMsgSize :: nat where "kMaxCtrlMsgSize = 8 + kMaxPayloadSize"

definition kCtrlMsgID_ValidatePeer :: u16 where "kCtrlMsgID_ValidatePeer = 0"
definition kCtrlMsgID_CtrlString :: u16 where "kCtrlMsgID_CtrlString = 1"
definition kCtrlMsgID_BlocksAndInfo :: u16 where "kCtrlMsgID_BlocksAndInfo = 2"
definition kCtrlMsgID_NumSlabs :: u16 where "kCtrlMsgID_NumSlabs = 3"
definition kCtrlMsgID_SequenceToken :: u16 where "kCtrlMsgID_SequenceToken = 4"
definition kCtrlMsgID_ClientPID :: u16 where "kCtrlMsgID_ClientPID = 5"
definition kCtrlMsgID_ClientID :: u16 where "kCtrlMsgID_ClientID = 6"
definition kCtrlMsgID_GroupID :: u16 where "kCtrlMsgID_GroupID = 7"
definition kCtrlMsgID_ManagerEcho :: u16 where "kCtrlMsgID_ManagerEcho = 8"
definition kCtrlMsgID_DropReport :: u16 where "kCtrlMsgID_DropReport = 9"
definition kCtrlMsgID_DropReportAck :: u16 where "kCtrlMsgID_DropReportAck = 10"
definition kCtrlMsgID_RegistrationsWanted :: u16 where "kCtrlMsgID_RegistrationsWanted = 11"
definition kCtrlMsgID_Registration :: u16 where "kCtrlMsgID_Registration = 40"
definition kCtrlMsgID_ProdNiceLevel :: u16 where "kCtrlMsgID_ProdNiceLevel = 44"

lemmas ctrl_ids = kCtrlMsgID_ValidatePeer_def kCtrlMsgID_CtrlString_def kCtrlMsgID_BlocksAndInfo_def
  kCtrlMsgID_NumSlabs_def kCtrlMsgID_SequenceToken_def kCtrlMsgID_ClientPID_def kCtrlMsgID_ClientID_def
  kCtrlMsgID_GroupID_def kCtrlMsgID_ManagerEcho_def kCtrlMsgID_DropReport_def kCtrlMsgID_DropReportAck_def
  kCtrlMsgID_RegistrationsWanted_def kCtrlMsgID_Registration_def kCtrlMsgID_ProdNiceLevel_def

definition CtrlMsgHdr :: "u16 \<Rightarrow> nat \<Rightarrow> u8 list" where
  "CtrlMsgHdr msgID len = bytes32 kToken @ bytes16 msgID @ bytes16 (of_nat len)"

text \<open>\<open>BlockInfo\<close> (src/MCSB/ShmDefs.h); \<open>sendTime\<close> is the bit pattern of the double.\<close>

record block_info =
  bi_messageID :: u32
  bi_size :: u32
  bi_crc32c :: u32
  bi_segmentNumber :: u16
  bi_numSegments :: u16
  bi_sendTime :: u64

definition block_info_bytes :: "block_info \<Rightarrow> u8 list" where
  "block_info_bytes b = bytes32 (bi_messageID b) @ bytes32 (bi_size b) @ bytes32 (bi_crc32c b)
     @ bytes16 (bi_segmentNumber b) @ bytes16 (bi_numSegments b)
     @ bytes32 (ucast (bi_sendTime b)) @ bytes32 (ucast (drop_bit 32 (bi_sendTime b)))"

section \<open>State\<close>

datatype send_result = Sent nat | Interrupted | WouldBlock | SendError string

record endpoint =
  sendFailed :: bool
  validPeer :: bool
  throwOnPeerDisconnect :: bool
  groupID :: u16
  blockRetry :: bool
  sock_out :: "u8 list"
  kernel :: "send_result list"

section \<open>Sending\<close>

text \<open>
  One call of \<open>send\<close> or \<open>sendmsg\<close> with \<open>len\<close> bytes at hand: \<open>None\<close> asks for another try,
  \<open>Some k\<close> is the number of bytes accepted.
\<close>

definition kernel_send ::
  "string \<Rightarrow> u8 list \<Rightarrow> 'a endpoint_scheme \<Rightarrow> (nat option, 'a endpoint_scheme) outcome" where
  "kernel_send err bs st =
     (case kernel st of
        [] \<Rightarrow> Ok (Some (length bs)) (st\<lparr>sock_out := sock_out st @ bs\<rparr>)
      | r # rs \<Rightarrow>
          (let st = st\<lparr>kernel := rs\<rparr> in
           case r of
             Sent n \<Rightarrow> let k = min n (length bs) in Ok (Some k) (st\<lparr>sock_out := sock_out st @ take k bs\<rparr>)
           | Interrupted \<Rightarrow> Ok None st
           | WouldBlock \<Rightarrow> if blockRetry st then Ok None st else Throw err (st\<lparr>sendFailed := True\<rparr>)
           | SendError e \<Rightarrow> Throw err (st\<lparr>sendFailed := True\<rparr>)))"

text \<open>
  The loops run until the kernel has taken the bytes; \<open>fuel\<close> is the number of answers the
  kernel has in store plus one, which is enough because the answer after those takes all.
\<close>

fun SendBlockIDs_loop ::
  "nat \<Rightarrow> nat \<Rightarrow> nat \<Rightarrow> u8 list \<Rightarrow> 'a endpoint_scheme \<Rightarrow> (nat, 'a endpoint_scheme) outcome" where
  "SendBlockIDs_loop 0 totalSent len pay st = Crash NonTermination"
| "SendBlockIDs_loop (Suc fuel) totalSent len pay st =
     (if totalSent < len then
        bind_o (kernel_send ''send error: '' (take len pay) st) (\<lambda>r st.
          case r of
            None \<Rightarrow> SendBlockIDs_loop fuel totalSent len pay st
          | Some sent \<Rightarrow> SendBlockIDs_loop fuel (totalSent + sent) (len - sent) (drop sent pay) st)
      else Ok totalSent st)"

definition SendBlockIDs :: "u32 list \<Rightarrow> 'a endpoint_scheme \<Rightarrow> (nat, 'a endpoint_scheme) outcome" where
  "SendBlockIDs ids st =
     (if sendFailed st then Throw ''send error: refusing after send failure'' st
      else SendBlockIDs_loop (Suc (Suc (length (kernel st)))) 0 (4 * length ids) (bytes_of ids) st)"

definition SendSlabIDs :: "u32 list \<Rightarrow> 'a endpoint_scheme \<Rightarrow> (nat, 'a endpoint_scheme) outcome" where
  "SendSlabIDs ids st = SendBlockIDs (map (\<lambda>i. i OR kSlabMask) ids) st"

text \<open>
  Advancing the \<open>iovec\<close> array by \<open>sent\<close> bytes.  The loop condition \<open>sent-iov_len>0\<close> is
  computed in \<open>size_t\<close>, so it holds whenever the two differ; past the last vector the loop
  reads uninitialised entries.
\<close>

fun advance_iov :: "int \<Rightarrow> u8 list list \<Rightarrow> u8 list list option" where
  "advance_iov sent [] = None"
| "advance_iov sent (v # vs) =
     (if sent = int (length v) then Some ((if sent > 0 then drop (nat sent) v else v) # vs)
      else advance_iov (sent - int (length v)) vs)"

fun SendCtrlMsg_loop ::
  "nat \<Rightarrow> nat \<Rightarrow> nat \<Rightarrow> u8 list list \<Rightarrow> 'a endpoint_scheme \<Rightarrow> (nat, 'a endpoint_scheme) outcome" where
  "SendCtrlMsg_loop 0 totalSent totalLen iov st = Crash NonTermination"
| "SendCtrlMsg_loop (Suc fuel) totalSent totalLen iov st =
     (if totalSent < totalLen then
        bind_o (kernel_send ''sendmsg error: '' (concat iov) st) (\<lambda>r st.
          case r of
            None \<Rightarrow> SendCtrlMsg_loop fuel totalSent totalLen iov st
          | Some sent \<Rightarrow>
              if totalSent + sent = totalLen then Ok (totalSent + sent) st
              else case advance_iov (int sent) iov of
                None \<Rightarrow> Crash OutOfBounds
              | Some iov' \<Rightarrow> SendCtrlMsg_loop fuel (totalSent + sent) totalLen iov' st)
      else Ok totalSent st)"

text \<open>\<open>SendCtrlMsg\<close> with an array of parts (the terminating null pointer is the end of the list).\<close>

definition SendCtrlMsg ::
  "u16 \<Rightarrow> u8 list list \<Rightarrow> 'a endpoint_scheme \<Rightarrow> (nat, 'a endpoint_scheme) outcome" where
  "SendCtrlMsg msgID parts st =
     (if sendFailed st then Throw ''send error: refusing after send failure'' st
      else let totalLen = length (concat parts) in
        if totalLen > kMaxPayloadSize
        then Throw ''protocol error: can't send control message larger than kMaxCtrlMsgSize'' st
        else SendCtrlMsg_loop (Suc (Suc (length (kernel st)))) 0 (totalLen + 8) (CtrlMsgHdr msgID totalLen # parts) st)"

definition SendCtrlString :: "u32 \<Rightarrow> u8 list \<Rightarrow> 'a endpoint_scheme \<Rightarrow> (nat, 'a endpoint_scheme) outcome" where
  "SendCtrlString which str st =
     (let len = length str + 1; pad = (4 - len mod 4) mod 4
      in SendCtrlMsg kCtrlMsgID_CtrlString
           ([bytes32 which, str @ [0]] @ (if pad \<noteq> 0 then [replicate pad 0] else [])) st)"

text \<open>
  \<open>SendBlocksAndInfo\<close>: \<open>totalSent\<close> counts bytes, \<open>count\<close> counts blocks, and the loop also stops
  when the two happen to be equal.
\<close>

definition maxPerSend :: nat where
  "maxPerSend = kMaxPayloadSize div (4 + 24)"

function SendBlocksAndInfo_loop ::
  "nat \<Rightarrow> (u32 \<times> block_info) list \<Rightarrow> 'a endpoint_scheme \<Rightarrow> (nat, 'a endpoint_scheme) outcome" where
  "SendBlocksAndInfo_loop totalSent [] st = Ok totalSent st"
| "SendBlocksAndInfo_loop totalSent (b # bs) st =
     (let now = take maxPerSend (b # bs)
      in bind_o (SendCtrlMsg kCtrlMsgID_BlocksAndInfo
             [bytes_of (map fst now), concat (map (block_info_bytes \<circ> snd) now)] st) (\<lambda>sent st.
         if totalSent + sent = length (b # bs) then Ok (totalSent + sent) st
         else SendBlocksAndInfo_loop (totalSent + sent) (drop maxPerSend (b # bs)) st))"
  by pat_completeness auto
termination
  by (relation "measure (\<lambda>(t, bs, st). length bs)") (auto simp: maxPerSend_def kMaxPayloadSize_def)

definition SendBlocksAndInfo ::
  "u32 list \<Rightarrow> block_info list \<Rightarrow> 'a endpoint_scheme \<Rightarrow> (nat, 'a endpoint_scheme) outcome" where
  "SendBlocksAndInfo blockNums blockInfo st = SendBlocksAndInfo_loop 0 (zip blockNums blockInfo) st"

definition SendDropReport :: "u32 \<Rightarrow> u32 \<Rightarrow> 'a endpoint_scheme \<Rightarrow> (nat, 'a endpoint_scheme) outcome" where
  "SendDropReport segs bytes st = SendCtrlMsg kCtrlMsgID_DropReport [bytes32 segs @ bytes32 bytes] st"

definition SendDropReportAck :: "'a endpoint_scheme \<Rightarrow> (nat, 'a endpoint_scheme) outcome" where
  "SendDropReportAck st = SendCtrlMsg kCtrlMsgID_DropReportAck [] st"

definition SendNumSlabs :: "u32 \<Rightarrow> u32 \<Rightarrow> 'a endpoint_scheme \<Rightarrow> (nat, 'a endpoint_scheme) outcome" where
  "SendNumSlabs prodSlabs consSlabs st = SendCtrlMsg kCtrlMsgID_NumSlabs [bytes32 prodSlabs @ bytes32 consSlabs] st"

definition SendSequenceToken :: "u32 \<Rightarrow> 'a endpoint_scheme \<Rightarrow> (nat, 'a endpoint_scheme) outcome" where
  "SendSequenceToken token st = SendCtrlMsg kCtrlMsgID_SequenceToken [bytes32 token] st"

definition SendClientPID :: "u32 \<Rightarrow> 'a endpoint_scheme \<Rightarrow> (nat, 'a endpoint_scheme) outcome" where
  "SendClientPID pid st = SendCtrlMsg kCtrlMsgID_ClientPID [bytes32 pid] st"

definition SendClientID :: "u16 \<Rightarrow> 'a endpoint_scheme \<Rightarrow> (nat, 'a endpoint_scheme) outcome" where
  "SendClientID cid st = SendCtrlMsg kCtrlMsgID_ClientID [bytes32 (scast cid)] st"

definition SendGroupID :: "u16 \<Rightarrow> bool \<Rightarrow> 'a endpoint_scheme \<Rightarrow> (nat, 'a endpoint_scheme) outcome" where
  "SendGroupID gid setLocal st =
     (let st = (if setLocal then st\<lparr>groupID := gid\<rparr> else st)
      in SendCtrlMsg kCtrlMsgID_GroupID [bytes32 (scast gid)] st)"

definition SendManagerEcho :: "u8 list \<Rightarrow> 'a endpoint_scheme \<Rightarrow> (nat, 'a endpoint_scheme) outcome" where
  "SendManagerEcho bs st = SendCtrlMsg kCtrlMsgID_ManagerEcho [bs] st"

definition SendProdNiceLevel :: "u32 \<Rightarrow> 'a endpoint_scheme \<Rightarrow> (nat, 'a endpoint_scheme) outcome" where
  "SendProdNiceLevel lvl st = SendCtrlMsg kCtrlMsgID_ProdNiceLevel [bytes32 lvl] st"

definition kMaxMsgIDs :: nat where
  "kMaxMsgIDs = (kMaxPayloadSize - 4) div 4"

function SendRegistration_loop ::
  "u32 \<Rightarrow> u16 \<Rightarrow> u16 \<Rightarrow> nat \<Rightarrow> u32 list \<Rightarrow> 'a endpoint_scheme \<Rightarrow> (nat, 'a endpoint_scheme) outcome" where
  "SendRegistration_loop type cltID grpID ret [] st = Ok ret st"
| "SendRegistration_loop type cltID grpID ret (m # ms) st =
     bind_o (SendCtrlMsg (kCtrlMsgID_Registration + ucast type)
         [bytes16 cltID @ bytes16 grpID @ bytes_of (take kMaxMsgIDs (m # ms))] st) (\<lambda>sent st.
       SendRegistration_loop type cltID grpID (ret + sent) (drop kMaxMsgIDs (m # ms)) st)"
  by pat_completeness auto
termination
  by (relation "measure (\<lambda>(t, c, g, r, ms, st). length ms)") (auto simp: kMaxMsgIDs_def kMaxPayloadSize_def)

definition SendRegistration ::
  "u32 \<Rightarrow> u16 \<Rightarrow> u16 \<Rightarrow> u32 list \<Rightarrow> 'a endpoint_scheme \<Rightarrow> (nat, 'a endpoint_scheme) outcome" where
  "SendRegistration type cltID grpID msgIDs st =
     (if type > 2 then Throw ''SendRegistration error: invalid value for type'' st
      else SendRegistration_loop type cltID grpID 0 msgIDs st)"

definition SendValidatePeer :: "'a endpoint_scheme \<Rightarrow> (nat, 'a endpoint_scheme) outcome" where
  "SendValidatePeer st = SendCtrlMsg kCtrlMsgID_ValidatePeer [bytes32 kProtocolMagic @ bytes32 kProtocolVersion] st"

definition SendRegistrationsWanted :: "bool \<Rightarrow> 'a endpoint_scheme \<Rightarrow> (nat, 'a endpoint_scheme) outcome" where
  "SendRegistrationsWanted wanted st =
     (let w = (if wanted then 1 else 0) in SendCtrlMsg kCtrlMsgID_RegistrationsWanted [[w, w, 0, 0]] st)"

section \<open>Receiving\<close>

text \<open>The virtual calls a received message leads to.\<close>

datatype endpoint_call =
    HandleBlockIDs "u32 list"
  | HandleSlabIDs "u32 list"
  | HandleBlocksAndInfo "u32 list" "block_info list"
  | HandleManagerEcho "u8 list"
  | HandleSequenceToken u32
  | HandleRegistration u32 u16 u16 "u32 list"
  | HandleDropReport u32 u32
  | HandleDropReportAck
  | HandleCtrlString u32 "u8 list"
  | HandleNumSlabs u32 u32
  | HandleClientID u16
  | HandleClientPID u32
  | HandleRegistrationsWanted bool bool
  | HandleProdNiceLevel u32
  | HandleCtrlMsg u16 "u8 list"

type_synonym 's call_handler = "endpoint_call \<Rightarrow> 's \<Rightarrow> (unit, 's) outcome"

text \<open>The handlers of \<open>SocketEndpoint\<close> itself only print.\<close>

definition base_handler :: "'s call_handler" where
  "base_handler c s = Ok () s"

definition HandleValidatePeer :: "u32 \<Rightarrow> u32 \<Rightarrow> 'a endpoint_scheme \<Rightarrow> (unit, 'a endpoint_scheme) outcome" where
  "HandleValidatePeer magic version st =
     (if magic \<noteq> kProtocolMagic then Throw ''invalid kProtocolMagic'' st
      else if version \<noteq> kProtocolVersion then Throw ''invalid kProtocolVersion'' st
      else Ok () (st\<lparr>validPeer := True\<rparr>))"

definition HandleGroupID :: "u16 \<Rightarrow> 'a endpoint_scheme \<Rightarrow> (unit, 'a endpoint_scheme) outcome" where
  "HandleGroupID gid st = Ok () (st\<lparr>groupID := gid\<rparr>)"

definition block_info_of :: "u8 list \<Rightarrow> block_info" where
  "block_info_of bs =
     (let w = words bs in
      \<lparr>bi_messageID = w ! 0, bi_size = w ! 1, bi_crc32c = w ! 2,
       bi_segmentNumber = le_half (bs ! 12) (bs ! 13), bi_numSegments = le_half (bs ! 14) (bs ! 15),
       bi_sendTime = ucast (w ! 4) OR push_bit 32 (ucast (w ! 5))\<rparr>)"

fun block_infos :: "nat \<Rightarrow> u8 list \<Rightarrow> block_info list" where
  "block_infos 0 bs = []"
| "block_infos (Suc n) bs = block_info_of (take 24 bs) # block_infos n (drop 24 bs)"

text \<open>
  \<open>LocalHandleCtrlMsg\<close>: the payload of \<open>CtrlString\<close> is not checked; without four bytes and a
  terminating null the handler reads past the message.
\<close>

definition LocalHandleCtrlMsg ::
  "'a endpoint_scheme call_handler \<Rightarrow> u16 \<Rightarrow> u8 list \<Rightarrow> 'a endpoint_scheme \<Rightarrow> (unit, 'a endpoint_scheme) outcome" where
  "LocalHandleCtrlMsg vh msgID p st =
     (let len = length p; w = words p in
      if \<not> validPeer st \<and> msgID \<noteq> kCtrlMsgID_ValidatePeer
      then Throw ''peer protocol error: Startup message required'' st
      else if msgID = kCtrlMsgID_BlocksAndInfo then
        (let n = len div 28 in
         if len \<noteq> n * 28 then Throw ''error: kCtrlMsgID_BlocksAndInfo with invalid len'' st
         else vh (HandleBlocksAndInfo (take n w) (block_infos n (drop (4 * n) p))) st)
      else if msgID = kCtrlMsgID_ManagerEcho then vh (HandleManagerEcho p) st
      else if msgID = kCtrlMsgID_SequenceToken then
        (if len \<noteq> 4 then Throw ''kCtrlMsgID_SequenceToken message invalid size'' st
         else vh (HandleSequenceToken (w ! 0)) st)
      else if msgID = kCtrlMsgID_Registration \<or> msgID = kCtrlMsgID_Registration + 1
          \<or> msgID = kCtrlMsgID_Registration + 2 then
        (if len < 4 then Throw ''error: payload smaller than RegistrationMsgHdr'' st
         else let n = (len - 4) div 4 in
           if len \<noteq> 4 + n * 4 then Throw ''error: registration message invalid size'' st
           else vh (HandleRegistration (ucast (msgID - kCtrlMsgID_Registration)) (le_half (p ! 0) (p ! 1))
                  (le_half (p ! 2) (p ! 3)) (drop 1 w)) st)
      else if msgID = kCtrlMsgID_DropReport then
        (if len \<noteq> 8 then Throw ''kCtrlMsgID_DropReport message invalid size'' st
         else vh (HandleDropReport (w ! 0) (w ! 1)) st)
      else if msgID = kCtrlMsgID_DropReportAck then
        (if len \<noteq> 0 then Throw ''kCtrlMsgID_DropReportAck message invalid size'' st
         else vh HandleDropReportAck st)
      else if msgID = kCtrlMsgID_CtrlString then
        (if len < 4 \<or> 0 \<notin> set (drop 4 p) then Crash OutOfBounds
         else vh (HandleCtrlString (w ! 0) (takeWhile (\<lambda>b. b \<noteq> 0) (drop 4 p))) st)
      else if msgID = kCtrlMsgID_ValidatePeer then
        (if len \<noteq> 8 then Throw ''error: kCtrlMsgID_ValidatePeer message invalid size'' st
         else HandleValidatePeer (w ! 0) (w ! 1) st)
      else if msgID = kCtrlMsgID_NumSlabs then
        (if len \<noteq> 8 then Throw ''kCtrlMsgID_NumSlabs incorrect size'' st
         else vh (HandleNumSlabs (w ! 0) (w ! 1)) st)
      else if msgID = kCtrlMsgID_ClientID then
        (if len \<noteq> 4 then Throw ''kCtrlMsgID_ClientID incorrect size'' st
         else vh (HandleClientID (ucast (w ! 0))) st)
      else if msgID = kCtrlMsgID_GroupID then
        (if len \<noteq> 4 then Throw ''kCtrlMsgID_GroupID incorrect size'' st
         else HandleGroupID (ucast (w ! 0)) st)
      else if msgID = kCtrlMsgID_ClientPID then
        (if len \<noteq> 4 then Throw ''kCtrlMsgID_ClientID incorrect size'' st
         else vh (HandleClientPID (w ! 0)) st)
      else if msgID = kCtrlMsgID_RegistrationsWanted then
        (if len \<noteq> 4 then Throw ''kCtrlMsgID_RegistrationsWanted incorrect size'' st
         else vh (HandleRegistrationsWanted (p ! 0 \<noteq> 0) (p ! 1 \<noteq> 0)) st)
      else if msgID = kCtrlMsgID_ProdNiceLevel then
        (if len \<noteq> 4 then Throw ''kCtrlMsgID_ProdNiceLevel incorrect size'' st
         else vh (HandleProdNiceLevel (w ! 0)) st)
      else vh (HandleCtrlMsg msgID p) st)"

text \<open>
  \<open>Parse\<close>: the leading run of IDs (block IDs or slab IDs, not a mixture), a control message, or
  an incomplete rest.  The state is the receive buffer and the object; the slab mask is
  removed in the buffer, which matters only if the handler throws.
\<close>

definition id_run :: "u32 list \<Rightarrow> u32 list" where
  "id_run ws = takeWhile (\<lambda>w. w \<noteq> kToken \<and> w AND kSlabMask = hd ws AND kSlabMask) ws"

lemma id_run_length: "4 * length (id_run (words bs)) \<le> length bs"
proof -
  have "length (id_run (words bs)) \<le> length (words bs)" by (simp add: id_run_def length_takeWhile_le)
  then show ?thesis by (simp add: length_words)
qed

lemma id_run_shrinks:
  assumes "id_run (words (take n bs)) \<noteq> []"
  shows "n - 4 * length (id_run (words (take n bs))) < n"
proof -
  have "0 < 4 * length (id_run (words (take n bs)))" using assms by simp
  moreover have "4 * length (id_run (words (take n bs))) \<le> n"
    using id_run_length [of "take n bs"] by simp
  ultimately show ?thesis by linarith
qed

function Parse_loop ::
  "'a endpoint_scheme call_handler \<Rightarrow> nat \<Rightarrow> nat \<Rightarrow> u8 list \<times> 'a endpoint_scheme
     \<Rightarrow> (nat, u8 list \<times> 'a endpoint_scheme) outcome" where
  "Parse_loop vh off n (buf, st) =
     (let bs = take n (drop off buf); ids = id_run (words bs); c = length ids in
      if c \<noteq> 0 then
        if \<not> validPeer st then Throw ''peer protocol error: Startup message required'' (buf, st)
        else if hd ids AND kSlabMask \<noteq> 0 then
          (let ids' = map (\<lambda>i. i AND NOT kSlabMask) ids;
               buf' = take off buf @ bytes_of ids' @ drop (off + 4 * c) buf
           in bind_o (lift_o (Pair buf') (vh (HandleSlabIDs ids') st)) (\<lambda>_.
                Parse_loop vh (off + 4 * c) (n - 4 * c)))
        else bind_o (lift_o (Pair buf) (vh (HandleBlockIDs ids) st)) (\<lambda>_.
                Parse_loop vh (off + 4 * c) (n - 4 * c))
      else if n < 8 \<or> length bs < 8 then Ok n (buf, st)
      else if hd (words bs) \<noteq> kToken then Crash AssertionFailed
      else
        let len = unat (le_half (bs ! 6) (bs ! 7)) in
        if len mod 4 \<noteq> 0 then Crash AssertionFailed
        else if n < 8 + len then Ok n (buf, st)
        else if len > kMaxPayloadSize
        then Throw ''protocol error: control message len>CtrlMsgHdr::kMaxPayloadSize'' (buf, st)
        else bind_o (lift_o (Pair buf) (LocalHandleCtrlMsg vh (le_half (bs ! 4) (bs ! 5)) (take len (drop 8 bs)) st)) (\<lambda>_.
               Parse_loop vh (off + 8 + len) (n - (8 + len))))"
  by pat_completeness auto
termination
  by (relation "measure (\<lambda>(vh, off, n, s). n)") (auto simp: id_run_shrinks)

declare Parse_loop.simps [simp del]

definition Parse ::
  "'a endpoint_scheme call_handler \<Rightarrow> u8 list \<times> 'a endpoint_scheme \<Rightarrow> (nat, u8 list \<times> 'a endpoint_scheme) outcome" where
  "Parse vh s =
     (if length (fst s) < 4 then Ok 0 s
      else bind_o (Parse_loop vh 0 (length (fst s)) s) (\<lambda>rest s'. Ok (length (fst s) - rest) s'))"

text \<open>\<open>Poll\<close> after \<open>PollFD\<close> reported the socket readable: the result of \<open>recv\<close>, then the parse loop.\<close>

datatype recv_result = Received "u8 list" | RecvAgain | RecvClosed | RecvError string

function parse_all ::
  "'a endpoint_scheme call_handler \<Rightarrow> nat \<Rightarrow> u8 list \<times> 'a endpoint_scheme \<Rightarrow> (unit, u8 list \<times> 'a endpoint_scheme) outcome" where
  "parse_all vh n s =
     (if n = 0 then Ok () s
      else bind_o (Parse vh s) (\<lambda>k (buf, st).
        if k = 0 then Ok () (buf, st) else parse_all vh (n - k) (drop k buf, st)))"
  by pat_completeness auto
termination
  by (relation "measure (\<lambda>(vh, n, s). n)") auto

declare parse_all.simps [simp del]

definition Poll ::
  "'a endpoint_scheme call_handler \<Rightarrow> recv_result \<Rightarrow> u8 list \<times> 'a endpoint_scheme
     \<Rightarrow> (nat, u8 list \<times> 'a endpoint_scheme) outcome" where
  "Poll vh r s =
     (case r of
        RecvAgain \<Rightarrow> Ok 0 s
      | RecvError e \<Rightarrow> Throw ''recv error: '' s
      | RecvClosed \<Rightarrow> if throwOnPeerDisconnect (snd s) then Throw ''socket peer closed connection'' s else Ok 0 s
      | Received bs \<Rightarrow>
          let buf = fst s @ bs in bind_o (parse_all vh (length buf) (buf, snd s)) (\<lambda>_. Ok (length bs)))"

text \<open>
  \<open>PollFD\<close>: interrupted calls are repeated; the result is the events that are true, the error,
  or 0 after the timeout.
\<close>

datatype poll_result = PollReady u16 | PollTimeout | PollInterrupted | PollError int

fun PollFD :: "u16 \<Rightarrow> poll_result list \<Rightarrow> int" where
  "PollFD events [] = 0"
| "PollFD events (r # rs) =
     (case r of
        PollReady revents \<Rightarrow> uint (revents AND (if events = 0 then 1 else events))
      | PollError e \<Rightarrow> e
      | PollInterrupted \<Rightarrow> PollFD events rs
      | PollTimeout \<Rightarrow> 0)"

section \<open>The stream as a sequence of messages\<close>

text \<open>
  The specification of the stream: one ID or one control message after the other, whatever
  the pieces are in which the bytes arrive.
\<close>

datatype atom = ABlock u32 | ASlab u32 | ACtrl u16 "u8 list"

datatype parse_end = Incomplete nat | Malformed | TooLong

fun encode :: "atom \<Rightarrow> u8 list" where
  "encode (ABlock i) = bytes32 i"
| "encode (ASlab i) = bytes32 (i OR kSlabMask)"
| "encode (ACtrl m p) = CtrlMsgHdr m (length p) @ p"

fun atom_ok :: "atom \<Rightarrow> bool" where
  "atom_ok (ABlock i) \<longleftrightarrow> i AND kSlabMask = 0"
| "atom_ok (ASlab i) \<longleftrightarrow> i AND kSlabMask = 0 \<and> i \<noteq> 0x7FFFFFFF"
| "atom_ok (ACtrl m p) \<longleftrightarrow> length p mod 4 = 0 \<and> length p \<le> kMaxPayloadSize"

datatype step = Atom atom nat | Stop parse_end

definition id_atom :: "u32 \<Rightarrow> atom" where
  "id_atom w = (if w AND kSlabMask \<noteq> 0 then ASlab (w AND NOT kSlabMask) else ABlock w)"

definition next_atom :: "u8 list \<Rightarrow> step" where
  "next_atom bs =
     (if length bs < 4 then Stop (Incomplete (length bs))
      else if hd (words bs) \<noteq> kToken then Atom (id_atom (hd (words bs))) 4
      else if length bs < 8 then Stop (Incomplete (length bs))
      else let len = unat (le_half (bs ! 6) (bs ! 7)) in
        if len mod 4 \<noteq> 0 then Stop Malformed
        else if length bs < 8 + len then Stop (Incomplete (length bs))
        else if len > kMaxPayloadSize then Stop TooLong
        else Atom (ACtrl (le_half (bs ! 4) (bs ! 5)) (take len (drop 8 bs))) (8 + len))"

lemma next_atom_length: "next_atom bs = Atom a k \<Longrightarrow> 0 < k \<and> k \<le> length bs"
  by (auto simp: next_atom_def Let_def split: if_splits)

function decode :: "u8 list \<Rightarrow> atom list \<times> parse_end" where
  "decode bs =
     (case next_atom bs of
        Stop e \<Rightarrow> ([], e)
      | Atom a k \<Rightarrow> (let (as, e) = decode (drop k bs) in (a # as, e)))"
  by pat_completeness auto
termination
  by (relation "measure length") (auto dest: next_atom_length)

declare decode.simps [simp del]

lemma words_Nil_iff: "words bs = [] \<longleftrightarrow> length bs < 4"
  by (cases bs rule: words.cases) auto

lemma words_nonempty: "4 \<le> length bs \<Longrightarrow> words bs \<noteq> []"
  by (simp add: words_Nil_iff)

lemma hd_words_append: "4 \<le> length bs \<Longrightarrow> hd (words (bs @ cs)) = hd (words bs)"
  by (cases bs rule: words.cases) auto

lemma next_atom_append:
  assumes "next_atom xs = Atom a k" shows "next_atom (xs @ ys) = Atom a k"
proof -
  have "4 \<le> length xs" using assms by (auto simp: next_atom_def split: if_splits)
  note hd = hd_words_append [OF this, of ys]
  show ?thesis
    using assms hd by (auto simp: next_atom_def Let_def nth_append split: if_splits)
qed

text \<open>
  Bytes that arrive later continue the decoding where it stopped: how the stream is cut into
  pieces does not matter.
\<close>

lemma decode_append:
  assumes "decode xs = (as, Incomplete k)"
  shows "k \<le> length xs \<and> decode (xs @ ys) = (let (bs, e) = decode (drop (length xs - k) xs @ ys) in (as @ bs, e))"
  using assms
proof (induction xs arbitrary: as rule: decode.induct)
  case (1 xs)
  show ?case
  proof (cases "next_atom xs")
    case (Stop e)
    then have e: "as = []" "e = Incomplete k" using 1(2) by (simp_all add: decode.simps)
    then have "k = length xs" using Stop by (auto simp: next_atom_def Let_def split: if_splits)
    then show ?thesis using e by (simp add: Let_def split_beta)
  next
    case (Atom a j)
    obtain as' where as': "decode (drop j xs) = (as', Incomplete k)" "as = a # as'"
      using 1(2) Atom by (auto simp: decode.simps [of xs] split: prod.splits)
    have j: "0 < j" "j \<le> length xs" using next_atom_length [OF Atom] by auto
    note ih = 1(1) [OF Atom as'(1)]
    have "decode (xs @ ys) = (let (bs, e) = decode (drop j xs @ ys) in (a # bs, e))"
      using next_atom_append [OF Atom] j by (simp add: decode.simps [of "xs @ ys"])
    moreover have "drop (length (drop j xs) - k) (drop j xs) = drop (length xs - k) xs"
    proof -
      have "length (drop j xs) - k + j = length xs - k" 
        using conjunct1 [OF ih] j by (simp add: le_diff_conv2)
      then show ?thesis by simp
    qed
    ultimately show ?thesis using ih as'(2) j by (auto simp: Let_def split_beta)
  qed
qed

lemma kSlabMask_bits: "bit kSlabMask n \<longleftrightarrow> n = 31"
proof -
  have eq: "kSlabMask = push_bit 31 1" by (simp add: kSlabMask_def push_bit_eq_mult)
  show ?thesis unfolding eq bit_push_bit_iff bit_1_iff by auto
qed

lemma next_atom_encode:
  assumes "atom_ok a" shows "next_atom (encode a @ bs) = Atom a (length (encode a))"
proof (cases a)
  case (ABlock i)
  then have "i \<noteq> kToken" using assms by (auto simp: kToken_def kSlabMask_def)
  with ABlock assms show ?thesis by (simp add: next_atom_def id_atom_def)
next
  case (ASlab i)
  have clear: "(i OR kSlabMask) AND NOT kSlabMask = i"
  proof (rule bit_eqI)
    fix n assume "possible_bit TYPE(u32) n"
    moreover have "\<not> bit i 31"
    proof -
      have "\<not> bit (i AND kSlabMask) 31" using ASlab assms by simp
      then show ?thesis by (simp only: bit_and_iff kSlabMask_bits) simp
    qed
    ultimately show "bit ((i OR kSlabMask) AND NOT kSlabMask) n = bit i n"
      by (cases "n = 31") (auto simp: bit_and_iff bit_or_iff bit_not_iff kSlabMask_bits)
  qed
  moreover have "i OR kSlabMask \<noteq> kToken"
  proof
    assume "i OR kSlabMask = kToken"
    with clear have "i = kToken AND NOT kSlabMask" by simp
    then show False using ASlab assms by (simp add: kToken_def kSlabMask_def)
  qed
  moreover have "(i OR kSlabMask) AND kSlabMask \<noteq> 0"
    by (metis bit_0_eq bit_and_iff bit_or_iff kSlabMask_bits bot_apply bot_bool_def)
  ultimately show ?thesis using ASlab by (simp add: next_atom_def id_atom_def)
next
  case (ACtrl m p)
  have len: "length p < 2 ^ 16" using ACtrl assms by (simp add: kMaxPayloadSize_def)
  have "words (encode a @ bs) = kToken # words (drop 4 (encode a @ bs))"
    by (simp add: ACtrl CtrlMsgHdr_def bytes32_def le_word_bytes32)
  moreover have "le_half ((encode a @ bs) ! 6) ((encode a @ bs) ! 7) = of_nat (length p)"
    "le_half ((encode a @ bs) ! 4) ((encode a @ bs) ! 5) = m"
    by (simp_all add: ACtrl CtrlMsgHdr_def bytes32_def bytes16_def le_half_bytes16)
  moreover have "unat (of_nat (length p) :: u16) = length p"
    using len by (simp add: unsigned_of_nat take_bit_nat_eq_self)
  moreover have "length (encode a @ bs) = 8 + length p + length bs" "take (length p) (drop 8 (encode a @ bs)) = p"
    by (simp_all add: ACtrl CtrlMsgHdr_def)
  ultimately show ?thesis
    using ACtrl assms by (simp add: next_atom_def Let_def CtrlMsgHdr_def)
qed

lemma decode_encode:
  "\<forall>a \<in> set as. atom_ok a \<Longrightarrow> decode (concat (map encode as)) = (as, Incomplete 0)"
proof (induction as)
  case Nil
  then show ?case by (simp add: decode.simps next_atom_def)
next
  case (Cons a as)
  then show ?case
    using next_atom_encode [of a "concat (map encode as)"] by (simp add: decode.simps [of "encode a @ _"])
qed

section \<open>The parser implements the specification\<close>

text \<open>What the parser hands on in one step, and how it is dispatched.\<close>

datatype event = EvBlocks "u32 list" | EvSlabs "u32 list" | EvCtrl u16 "u8 list"

fun event_atoms :: "event \<Rightarrow> atom list" where
  "event_atoms (EvBlocks ids) = map ABlock ids"
| "event_atoms (EvSlabs ids) = map ASlab ids"
| "event_atoms (EvCtrl m p) = [ACtrl m p]"

fun dispatch :: "'a endpoint_scheme call_handler \<Rightarrow> event \<Rightarrow> 'a endpoint_scheme \<Rightarrow> (unit, 'a endpoint_scheme) outcome" where
  "dispatch vh (EvBlocks ids) st =
     (if validPeer st then vh (HandleBlockIDs ids) st else Throw ''peer protocol error: Startup message required'' st)"
| "dispatch vh (EvSlabs ids) st =
     (if validPeer st then vh (HandleSlabIDs ids) st else Throw ''peer protocol error: Startup message required'' st)"
| "dispatch vh (EvCtrl m p) st = LocalHandleCtrlMsg vh m p st"

fun finish :: "parse_end \<Rightarrow> 's \<Rightarrow> (nat, 's) outcome" where
  "finish (Incomplete k) s = Ok k s"
| "finish Malformed s = Crash AssertionFailed"
| "finish TooLong s = Throw ''protocol error: control message len>CtrlMsgHdr::kMaxPayloadSize'' s"

fun run_events ::
  "'a endpoint_scheme call_handler \<Rightarrow> event list \<Rightarrow> parse_end \<Rightarrow> 'a endpoint_scheme \<Rightarrow> (nat, 'a endpoint_scheme) outcome" where
  "run_events vh [] e st = finish e st"
| "run_events vh (ev # evs) e st = bind_o (dispatch vh ev st) (\<lambda>_. run_events vh evs e)"

definition run_event :: "u32 list \<Rightarrow> event" where
  "run_event ids = (if hd ids AND kSlabMask \<noteq> 0 then EvSlabs (map (\<lambda>i. i AND NOT kSlabMask) ids) else EvBlocks ids)"

function events :: "u8 list \<Rightarrow> event list \<times> parse_end" where
  "events bs =
     (let ids = id_run (words bs) in
      if ids \<noteq> [] then (let (evs, e) = events (drop (4 * length ids) bs) in (run_event ids # evs, e))
      else case next_atom bs of
        Stop e \<Rightarrow> ([], e)
      | Atom (ACtrl m p) k \<Rightarrow> (let (evs, e) = events (drop k bs) in (EvCtrl m p # evs, e))
      | Atom _ k \<Rightarrow> ([], Malformed))"
  by pat_completeness auto
termination
proof (relation "measure length")
  fix bs x assume x: "x = id_run (words bs)" "x \<noteq> []"
  have "0 < length x" using x(2) by simp
  moreover have "4 * length x \<le> length bs" using id_run_length x(1) by simp
  ultimately have "length bs - 4 * length x < length bs" by linarith
  then show "(drop (4 * length x) bs, bs) \<in> measure length" by simp
qed (auto dest: next_atom_length)

declare events.simps [simp del]

lemma id_run_prefix: "\<exists>ws. words bs = id_run (words bs) @ ws"
  unfolding id_run_def by (intro exI) (rule takeWhile_dropWhile_id [symmetric])

lemma id_run_mem: "w \<in> set (id_run ws) \<Longrightarrow> w \<noteq> kToken \<and> w AND kSlabMask = hd ws AND kSlabMask"
  unfolding id_run_def by (auto dest: set_takeWhileD)

lemma id_run_Nil: "id_run ws = [] \<longleftrightarrow> ws = [] \<or> hd ws = kToken"
  by (cases ws) (auto simp: id_run_def)

lemma hd_id_run: "id_run ws \<noteq> [] \<Longrightarrow> hd (id_run ws) = hd ws"
  by (cases ws) (auto simp: id_run_def split: if_splits)

lemma words_drop4: "words bs = w # ws \<Longrightarrow> words (drop 4 bs) = ws \<and> 4 \<le> length bs"
  by (cases bs rule: words.cases) auto

lemma decode_ids:
  assumes "words bs = ids @ ws" "\<forall>w \<in> set ids. w \<noteq> kToken"
  shows "decode bs = (let (as, e) = decode (drop (4 * length ids) bs) in (map id_atom ids @ as, e))"
  using assms
proof (induction ids arbitrary: bs)
  case Nil
  then show ?case by (simp add: split_beta)
next
  case (Cons w ids)
  have d: "words (drop 4 bs) = ids @ ws" "4 \<le> length bs" using words_drop4 Cons.prems(1) by auto
  have "next_atom bs = Atom (id_atom w) 4" using Cons.prems d(2) by (simp add: next_atom_def)
  then have "decode bs = (let (as, e) = decode (drop 4 bs) in (id_atom w # as, e))"
    by (simp add: decode.simps [of bs])
  with Cons.IH [OF d(1)] Cons.prems(2) show ?case by (auto simp: Let_def split_beta add.commute)
qed

lemma run_event_atoms:
  assumes "ids \<noteq> []" "\<forall>w \<in> set ids. w AND kSlabMask = hd ids AND kSlabMask"
  shows "event_atoms (run_event ids) = map id_atom ids"
proof (cases "hd ids AND kSlabMask = 0")
  case True
  then have "id_atom w = ABlock w" if "w \<in> set ids" for w
    using assms(2) that by (simp add: id_atom_def)
  then show ?thesis using True by (simp add: run_event_def)
next
  case False
  then have "id_atom w = ASlab (w AND NOT kSlabMask)" if "w \<in> set ids" for w
    using assms(2) that by (simp add: id_atom_def)
  then show ?thesis using False by (simp add: run_event_def)
qed

text \<open>Grouping the IDs into runs loses and reorders nothing.\<close>

lemma events_decode: "(concat (map event_atoms (fst (events bs))), snd (events bs)) = decode bs"
proof (induction bs rule: events.induct)
  case (1 bs)
  let ?ids = "id_run (words bs)"
  show ?case
  proof (cases "?ids = []")
    case False
    obtain ws where "words bs = ?ids @ ws" using id_run_prefix by blast
    moreover have "\<forall>w \<in> set ?ids. w \<noteq> kToken \<and> w AND kSlabMask = hd ?ids AND kSlabMask"
      using id_run_mem hd_id_run [OF False] by metis
    ultimately have "decode bs = (let (as, e) = decode (drop (4 * length ?ids) bs) in (event_atoms (run_event ?ids) @ as, e))"
      using decode_ids [of bs ?ids ws] run_event_atoms [OF False] by auto
    moreover have "events bs = (let (evs, e) = events (drop (4 * length ?ids) bs) in (run_event ?ids # evs, e))"
      using False by (simp add: events.simps [of bs] Let_def)
    ultimately show ?thesis using 1(1) [OF refl False, symmetric] by (simp add: split_beta Let_def)
  next
    case True
    then have "words bs = [] \<or> hd (words bs) = kToken" by (simp add: id_run_Nil)
    then have na: "next_atom bs = Stop e \<or> (\<exists>m p k. next_atom bs = Atom (ACtrl m p) k)" if "next_atom bs = Stop e \<or> (\<exists>a k. next_atom bs = Atom a k)" for e
      using that words_nonempty [of bs] by (auto simp: next_atom_def Let_def not_less split: if_splits)
    show ?thesis
    proof (cases "next_atom bs")
      case (Stop e)
      then show ?thesis using True by (simp add: events.simps [of bs] decode.simps [of bs])
    next
      case (Atom a k)
      with na obtain m p where a: "a = ACtrl m p" by fastforce
      have "events bs = (let (evs, e) = events (drop k bs) in (EvCtrl m p # evs, e))"
        using True Atom a by (simp add: events.simps [of bs])
      moreover have "decode bs = (let (as, e) = decode (drop k bs) in (ACtrl m p # as, e))"
        using Atom a by (simp add: decode.simps [of bs])
      ultimately show ?thesis using 1(2) [OF refl _ Atom a, symmetric] True by (simp add: split_beta Let_def)
    qed
  qed
qed

text \<open>The result for the object, without the buffer.\<close>

fun forget :: "('r, 'b \<times> 's) outcome \<Rightarrow> ('r, 's) outcome" where
  "forget (Ok a (b, s)) = Ok a s"
| "forget (Throw e (b, s)) = Throw e s"
| "forget (Crash c) = Crash c"

lemma forget_bind_lift: "forget (bind_o (lift_o (Pair b) r) f) = bind_o r (\<lambda>a s. forget (f a (b, s)))"
  by (cases r) auto

definition parse_spec ::
  "'a endpoint_scheme call_handler \<Rightarrow> nat \<Rightarrow> nat \<Rightarrow> u8 list \<Rightarrow> 'a endpoint_scheme \<Rightarrow> bool" where
  "parse_spec vh off n buf st \<longleftrightarrow>
     forget (Parse_loop vh off n (buf, st)) = run_events vh (fst (events (drop off buf))) (snd (events (drop off buf))) st
     \<and> (\<forall>k buf' st'. Parse_loop vh off n (buf, st) = Ok k (buf', st') \<longrightarrow>
          k \<le> n \<and> length buf' = length buf \<and> drop (length buf - k) buf' = drop (length buf - k) buf
          \<and> snd (events (drop off buf)) = Incomplete k)"

lemma parse_spec_step:
  assumes ih: "\<And>st. parse_spec vh (off + d) (n - d) buf' st" and d: "d \<le> n" "off + n = length buf"
    and buf': "length buf' = length buf" "drop (off + d) buf' = drop (off + d) buf"
    and pl: "\<And>st. Parse_loop vh off n (buf, st) = bind_o (lift_o (Pair buf') (dispatch vh ev st)) (\<lambda>_. Parse_loop vh (off + d) (n - d))
      \<or> (\<exists>e. dispatch vh ev st = Throw e st \<and> Parse_loop vh off n (buf, st) = Throw e (buf, st))"
    and ev: "events (drop off buf) = (let (evs, e) = events (drop (off + d) buf) in (ev # evs, e))"
  shows "parse_spec vh off n buf st"
proof -
  let ?r = "bind_o (lift_o (Pair buf') (dispatch vh ev st)) (\<lambda>_. Parse_loop vh (off + d) (n - d))"
  have e: "fst (events (drop off buf)) = ev # fst (events (drop (off + d) buf))"
    "snd (events (drop off buf)) = snd (events (drop (off + d) buf))"
    by (simp_all add: ev split_beta Let_def)
  consider "Parse_loop vh off n (buf, st) = ?r"
    | err where "dispatch vh ev st = Throw err st" "Parse_loop vh off n (buf, st) = Throw err (buf, st)"
    using pl [of st] by blast
  then show ?thesis
  proof cases
    case 1
    have f: "forget (Parse_loop vh (off + d) (n - d) (buf', s))
      = run_events vh (fst (events (drop (off + d) buf))) (snd (events (drop (off + d) buf))) s" for s
      using ih [of s] by (simp add: parse_spec_def buf'(2))
    have "k \<le> n \<and> length b = length buf \<and> drop (length buf - k) b = drop (length buf - k) buf
        \<and> snd (events (drop off buf)) = Incomplete k" if r: "?r = Ok k (b, s)" for k b s
    proof -
      obtain s1 where s1: "Parse_loop vh (off + d) (n - d) (buf', s1) = Ok k (b, s)"
        using r by (cases "dispatch vh ev st") auto
      have k: "k \<le> n - d" "length b = length buf" "drop (length buf - k) b = drop (length buf - k) buf'"
        "snd (events (drop (off + d) buf)) = Incomplete k"
        using ih [of s1] s1 by (simp_all add: parse_spec_def buf')
      have "off + d \<le> length buf - k" using k(1) d by linarith
      then obtain j where j: "length buf - k = j + (off + d)" by (metis add.commute le_Suc_ex)
      have "drop (length buf - k) buf' = drop (length buf - k) buf"
        unfolding j by (metis buf'(2) drop_drop)
      with k e d show ?thesis by simp
    qed
    then show ?thesis
      unfolding parse_spec_def 1 forget_bind_lift f by (simp add: e)
  next
    case 2
    then show ?thesis by (simp add: parse_spec_def e)
  qed
qed

lemma Parse_loop_events: "off + n = length buf \<Longrightarrow> parse_spec vh off n buf st"
proof (induction n arbitrary: off buf st rule: less_induct)
  case (less n off buf st)
  let ?bs = "drop off buf" and ?ids = "id_run (words (drop off buf))"
  have bs: "take n ?bs = ?bs" "length ?bs = n" using less.prems by auto
  note pl = Parse_loop.simps [of vh off n buf, unfolded bs(1) Let_def]
  show ?case
  proof (cases "?ids = []")
    case False
    let ?d = "4 * length ?ids"
    define buf' where "buf' = (if hd ?ids AND kSlabMask \<noteq> 0
      then take off buf @ bytes_of (map (\<lambda>i. i AND NOT kSlabMask) ?ids) @ drop (off + ?d) buf else buf)"
    have d: "?d \<le> n" "0 < ?d" using id_run_length [of ?bs] bs(2) False by auto
    have b: "length buf' = length buf" "drop (off + ?d) buf' = drop (off + ?d) buf"
      using d(1) less.prems by (simp_all add: buf'_def)
    show ?thesis
    proof (rule parse_spec_step [where ev = "run_event ?ids" and d = ?d and buf' = buf'])
      show "parse_spec vh (off + ?d) (n - ?d) buf' st" for st
      proof (rule less.IH)
        show "n - ?d < n" using d by linarith
      qed (use d less.prems b in simp)
      show "Parse_loop vh off n (buf, st) = bind_o (lift_o (Pair buf') (dispatch vh (run_event ?ids) st)) (\<lambda>_. Parse_loop vh (off + ?d) (n - ?d))
        \<or> (\<exists>e. dispatch vh (run_event ?ids) st = Throw e st \<and> Parse_loop vh off n (buf, st) = Throw e (buf, st))" for st
        using False by (simp add: pl run_event_def buf'_def)
      show "events ?bs = (let (evs, e) = events (drop (off + ?d) buf) in (run_event ?ids # evs, e))"
        using False by (simp add: events.simps [of ?bs] Let_def add.commute)
    qed (use d less.prems b in simp_all)
  next
    case True
    show ?thesis
    proof (cases "next_atom ?bs")
      case (Stop e)
      then have ev: "events ?bs = ([], e)" using True by (simp add: events.simps [of ?bs])
      have "n < 4 \<or> hd (words ?bs) = kToken"
        using True words_Nil_iff [of ?bs] bs(2) by (auto simp: id_run_Nil)
      then have "Parse_loop vh off n (buf, st) = finish e (buf, st)"
        using Stop bs(2) True
        by (auto simp: pl next_atom_def Let_def split: if_splits)
      then show ?thesis using Stop bs(2)
        by (cases e) (auto simp: parse_spec_def ev next_atom_def Let_def split: if_splits)
    next
      case (Atom a k)
      have tok: "hd (words ?bs) = kToken" "8 \<le> n"
        using True words_nonempty [of ?bs] bs(2) Atom
        by (auto simp: id_run_Nil next_atom_def not_less split: if_splits)
      then obtain m p where a: "a = ACtrl m p"
        using Atom by (auto simp: next_atom_def Let_def split: if_splits)
      have k: "0 < k" "k \<le> n" using next_atom_length [OF Atom] bs(2) by auto
      show ?thesis
      proof (rule parse_spec_step [where ev = "EvCtrl m p" and d = k and buf' = buf])
        show "parse_spec vh (off + k) (n - k) buf st" for st
          using k less.prems by (intro less.IH) auto
        show "Parse_loop vh off n (buf, st) = bind_o (lift_o (Pair buf) (dispatch vh (EvCtrl m p) st)) (\<lambda>_. Parse_loop vh (off + k) (n - k))
          \<or> (\<exists>e. dispatch vh (EvCtrl m p) st = Throw e st \<and> Parse_loop vh off n (buf, st) = Throw e (buf, st))" for st
          using Atom tok True bs(2) a by (auto simp: pl next_atom_def Let_def add.assoc split: if_splits)
        show "events ?bs = (let (evs, e) = events (drop (off + k) buf) in (EvCtrl m p # evs, e))"
          using True Atom a by (simp add: events.simps [of ?bs] Let_def add.commute)
      qed (use k less.prems in simp_all)
    qed
  qed
qed

section \<open>Polling\<close>

lemma decode_rest:
  assumes "decode xs = (as, Incomplete k)"
  shows "decode (drop (length xs - k) xs) = ([], Incomplete k)"
  using decode_append [OF assms, of "[]"] assms
  by (cases "decode (drop (length xs - k) xs)") simp

lemma events_Incomplete:
  assumes "events bs = (evs, Incomplete k)"
  shows "k \<le> length bs" and "events (drop (length bs - k) bs) = ([], Incomplete k)"
proof -
  have d: "decode bs = (concat (map event_atoms evs), Incomplete k)"
    using events_decode [of bs] assms by simp
  show "k \<le> length bs" using decode_append [OF d, of "[]"] by simp
  let ?r = "drop (length bs - k) bs"
  have r: "concat (map event_atoms (fst (events ?r))) = []" "snd (events ?r) = Incomplete k"
    using events_decode [of ?r] decode_rest [OF d] by simp_all
  have "fst (events ?r) = []"
  proof (rule ccontr)
    assume ne: "fst (events ?r) \<noteq> []"
    show False
    proof (cases "id_run (words ?r) = []")
      case True
      with ne r(1) show False
        by (auto simp: events.simps [of ?r] split_beta Let_def split: step.splits atom.splits)
    next
      case False
      then have "event_atoms (run_event (id_run (words ?r))) \<noteq> []" by (simp add: run_event_def)
      with False r(1) show False by (simp add: events.simps [of ?r] split_beta Let_def)
    qed
  qed
  with r(2) show "events ?r = ([], Incomplete k)" by (cases "events ?r") simp
qed

lemma parse_all_idle:
  assumes "events buf = ([], Incomplete (length buf))"
  shows "parse_all vh (length buf) (buf, st) = Ok () (buf, st)"
proof (cases "length buf < 4")
  case True
  then show ?thesis by (simp add: parse_all.simps [of vh "length buf"] Parse_def)
next
  case False
  have spec: "parse_spec vh 0 (length buf) buf st" by (rule Parse_loop_events) simp
  then obtain b s where pl: "Parse_loop vh 0 (length buf) (buf, st) = Ok (length buf) (b, s)" "s = st"
    using assms by (cases "Parse_loop vh 0 (length buf) (buf, st)") (auto simp: parse_spec_def)
  then have "b = buf" using spec by (simp add: parse_spec_def)
  with pl False show ?thesis by (simp add: parse_all.simps [of vh "length buf"] Parse_def)
qed

text \<open>
  A poll that receives \<open>c\<close> with \<open>pend\<close> pending dispatches the events of \<open>pend @ c\<close> in order and
  keeps the incomplete rest.
\<close>

lemma Poll_events:
  assumes ev: "events (pend @ c) = (evs, Incomplete k)" and run: "run_events vh evs (Incomplete k) st = Ok k st'"
  shows "Poll vh (Received c) (pend, st) = Ok (length c) (drop (length (pend @ c) - k) (pend @ c), st')"
proof -
  let ?buf = "pend @ c" and ?n = "length (pend @ c)"
  let ?rest = "drop (?n - k) ?buf"
  note k = events_Incomplete [OF ev]
  have rest: "length ?rest = k" using k(1) by simp
  have "parse_all vh ?n (?buf, st) = Ok () (?rest, st')"
  proof (cases "?n < 4")
    case True
    then have i: "events ?buf = ([], Incomplete ?n)"
      by (simp add: events.simps [of ?buf] next_atom_def id_run_Nil words_Nil_iff)
    with ev run have "k = ?n" "st' = st" by simp_all
    with parse_all_idle [OF i, of vh st] show ?thesis by (simp del: length_append)
  next
    case False
    have spec: "parse_spec vh 0 ?n ?buf st" by (rule Parse_loop_events) simp
    then have "forget (Parse_loop vh 0 ?n (?buf, st)) = Ok k st'"
      using run ev by (simp only: parse_spec_def drop_0 fst_conv snd_conv)
    then obtain b where pl: "Parse_loop vh 0 ?n (?buf, st) = Ok k (b, st')"
      by (cases "Parse_loop vh 0 ?n (?buf, st)" rule: forget.cases) simp_all
    then have b: "drop (?n - k) b = ?rest" using spec unfolding parse_spec_def by blast
    show ?thesis
    proof (cases "?n = k")
      case True
      with pl b False show ?thesis by (subst parse_all.simps) (simp add: Parse_def)
    next
      case False
      have "parse_all vh ?n (?buf, st) = parse_all vh (?n - (?n - k)) (?rest, st')"
        using \<open>\<not> ?n < 4\<close> False k(1) pl b
        by (subst parse_all.simps) (auto simp: Parse_def simp del: length_append drop_append)
      also have "\<dots> = Ok () (?rest, st')"
        using parse_all_idle [of ?rest vh st'] k rest by (simp del: length_append drop_append)
      finally show ?thesis .
    qed
  qed
  then show ?thesis by (simp add: Poll_def Let_def del: length_append drop_append)
qed

text \<open>The events of a sequence of polls, and what stays pending.\<close>

fun feed :: "u8 list \<Rightarrow> u8 list list \<Rightarrow> event list \<times> u8 list" where
  "feed pend [] = ([], pend)"
| "feed pend (c # cs) =
     (let (evs, e) = events (pend @ c) in
      case e of
        Incomplete k \<Rightarrow> (let (evs', r) = feed (drop (length (pend @ c) - k) (pend @ c)) cs in (evs @ evs', r))
      | _ \<Rightarrow> (evs, pend @ c))"

lemma decode_prefix:
  assumes "decode (xs @ ys) = (as, Incomplete 0)" shows "\<exists>bs k. decode xs = (bs, Incomplete k)"
  using assms
proof (induction xs arbitrary: as rule: decode.induct)
  case (1 xs)
  show ?case
  proof (cases "next_atom xs")
    case (Atom a k)
    have "next_atom (xs @ ys) = Atom a k" by (rule next_atom_append [OF Atom])
    moreover have "k \<le> length xs" using next_atom_length [OF Atom] by simp
    ultimately obtain as' where "decode (drop k xs @ ys) = (as', Incomplete 0)"
      using 1(2) by (auto simp: decode.simps [of "xs @ ys"] split: prod.splits)
    from 1(1) [OF Atom this] Atom show ?thesis by (auto simp: decode.simps [of xs])
  next
    case (Stop e)
    show ?thesis
    proof (cases e)
      case (Incomplete k)
      then show ?thesis using Stop by (simp add: decode.simps)
    next
      case Malformed
      then have "4 \<le> length xs" using Stop by (auto simp: next_atom_def split: if_splits)
      from hd_words_append [OF this, of ys] have "next_atom (xs @ ys) = Stop Malformed"
        using Stop Malformed by (auto simp: next_atom_def Let_def nth_append split: if_splits)
      then show ?thesis using 1(2) by (simp add: decode.simps)
    next
      case TooLong
      then have "4 \<le> length xs" using Stop by (auto simp: next_atom_def split: if_splits)
      from hd_words_append [OF this, of ys] have "next_atom (xs @ ys) = Stop TooLong"
        using Stop TooLong by (auto simp: next_atom_def Let_def nth_append split: if_splits)
      then show ?thesis using 1(2) by (simp add: decode.simps)
    qed
  qed
qed

lemma feed_decode:
  assumes "decode (pend @ concat cs) = (as, Incomplete 0)" "decode pend = ([], Incomplete (length pend))"
  shows "concat (map event_atoms (fst (feed pend cs))) = as \<and> snd (feed pend cs) = []"
  using assms
proof (induction cs arbitrary: pend as)
  case Nil
  then show ?case by simp
next
  case (Cons c cs)
  obtain bs k where d: "decode (pend @ c) = (bs, Incomplete k)"
    using decode_prefix [of "pend @ c" "concat cs"] Cons.prems(1) by auto
  let ?r = "drop (length (pend @ c) - k) (pend @ c)"
  obtain cs' e' where r: "decode (?r @ concat cs) = (cs', e')" by (cases "decode (?r @ concat cs)")
  have k: "k \<le> length (pend @ c)" and eq: "as = bs @ cs'" "e' = Incomplete 0"
    using decode_append [OF d, of "concat cs"] Cons.prems(1) r by (simp_all add: Let_def)
  have "length ?r = k" using k by simp
  then have "decode ?r = ([], Incomplete (length ?r))" using decode_rest [OF d] by simp
  note ih = Cons.IH [OF r [unfolded eq(2)] this]
  have "concat (map event_atoms (fst (events (pend @ c)))) = bs" "snd (events (pend @ c)) = Incomplete k"
    using events_decode [of "pend @ c"] d by simp_all
  with ih eq show ?case
    by (cases "events (pend @ c)") (simp add: Let_def split_beta del: length_append drop_append)
qed

section \<open>From sender to handler\<close>

text \<open>
  \<open>delivers st r c\<close>: the send operation with result \<open>r\<close> put one control message on the
  socket, and a receiver that dispatches this message makes the call \<open>c\<close>.
\<close>

definition delivers :: "'a endpoint_scheme \<Rightarrow> (nat, 'a endpoint_scheme) outcome \<Rightarrow> endpoint_call \<Rightarrow> bool" where
  "delivers st r c \<longleftrightarrow> (\<exists>m p. atom_ok (ACtrl m p)
     \<and> r = Ok (8 + length p) (st\<lparr>sock_out := sock_out st @ encode (ACtrl m p)\<rparr>)
     \<and> (\<forall>(vh :: endpoint call_handler) rt. validPeer rt \<longrightarrow> LocalHandleCtrlMsg vh m p rt = vh c rt))"

lemma SendCtrlMsg_whole:
  assumes "\<not> sendFailed st" "kernel st = []" "length (concat parts) \<le> kMaxPayloadSize"
  shows "SendCtrlMsg m parts st = Ok (8 + length (concat parts)) (st\<lparr>sock_out := sock_out st @ encode (ACtrl m (concat parts))\<rparr>)"
  using assms by (simp add: SendCtrlMsg_def Let_def kernel_send_def CtrlMsgHdr_def)

lemma deliversI:
  assumes "\<not> sendFailed st" "kernel st = []" "length (concat parts) \<le> kMaxPayloadSize" "length (concat parts) mod 4 = 0"
    and "\<And>(vh :: endpoint call_handler) rt. validPeer rt \<Longrightarrow> LocalHandleCtrlMsg vh m (concat parts) rt = vh c rt"
  shows "delivers st (SendCtrlMsg m parts st) c"
  unfolding delivers_def using SendCtrlMsg_whole [OF assms(1-3), of m] assms(3-5)
  by (intro exI [of _ m] exI [of _ "concat parts"]) simp

lemma words_two: "words (bytes32 a @ bytes32 b) = [a, b]" "words (bytes32 a) = [a]"
  using words_bytes_of [of "[a, b]" "[]"] words_bytes_of [of "[a]" "[]"] by simp_all

lemma ucast_scast_u16: "ucast (scast (w :: u16) :: u32) = w"
  by (rule bit_eqI) (simp add: bit_simps)

lemmas send_defs = SendNumSlabs_def SendSequenceToken_def SendClientPID_def SendClientID_def SendDropReport_def
  SendDropReportAck_def SendRegistrationsWanted_def SendProdNiceLevel_def SendManagerEcho_def

lemma delivers_fixed:
  assumes "\<not> sendFailed st" "kernel st = []"
  shows "delivers st (SendNumSlabs a b st) (HandleNumSlabs a b)"
    and "delivers st (SendSequenceToken a st) (HandleSequenceToken a)"
    and "delivers st (SendClientPID a st) (HandleClientPID a)"
    and "delivers st (SendClientID i st) (HandleClientID i)"
    and "delivers st (SendDropReport a b st) (HandleDropReport a b)"
    and "delivers st (SendDropReportAck st) HandleDropReportAck"
    and "delivers st (SendRegistrationsWanted w st) (HandleRegistrationsWanted w w)"
    and "delivers st (SendProdNiceLevel a st) (HandleProdNiceLevel a)"
    and "length e \<le> kMaxPayloadSize \<Longrightarrow> length e mod 4 = 0 \<Longrightarrow> delivers st (SendManagerEcho e st) (HandleManagerEcho e)"
  unfolding send_defs Let_def
  by (rule deliversI [OF assms];
      simp add: kMaxPayloadSize_def LocalHandleCtrlMsg_def Let_def ctrl_ids words_two ucast_scast_u16)+

text \<open>Messages with a variable part.\<close>

lemma block_info_round_trip: "block_info_of (block_info_bytes b @ bs) = b"
proof -
  have w: "words (block_info_bytes b @ bs) = [bi_messageID b, bi_size b, bi_crc32c b,
      le_word (ucast (bi_segmentNumber b)) (ucast (drop_bit 8 (bi_segmentNumber b)))
        (ucast (bi_numSegments b)) (ucast (drop_bit 8 (bi_numSegments b))),
      ucast (bi_sendTime b), ucast (drop_bit 32 (bi_sendTime b))] @ words bs"
    by (simp add: block_info_bytes_def bytes16_def)
  have t: "(ucast (ucast t :: u32) :: u64) OR push_bit 32 (ucast (ucast (drop_bit 32 t) :: u32)) = t" for t :: u64
  proof (rule bit_eqI)
    fix n assume "possible_bit TYPE(u64) n"
    then show "bit ((ucast (ucast t :: u32) :: u64) OR push_bit 32 (ucast (ucast (drop_bit 32 t) :: u32))) n = bit t n"
      by (cases "n < 32") (auto simp: bit_simps)
  qed
  show ?thesis
    by (simp add: block_info_of_def w Let_def t)
      (simp add: block_info_bytes_def bytes32_def bytes16_def le_half_bytes16)
qed

lemma length_block_info_bytes: "length (block_info_bytes b) = 24"
  by (simp add: block_info_bytes_def)

lemma block_infos_round_trip:
  "block_infos (length infos) (concat (map block_info_bytes infos)) = infos"
proof (induction infos)
  case (Cons b infos)
  have "take 24 (block_info_bytes b @ cs) = block_info_bytes b" "drop 24 (block_info_bytes b @ cs) = cs" for cs
    using length_block_info_bytes [of b] by simp_all
  with Cons block_info_round_trip [of b "[]"] show ?case by simp
qed simp

lemma delivers_blocks:
  assumes "\<not> sendFailed st" "kernel st = []" "length ids = length infos" "ids \<noteq> []" "length ids \<le> maxPerSend"
  shows "delivers st (SendBlocksAndInfo ids infos st) (HandleBlocksAndInfo ids infos)"
proof -
  let ?n = "length ids" and ?info = "concat (map block_info_bytes infos)"
  let ?parts = "[bytes_of ids, ?info]"
  have n: "?n \<le> 36" using assms(5) by (simp add: maxPerSend_def kMaxPayloadSize_def)
  have li: "length ?info = 24 * ?n"
    using assms(3) by (simp add: length_concat comp_def length_block_info_bytes sum_list_triv)
  have len: "length (concat ?parts) = 28 * ?n" using li by simp
  have d: "delivers st (SendCtrlMsg kCtrlMsgID_BlocksAndInfo ?parts st) (HandleBlocksAndInfo ids infos)"
  proof (rule deliversI [OF assms(1,2)])
    show "length (concat ?parts) \<le> kMaxPayloadSize" using len n by (simp add: kMaxPayloadSize_def)
    show "length (concat ?parts) mod 4 = 0" using len by presburger
    fix vh :: "endpoint call_handler" and rt :: endpoint assume "validPeer rt"
    moreover have "take ?n (words (concat ?parts)) = ids" "drop (4 * ?n) (concat ?parts) = ?info" by simp_all
    moreover have "block_infos ?n ?info = infos" using block_infos_round_trip [of infos] assms(3) by simp
    ultimately show "LocalHandleCtrlMsg vh kCtrlMsgID_BlocksAndInfo (concat ?parts) rt = vh (HandleBlocksAndInfo ids infos) rt"
      using len by (simp add: LocalHandleCtrlMsg_def Let_def ctrl_ids)
  qed
  let ?z = "zip ids infos"
  have z: "map fst ?z = ids" "map (block_info_bytes \<circ> snd) ?z = map block_info_bytes infos"
    "take maxPerSend ?z = ?z" "drop maxPerSend ?z = []" "?z \<noteq> []"
    using assms(3-5) by (auto simp: map_zip_map2 simp flip: map_map)
  obtain x xs where zx: "?z = x # xs" using z(5) by (cases ?z) auto
  obtain k s where k: "SendCtrlMsg kCtrlMsgID_BlocksAndInfo ?parts st = Ok k s"
    using SendCtrlMsg_whole [OF assms(1,2), of ?parts] len n by (simp add: kMaxPayloadSize_def)
  have "SendBlocksAndInfo ids infos st = SendCtrlMsg kCtrlMsgID_BlocksAndInfo ?parts st"
    unfolding SendBlocksAndInfo_def zx
    by (simp only: SendBlocksAndInfo_loop.simps Let_def z [unfolded zx] k bind_o.simps if_cancel add_0)
  with d show ?thesis by simp
qed

lemma LocalHandle_registration:
  assumes "validPeer rt" "type = 0 \<or> type = 1 \<or> type = (2 :: u32)" "length p = 4 + n * 4"
  shows "LocalHandleCtrlMsg vh (kCtrlMsgID_Registration + ucast type) p rt
    = vh (HandleRegistration type (le_half (p ! 0) (p ! 1)) (le_half (p ! 2) (p ! 3)) (drop 1 (words p))) rt"
proof -
  have "(length p - 4) div 4 = n" using assms(3) by simp
  then show ?thesis
    using assms(2) assms(1,3) by (elim disjE) (simp_all add: LocalHandleCtrlMsg_def ctrl_ids)
qed

lemma delivers_registration:
  assumes "\<not> sendFailed st" "kernel st = []" "type \<le> 2" "ids \<noteq> []" "length ids \<le> kMaxMsgIDs"
  shows "delivers st (SendRegistration type c g ids st) (HandleRegistration type c g ids)"
proof -
  let ?p = "bytes16 c @ bytes16 g @ bytes_of ids"
  have n: "length ids \<le> 255" using assms(5) by (simp add: kMaxMsgIDs_def kMaxPayloadSize_def)
  have t: "type = 0 \<or> type = 1 \<or> type = 2"
  proof -
    have "unat type \<le> 2" using assms(3) by (simp add: word_le_nat_alt)
    then have "unat type = unat (0 :: u32) \<or> unat type = unat (1 :: u32) \<or> unat type = unat (2 :: u32)" by auto
    then show ?thesis by (metis unsigned_word_eqI)
  qed
  have w: "drop 1 (words ?p) = ids"
    using words_bytes_of [of ids "[]"] by (simp add: bytes16_def)
  have d: "delivers st (SendCtrlMsg (kCtrlMsgID_Registration + ucast type) [?p] st) (HandleRegistration type c g ids)"
  proof (rule deliversI [OF assms(1,2)])
    show "length (concat [?p]) \<le> kMaxPayloadSize" "length (concat [?p]) mod 4 = 0"
      using n by (simp_all add: kMaxPayloadSize_def)
    fix vh :: "endpoint call_handler" and rt :: endpoint assume vp: "validPeer rt"
    have h: "le_half (?p ! 0) (?p ! 1) = c" "le_half (?p ! 2) (?p ! 3) = g"
      by (simp_all add: bytes16_def le_half_bytes16)
    have "length ?p = 4 + length ids * 4" "concat [?p] = ?p" by simp_all
    with LocalHandle_registration [OF vp t this(1), of vh]
    show "LocalHandleCtrlMsg vh (kCtrlMsgID_Registration + ucast type) (concat [?p]) rt = vh (HandleRegistration type c g ids) rt"
      by (simp only: h w)
  qed
  obtain m ms where ids: "ids = m # ms" using assms(4) by (cases ids) auto
  obtain k s where k: "SendCtrlMsg (kCtrlMsgID_Registration + ucast type) [?p] st = Ok k s"
    using SendCtrlMsg_whole [OF assms(1,2), of "[?p]"] n by (simp add: kMaxPayloadSize_def)
  have "SendRegistration type c g ids st = SendCtrlMsg (kCtrlMsgID_Registration + ucast type) [?p] st"
    using assms(3,5) k by (simp add: SendRegistration_def ids not_less del: bytes_of_simps)
  with d show ?thesis by simp
qed

lemma pad4: "(n + (4 - n mod 4) mod 4) mod 4 = (0 :: nat)"
proof -
  have "n mod 4 < 4" by simp
  then have "n mod 4 \<in> {0, 1, 2, 3}" by auto
  then have "(n mod 4 + (4 - n mod 4) mod 4) mod 4 = 0" by auto
  then show ?thesis by (simp add: mod_add_left_eq)
qed

lemma delivers_string:
  assumes "\<not> sendFailed st" "kernel st = []" "0 \<notin> set str" "length str \<le> 1016"
  shows "delivers st (SendCtrlString which str st) (HandleCtrlString which str)"
proof -
  let ?pad = "(4 - (length str + 1) mod 4) mod 4"
  let ?parts = "[bytes32 which, str @ [0]] @ (if ?pad \<noteq> 0 then [replicate ?pad 0] else [])"
  have c: "concat ?parts = bytes32 which @ str @ 0 # replicate ?pad 0" by simp
  have "delivers st (SendCtrlMsg kCtrlMsgID_CtrlString ?parts st) (HandleCtrlString which str)"
  proof (rule deliversI [OF assms(1,2)])
    have "?pad \<le> 3" by simp
    then show "length (concat ?parts) \<le> kMaxPayloadSize" unfolding c using assms(4) by (simp add: kMaxPayloadSize_def)
    have "length (concat ?parts) = 4 + (length str + 1 + ?pad)" unfolding c by simp
    then show "length (concat ?parts) mod 4 = 0" using pad4 [of "length str + 1"] by (simp only: mod_add_self1)
    fix vh :: "endpoint call_handler" and rt :: endpoint assume "validPeer rt"
    moreover have "takeWhile (\<lambda>b. b \<noteq> 0) (str @ 0 # zs) = str" for zs
      using assms(3) by (subst takeWhile_append2) auto
    ultimately show "LocalHandleCtrlMsg vh kCtrlMsgID_CtrlString (concat ?parts) rt = vh (HandleCtrlString which str) rt"
      unfolding c by (simp add: LocalHandleCtrlMsg_def Let_def ctrl_ids)
  qed
  then show ?thesis unfolding SendCtrlString_def Let_def .
qed

text \<open>
  The early exit of \<open>SendBlocksAndInfo\<close>: of exactly 1016 blocks only the first 36 are sent,
  because their message has 1016 bytes.
\<close>

lemma SendBlocksAndInfo_1016:
  assumes "\<not> sendFailed st" "kernel st = []" "length bs = 1016"
  shows "\<exists>p. length p = 1008 \<and> SendBlocksAndInfo_loop 0 bs st
    = Ok 1016 (st\<lparr>sock_out := sock_out st @ encode (ACtrl kCtrlMsgID_BlocksAndInfo p)\<rparr>)"
proof -
  let ?now = "take maxPerSend bs"
  let ?parts = "[bytes_of (map fst ?now), concat (map (block_info_bytes \<circ> snd) ?now)]"
  have "length ?now = 36" using assms(3) by (simp add: maxPerSend_def kMaxPayloadSize_def)
  then have len: "length (concat ?parts) = 1008"
    by (simp add: length_concat comp_def length_block_info_bytes sum_list_triv)
  then have send: "SendCtrlMsg kCtrlMsgID_BlocksAndInfo ?parts st
      = Ok 1016 (st\<lparr>sock_out := sock_out st @ encode (ACtrl kCtrlMsgID_BlocksAndInfo (concat ?parts))\<rparr>)"
    using SendCtrlMsg_whole [OF assms(1,2), of ?parts] by (simp add: kMaxPayloadSize_def)
  obtain b bs' where bs: "bs = b # bs'" using assms(3) by (cases bs) auto
  have "SendBlocksAndInfo_loop 0 bs st
      = Ok 1016 (st\<lparr>sock_out := sock_out st @ encode (ACtrl kCtrlMsgID_BlocksAndInfo (concat ?parts))\<rparr>)"
    using send assms(3) unfolding bs by (simp only: SendBlocksAndInfo_loop.simps Let_def bind_o.simps) simp
  with len show ?thesis by (intro exI [of _ "concat ?parts"]) simp
qed

section \<open>Properties\<close>

definition example_endpoint :: endpoint where
  "example_endpoint = \<lparr>sendFailed = False, validPeer = True, throwOnPeerDisconnect = True, groupID = 0,
     blockRetry = False, sock_out = [], kernel = []\<rparr>"



text \<open>
  C21: a poll that receives \<open>c\<close> while \<open>pend\<close> is pending dispatches the events of the bytes
  \<open>pend @ c\<close> one after the other and keeps exactly the incomplete rest, although the parser
  works in place, in runs, and is called again on what it left.
\<close>

theorem Poll_dispatches:
  assumes "events (pend @ c) = (evs, Incomplete k)" and "run_events vh evs (Incomplete k) st = Ok k st'"
  shows "Poll vh (Received c) (pend, st) = Ok (length c) (drop (length (pend @ c) - k) (pend @ c), st')"
  by (rule Poll_events [OF assms])

theorem Poll_dispatches_witness:
  "Poll base_handler (Received [0, 0, 9]) ([5, 0], example_endpoint) = Ok 3 ([9], example_endpoint)"
proof -
  have "events ([5, 0] @ [0, 0, 9]) = ([EvBlocks [5]], Incomplete 1)"
    by (simp add: events.simps [of "_ # _"] id_run_def le_word_def kToken_def kSlabMask_def run_event_def next_atom_def Let_def)
  from Poll_dispatches [OF this, of base_handler example_endpoint example_endpoint] show ?thesis
    by (simp add: base_handler_def example_endpoint_def)
qed



text \<open>
  \<open>SendBlockIDs\<close> compares the bytes sent with the bytes that remain: when the kernel takes
  at least half but not all of the bytes, the loop ends and reports success although the rest
  was never sent.
\<close>

theorem SendBlockIDs_stops_early:
  assumes "\<not> sendFailed st" and "kernel st = [Sent n]" and "n < 4 * length ids" and "2 * length ids \<le> n"
  shows "SendBlockIDs ids st = Ok n (st\<lparr>kernel := [], sock_out := sock_out st @ take n (bytes_of ids)\<rparr>)"
proof -
  have "min n (4 * length ids) = n" "\<not> n < 4 * length ids - n" "ids \<noteq> []" using assms(3,4) by auto
  then show ?thesis
    using assms(1-3) by (simp add: SendBlockIDs_def kernel_send_def Let_def numeral_3_eq_3)
qed

theorem SendBlockIDs_stops_early_witness:
  "SendBlockIDs [1, 2] (example_endpoint\<lparr>kernel := [Sent 4]\<rparr>) = Ok 4 (example_endpoint\<lparr>sock_out := bytes32 1\<rparr>)"
  using SendBlockIDs_stops_early [of "example_endpoint\<lparr>kernel := [Sent 4]\<rparr>" 4 "[1, 2]"]
  by (simp add: example_endpoint_def bytes32_def)

text \<open>
  when the kernel takes a part of a control message that ends inside one of the vectors,
  the loop that advances the vectors runs past the last one.
\<close>

theorem SendCtrlMsg_partial_overrun:
  assumes "\<not> sendFailed st" and "kernel st = [Sent n]" and "length p \<le> kMaxPayloadSize"
    and "n < 8 + length p" and "n \<noteq> 8"
  shows "SendCtrlMsg m [p] st = Crash OutOfBounds"
proof -
  have "min n (8 + length p) = n" using assms(4) by simp
  moreover have "advance_iov (int n) [CtrlMsgHdr m (length p), p] = None"
    using assms(4,5) by (simp add: CtrlMsgHdr_def)
  ultimately show ?thesis
    using assms(1-4) by (simp add: SendCtrlMsg_def kernel_send_def Let_def CtrlMsgHdr_def)
qed

theorem SendCtrlMsg_partial_overrun_witness:
  "SendCtrlMsg 4 [bytes32 1] (example_endpoint\<lparr>kernel := [Sent 10]\<rparr>) = Crash OutOfBounds"
  by (rule SendCtrlMsg_partial_overrun [of _ 10]) (simp_all add: example_endpoint_def kMaxPayloadSize_def)

text \<open>
  C26: a payload whose length is not a multiple of four (which \<open>SendManagerEcho\<close> accepts) makes
  the receiver fail an assertion.
\<close>

theorem odd_echo_crashes_peer:
  assumes "length e \<le> kMaxPayloadSize" and "length e mod 4 \<noteq> 0" and "\<not> sendFailed st" and "kernel st = []"
    and "sock_out st = []"
  shows "\<exists>st'. SendManagerEcho e st = Ok (8 + length e) st' \<and> Poll vh (Received (sock_out st')) ([], rt) = Crash AssertionFailed"
proof -
  let ?m = "CtrlMsgHdr kCtrlMsgID_ManagerEcho (length e) @ e"
  have len: "unat (of_nat (length e) :: u16) = length e"
    using assms(1) by (simp add: kMaxPayloadSize_def unsigned_of_nat take_bit_nat_eq_self)
  have "words ?m = kToken # words (drop 4 ?m)"
    by (simp add: CtrlMsgHdr_def bytes32_def le_word_bytes32)
  moreover have "le_half (?m ! 6) (?m ! 7) = of_nat (length e)"
    by (simp add: CtrlMsgHdr_def bytes32_def bytes16_def le_half_bytes16)
  ultimately have "next_atom ?m = Stop Malformed" "id_run (words ?m) = []"
    using len assms(2) by (simp_all add: next_atom_def Let_def CtrlMsgHdr_def id_run_Nil)
  then have ev: "events ?m = ([], Malformed)" by (simp add: events.simps [of ?m])
  have "parse_spec vh 0 (length ?m) ?m rt" by (rule Parse_loop_events) simp
  then have "Parse_loop vh 0 (length ?m) (?m, rt) = Crash AssertionFailed"
    by (cases "Parse_loop vh 0 (length ?m) (?m, rt)" rule: forget.cases) (simp_all add: parse_spec_def ev)
  then have "parse_all vh (length ?m) (?m, rt) = Crash AssertionFailed"
    by (subst parse_all.simps) (simp add: Parse_def CtrlMsgHdr_def)
  then show ?thesis
    using SendCtrlMsg_whole [OF assms(3,4), of "[e]" kCtrlMsgID_ManagerEcho] assms(1,5)
    by (simp add: SendManagerEcho_def Poll_def Let_def)
qed

theorem odd_echo_crashes_peer_witness:
  "\<exists>st'. SendManagerEcho [1, 2, 3] example_endpoint = Ok 11 st'
    \<and> Poll base_handler (Received (sock_out st')) ([], example_endpoint) = Crash AssertionFailed"
  using odd_echo_crashes_peer [of "[1, 2, 3]" example_endpoint base_handler example_endpoint]
  by (simp add: example_endpoint_def kMaxPayloadSize_def)

end
