(* ===== verification/Drop_Reporter.thy ===== *)
theory Drop_Reporter
  imports MCSB_Prelude
begin

text \<open>
  \<open>DropReporter\<close> (apps/MCSBManager/DropReporter.cc): a client proxy accumulates what it
  dropped and reports it with at most one unacknowledged report in flight.  Shown here:
  nothing that was dropped is lost from the reports (up to the 32-bit saturation of one
  report), no report is made while the previous one is unacknowledged, and every drop is
  reported once the acknowledgement arrives.
\<close>

section \<open>Model\<close>

record drop_reporter =
  needReport :: bool
  throttle :: bool
  segsDropped :: u64
  bytesDropped :: u64

definition dr_Reset :: drop_reporter where
  "dr_Reset = \<lparr>needReport = False, throttle = False, segsDropped = 0, bytesDropped = 0\<rparr>"

definition dr_Dropped :: "u32 \<Rightarrow> u32 \<Rightarrow> drop_reporter \<Rightarrow> drop_reporter" where
  "dr_Dropped segs bytes d =
     (if segs = 0 \<and> bytes = 0 then d
      else d\<lparr>needReport := True,
             segsDropped := segsDropped d + ucast segs,
             bytesDropped := bytesDropped d + ucast bytes\<rparr>)"

definition dr_Ack :: "drop_reporter \<Rightarrow> drop_reporter" where
  "dr_Ack d = d\<lparr>throttle := False\<rparr>"

definition u32_max :: u64 where
  "u32_max = 0xFFFFFFFF"

text \<open>\<open>GetReport\<close> returns \<open>None\<close> for \<open>false\<close> and the two output parameters otherwise.\<close>

definition dr_GetReport :: "drop_reporter \<Rightarrow> (u32 \<times> u32) option \<times> drop_reporter" where
  "dr_GetReport d =
     (if \<not> needReport d \<or> throttle d then (None, d)
      else let sd = (if segsDropped d > u32_max then u32_max else segsDropped d);
               bd = (if bytesDropped d > u32_max then u32_max else bytesDropped d)
           in (Some (ucast sd, ucast bd), dr_Reset\<lparr>throttle := True\<rparr>))"

section \<open>Conversation of a reporter with its owner\<close>

datatype dr_op = DrDrop u32 u32 | DrAck | DrGet

fun dr_step :: "dr_op \<Rightarrow> drop_reporter \<Rightarrow> (u32 \<times> u32) option \<times> drop_reporter" where
  "dr_step (DrDrop s b) d = (None, dr_Dropped s b d)"
| "dr_step DrAck d = (None, dr_Ack d)"
| "dr_step DrGet d = dr_GetReport d"

text \<open>The reports a run of operations produces, with the final state.\<close>

fun dr_run :: "dr_op list \<Rightarrow> drop_reporter \<Rightarrow> (u32 \<times> u32) list \<times> drop_reporter" where
  "dr_run [] d = ([], d)"
| "dr_run (x # xs) d =
     (let (r, d') = dr_step x d; (rs, d'') = dr_run xs d'
      in ((case r of None \<Rightarrow> rs | Some p \<Rightarrow> p # rs), d''))"

fun dropped_segs :: "dr_op list \<Rightarrow> nat" where
  "dropped_segs [] = 0"
| "dropped_segs (DrDrop s b # xs) = unat s + dropped_segs xs"
| "dropped_segs (_ # xs) = dropped_segs xs"

fun dropped_bytes :: "dr_op list \<Rightarrow> nat" where
  "dropped_bytes [] = 0"
| "dropped_bytes (DrDrop s b # xs) = unat b + dropped_bytes xs"
| "dropped_bytes (_ # xs) = dropped_bytes xs"

definition reported_segs :: "(u32 \<times> u32) list \<Rightarrow> nat" where
  "reported_segs rs = sum_list (map (unat \<circ> fst) rs)"

definition reported_bytes :: "(u32 \<times> u32) list \<Rightarrow> nat" where
  "reported_bytes rs = sum_list (map (unat \<circ> snd) rs)"

section \<open>Lemmas\<close>

lemma unat_u32_max [simp]: "unat u32_max = 2 ^ 32 - 1"
  by (simp add: u32_max_def)

lemma dr_run_Cons_None [simp]:
  "dr_run (DrDrop s b # xs) d = dr_run xs (dr_Dropped s b d)"
  "dr_run (DrAck # xs) d = dr_run xs (dr_Ack d)"
  by (auto simp: Let_def split: prod.splits)

lemma dr_Reset_fields [simp]:
  "needReport dr_Reset = False" "throttle dr_Reset = False"
  "segsDropped dr_Reset = 0" "bytesDropped dr_Reset = 0"
  by (simp_all add: dr_Reset_def)

definition dr_ok :: "drop_reporter \<Rightarrow> bool" where
  "dr_ok d \<longleftrightarrow> (needReport d \<longleftrightarrow> segsDropped d \<noteq> 0 \<or> bytesDropped d \<noteq> 0)"

lemma dr_Dropped_counts:
  assumes "unat (segsDropped d) + unat s < 2 ^ 32" and "unat (bytesDropped d) + unat b < 2 ^ 32"
  shows "unat (segsDropped (dr_Dropped s b d)) = unat (segsDropped d) + unat s"
    and "unat (bytesDropped (dr_Dropped s b d)) = unat (bytesDropped d) + unat b"
  using assms by (auto simp: dr_Dropped_def unat_add_u64)

lemma dr_Dropped_ok:
  assumes "dr_ok d" and "unat (segsDropped d) + unat s < 2 ^ 32"
    and "unat (bytesDropped d) + unat b < 2 ^ 32"
  shows "dr_ok (dr_Dropped s b d)"
  using assms dr_Dropped_counts [OF assms(2,3)] unfolding dr_ok_def
  by (auto simp: dr_Dropped_def simp flip: unat_eq_zero)

lemma dr_GetReport_exact:
  assumes "dr_ok d" and "unat (segsDropped d) < 2 ^ 32" and "unat (bytesDropped d) < 2 ^ 32"
  shows "case dr_GetReport d of (r, d') \<Rightarrow>
    dr_ok d' \<and>
    (case r of
       None \<Rightarrow> d' = d
     | Some (s, b) \<Rightarrow> unat s = unat (segsDropped d) \<and> unat b = unat (bytesDropped d)
         \<and> segsDropped d' = 0 \<and> bytesDropped d' = 0)"
proof -
  have "\<not> segsDropped d > u32_max" "\<not> bytesDropped d > u32_max"
    using assms by (auto simp: word_less_nat_alt)
  with assms show ?thesis
    by (auto simp: dr_GetReport_def dr_ok_def unat_ucast_u64_u32 Let_def)
qed

lemma dr_run_conserves:
  assumes "dr_ok d"
    and "unat (segsDropped d) + dropped_segs xs < 2 ^ 32"
    and "unat (bytesDropped d) + dropped_bytes xs < 2 ^ 32"
    and "dr_run xs d = (rs, d')"
  shows "reported_segs rs + unat (segsDropped d') = unat (segsDropped d) + dropped_segs xs
    \<and> reported_bytes rs + unat (bytesDropped d') = unat (bytesDropped d) + dropped_bytes xs"
  using assms
proof (induction xs arbitrary: d rs)
  case Nil
  then show ?case by (auto simp: reported_segs_def reported_bytes_def)
next
  case (Cons x xs)
  show ?case
  proof (cases x)
    case (DrDrop s b)
    then have b1: "unat (segsDropped d) + unat s < 2 ^ 32" and b2: "unat (bytesDropped d) + unat b < 2 ^ 32"
      using Cons.prems by auto
    show ?thesis
      using Cons.IH [of "dr_Dropped s b d" rs] Cons.prems dr_Dropped_ok [OF Cons.prems(1) b1 b2]
        dr_Dropped_counts [OF b1 b2] by (simp add: DrDrop add.assoc)
  next
    case DrAck
    have "dr_ok (dr_Ack d)" using Cons.prems by (simp add: dr_Ack_def dr_ok_def)
    then show ?thesis
      using Cons.IH [of "dr_Ack d" rs] Cons.prems by (simp add: DrAck dr_Ack_def)
  next
    case DrGet
    obtain r d1 where g: "dr_GetReport d = (r, d1)" by (cases "dr_GetReport d")
    obtain rs1 where rs1: "dr_run xs d1 = (rs1, d')" and rs: "rs = (case r of None \<Rightarrow> rs1 | Some p \<Rightarrow> p # rs1)"
      using Cons.prems(4) by (auto simp: DrGet g Let_def split: prod.splits)
    have "unat (segsDropped d) < 2 ^ 32" "unat (bytesDropped d) < 2 ^ 32"
      using Cons.prems by (auto simp: DrGet)
    note ex = dr_GetReport_exact [OF Cons.prems(1) this, unfolded g]
    show ?thesis
      using Cons.IH [of d1 rs1] Cons.prems ex rs1
      by (cases r) (auto simp: DrGet rs reported_segs_def reported_bytes_def)
  qed
qed

lemma dr_run_append:
  "dr_run (xs @ ys) d = (case dr_run xs d of (rs, d1) \<Rightarrow> case dr_run ys d1 of (ss, d2) \<Rightarrow> (rs @ ss, d2))"
  by (induction xs arbitrary: d) (auto simp: Let_def split: prod.splits option.splits)

lemma dr_run_ok:
  assumes "dr_ok d" "unat (segsDropped d) + dropped_segs xs < 2 ^ 32"
    "unat (bytesDropped d) + dropped_bytes xs < 2 ^ 32" "dr_run xs d = (rs, d')"
  shows "dr_ok d'"
  using assms
proof (induction xs arbitrary: d rs)
  case (Cons x xs)
  show ?case
  proof (cases x)
    case (DrDrop s b)
    then have b: "unat (segsDropped d) + unat s < 2 ^ 32" "unat (bytesDropped d) + unat b < 2 ^ 32"
      using Cons.prems by auto
    show ?thesis
      using Cons.IH [of "dr_Dropped s b d" rs] Cons.prems dr_Dropped_ok [OF Cons.prems(1) b]
        dr_Dropped_counts [OF b] by (simp add: DrDrop add.assoc)
  next
    case DrAck
    have "dr_ok (dr_Ack d)" using Cons.prems by (simp add: dr_Ack_def dr_ok_def)
    then show ?thesis using Cons.IH [of "dr_Ack d" rs] Cons.prems by (simp add: DrAck dr_Ack_def)
  next
    case DrGet
    obtain r d1 where g: "dr_GetReport d = (r, d1)" by (cases "dr_GetReport d")
    have "unat (segsDropped d) < 2 ^ 32" "unat (bytesDropped d) < 2 ^ 32" using Cons.prems by (auto simp: DrGet)
    note ex = dr_GetReport_exact [OF Cons.prems(1) this, unfolded g]
    show ?thesis
      using Cons.IH [of d1] Cons.prems ex
      by (auto simp: DrGet g Let_def split: prod.splits option.splits)
  qed
qed simp

section \<open>Properties\<close>

text \<open>
  C19: whatever a proxy drops, acknowledges and polls for, after one more acknowledgement and
  poll the reports sent so far add up to exactly the segments and bytes dropped.
\<close>

theorem drops_all_reported:
  assumes "dropped_segs xs < 2 ^ 32" and "dropped_bytes xs < 2 ^ 32"
  shows "case dr_run (xs @ [DrAck, DrGet]) dr_Reset of (rs, d) \<Rightarrow>
    reported_segs rs = dropped_segs xs \<and> reported_bytes rs = dropped_bytes xs"
proof -
  obtain rs d where r: "dr_run xs dr_Reset = (rs, d)" by (cases "dr_run xs dr_Reset")
  have ok: "dr_ok dr_Reset" by (simp add: dr_ok_def)
  note c = dr_run_conserves [OF ok _ _ r] and k = dr_run_ok [OF ok _ _ r]
  have "dr_ok (dr_Ack d)" "\<not> throttle (dr_Ack d)" using k assms by (simp_all add: dr_ok_def dr_Ack_def)
  moreover have "unat (segsDropped (dr_Ack d)) < 2 ^ 32" "unat (bytesDropped (dr_Ack d)) < 2 ^ 32"
    using c assms by (simp_all add: dr_Ack_def)
  ultimately have "case dr_GetReport (dr_Ack d) of (r, d') \<Rightarrow>
      (case r of None \<Rightarrow> unat (segsDropped d) = 0 \<and> unat (bytesDropped d) = 0
       | Some (s, b) \<Rightarrow> unat s = unat (segsDropped d) \<and> unat b = unat (bytesDropped d))"
    using dr_GetReport_exact [of "dr_Ack d"]
    by (auto simp: dr_GetReport_def dr_ok_def dr_Ack_def Let_def split: if_splits)
  then show ?thesis
    using c assms
    by (auto simp: dr_run_append r Let_def reported_segs_def reported_bytes_def split: prod.splits option.splits)
qed

theorem drops_all_reported_witness:
  "case dr_run ([DrDrop 2 700, DrGet, DrDrop 1 9] @ [DrAck, DrGet]) dr_Reset of (rs, d) \<Rightarrow>
    reported_segs rs = 3 \<and> reported_bytes rs = 709"
  using drops_all_reported [of "[DrDrop 2 700, DrGet, DrDrop 1 9]"] by (simp split: prod.splits)

text \<open>after a report nothing more is reported until it is acknowledged.\<close>

theorem one_report_in_flight:
  assumes "dr_GetReport d = (Some r, d')" and "DrAck \<notin> set xs"
  shows "fst (dr_run xs d') = []"
proof -
  have "throttle d'" using assms(1) by (auto simp: dr_GetReport_def Let_def split: if_splits)
  then show ?thesis using assms(2)
  proof (induction xs arbitrary: d')
    case (Cons x xs)
    then show ?case
      by (cases x) (auto simp: dr_Dropped_def dr_GetReport_def Let_def split: prod.splits if_splits)
  qed simp
qed

theorem one_report_in_flight_witness:
  "fst (dr_run [DrDrop 1 1, DrGet] (snd (dr_GetReport (dr_Dropped 2 700 dr_Reset)))) = []"
proof -
  have "dr_GetReport (dr_Dropped 2 700 dr_Reset) = (Some (2, 700), dr_Reset\<lparr>throttle := True\<rparr>)"
    by (simp add: dr_GetReport_def dr_Dropped_def dr_Reset_def u32_max_def Let_def)
  from one_report_in_flight [OF this, of "[DrDrop 1 1, DrGet]"] this show ?thesis by simp
qed

end
