(* ===== verification/Ordered_Map.thy ===== *)
theory Ordered_Map
  imports MCSB_Prelude "HOL-Library.List_Lexorder" "HOL-Library.Char_ord"
begin

text \<open>
  The part of \<open>std::map\<close> and \<open>std::set\<close> the program uses, as association lists kept
  strictly ascending in their keys, which is the order in which the C++ containers iterate.
  \<open>om_insert\<close> is \<open>insert\<close> (an existing key keeps its value), \<open>om_assign\<close> writes through an
  iterator, \<open>om_erase\<close> is \<open>erase\<close>, \<open>map_of\<close> is \<open>find\<close>, \<open>length\<close> is \<open>size\<close>.  The locale
  \<open>finite_map\<close> is the contract the clients of the container rely on; it is interpreted on
  these operations as \<open>om\<close>.
\<close>

section \<open>Operations\<close>

type_synonym ('k, 'v) omap = "('k \<times> 'v) list"

fun om_insert :: "'k::linorder \<Rightarrow> 'v \<Rightarrow> ('k, 'v) omap \<Rightarrow> ('k, 'v) omap" where
  "om_insert k v [] = [(k, v)]"
| "om_insert k v ((k', v') # m) =
     (if k < k' then (k, v) # (k', v') # m
      else if k = k' then (k', v') # m
      else (k', v') # om_insert k v m)"

fun om_assign :: "'k \<Rightarrow> 'v \<Rightarrow> ('k, 'v) omap \<Rightarrow> ('k, 'v) omap" where
  "om_assign k v [] = []"
| "om_assign k v ((k', v') # m) = (if k = k' then (k', v) # m else (k', v') # om_assign k v m)"

fun om_erase :: "'k \<Rightarrow> ('k, 'v) omap \<Rightarrow> ('k, 'v) omap" where
  "om_erase k [] = []"
| "om_erase k ((k', v') # m) = (if k = k' then m else (k', v') # om_erase k m)"

definition om_ok :: "('k::linorder, 'v) omap \<Rightarrow> bool" where
  "om_ok m \<longleftrightarrow> sorted_wrt (<) (map fst m)"

section \<open>The contract of the container\<close>

locale finite_map =
  fixes lookup :: "'m \<Rightarrow> 'k \<Rightarrow> 'v option"
    and insert_new :: "'k \<Rightarrow> 'v \<Rightarrow> 'm \<Rightarrow> 'm"
    and assign :: "'k \<Rightarrow> 'v \<Rightarrow> 'm \<Rightarrow> 'm"
    and delete :: "'k \<Rightarrow> 'm \<Rightarrow> 'm"
    and entries :: "'m \<Rightarrow> nat"
    and invar :: "'m \<Rightarrow> bool"
  assumes lookup_insert:
      "invar m \<Longrightarrow> lookup (insert_new k v m) =
         (lookup m)(k \<mapsto> (case lookup m k of None \<Rightarrow> v | Some w \<Rightarrow> w))"
    and lookup_assign: "invar m \<Longrightarrow> lookup m k \<noteq> None \<Longrightarrow> lookup (assign k v m) = (lookup m)(k \<mapsto> v)"
    and lookup_delete: "invar m \<Longrightarrow> lookup (delete k m) = (lookup m)(k := None)"
    and entries_card: "invar m \<Longrightarrow> finite (dom (lookup m)) \<and> entries m = card (dom (lookup m))"
    and invar_insert: "invar m \<Longrightarrow> invar (insert_new k v m)"
    and invar_assign: "invar m \<Longrightarrow> invar (assign k v m)"
    and invar_delete: "invar m \<Longrightarrow> invar (delete k m)"
begin

lemma insert_delete_inverse:
  assumes "invar m" and "lookup m k = None"
  shows "lookup (delete k (insert_new k v m)) = lookup m"
  using assms by (simp add: lookup_insert lookup_delete invar_insert fun_upd_idem)

lemma entries_insert:
  assumes "invar m"
  shows "entries (insert_new k v m) = entries m + (if lookup m k = None then 1 else 0)"
proof -
  have "dom (lookup (insert_new k v m)) = insert k (dom (lookup m))"
    using assms by (auto simp: lookup_insert)
  then show ?thesis
    using entries_card [OF assms] entries_card [OF invar_insert [OF assms, of k v]]
    by (auto simp: card_insert_if)
qed

lemma entries_delete:
  assumes "invar m"
  shows "entries (delete k m) = entries m - (if lookup m k = None then 0 else 1)"
proof -
  have "dom (lookup (delete k m)) = dom (lookup m) - {k}"
    using assms by (auto simp: lookup_delete)
  then show ?thesis
    using entries_card [OF assms] entries_card [OF invar_delete [OF assms, of k]]
    by (auto simp: domIff)
qed

lemma entries_assign:
  assumes "invar m" and "lookup m k \<noteq> None"
  shows "entries (assign k v m) = entries m"
proof -
  have "dom (lookup (assign k v m)) = dom (lookup m)"
    using assms by (auto simp: lookup_assign)
  then show ?thesis
    using entries_card [OF assms(1)] entries_card [OF invar_assign [OF assms(1), of k v]] by simp
qed

end

section \<open>Ascending association lists satisfy it\<close>

lemma om_ok_Nil [simp]: "om_ok []"
  by (simp add: om_ok_def)

lemma om_ok_Cons [simp]:
  "om_ok ((k, v) # m) \<longleftrightarrow> (\<forall>k' \<in> fst ` set m. k < k') \<and> om_ok m"
  by (auto simp: om_ok_def)

lemma om_ok_distinct: "om_ok m \<Longrightarrow> distinct (map fst m)"
  by (simp add: om_ok_def strict_sorted_iff)

lemma om_ok_map_of_None: "om_ok ((k, v) # m) \<Longrightarrow> map_of m k = None"
  by (auto simp: map_of_eq_None_iff)

lemma keys_om_insert: "fst ` set (om_insert k v m) = insert k (fst ` set m)"
proof (induction m)
  case (Cons p m)
  then show ?case by (cases p) (simp add: insert_commute)
qed simp

lemma om_ok_insert [simp]: "om_ok m \<Longrightarrow> om_ok (om_insert k v m)"
proof (induction m)
  case (Cons p m)
  then show ?case
    by (cases p) (auto simp: keys_om_insert intro: less_trans)
qed simp

lemma map_of_om_insert:
  "om_ok m \<Longrightarrow> map_of (om_insert k v m) =
     (map_of m)(k \<mapsto> (case map_of m k of None \<Rightarrow> v | Some w \<Rightarrow> w))"
proof (induction m)
  case (Cons p m)
  obtain k' v' where p: "p = (k', v')" by (cases p)
  have "map_of m k = None" if "k < k'"
    using Cons.prems that by (fastforce simp: p map_of_eq_None_iff)
  then show ?case
    using Cons by (auto simp: p fun_eq_iff)
qed (simp add: fun_eq_iff)

lemma keys_om_assign [simp]: "map fst (om_assign k v m) = map fst m"
  by (induction m) auto

lemma om_ok_assign [simp]: "om_ok m \<Longrightarrow> om_ok (om_assign k v m)"
  by (simp add: om_ok_def)

lemma map_of_om_assign:
  "map_of m k \<noteq> None \<Longrightarrow> map_of (om_assign k v m) = (map_of m)(k \<mapsto> v)"
  by (induction m) (auto simp: fun_eq_iff)

lemma map_of_om_assign_None: "map_of m k = None \<Longrightarrow> om_assign k v m = m"
  by (induction m) (auto split: if_splits)

lemma keys_om_erase: "om_ok m \<Longrightarrow> fst ` set (om_erase k m) = fst ` set m - {k}"
proof (induction m)
  case (Cons p m)
  then show ?case by (cases p) auto
qed simp

lemma om_ok_erase [simp]: "om_ok m \<Longrightarrow> om_ok (om_erase k m)"
proof (induction m)
  case (Cons p m)
  then show ?case
    by (cases p) (auto simp: keys_om_erase)
qed simp

lemma map_of_om_erase: "om_ok m \<Longrightarrow> map_of (om_erase k m) = (map_of m)(k := None)"
proof (induction m)
  case (Cons p m)
  obtain k' v' where p: "p = (k', v')" by (cases p)
  have "map_of m k' = None"
    using Cons.prems by (auto simp: p map_of_eq_None_iff)
  then show ?case
    using Cons by (auto simp: p fun_eq_iff)
qed (simp add: fun_eq_iff)

lemma om_size: "om_ok m \<Longrightarrow> length m = card (dom (map_of m))"
  using distinct_card [OF om_ok_distinct, of m] by (simp add: dom_map_of_conv_image_fst)

interpretation om: finite_map map_of om_insert om_assign om_erase length om_ok
  by unfold_locales (auto simp: map_of_om_insert map_of_om_assign map_of_om_erase om_size finite_dom_map_of)

lemmas om_simps = map_of_om_insert map_of_om_assign map_of_om_erase

text \<open>A \<open>std::set\<close> is the ascending list of its elements.\<close>

definition oset_ok :: "'k::linorder list \<Rightarrow> bool" where
  "oset_ok xs \<longleftrightarrow> sorted_wrt (<) xs"

fun oset_insert :: "'k::linorder \<Rightarrow> 'k list \<Rightarrow> 'k list" where
  "oset_insert k [] = [k]"
| "oset_insert k (x # xs) =
     (if k < x then k # x # xs else if k = x then x # xs else x # oset_insert k xs)"

lemma set_oset_insert [simp]: "set (oset_insert k xs) = insert k (set xs)"
  by (induction xs) auto

lemma oset_ok_insert [simp]: "oset_ok xs \<Longrightarrow> oset_ok (oset_insert k xs)"
  by (induction xs) (auto simp: oset_ok_def)

lemma oset_ok_remove1 [simp]: "oset_ok xs \<Longrightarrow> oset_ok (remove1 k xs)"
proof (induction xs)
  case (Cons x xs)
  then show ?case
    using set_remove1_subset [of k xs] by (auto simp: oset_ok_def)
qed simp

lemma oset_ok_distinct: "oset_ok xs \<Longrightarrow> distinct xs"
  by (simp add: oset_ok_def strict_sorted_iff)

end
