(* ===== verification/Id_Allocation.thy ===== *)
theory Id_Allocation
  imports MCSB_Prelude
begin

text \<open>
  The manager hands out client IDs (\<open>SocketDaemon::GetNewClientID\<close>) and group IDs
  (\<open>GroupManager::NewGroupStr\<close>) with the same loop: a cursor runs cyclically through an
  interval and stops at the first ID not in use.  The locale states what the two loops share;
  its lemmas say that the loop ends whenever some ID is free, and that it returns the first
  free ID in cyclic order.  Both loops are interpretations of it.
\<close>

definition cyclic_dist :: "int \<Rightarrow> int \<Rightarrow> int \<Rightarrow> int \<Rightarrow> nat" where
  "cyclic_dist lo hi c x = nat ((x - c) mod (hi - lo + 1))"

lemma cyclic_dist_0:
  assumes "c \<in> {lo..hi}" and "x \<in> {lo..hi}"
  shows "cyclic_dist lo hi c x = 0 \<longleftrightarrow> c = x"
proof -
  let ?n = "hi - lo + 1"
  have "(x - c) mod ?n = 0 \<longleftrightarrow> x = c"
  proof
    assume "(x - c) mod ?n = 0"
    then obtain q where q: "x - c = ?n * q" by auto
    have "\<bar>x - c\<bar> < ?n" using assms by auto
    then have "?n * \<bar>q\<bar> < ?n * 1" using assms by (simp add: q abs_mult)
    then have "\<bar>q\<bar> < 1" using assms by (subst (asm) mult_less_cancel_left_pos) auto
    then have "q = 0" by simp
    then show "x = c" using q by simp
  qed simp
  moreover have "0 \<le> (x - c) mod ?n" using assms by simp
  ultimately show ?thesis by (auto simp: cyclic_dist_def)
qed

lemma cyclic_dist_step:
  assumes "c \<in> {lo..hi}" and "x \<in> {lo..hi}" and "c \<noteq> x"
  shows "cyclic_dist lo hi c x = Suc (cyclic_dist lo hi (if c = hi then lo else c + 1) x)"
proof -
  let ?n = "hi - lo + 1" and ?c = "if c = hi then lo else c + 1"
  have n: "0 < ?n" using assms by auto
  have pos: "0 < (x - c) mod ?n"
    using cyclic_dist_0 [OF assms(1,2)] assms(3) n
    by (auto simp: cyclic_dist_def order_less_le)
  have "(x - ?c) mod ?n = ((x - c) mod ?n - 1) mod ?n"
  proof (cases "c = hi")
    case True
    then have "x - lo = (x - c - 1) + ?n" by simp
    then have "(x - lo) mod ?n = (x - c - 1) mod ?n" by (metis mod_add_self2)
    then show ?thesis using True by (simp add: mod_diff_left_eq)
  next
    case False
    then show ?thesis by (simp add: mod_diff_left_eq diff_diff_eq)
  qed
  also have "\<dots> = (x - c) mod ?n - 1"
    using pos n pos_mod_bound [OF n, of "x - c"] by (intro mod_pos_pos_trivial) auto
  finally show ?thesis
    using pos by (simp add: cyclic_dist_def)
qed

locale cyclic_allocator =
  fixes lo hi :: int
    and cursor :: "'s \<Rightarrow> int"
    and used :: "'s \<Rightarrow> int set"
    and live :: "'s \<Rightarrow> bool"
    and skip :: "'s \<Rightarrow> 's"
    and take_id :: "'s \<Rightarrow> 'r"
    and scan :: "'s \<Rightarrow> 'r option"
  assumes cursor_skip: "live s \<Longrightarrow> cursor (skip s) = (if cursor s = hi then lo else cursor s + 1)"
    and used_skip: "live s \<Longrightarrow> used (skip s) = used s"
    and live_skip: "live s \<Longrightarrow> live (skip s)"
    and cursor_range: "live s \<Longrightarrow> cursor s \<in> {lo..hi}"
    and scan_step: "live s \<Longrightarrow> scan s = (if cursor s \<in> used s then scan (skip s) else Some (take_id s))"
begin

lemma scan_finds_within:
  assumes "live s" and "x \<in> {lo..hi}" and "x \<notin> used s" and "cyclic_dist lo hi (cursor s) x = d"
  shows "\<exists>k \<le> d. scan s = Some (take_id ((skip ^^ k) s)) \<and> cursor ((skip ^^ k) s) \<notin> used s
    \<and> (\<forall>j < k. cursor ((skip ^^ j) s) \<in> used s) \<and> live ((skip ^^ k) s)"
  using assms
proof (induction d arbitrary: s)
  case 0
  then have "cursor s = x"
    using cyclic_dist_0 cursor_range by blast
  with 0 show ?case by (simp add: scan_step)
next
  case (Suc d)
  show ?case
  proof (cases "cursor s \<in> used s")
    case False
    with Suc.prems show ?thesis by (intro exI [of _ 0]) (simp add: scan_step)
  next
    case True
    with Suc.prems have "cursor s \<noteq> x" by auto
    then have "cyclic_dist lo hi (cursor (skip s)) x = d"
      using Suc.prems cyclic_dist_step [OF cursor_range [OF Suc.prems(1)] Suc.prems(2)]
      by (simp add: cursor_skip)
    then obtain k where k: "k \<le> d" "scan (skip s) = Some (take_id ((skip ^^ k) (skip s)))"
      "cursor ((skip ^^ k) (skip s)) \<notin> used s" "\<forall>j < k. cursor ((skip ^^ j) (skip s)) \<in> used s"
      "live ((skip ^^ k) (skip s))"
      using Suc.IH [of "skip s"] Suc.prems by (auto simp: live_skip used_skip)
    have all: "\<forall>j < Suc k. cursor ((skip ^^ j) s) \<in> used s"
    proof (intro allI impI)
      fix j assume "j < Suc k"
      with k(4) True show "cursor ((skip ^^ j) s) \<in> used s"
        by (cases j) (auto simp: funpow_swap1)
    qed
    have "scan s = Some (take_id ((skip ^^ Suc k) s))"
      using True k(2) Suc.prems(1) by (simp add: scan_step [of s] funpow_swap1)
    with k all show ?thesis
      by (intro exI [of _ "Suc k"]) (auto simp: funpow_swap1)
  qed
qed

lemma scan_returns:
  assumes "live s" and "x \<in> {lo..hi}" and "x \<notin> used s"
  obtains k where "scan s = Some (take_id ((skip ^^ k) s))" and "cursor ((skip ^^ k) s) \<notin> used s"
    and "\<forall>j < k. cursor ((skip ^^ j) s) \<in> used s" and "live ((skip ^^ k) s)"
  using scan_finds_within [OF assms refl] by blast

lemma skips_used: "live s \<Longrightarrow> live ((skip ^^ k) s) \<and> used ((skip ^^ k) s) = used s"
  by (induction k) (auto simp: live_skip used_skip)

end

text \<open>Fewer IDs in use than the interval has leaves one free.\<close>

lemma free_id_exists:
  fixes U :: "int set"
  assumes "finite U" and "int (card U) < hi - lo + 1"
  shows "\<exists>x \<in> {lo..hi}. x \<notin> U"
proof (rule ccontr)
  assume "\<not> ?thesis"
  then have "card {lo..hi} \<le> card U"
    by (intro card_mono assms) auto
  with assms(2) show False by simp
qed

end
