(* ===== verification/Group_Manager.thy ===== *)
theory Group_Manager
  imports Ordered_Map Id_Allocation
begin

text \<open>
  \<open>GroupManager\<close> (apps/MCSBManager/GroupManager.cc): group names and group IDs, with a
  reference count per group.  The two \<open>std::map\<close>s are ordered maps, \<open>short\<close> IDs and
  \<open>int\<close> counts are integers (the IDs stay in \<open>1..9999\<close>, which is proved).  The allocation
  loop of \<open>NewGroupStr\<close> is a partial function: \<open>None\<close> would be a loop that never ends.
\<close>

section \<open>Model\<close>

definition kMaxGroupID :: int where
  "kMaxGroupID = 9999"

record group_manager =
  strToGroupID :: "(string, int) omap"
  groupIDToStr :: "(int, string \<times> int) omap"
  nextNewGroupID :: int

definition GroupManager :: group_manager where
  "GroupManager = \<lparr>strToGroupID = [], groupIDToStr = [], nextNewGroupID = 1\<rparr>"

definition advanceGroupID :: "group_manager \<Rightarrow> group_manager" where
  "advanceGroupID g =
     (let n = nextNewGroupID g + 1
      in g\<lparr>nextNewGroupID := (if n > kMaxGroupID then 1 else n)\<rparr>)"

partial_function (option) NewGroupStr :: "string \<Rightarrow> group_manager \<Rightarrow> (int \<times> group_manager) option" where
  "NewGroupStr groupStr g =
     (if int (length (strToGroupID g)) < kMaxGroupID then
        (let newGroupID = nextNewGroupID g; g' = advanceGroupID g in
         if map_of (groupIDToStr g') newGroupID \<noteq> None then NewGroupStr groupStr g'
         else Some (newGroupID,
                g'\<lparr>strToGroupID := om_insert groupStr newGroupID (strToGroupID g'),
                   groupIDToStr := om_insert newGroupID (groupStr, 0) (groupIDToStr g')\<rparr>))
      else Some (-1, g))"

definition IncGroupID :: "int \<Rightarrow> group_manager \<Rightarrow> int \<times> group_manager" where
  "IncGroupID gid g =
     (case map_of (groupIDToStr g) gid of
        None \<Rightarrow> (-1, g)
      | Some (s, c) \<Rightarrow> (c + 1, g\<lparr>groupIDToStr := om_assign gid (s, c + 1) (groupIDToStr g)\<rparr>))"

definition GetGroupID :: "string \<Rightarrow> bool \<Rightarrow> bool \<Rightarrow> group_manager \<Rightarrow> (int \<times> group_manager) option" where
  "GetGroupID groupStr create inc g =
     (if groupStr = [] then Some (0, g)
      else case map_of (strToGroupID g) groupStr of
        Some gid \<Rightarrow> Some (gid, if inc then snd (IncGroupID gid g) else g)
      | None \<Rightarrow>
          Option.bind (if create then NewGroupStr groupStr g else Some (-1, g))
            (\<lambda>(gid, g'). Some (gid, if inc then snd (IncGroupID gid g') else g')))"

definition GetGroupStr :: "int \<Rightarrow> group_manager \<Rightarrow> string option" where
  "GetGroupStr gid g = map_option fst (map_of (groupIDToStr g) gid)"

definition DecGroupID :: "int \<Rightarrow> group_manager \<Rightarrow> (int, group_manager) outcome" where
  "DecGroupID gid g =
     (case map_of (groupIDToStr g) gid of
        None \<Rightarrow> Ok (-1) g
      | Some (s, c) \<Rightarrow>
          (let newCount = c - 1;
               g' = g\<lparr>groupIDToStr := om_assign gid (s, newCount) (groupIDToStr g)\<rparr>
           in if newCount = 0 then
                Ok newCount (g'\<lparr>strToGroupID := om_erase s (strToGroupID g'),
                                groupIDToStr := om_erase gid (groupIDToStr g')\<rparr>)
              else if newCount < 0 then Throw ''GroupManager count underflow'' g'
              else Ok newCount g'))"

definition NumGroups :: "group_manager \<Rightarrow> nat" where
  "NumGroups g = length (strToGroupID g)"

text \<open>\<open>GetGroups\<close> with an array of \<open>mx\<close> elements: its result and what it wrote.\<close>

definition GetGroups :: "nat \<Rightarrow> group_manager \<Rightarrow> int \<times> int list" where
  "GetGroups mx g =
     (if mx < NumGroups g then (- int (NumGroups g), [])
      else (int (NumGroups g), map fst (groupIDToStr g)))"

section \<open>Invariant\<close>

definition group_inv :: "group_manager \<Rightarrow> bool" where
  "group_inv g \<longleftrightarrow>
     om_ok (strToGroupID g) \<and> om_ok (groupIDToStr g)
     \<and> nextNewGroupID g \<in> {1..kMaxGroupID}
     \<and> (\<forall>gid \<in> dom (map_of (groupIDToStr g)). gid \<in> {1..kMaxGroupID})
     \<and> (\<forall>s gid. map_of (strToGroupID g) s = Some gid \<longleftrightarrow> (\<exists>c. map_of (groupIDToStr g) gid = Some (s, c)))
     \<and> map_of (strToGroupID g) [] = None"

lemma group_invD:
  assumes "group_inv g"
  shows "om_ok (strToGroupID g)" and "om_ok (groupIDToStr g)"
    and "nextNewGroupID g \<in> {1..kMaxGroupID}"
    and "map_of (groupIDToStr g) gid = Some (s, c) \<Longrightarrow> gid \<in> {1..kMaxGroupID}"
    and "map_of (strToGroupID g) s = Some gid \<longleftrightarrow> (\<exists>c. map_of (groupIDToStr g) gid = Some (s, c))"
    and "map_of (strToGroupID g) [] = None"
  using assms unfolding group_inv_def by blast+

text \<open>Names and IDs are in bijection, so both maps have the same number of entries.\<close>

lemma group_sizes:
  assumes "group_inv g"
  shows "card (dom (map_of (groupIDToStr g))) = length (strToGroupID g)"
proof -
  let ?S = "map_of (strToGroupID g)" and ?I = "map_of (groupIDToStr g)"
  have "bij_betw (\<lambda>s. the (?S s)) (dom ?S) (dom ?I)"
  proof (rule bij_betw_imageI)
    show "inj_on (\<lambda>s. the (?S s)) (dom ?S)"
      using group_invD(5) [OF assms] by (fastforce intro!: inj_onI)
    show "(\<lambda>s. the (?S s)) ` dom ?S = dom ?I"
    proof
      show "(\<lambda>s. the (?S s)) ` dom ?S \<subseteq> dom ?I"
        using group_invD(5) [OF assms] by fastforce
      show "dom ?I \<subseteq> (\<lambda>s. the (?S s)) ` dom ?S"
      proof
        fix gid assume "gid \<in> dom ?I"
        then obtain s c where "?I gid = Some (s, c)" by auto
        then have "?S s = Some gid" using group_invD(5) [OF assms] by blast
        then show "gid \<in> (\<lambda>s. the (?S s)) ` dom ?S" by (force simp: image_iff)
      qed
    qed
  qed
  then show ?thesis
    using om_size [OF group_invD(1) [OF assms]] by (simp add: bij_betw_same_card)
qed

lemma group_inv_new: "group_inv GroupManager"
  by (simp add: group_inv_def GroupManager_def kMaxGroupID_def)

lemma group_inv_advance: "group_inv g \<Longrightarrow> group_inv (advanceGroupID g)"
  by (auto simp: group_inv_def advanceGroupID_def Let_def)

section \<open>The allocation loop\<close>

definition groups_live :: "group_manager \<Rightarrow> bool" where
  "groups_live g \<longleftrightarrow> group_inv g \<and> int (length (strToGroupID g)) < kMaxGroupID"

definition groups_take :: "string \<Rightarrow> group_manager \<Rightarrow> int \<times> group_manager" where
  "groups_take groupStr g =
     (nextNewGroupID g,
      (advanceGroupID g)\<lparr>strToGroupID := om_insert groupStr (nextNewGroupID g) (strToGroupID g),
         groupIDToStr := om_insert (nextNewGroupID g) (groupStr, 0) (groupIDToStr g)\<rparr>)"

lemma advanceGroupID_fields [simp]:
  "strToGroupID (advanceGroupID g) = strToGroupID g"
  "groupIDToStr (advanceGroupID g) = groupIDToStr g"
  by (simp_all add: advanceGroupID_def Let_def)

interpretation group_ids: cyclic_allocator 1 kMaxGroupID nextNewGroupID
  "\<lambda>g. dom (map_of (groupIDToStr g))" groups_live advanceGroupID "groups_take groupStr"
  "NewGroupStr groupStr" for groupStr
proof unfold_locales
  fix g :: group_manager
  assume live: "groups_live g"
  then have inv: "group_inv g" by (simp add: groups_live_def)
  show "nextNewGroupID (advanceGroupID g) =
      (if nextNewGroupID g = kMaxGroupID then 1 else nextNewGroupID g + 1)"
    using group_invD(3) [OF inv] by (auto simp: advanceGroupID_def)
  show "dom (map_of (groupIDToStr (advanceGroupID g))) = dom (map_of (groupIDToStr g))" by simp
  show "groups_live (advanceGroupID g)"
    using live by (simp add: groups_live_def group_inv_advance)
  show "nextNewGroupID g \<in> {1..kMaxGroupID}" by (rule group_invD(3) [OF inv])
  show "NewGroupStr groupStr g =
      (if nextNewGroupID g \<in> dom (map_of (groupIDToStr g)) then NewGroupStr groupStr (advanceGroupID g)
       else Some (groups_take groupStr g))"
    using live by (subst NewGroupStr.simps) (auto simp: groups_live_def groups_take_def Let_def domIff)
qed

lemma NewGroupStr_full:
  "\<not> int (length (strToGroupID g)) < kMaxGroupID \<Longrightarrow> NewGroupStr groupStr g = Some (-1, g)"
  by (subst NewGroupStr.simps) simp

lemma group_inv_take:
  assumes inv: "group_inv g" and new: "map_of (strToGroupID g) s = None" "s \<noteq> []"
    and free: "map_of (groupIDToStr g) (nextNewGroupID g) = None"
  shows "group_inv (snd (groups_take s g))"
proof -
  have free': "map_of (strToGroupID g) t \<noteq> Some (nextNewGroupID g)" for t
    using free group_invD(5) [OF inv] by auto
  have new': "map_of (groupIDToStr g) i \<noteq> Some (s, c)" for i c
    using new group_invD(5) [OF inv] by (metis option.distinct(1))
  show ?thesis
    using group_inv_advance [OF inv] group_invD(3) [OF inv] new free free' new'
    unfolding group_inv_def groups_take_def
    by (auto simp: om_simps)
qed

text \<open>
  What \<open>NewGroupStr\<close> does when the name is new and an ID is left: it ends, and it returns an
  ID not in use, with a reference count of zero.
\<close>

lemma NewGroupStr_spec:
  assumes inv: "group_inv g" and new: "map_of (strToGroupID g) s = None" "s \<noteq> []"
    and room: "int (length (strToGroupID g)) < kMaxGroupID"
  obtains gid g' where "NewGroupStr s g = Some (gid, g')" and "group_inv g'"
    and "gid \<in> {1..kMaxGroupID}" and "map_of (groupIDToStr g) gid = None"
    and "map_of (groupIDToStr g') = (map_of (groupIDToStr g))(gid \<mapsto> (s, 0))"
    and "map_of (strToGroupID g') = (map_of (strToGroupID g))(s \<mapsto> gid)"
proof -
  have live: "groups_live g" using inv room by (simp add: groups_live_def)
  have "int (card (dom (map_of (groupIDToStr g)))) < kMaxGroupID - 1 + 1"
    using room by (simp add: group_sizes [OF inv])
  then obtain x where x: "x \<in> {1..kMaxGroupID}" "x \<notin> dom (map_of (groupIDToStr g))"
    using free_id_exists [OF finite_dom_map_of] by blast
  obtain k where k: "NewGroupStr s g = Some (groups_take s ((advanceGroupID ^^ k) g))"
    "nextNewGroupID ((advanceGroupID ^^ k) g) \<notin> dom (map_of (groupIDToStr g))"
    "groups_live ((advanceGroupID ^^ k) g)"
    using group_ids.scan_returns [OF live x] by blast
  let ?g = "(advanceGroupID ^^ k) g"
  have same: "strToGroupID ?g = strToGroupID g" "groupIDToStr ?g = groupIDToStr g"
    by (induction k) auto
  have inv': "group_inv ?g" using k(3) by (simp add: groups_live_def)
  have free: "map_of (groupIDToStr ?g) (nextNewGroupID ?g) = None"
    using k(2) by (metis domIff same(2))
  show thesis
  proof (rule that)
    show "NewGroupStr s g = Some (fst (groups_take s ?g), snd (groups_take s ?g))" using k(1) by simp
    show "group_inv (snd (groups_take s ?g))"
      by (rule group_inv_take [OF inv' _ new(2) free]) (simp add: same new)
    show "fst (groups_take s ?g) \<in> {1..kMaxGroupID}"
      using group_invD(3) [OF inv'] by (simp add: groups_take_def)
  qed (use free new group_invD(1,2) [OF inv] in \<open>auto simp: groups_take_def same om_simps\<close>)
qed

section \<open>Every operation keeps the invariant\<close>

lemma group_inv_assign:
  assumes "group_inv g" and "map_of (groupIDToStr g) gid = Some (s, c)"
  shows "group_inv (g\<lparr>groupIDToStr := om_assign gid (s, c') (groupIDToStr g)\<rparr>)"
  using assms unfolding group_inv_def by (auto simp: om_simps)

lemma group_inv_Inc: "group_inv g \<Longrightarrow> group_inv (snd (IncGroupID gid g))"
  by (auto simp: IncGroupID_def group_inv_assign split: option.split)

lemma group_inv_erase:
  assumes "group_inv g" and "map_of (groupIDToStr g) gid = Some (s, c)"
  shows "group_inv (g\<lparr>strToGroupID := om_erase s (strToGroupID g),
                      groupIDToStr := om_erase gid (groupIDToStr g)\<rparr>)"
proof -
  have "map_of (strToGroupID g) s = Some gid" using assms group_invD(5) by blast
  then have "map_of (groupIDToStr g) i \<noteq> Some (s, c')" if "i \<noteq> gid" for i c'
    using that group_invD(5) [OF assms(1), of s i] by auto
  then show ?thesis
    using assms unfolding group_inv_def by (auto simp: om_simps)
qed

lemma group_inv_Dec: "group_inv g \<Longrightarrow> sat (DecGroupID gid g) (\<lambda>_. group_inv) (\<lambda>_. group_inv)"
proof (cases "map_of (groupIDToStr g) gid")
  case (Some p)
  obtain s c where p: "p = (s, c)" by (cases p)
  assume inv: "group_inv g"
  let ?g = "g\<lparr>groupIDToStr := om_assign gid (s, c - 1) (groupIDToStr g)\<rparr>"
  have "group_inv ?g" using group_inv_assign [OF inv] Some p by simp
  moreover have "map_of (groupIDToStr ?g) gid = Some (s, c - 1)"
    using Some by (simp add: om_simps)
  ultimately show ?thesis
    using Some p group_inv_erase [of ?g gid s "c - 1"] by (auto simp: DecGroupID_def Let_def)
qed (simp add: DecGroupID_def)

lemma group_inv_GetGroupID:
  assumes "group_inv g"
  shows "\<exists>gid g'. GetGroupID s create inc g = Some (gid, g') \<and> group_inv g'"
proof (cases "s = [] \<or> map_of (strToGroupID g) s \<noteq> None \<or> \<not> create \<or>
    \<not> int (length (strToGroupID g)) < kMaxGroupID")
  case True
  with assms show ?thesis
    by (auto simp: GetGroupID_def NewGroupStr_full group_inv_Inc split: option.split)
next
  case False
  then have "map_of (strToGroupID g) s = None" "s \<noteq> []" "int (length (strToGroupID g)) < kMaxGroupID"
    by auto
  then obtain gid g' where "NewGroupStr s g = Some (gid, g')" "group_inv g'"
    by (rule NewGroupStr_spec [OF assms])
  with False show ?thesis
    by (auto simp: GetGroupID_def group_inv_Inc)
qed

lemma IncGroupID_Some:
  "map_of (groupIDToStr g) gid = Some (s, c) \<Longrightarrow>
     map_of (groupIDToStr (snd (IncGroupID gid g))) = (map_of (groupIDToStr g))(gid \<mapsto> (s, c + 1))"
  "strToGroupID (snd (IncGroupID gid g)) = strToGroupID g"
  by (auto simp: IncGroupID_def om_simps split: option.split)

section \<open>Properties\<close>

text \<open>
  C17: asking for a group by a new name ends, returns an ID no other group has, with a count
  of 1, finds the same ID again by name and the name by ID, and releasing the ID once forgets
  exactly this group.
\<close>

theorem group_round_trip:
  assumes inv: "group_inv g" and new: "map_of (strToGroupID g) s = None" "s \<noteq> []"
    and room: "int (NumGroups g) < kMaxGroupID"
  shows "\<exists>gid g' g''. GetGroupID s True True g = Some (gid, g') \<and> group_inv g'
    \<and> gid \<in> {1..kMaxGroupID} \<and> GetGroupStr gid g = None
    \<and> GetGroupStr gid g' = Some s \<and> GetGroupID s create False g' = Some (gid, g')
    \<and> DecGroupID gid g' = Ok 0 g'' \<and> group_inv g''
    \<and> map_of (groupIDToStr g'') = map_of (groupIDToStr g)
    \<and> map_of (strToGroupID g'') = map_of (strToGroupID g)"
proof -
  obtain gid g1 where g1: "NewGroupStr s g = Some (gid, g1)" "group_inv g1" "gid \<in> {1..kMaxGroupID}"
    "map_of (groupIDToStr g) gid = None"
    "map_of (groupIDToStr g1) = (map_of (groupIDToStr g))(gid \<mapsto> (s, 0))"
    "map_of (strToGroupID g1) = (map_of (strToGroupID g))(s \<mapsto> gid)"
    using NewGroupStr_spec [OF inv new] room by (auto simp: NumGroups_def)
  let ?g' = "snd (IncGroupID gid g1)"
  have g': "map_of (groupIDToStr ?g') = (map_of (groupIDToStr g))(gid \<mapsto> (s, 1))"
    "strToGroupID ?g' = strToGroupID g1"
    using IncGroupID_Some(1) [of g1 gid s 0] IncGroupID_Some(2) g1(5) by simp_all
  have get: "GetGroupID s True True g = Some (gid, ?g')"
    using g1(1) new by (simp add: GetGroupID_def)
  have inv': "group_inv ?g'" by (rule group_inv_Inc [OF g1(2)])
  obtain g'' where dec: "DecGroupID gid ?g' = Ok 0 g''"
    "strToGroupID g'' = om_erase s (strToGroupID ?g')"
    "groupIDToStr g'' = om_erase gid (om_assign gid (s, 0) (groupIDToStr ?g'))"
    using g' by (simp add: DecGroupID_def Let_def)
  have "group_inv g''" using group_inv_Dec [OF inv', of gid] dec(1) by simp
  moreover have "map_of (groupIDToStr g'') = map_of (groupIDToStr g)"
    using g1(4) group_invD(2) [OF inv'] by (auto simp: dec(3) om_simps g' fun_eq_iff)
  moreover have "map_of (strToGroupID g'') = map_of (strToGroupID g)"
    using new(1) group_invD(1) [OF inv'] by (auto simp: dec(2) om_simps g1(6) g' fun_eq_iff)
  ultimately show ?thesis
    using get inv' dec(1) g1 g' new
    by (intro exI [of _ gid] exI [of _ ?g'] exI [of _ g'']) (simp add: GetGroupStr_def GetGroupID_def)
qed

theorem group_round_trip_witness:
  "\<exists>gid g'. GetGroupID ''abc'' True True GroupManager = Some (gid, g') \<and> group_inv g'
    \<and> GetGroupStr gid g' = Some ''abc''"
proof -
  have "map_of (strToGroupID GroupManager) ''abc'' = None" "int (NumGroups GroupManager) < kMaxGroupID"
    by (simp_all add: GroupManager_def NumGroups_def kMaxGroupID_def)
  from group_round_trip [OF group_inv_new this(1) _ this(2), of True] show ?thesis by blast
qed

text \<open>
  C18: every operation keeps names and IDs in bijection (each live name has one ID between 1
  and the maximum, the empty name none), and \<open>GetGroupID\<close> always returns, also when no ID is
  left.
\<close>

theorem group_operations_keep_inv:
  assumes "group_inv g"
  shows "(\<exists>gid g'. GetGroupID s create inc g = Some (gid, g') \<and> group_inv g')
    \<and> group_inv (snd (IncGroupID i g))
    \<and> sat (DecGroupID i g) (\<lambda>_. group_inv) (\<lambda>_. group_inv)
    \<and> card (dom (map_of (groupIDToStr g))) = NumGroups g"
  using group_inv_GetGroupID [OF assms] group_inv_Inc [OF assms] group_inv_Dec [OF assms]
    group_sizes [OF assms] by (simp add: NumGroups_def)

theorem group_operations_keep_inv_witness:
  "(\<exists>gid g'. GetGroupID ''x'' True False GroupManager = Some (gid, g') \<and> group_inv g')
    \<and> NumGroups GroupManager = 0"
  using group_operations_keep_inv [OF group_inv_new, of "''x''" True False 1]
  by (simp add: GroupManager_def NumGroups_def)

end
