(* ===== verification/Slab_Request_Manager.thy ===== *)
theory Slab_Request_Manager
  imports MCSB_Prelude
begin

text \<open>
  \<open>SlabRequestManager\<close> (apps/MCSBManager/SlabRequestManager.cc): pending requests for free
  slabs, one FIFO per nice level.  The \<open>SlabRequest\<close> objects live in blocks of 256 that are
  never freed while the manager runs; an object is its index in the sequence of all objects
  allocated so far, and the intrusive lists are lists of such indices (the pointer structure
  behind them is verified in \<open>Intrusive_List\<close>).  A \<open>const void*\<close> argument is a natural number.

  The locale \<open>level_queue\<close> is what the manager's slab service relies on: the queue content as
  one request list per level.
\<close>

section \<open>Model\<close>

record slab_request =
  rq_id :: u32
  rq_numSlabs :: u32
  rq_arg :: nat

definition SlabRequest :: slab_request where
  "SlabRequest = \<lparr>rq_id = 0, rq_numSlabs = 0, rq_arg = 0\<rparr>"

record slab_request_manager =
  maxLevel :: nat
  numRequests :: u32
  requestLists :: "nat list list"
  slabRequestBlocks :: "slab_request list"
  emptyRequests :: "nat list"

definition kNumReqs :: nat where
  "kNumReqs = 256"

definition AddSlabRequestBlock :: "slab_request_manager \<Rightarrow> slab_request_manager" where
  "AddSlabRequestBlock m =
     (let n = length (slabRequestBlocks m)
      in m\<lparr>slabRequestBlocks := slabRequestBlocks m @ replicate kNumReqs SlabRequest,
           emptyRequests := emptyRequests m @ [n..<n + kNumReqs]\<rparr>)"

definition SlabRequestManager :: "nat \<Rightarrow> (unit, slab_request_manager) outcome" where
  "SlabRequestManager maxLvl =
     (if maxLvl = 0 then Crash AssertionFailed
      else Ok () (AddSlabRequestBlock
        \<lparr>maxLevel = maxLvl, numRequests = 0, requestLists = replicate (Suc maxLvl) [],
         slabRequestBlocks = [], emptyRequests = []\<rparr>))"

definition SafeLevel :: "slab_request_manager \<Rightarrow> int \<Rightarrow> nat" where
  "SafeLevel m level = (if level < 0 \<or> nat level > maxLevel m then maxLevel m else nat level)"

definition AddRequest ::
  "int \<Rightarrow> u32 \<Rightarrow> u32 \<Rightarrow> nat \<Rightarrow> slab_request_manager \<Rightarrow> slab_request_manager" where
  "AddRequest level numSlabs ident arg m =
     (let m1 = (if emptyRequests m = [] then AddSlabRequestBlock m else m);
          lvl = SafeLevel m1 level;
          req = hd (emptyRequests m1)
      in m1\<lparr>emptyRequests := tl (emptyRequests m1),
            slabRequestBlocks := (slabRequestBlocks m1)[req := \<lparr>rq_id = ident, rq_numSlabs = numSlabs, rq_arg = arg\<rparr>],
            requestLists := (requestLists m1)[lvl := requestLists m1 ! lvl @ [req]],
            numRequests := numRequests m1 + 1\<rparr>)"

fun first_nonempty :: "nat \<Rightarrow> nat list list \<Rightarrow> int" where
  "first_nonempty lvl [] = -1"
| "first_nonempty lvl (xs # xss) = (if xs \<noteq> [] then int lvl else first_nonempty (Suc lvl) xss)"

definition LowestLevelPending :: "slab_request_manager \<Rightarrow> int" where
  "LowestLevelPending m = (if numRequests m = 0 then -1 else first_nonempty 0 (requestLists m))"

definition NumRequests_at :: "int \<Rightarrow> slab_request_manager \<Rightarrow> nat" where
  "NumRequests_at level m =
     (if level < 0 \<or> nat level > maxLevel m then 0 else length (requestLists m ! nat level))"

text \<open>
  \<open>FrontRequest\<close> returns a reference, that is an index; the request read through it is
  \<open>slabRequestBlocks m ! i\<close>.  Out of range it fails its assertion, on an empty list it would
  treat the list's root as a request.
\<close>

definition FrontRequest :: "int \<Rightarrow> slab_request_manager \<Rightarrow> (nat, slab_request_manager) outcome" where
  "FrontRequest level m =
     (if level < 0 \<or> nat level > maxLevel m then Crash AssertionFailed
      else case requestLists m ! nat level of
        [] \<Rightarrow> Crash OutOfBounds
      | r # _ \<Rightarrow> Ok r m)"

definition PopFrontRequest :: "int \<Rightarrow> slab_request_manager \<Rightarrow> (unit, slab_request_manager) outcome" where
  "PopFrontRequest level m =
     (if level < 0 \<or> nat level > maxLevel m then Crash AssertionFailed
      else case requestLists m ! nat level of
        [] \<Rightarrow> Crash AssertionFailed
      | r # rs \<Rightarrow> Ok () (m\<lparr>requestLists := (requestLists m)[nat level := rs],
                          numRequests := numRequests m - 1,
                          emptyRequests := emptyRequests m @ [r]\<rparr>))"

text \<open>\<open>Reset\<close>: the inner loop pops level \<open>lvl\<close> until it is empty (\<open>k\<close> is its length).\<close>

fun pop_level :: "nat \<Rightarrow> nat \<Rightarrow> slab_request_manager \<Rightarrow> (unit, slab_request_manager) outcome" where
  "pop_level 0 lvl m = Ok () m"
| "pop_level (Suc k) lvl m = bind_o (PopFrontRequest (int lvl) m) (\<lambda>_. pop_level k lvl)"

definition Reset :: "slab_request_manager \<Rightarrow> (unit, slab_request_manager) outcome" where
  "Reset m =
     bind_o (for_each (\<lambda>lvl m. pop_level (length (requestLists m ! lvl)) lvl m) [0..<Suc (maxLevel m)] m)
       (\<lambda>_ m. if numRequests m \<noteq> 0 then Crash AssertionFailed else Ok () m)"

section \<open>Invariant and abstraction\<close>

definition srm_inv :: "slab_request_manager \<Rightarrow> bool" where
  "srm_inv m \<longleftrightarrow>
     length (requestLists m) = Suc (maxLevel m)
     \<and> pool (emptyRequests m @ concat (requestLists m)) (length (slabRequestBlocks m))
     \<and> unat (numRequests m) = length (concat (requestLists m))"

text \<open>The content of the queue: the requests waiting at each level, oldest first.\<close>

definition srm_levels :: "slab_request_manager \<Rightarrow> slab_request list list" where
  "srm_levels m = map (map ((!) (slabRequestBlocks m))) (requestLists m)"

lemma length_srm_levels [simp]: "length (srm_levels m) = length (requestLists m)"
  by (simp add: srm_levels_def)

lemma srm_levels_Nil_iff: "i < length (requestLists m) \<Longrightarrow> srm_levels m ! i = [] \<longleftrightarrow> requestLists m ! i = []"
  by (simp add: srm_levels_def)

lemma srm_pending: "srm_inv m \<Longrightarrow> numRequests m = 0 \<longleftrightarrow> concat (requestLists m) = []"
  by (auto simp: srm_inv_def unat_eq_zero simp flip: unat_eq_zero)

lemma srm_levels_blocks:
  assumes "srm_inv m" and "r \<in> set (concat (requestLists m))"
  shows "r < length (slabRequestBlocks m)" and "r \<notin> set (emptyRequests m)"
proof -
  have pool: "pool (emptyRequests m @ concat (requestLists m)) (length (slabRequestBlocks m))"
    using assms(1) by (simp add: srm_inv_def)
  show "r < length (slabRequestBlocks m)" using pool_mem [OF pool, of r] assms(2) by simp
  show "r \<notin> set (emptyRequests m)" using pool_distinct [OF pool] assms(2) by auto
qed

subsection \<open>Adding a request\<close>

lemma srm_inv_block:
  assumes "srm_inv m"
  shows "srm_inv (AddSlabRequestBlock m)" and "srm_levels (AddSlabRequestBlock m) = srm_levels m"
    and "emptyRequests (AddSlabRequestBlock m) \<noteq> []"
proof -
  have "pool ((emptyRequests m @ concat (requestLists m)) @ [length (slabRequestBlocks m)..<length (slabRequestBlocks m) + kNumReqs])
      (length (slabRequestBlocks m) + kNumReqs)"
    using assms by (intro pool_grow) (simp add: srm_inv_def)
  then have "pool ((emptyRequests m @ [length (slabRequestBlocks m)..<length (slabRequestBlocks m) + kNumReqs]) @ concat (requestLists m))
      (length (slabRequestBlocks m) + kNumReqs)"
    by (rule iffD1 [OF pool_cong, rotated]) simp
  then show "srm_inv (AddSlabRequestBlock m)"
    using assms by (simp add: srm_inv_def AddSlabRequestBlock_def Let_def)
  show "srm_levels (AddSlabRequestBlock m) = srm_levels m"
    using srm_levels_blocks(1) [OF assms]
    by (auto simp: srm_levels_def AddSlabRequestBlock_def Let_def nth_append)
  show "emptyRequests (AddSlabRequestBlock m) \<noteq> []"
    by (simp add: AddSlabRequestBlock_def Let_def kNumReqs_def)
qed

lemma AddRequest_from_pool:
  assumes inv: "srm_inv m" and ne: "emptyRequests m = r # es" and room: "unat (numRequests m) < 2 ^ 32 - 1"
  shows "srm_inv (AddRequest level ns ident arg m)"
    and "srm_levels (AddRequest level ns ident arg m) =
      (srm_levels m)[SafeLevel m level := srm_levels m ! SafeLevel m level @
         [\<lparr>rq_id = ident, rq_numSlabs = ns, rq_arg = arg\<rparr>]]"
proof -
  let ?lvl = "SafeLevel m level" and ?rl = "requestLists m"
  have len: "?lvl < length ?rl" using inv by (auto simp: srm_inv_def SafeLevel_def)
  have r: "r < length (slabRequestBlocks m)" "r \<notin> set (concat ?rl)"
    using inv pool_mem [of "emptyRequests m @ concat ?rl" "length (slabRequestBlocks m)" r]
      pool_distinct [of "emptyRequests m @ concat ?rl"] by (auto simp: srm_inv_def ne)
  have perm: "mset (concat (?rl[?lvl := ?rl ! ?lvl @ [r]])) = add_mset r (mset (concat ?rl))"
    using mset_concat_update [OF len, of "?rl ! ?lvl @ [r]"] by simp
  then have "pool (es @ concat (?rl[?lvl := ?rl ! ?lvl @ [r]])) (length (slabRequestBlocks m))"
    using inv by (simp add: srm_inv_def ne pool_def)
  moreover have "length (concat (?rl[?lvl := ?rl ! ?lvl @ [r]])) = Suc (length (concat ?rl))"
    using arg_cong [OF perm, of size] by simp
  moreover have "unat (numRequests m + 1) = Suc (unat (numRequests m))"
    using room by (rule unat_inc_u32)
  ultimately show "srm_inv (AddRequest level ns ident arg m)"
    using inv by (simp add: srm_inv_def AddRequest_def ne Let_def)
  have "map (map ((!) ((slabRequestBlocks m)[r := v]))) ?rl = srm_levels m" for v
    using r(2) by (auto simp: srm_levels_def map_nth_update_other intro!: map_cong)
  moreover have "map ((!) ((slabRequestBlocks m)[r := v])) (?rl ! ?lvl) = srm_levels m ! ?lvl" for v
    using r(2) len nth_mem [OF len] by (auto simp: srm_levels_def map_nth_update_other simp del: nth_mem)
  ultimately show "srm_levels (AddRequest level ns ident arg m) =
      (srm_levels m)[?lvl := srm_levels m ! ?lvl @ [\<lparr>rq_id = ident, rq_numSlabs = ns, rq_arg = arg\<rparr>]]"
    using r(1) unfolding srm_levels_def [of "AddRequest level ns ident arg m"]
    by (simp add: AddRequest_def ne Let_def map_update)
qed

lemma AddRequest_block:
  assumes "emptyRequests m = []"
  shows "AddRequest level ns ident arg m = AddRequest level ns ident arg (AddSlabRequestBlock m)"
  using assms by (simp add: AddRequest_def Let_def AddSlabRequestBlock_def kNumReqs_def)

lemma AddRequest_spec:
  assumes inv: "srm_inv m" and room: "unat (numRequests m) < 2 ^ 32 - 1"
  shows "srm_inv (AddRequest level ns ident arg m)"
    and "srm_levels (AddRequest level ns ident arg m) =
      (srm_levels m)[SafeLevel m level := srm_levels m ! SafeLevel m level @
         [\<lparr>rq_id = ident, rq_numSlabs = ns, rq_arg = arg\<rparr>]]"
proof (atomize (full), cases "emptyRequests m")
  case (Cons r es)
  then show "srm_inv (AddRequest level ns ident arg m) \<and> srm_levels (AddRequest level ns ident arg m) =
      (srm_levels m)[SafeLevel m level := srm_levels m ! SafeLevel m level @
         [\<lparr>rq_id = ident, rq_numSlabs = ns, rq_arg = arg\<rparr>]]"
    using AddRequest_from_pool [OF inv Cons room] by blast
next
  case Nil
  let ?m = "AddSlabRequestBlock m"
  obtain r es where ne: "emptyRequests ?m = r # es"
    using srm_inv_block(3) [OF inv] by (cases "emptyRequests ?m") auto
  have "numRequests ?m = numRequests m" "SafeLevel ?m level = SafeLevel m level"
    by (simp_all add: AddSlabRequestBlock_def Let_def SafeLevel_def)
  then show "srm_inv (AddRequest level ns ident arg m) \<and> srm_levels (AddRequest level ns ident arg m) =
      (srm_levels m)[SafeLevel m level := srm_levels m ! SafeLevel m level @
         [\<lparr>rq_id = ident, rq_numSlabs = ns, rq_arg = arg\<rparr>]]"
    using AddRequest_from_pool [OF srm_inv_block(1) [OF inv] ne, of level ns ident arg] room
    by (simp add: AddRequest_block [OF Nil] srm_inv_block(2) [OF inv])
qed

subsection \<open>Taking the oldest request of the lowest level\<close>

lemma first_nonempty_spec:
  assumes "concat xss \<noteq> []"
  obtains i where "first_nonempty k xss = int (k + i)" and "i < length xss" and "xss ! i \<noteq> []"
    and "\<forall>j < i. xss ! j = []"
  using assms
proof (induction xss arbitrary: k thesis)
  case (Cons xs xss)
  show ?case
  proof (cases "xs = []")
    case True
    then have "concat xss \<noteq> []" using Cons.prems(2) by simp
    then obtain i where "first_nonempty (Suc k) xss = int (Suc k + i)" "i < length xss" "xss ! i \<noteq> []"
      "\<forall>j < i. xss ! j = []"
      using Cons.IH [of "Suc k"] by blast
    with True show ?thesis
      by (intro Cons.prems(1) [of "Suc i"]) (auto simp: less_Suc_eq_0_disj)
  next
    case False
    then show ?thesis by (intro Cons.prems(1) [of 0]) auto
  qed
qed simp

lemma LowestLevelPending_spec:
  assumes "srm_inv m" and "numRequests m \<noteq> 0"
  obtains i where "LowestLevelPending m = int i" and "i \<le> maxLevel m" and "srm_levels m ! i \<noteq> []"
    and "\<forall>j < i. srm_levels m ! j = []"
proof -
  have "concat (requestLists m) \<noteq> []" using assms srm_pending by blast
  then obtain i where i: "first_nonempty 0 (requestLists m) = int (0 + i)" "i < length (requestLists m)"
    "requestLists m ! i \<noteq> []" "\<forall>j < i. requestLists m ! j = []"
    by (rule first_nonempty_spec)
  show thesis
  proof (rule that)
    show "LowestLevelPending m = int i" using i assms by (simp add: LowestLevelPending_def)
    show "i \<le> maxLevel m" using i assms by (simp add: srm_inv_def)
  qed (use i in \<open>simp_all add: srm_levels_def\<close>)
qed

lemma LowestLevelPending_none: "numRequests m = 0 \<Longrightarrow> LowestLevelPending m = -1"
  by (simp add: LowestLevelPending_def)

lemma FrontPop_spec:
  assumes inv: "srm_inv m" and lvl: "i \<le> maxLevel m" and ne: "srm_levels m ! i = q # qs"
  obtains r m' where "FrontRequest (int i) m = Ok r m" and "slabRequestBlocks m ! r = q"
    and "PopFrontRequest (int i) m = Ok () m'" and "slabRequestBlocks m' ! r = q"
    and "srm_inv m'" and "srm_levels m' = (srm_levels m)[i := qs]"
    and "unat (numRequests m) = Suc (unat (numRequests m'))"
    and "maxLevel m' = maxLevel m"
proof -
  have len: "i < length (requestLists m)" using inv lvl by (simp add: srm_inv_def)
  obtain r rs where rl: "requestLists m ! i = r # rs" and q: "slabRequestBlocks m ! r = q"
    and qs: "map ((!) (slabRequestBlocks m)) rs = qs"
    using ne len by (auto simp: srm_levels_def)
  let ?m = "m\<lparr>requestLists := (requestLists m)[i := rs], numRequests := numRequests m - 1,
      emptyRequests := emptyRequests m @ [r]\<rparr>"
  have perm: "add_mset r (mset (concat ((requestLists m)[i := rs]))) = mset (concat (requestLists m))"
    using mset_concat_update [OF len, of rs] by (simp add: rl)
  have pos: "unat (numRequests m) = Suc (length (concat ((requestLists m)[i := rs])))"
    using inv arg_cong [OF perm, of size] by (simp add: srm_inv_def)
  then have dec: "unat (numRequests m - 1) = unat (numRequests m) - 1"
    by (intro unat_dec) auto
  have "pool ((emptyRequests m @ [r]) @ concat ((requestLists m)[i := rs])) (length (slabRequestBlocks m))"
    using inv perm by (simp add: srm_inv_def pool_def)
  then have "srm_inv ?m" using inv pos dec by (auto simp: srm_inv_def)
  moreover have "srm_levels ?m = (srm_levels m)[i := qs]"
    by (simp add: srm_levels_def map_update qs)
  ultimately show thesis
    using len lvl rl q pos dec
    by (intro that [of r ?m]) (auto simp: FrontRequest_def PopFrontRequest_def)
qed

subsection \<open>Reset\<close>

lemma pop_level_spec:
  assumes "srm_inv m" and "i \<le> maxLevel m" and "length (requestLists m ! i) = k"
  shows "sat (pop_level k i m) (\<lambda>_ m'. srm_inv m' \<and> maxLevel m' = maxLevel m
     \<and> srm_levels m' = (srm_levels m)[i := []]) (\<lambda>_ _. False)"
  using assms
proof (induction k arbitrary: m)
  case 0
  then have "srm_levels m ! i = []" by (simp add: srm_levels_def srm_inv_def)
  then show ?case using 0 list_update_id [of "srm_levels m" i] by simp
next
  case (Suc k)
  have len: "i < length (requestLists m)" using Suc.prems by (simp add: srm_inv_def)
  obtain q qs where ne: "srm_levels m ! i = q # qs" and qs: "length qs = k"
    using Suc.prems len by (cases "srm_levels m ! i") (auto simp: srm_levels_def)
  obtain m' where m': "PopFrontRequest (int i) m = Ok () m'" "srm_inv m'"
    "srm_levels m' = (srm_levels m)[i := qs]" "maxLevel m' = maxLevel m"
    using FrontPop_spec [OF Suc.prems(1,2) ne] by metis
  have "srm_levels m' ! i = qs" "i < length (requestLists m')"
    using m' len by (simp_all add: srm_inv_def) (metis length_list_update length_srm_levels nth_list_update_eq)
  then have "length (requestLists m' ! i) = k"
    using qs by (auto simp: srm_levels_def)
  from Suc.IH [OF m'(2) _ this] show ?case
    using Suc.prems(2) m' by (auto elim: sat_mono)
qed

lemma reset_levels:
  assumes "srm_inv m" and "maxLevel m = M" and "\<forall>j < k. srm_levels m ! j = []" and "k \<le> Suc M"
  shows "sat (for_each (\<lambda>lvl m. pop_level (length (requestLists m ! lvl)) lvl m) [k..<Suc M] m)
     (\<lambda>_ m'. srm_inv m' \<and> maxLevel m' = M \<and> (\<forall>j \<le> M. srm_levels m' ! j = [])) (\<lambda>_ _. False)"
  using assms
proof (induction "Suc M - k" arbitrary: k m)
  case 0
  then show ?case by simp
next
  case (Suc d)
  then have k: "k < Suc M" "[k..<Suc M] = k # [Suc k..<Suc M]" by (auto simp: upt_conv_Cons)
  have step: "sat (pop_level (length (requestLists m ! k)) k m)
      (\<lambda>_ m'. srm_inv m' \<and> maxLevel m' = M \<and> srm_levels m' = (srm_levels m)[k := []]) (\<lambda>_ _. False)"
    using pop_level_spec [OF Suc.prems(1) _ refl, of k] k(1) Suc.prems(2) by simp
  have len: "k < length (srm_levels m)" using Suc.prems k by (simp add: srm_inv_def)
  show ?case
    unfolding k(2) for_each.simps
  proof (rule sat_bind [OF step], elim conjE)
    fix m' assume "srm_inv m'" "maxLevel m' = M" "srm_levels m' = (srm_levels m)[k := []]"
    with Suc.hyps(2) Suc.prems k(1) len
    show "sat (for_each (\<lambda>lvl m. pop_level (length (requestLists m ! lvl)) lvl m) [Suc k..<Suc M] m')
       (\<lambda>_ m'. srm_inv m' \<and> maxLevel m' = M \<and> (\<forall>j \<le> M. srm_levels m' ! j = [])) (\<lambda>_ _. False)"
      by (intro Suc.hyps(1)) (auto simp: nth_list_update less_Suc_eq)
  qed
qed

lemma Reset_spec:
  assumes "srm_inv m"
  shows "sat (Reset m) (\<lambda>_ m'. srm_inv m' \<and> numRequests m' = 0 \<and> concat (srm_levels m') = []) (\<lambda>_ _. False)"
  unfolding Reset_def
proof (rule sat_bind [OF reset_levels [OF assms refl, of 0]], simp, simp, elim conjE)
  fix m' assume m': "srm_inv m'" "maxLevel m' = maxLevel m" "\<forall>j \<le> maxLevel m. srm_levels m' ! j = []"
  then have "\<forall>xs \<in> set (srm_levels m'). xs = []"
    by (auto simp: in_set_conv_nth srm_inv_def)
  then have empty: "concat (srm_levels m') = []" by simp
  then have "concat (requestLists m') = []" by (auto simp: srm_levels_def)
  then show "sat (if numRequests m' \<noteq> 0 then Crash AssertionFailed else Ok () m')
      (\<lambda>_ m'. srm_inv m' \<and> numRequests m' = 0 \<and> concat (srm_levels m') = []) (\<lambda>_ _. False)"
    using m'(1) empty srm_pending by auto
qed

section \<open>The contract of the request queue\<close>

locale level_queue =
  fixes levels :: "'q \<Rightarrow> 'r list list"
    and invar :: "'q \<Rightarrow> bool"
    and pending :: "'q \<Rightarrow> bool"
    and take_front :: "'q \<Rightarrow> ('r, 'q) outcome"
  assumes pending_iff: "invar q \<Longrightarrow> pending q \<longleftrightarrow> concat (levels q) \<noteq> []"
    and take_front_ok: "invar q \<Longrightarrow> pending q \<Longrightarrow>
      \<exists>i r rs q'. take_front q = Ok r q' \<and> i < length (levels q) \<and> (\<forall>j < i. levels q ! j = [])
        \<and> levels q ! i = r # rs \<and> levels q' = (levels q)[i := rs] \<and> invar q'"
begin

lemma concat_first_level:
  assumes "i < length xss" and "\<forall>j < i. xss ! j = []" and "xss ! i = r # rs"
  shows "concat xss = r # concat (xss[i := rs])"
  using assms
proof (induction xss arbitrary: i)
  case (Cons xs xss)
  show ?case
  proof (cases i)
    case 0
    with Cons.prems show ?thesis by simp
  next
    case (Suc n)
    have "xs = []" using Cons.prems(2) Suc by force
    moreover have "concat xss = r # concat (xss[n := rs])"
      using Cons.prems Suc by (intro Cons.IH) auto
    ultimately show ?thesis using Suc by simp
  qed
qed simp

lemma take_front_order:
  assumes "invar q" and "pending q"
  shows "\<exists>r q'. take_front q = Ok r q' \<and> concat (levels q) = r # concat (levels q') \<and> invar q'"
  using take_front_ok [OF assms] concat_first_level by metis

primrec drain :: "nat \<Rightarrow> 'q \<Rightarrow> ('r list, 'q) outcome" where
  "drain 0 q = Ok [] q"
| "drain (Suc n) q =
     (if pending q
      then bind_o (take_front q) (\<lambda>r q'. bind_o (drain n q') (\<lambda>rs. Ok (r # rs)))
      else Ok [] q)"

text \<open>Served one after the other, the requests come out level by level, first come first served.\<close>

lemma drain_order:
  assumes "invar q" and "length (concat (levels q)) \<le> n"
  shows "\<exists>q'. drain n q = Ok (concat (levels q)) q' \<and> \<not> pending q' \<and> invar q'"
  using assms
proof (induction n arbitrary: q)
  case 0
  then show ?case by (simp add: pending_iff)
next
  case (Suc n)
  show ?case
  proof (cases "pending q")
    case True
    then obtain r q' where r: "take_front q = Ok r q'" "concat (levels q) = r # concat (levels q')" "invar q'"
      using take_front_order Suc.prems(1) by blast
    moreover have "length (concat (levels q')) \<le> n" using r(2) Suc.prems(2) by simp
    ultimately show ?thesis using Suc.IH [of q'] True by auto
  next
    case False
    then show ?thesis using Suc.prems by (simp add: pending_iff)
  qed
qed

end

text \<open>
  The access pattern of \<open>Manager::ServiceSlabRequests\<close>: find the lowest pending level, take a
  reference to its front request, pop it, and read the request through the reference (the
  object is already back in the pool, but nothing has reused it).
\<close>

definition TakeLowestRequest :: "slab_request_manager \<Rightarrow> (slab_request, slab_request_manager) outcome" where
  "TakeLowestRequest m =
     (let level = LowestLevelPending m in
      bind_o (FrontRequest level m) (\<lambda>r m1.
      bind_o (PopFrontRequest level m1) (\<lambda>_ m2. Ok (slabRequestBlocks m2 ! r) m2)))"

interpretation srm: level_queue srm_levels srm_inv "\<lambda>m. numRequests m \<noteq> 0" TakeLowestRequest
proof unfold_locales
  fix m :: slab_request_manager
  assume inv: "srm_inv m"
  have "concat (srm_levels m) = [] \<longleftrightarrow> concat (requestLists m) = []"
    by (auto simp: srm_levels_def)
  then show "numRequests m \<noteq> 0 \<longleftrightarrow> concat (srm_levels m) \<noteq> []"
    using srm_pending [OF inv] by simp
  assume pend: "numRequests m \<noteq> 0"
  obtain i where i: "LowestLevelPending m = int i" "i \<le> maxLevel m" "srm_levels m ! i \<noteq> []"
    "\<forall>j < i. srm_levels m ! j = []"
    using LowestLevelPending_spec [OF inv pend] by blast
  obtain q qs where q: "srm_levels m ! i = q # qs" using i(3) by (cases "srm_levels m ! i") auto
  obtain r m' where "FrontRequest (int i) m = Ok r m" "PopFrontRequest (int i) m = Ok () m'"
    "slabRequestBlocks m' ! r = q" "srm_inv m'" "srm_levels m' = (srm_levels m)[i := qs]"
    using FrontPop_spec [OF inv i(2) q] by metis
  then show "\<exists>i r rs q'. TakeLowestRequest m = Ok r q' \<and> i < length (srm_levels m)
      \<and> (\<forall>j < i. srm_levels m ! j = []) \<and> srm_levels m ! i = r # rs
      \<and> srm_levels q' = (srm_levels m)[i := rs] \<and> srm_inv q'"
    using i q inv by (intro exI [of _ i] exI [of _ q] exI [of _ qs] exI [of _ m'])
      (simp add: TakeLowestRequest_def srm_inv_def)
qed

lemma TakeLowestRequest_count:
  assumes "srm_inv m" and "numRequests m \<noteq> 0" and "TakeLowestRequest m = Ok q m'"
  shows "unat (numRequests m) = Suc (unat (numRequests m'))" and "maxLevel m' = maxLevel m"
proof -
  obtain i where i: "LowestLevelPending m = int i" "i \<le> maxLevel m" "srm_levels m ! i \<noteq> []"
    using LowestLevelPending_spec [OF assms(1,2)] by blast
  obtain p ps where p: "srm_levels m ! i = p # ps" using i(3) by (cases "srm_levels m ! i") auto
  obtain r m2 where "FrontRequest (int i) m = Ok r m" "PopFrontRequest (int i) m = Ok () m2"
    "unat (numRequests m) = Suc (unat (numRequests m2))" "maxLevel m2 = maxLevel m"
    using FrontPop_spec [OF assms(1) i(2) p] by metis
  then show "unat (numRequests m) = Suc (unat (numRequests m'))" and "maxLevel m' = maxLevel m"
    using assms(3) i(1) by (simp_all add: TakeLowestRequest_def)
qed

lemma srm_inv_new: "SlabRequestManager n = Ok () m \<Longrightarrow> srm_inv m"
  and srm_levels_new: "SlabRequestManager n = Ok () m \<Longrightarrow> srm_levels m = replicate (Suc n) []"
proof -
  assume "SlabRequestManager n = Ok () m"
  then have m: "m = AddSlabRequestBlock \<lparr>maxLevel = n, numRequests = 0, requestLists = replicate (Suc n) [],
         slabRequestBlocks = [], emptyRequests = []\<rparr>" (is "m = AddSlabRequestBlock ?m0")
    by (simp add: SlabRequestManager_def split: if_splits)
  have inv0: "srm_inv ?m0" by (simp add: srm_inv_def pool_Nil)
  show "srm_inv m" using srm_inv_block(1) [OF inv0] m by simp
  show "srm_levels m = replicate (Suc n) []"
    using srm_inv_block(2) [OF inv0] m by (simp add: srm_levels_def)
qed

section \<open>Properties\<close>

text \<open>
  C16: pending requests are served level by level, and within a level in the order they were
  added; serving ends with no request pending.
\<close>

theorem requests_served_in_order:
  assumes "srm_inv m"
  shows "\<exists>m'. srm.drain (length (concat (srm_levels m))) m = Ok (concat (srm_levels m)) m'
    \<and> numRequests m' = 0 \<and> srm_inv m'"
  using srm.drain_order [OF assms, of "length (concat (srm_levels m))"] by simp

definition example_requests :: slab_request_manager where
  "example_requests = AddRequest 0 5 12 0 (AddRequest 7 3 11 0 (AddSlabRequestBlock
     \<lparr>maxLevel = 2, numRequests = 0, requestLists = [[], [], []], slabRequestBlocks = [], emptyRequests = []\<rparr>))"

lemma example_requests_facts:
  "srm_inv example_requests"
  "srm_levels example_requests = [[\<lparr>rq_id = 12, rq_numSlabs = 5, rq_arg = 0\<rparr>], [], [\<lparr>rq_id = 11, rq_numSlabs = 3, rq_arg = 0\<rparr>]]"
proof -
  define m0 where "m0 = \<lparr>maxLevel = 2, numRequests = 0, requestLists = [[], [], []], slabRequestBlocks = [], emptyRequests = []\<rparr>"
  have "srm_inv m0" by (simp add: m0_def srm_inv_def pool_Nil)
  note b = srm_inv_block [OF this]
  have n: "numRequests (AddSlabRequestBlock m0) = 0" "maxLevel (AddSlabRequestBlock m0) = 2" "srm_levels m0 = [[], [], []]"
    by (simp_all add: m0_def AddSlabRequestBlock_def Let_def srm_levels_def)
  let ?m1 = "AddRequest 7 3 11 0 (AddSlabRequestBlock m0)"
  have m1: "srm_inv ?m1" "srm_levels ?m1 = [[], [], [\<lparr>rq_id = 11, rq_numSlabs = 3, rq_arg = 0\<rparr>]]"
    using AddRequest_spec [OF b(1), of 7 3 11 0] n b(2) by (simp_all add: SafeLevel_def)
  have n1: "numRequests ?m1 = 1" "maxLevel ?m1 = 2"
    using n b(3) by (simp_all add: AddRequest_def Let_def)
  show "srm_inv example_requests"
    "srm_levels example_requests = [[\<lparr>rq_id = 12, rq_numSlabs = 5, rq_arg = 0\<rparr>], [], [\<lparr>rq_id = 11, rq_numSlabs = 3, rq_arg = 0\<rparr>]]"
    using AddRequest_spec [OF m1(1), of 0 5 12 0] n1 m1(2)
    by (simp_all add: example_requests_def SafeLevel_def flip: m0_def)
qed

theorem requests_served_in_order_witness:
  "\<exists>m'. srm.drain 2 example_requests
      = Ok [\<lparr>rq_id = 12, rq_numSlabs = 5, rq_arg = 0\<rparr>, \<lparr>rq_id = 11, rq_numSlabs = 3, rq_arg = 0\<rparr>] m'
    \<and> numRequests m' = 0"
  using requests_served_in_order [OF example_requests_facts(1)]
  by (auto simp: example_requests_facts(2) numeral_2_eq_2)

text \<open>
  adding a request appends it to the queue of its level (an out-of-range level is the
  highest one) and changes no other queue, whether or not a new block of request objects has
  to be allocated.
\<close>

theorem AddRequest_appends:
  assumes "srm_inv m" and "unat (numRequests m) < 2 ^ 32 - 1"
  shows "srm_inv (AddRequest level ns ident arg m) \<and>
    srm_levels (AddRequest level ns ident arg m) =
      (srm_levels m)[SafeLevel m level := srm_levels m ! SafeLevel m level @
         [\<lparr>rq_id = ident, rq_numSlabs = ns, rq_arg = arg\<rparr>]]"
  using AddRequest_spec [OF assms] by blast

theorem AddRequest_appends_witness:
  "srm_levels (AddRequest (-1) 9 1 4 example_requests) =
    [[\<lparr>rq_id = 12, rq_numSlabs = 5, rq_arg = 0\<rparr>], [],
     [\<lparr>rq_id = 11, rq_numSlabs = 3, rq_arg = 0\<rparr>, \<lparr>rq_id = 1, rq_numSlabs = 9, rq_arg = 4\<rparr>]]"
proof -
  have "numRequests example_requests = 2" "maxLevel example_requests = 2"
    by (simp_all add: example_requests_def AddRequest_def AddSlabRequestBlock_def Let_def kNumReqs_def)
  then show ?thesis
    using AddRequest_appends [OF example_requests_facts(1), of "-1" 9 1 4]
    by (simp add: SafeLevel_def example_requests_facts(2))
qed

end
