(* ===== verification/Slab_Tracker.thy ===== *)
theory Slab_Tracker
  imports MCSB_Prelude
begin

text \<open>
  \<open>Manager::ClientProxy::SlabTracker\<close> (apps/MCSBManager/ProxySlabTracker.cc): which slabs one
  client holds, as a producer (a bit per slab) and as a consumer (a 16-bit reference count per
  slab), with the two counters derived from them.  \<open>std::vector\<close> indexing is unchecked in the
  source; out of range the model crashes.  The loops over an array of slab IDs recurse over
  the list of its elements.
\<close>

section \<open>Model\<close>

record slab_tracker =
  numProdSlabs :: u32
  numConsSlabs :: u32
  prodSlabsHeld :: u32
  consSlabsHeld :: u32
  prodSlabRefcnt :: "bool list"
  consSlabRefcnt :: "u16 list"

definition SlabTracker :: slab_tracker where
  "SlabTracker = \<lparr>numProdSlabs = 0, numConsSlabs = 0, prodSlabsHeld = 0, consSlabsHeld = 0,
     prodSlabRefcnt = [], consSlabRefcnt = []\<rparr>"

definition resize :: "nat \<Rightarrow> 'a \<Rightarrow> 'a list \<Rightarrow> 'a list" where
  "resize n x xs = take n xs @ replicate (n - length xs) x"

definition TotalNumSlabs :: "u32 \<Rightarrow> slab_tracker \<Rightarrow> slab_tracker" where
  "TotalNumSlabs n t = t\<lparr>prodSlabRefcnt := resize (unat n) False (prodSlabRefcnt t),
                         consSlabRefcnt := resize (unat n) 0 (consSlabRefcnt t)\<rparr>"

definition ProdSlabsNeeded :: "slab_tracker \<Rightarrow> u32" where
  "ProdSlabsNeeded t =
     (if numProdSlabs t > prodSlabsHeld t then numProdSlabs t - prodSlabsHeld t else 0)"

fun InsertProdSlabs_loop :: "u32 list \<Rightarrow> nat \<Rightarrow> slab_tracker \<Rightarrow> (nat, slab_tracker) outcome" where
  "InsertProdSlabs_loop [] errs t = Ok errs t"
| "InsertProdSlabs_loop (slabID # ids) errs t =
     (if unat slabID \<ge> length (prodSlabRefcnt t) then Crash OutOfBounds
      else let held = prodSlabRefcnt t ! unat slabID;
               t' = (if held then t else t\<lparr>prodSlabsHeld := prodSlabsHeld t + 1\<rparr>)
           in InsertProdSlabs_loop ids (if held then Suc errs else errs)
                (t'\<lparr>prodSlabRefcnt := (prodSlabRefcnt t')[unat slabID := True]\<rparr>))"

definition InsertProdSlabs :: "u32 list \<Rightarrow> slab_tracker \<Rightarrow> (unit, slab_tracker) outcome" where
  "InsertProdSlabs ids t =
     bind_o (InsertProdSlabs_loop ids 0 t) (\<lambda>errs t'.
       if errs \<noteq> 0 then Throw ''SlabTracker::InsertProdSlabs already holds slab'' t' else Ok () t')"

fun EraseProdSlabs_check :: "u32 list \<Rightarrow> slab_tracker \<Rightarrow> (unit, slab_tracker) outcome" where
  "EraseProdSlabs_check [] t = Ok () t"
| "EraseProdSlabs_check (slabID # ids) t =
     (if unat slabID \<ge> length (prodSlabRefcnt t) then Crash OutOfBounds
      else if \<not> prodSlabRefcnt t ! unat slabID
      then Throw ''SlabTracker::EraseProdSlabs doesnt hold slab'' t
      else EraseProdSlabs_check ids t)"

definition EraseProdSlab :: "u32 \<Rightarrow> slab_tracker \<Rightarrow> slab_tracker" where
  "EraseProdSlab slabID t = t\<lparr>prodSlabRefcnt := (prodSlabRefcnt t)[unat slabID := False],
                              prodSlabsHeld := prodSlabsHeld t - 1\<rparr>"

definition EraseProdSlabs :: "u32 list \<Rightarrow> slab_tracker \<Rightarrow> (unit, slab_tracker) outcome" where
  "EraseProdSlabs ids t =
     (if length ids > unat (prodSlabsHeld t)
      then Throw ''SlabTracker::EraseProdSlabs count>prodSlabsHeld'' t
      else bind_o (EraseProdSlabs_check ids t) (\<lambda>_ t. Ok () (fold EraseProdSlab ids t)))"

text \<open>The two scans of the destructor; they return the IDs (and counts) they cleared.\<close>

fun GetAndEraseProd_loop :: "nat \<Rightarrow> nat \<Rightarrow> bool list \<Rightarrow> u32 list \<times> bool list" where
  "GetAndEraseProd_loop sid mx [] = ([], [])"
| "GetAndEraseProd_loop sid mx (b # bs) =
     (if mx = 0 then ([], b # bs)
      else if b then (let (ids, bs') = GetAndEraseProd_loop (Suc sid) (mx - 1) bs
                      in (of_nat sid # ids, False # bs'))
      else (let (ids, bs') = GetAndEraseProd_loop (Suc sid) mx bs in (ids, b # bs')))"

definition GetAndEraseProdSlabs :: "nat \<Rightarrow> slab_tracker \<Rightarrow> u32 list \<times> slab_tracker" where
  "GetAndEraseProdSlabs mxcount t =
     (let (ids, bs) = GetAndEraseProd_loop 0 mxcount (prodSlabRefcnt t)
      in (ids, t\<lparr>prodSlabRefcnt := bs\<rparr>))"

fun GetAndEraseCons_loop :: "nat \<Rightarrow> nat \<Rightarrow> u16 list \<Rightarrow> (u32 \<times> u32) list \<times> u16 list" where
  "GetAndEraseCons_loop sid mx [] = ([], [])"
| "GetAndEraseCons_loop sid mx (r # rs) =
     (if mx = 0 then ([], r # rs)
      else if r \<noteq> 0 then (let (ids, rs') = GetAndEraseCons_loop (Suc sid) (mx - 1) rs
                          in ((of_nat sid, ucast r) # ids, 0 # rs'))
      else (let (ids, rs') = GetAndEraseCons_loop (Suc sid) mx rs in (ids, r # rs')))"

definition GetAndEraseConsSlabs :: "nat \<Rightarrow> slab_tracker \<Rightarrow> (u32 \<times> u32) list \<times> slab_tracker" where
  "GetAndEraseConsSlabs mxcount t =
     (let (ids, rs) = GetAndEraseCons_loop 0 mxcount (consSlabRefcnt t)
      in (ids, t\<lparr>consSlabRefcnt := rs\<rparr>))"

definition TakeConsSlab :: "u32 \<Rightarrow> slab_tracker \<Rightarrow> (bool, slab_tracker) outcome" where
  "TakeConsSlab slabID t =
     (if unat slabID \<ge> length (consSlabRefcnt t) then Crash OutOfBounds
      else let r = consSlabRefcnt t ! unat slabID;
               t' = t\<lparr>consSlabRefcnt := (consSlabRefcnt t)[unat slabID := r + 1]\<rparr>
           in if consSlabsHeld t < numConsSlabs t then
                Ok True (if r = 0 then t'\<lparr>consSlabsHeld := consSlabsHeld t + 1\<rparr> else t')
              else if r \<noteq> 0 then Ok True t'
              else Ok False t)"

text \<open>One iteration of the decrementing loop, and one of the loop that undoes it.\<close>

definition dec_cons :: "u32 \<Rightarrow> slab_tracker \<Rightarrow> slab_tracker" where
  "dec_cons slabID t =
     (let r = consSlabRefcnt t ! unat slabID - 1
      in t\<lparr>consSlabRefcnt := (consSlabRefcnt t)[unat slabID := r],
           consSlabsHeld := (if r = 0 then consSlabsHeld t - 1 else consSlabsHeld t)\<rparr>)"

definition dec_cons_errs :: "u32 \<Rightarrow> slab_tracker \<Rightarrow> nat" where
  "dec_cons_errs slabID t =
     (if consSlabRefcnt t ! unat slabID = 0 then 1 else 0)
     + (if consSlabRefcnt t ! unat slabID - 1 = 0 \<and> consSlabsHeld t = 0 then 1 else 0)"

definition inc_cons :: "u32 \<Rightarrow> slab_tracker \<Rightarrow> slab_tracker" where
  "inc_cons slabID t =
     (let r = consSlabRefcnt t ! unat slabID
      in t\<lparr>consSlabRefcnt := (consSlabRefcnt t)[unat slabID := r + 1],
           consSlabsHeld := (if r = 0 then consSlabsHeld t + 1 else consSlabsHeld t)\<rparr>)"

fun DecrementConsSlabs_loop :: "u32 list \<Rightarrow> nat \<Rightarrow> slab_tracker \<Rightarrow> (nat, slab_tracker) outcome" where
  "DecrementConsSlabs_loop [] errs t = Ok errs t"
| "DecrementConsSlabs_loop (slabID # ids) errs t =
     (if unat slabID \<ge> length (consSlabRefcnt t) then Crash OutOfBounds
      else DecrementConsSlabs_loop ids (errs + dec_cons_errs slabID t) (dec_cons slabID t))"

definition DecrementConsSlabs :: "u32 list \<Rightarrow> slab_tracker \<Rightarrow> (unit, slab_tracker) outcome" where
  "DecrementConsSlabs ids t =
     bind_o (DecrementConsSlabs_loop ids 0 t) (\<lambda>errs t'.
       if errs = 0 then Ok () t'
       else Throw ''SlabTracker::ReleaseConsSlabs encountered errors'' (fold inc_cons ids t'))"

section \<open>Abstraction and invariant\<close>

definition prod_held :: "slab_tracker \<Rightarrow> nat \<Rightarrow> nat" where
  "prod_held t i = (if i < length (prodSlabRefcnt t) \<and> prodSlabRefcnt t ! i then 1 else 0)"

definition cons_refs :: "slab_tracker \<Rightarrow> nat \<Rightarrow> nat" where
  "cons_refs t i = (if i < length (consSlabRefcnt t) then unat (consSlabRefcnt t ! i) else 0)"

definition tracker_inv :: "nat \<Rightarrow> slab_tracker \<Rightarrow> bool" where
  "tracker_inv n t \<longleftrightarrow>
     length (prodSlabRefcnt t) = n \<and> length (consSlabRefcnt t) = n
     \<and> unat (prodSlabsHeld t) = length (filter id (prodSlabRefcnt t))
     \<and> unat (consSlabsHeld t) = length (filter (\<lambda>r. r \<noteq> 0) (consSlabRefcnt t))"

lemma tracker_invD:
  assumes "tracker_inv n t"
  shows "length (prodSlabRefcnt t) = n" and "length (consSlabRefcnt t) = n"
    and "unat (prodSlabsHeld t) = length (filter id (prodSlabRefcnt t))"
    and "unat (consSlabsHeld t) = length (filter (\<lambda>r. r \<noteq> 0) (consSlabRefcnt t))"
  using assms by (auto simp: tracker_inv_def)

section \<open>Undoing a failed release\<close>

lemma length_dec_cons [simp]: "length (consSlabRefcnt (dec_cons i t)) = length (consSlabRefcnt t)"
  by (simp add: dec_cons_def Let_def)

lemma dec_cons_frame [simp]:
  "prodSlabRefcnt (dec_cons i t) = prodSlabRefcnt t" "prodSlabsHeld (dec_cons i t) = prodSlabsHeld t"
  "numProdSlabs (dec_cons i t) = numProdSlabs t" "numConsSlabs (dec_cons i t) = numConsSlabs t"
  by (simp_all add: dec_cons_def Let_def)

lemma inc_dec_cons: "unat i < length (consSlabRefcnt t) \<Longrightarrow> inc_cons i (dec_cons i t) = t"
  by (cases t) (auto simp: inc_cons_def dec_cons_def Let_def)

lemma inc_dec_commute:
  assumes "unat i < length (consSlabRefcnt t)" and "unat j < length (consSlabRefcnt t)"
  shows "inc_cons i (dec_cons j t) = dec_cons j (inc_cons i t)"
proof (cases "i = j")
  case True
  then show ?thesis
    using assms by (cases t) (auto simp: inc_cons_def dec_cons_def Let_def)
next
  case False
  then have "unat i \<noteq> unat j" by (auto dest: unsigned_word_eqI)
  then show ?thesis
    using assms by (cases t) (auto simp: inc_cons_def dec_cons_def Let_def list_update_swap)
qed

lemma inc_cons_fold_dec:
  assumes "unat i < length (consSlabRefcnt t)" and "\<forall>j \<in> set ids. unat j < length (consSlabRefcnt t)"
  shows "inc_cons i (fold dec_cons ids t) = fold dec_cons ids (inc_cons i t)"
  using assms
proof (induction ids arbitrary: t)
  case (Cons j ids)
  then show ?case by (simp add: inc_dec_commute)
qed simp

lemma fold_inc_dec:
  assumes "\<forall>j \<in> set ids. unat j < length (consSlabRefcnt t)"
  shows "fold inc_cons ids (fold dec_cons ids t) = t"
  using assms
proof (induction ids arbitrary: t)
  case (Cons j ids)
  have "fold inc_cons (j # ids) (fold dec_cons (j # ids) t) =
      fold inc_cons ids (inc_cons j (fold dec_cons ids (dec_cons j t)))"
    by simp
  also have "\<dots> = fold inc_cons ids (fold dec_cons ids t)"
    using Cons.prems by (simp add: inc_cons_fold_dec inc_dec_cons)
  also have "\<dots> = t" using Cons by simp
  finally show ?case .
qed simp

lemma DecrementConsSlabs_loop_Ok:
  assumes "\<forall>j \<in> set ids. unat j < length (consSlabRefcnt t)"
  shows "\<exists>errs'. DecrementConsSlabs_loop ids errs t = Ok errs' (fold dec_cons ids t)"
  using assms by (induction ids arbitrary: t errs) auto

section \<open>Releasing consumer slabs\<close>

lemma filter_pos: "i < length xs \<Longrightarrow> P (xs ! i) \<Longrightarrow> 0 < length (filter P xs)"
  by (metis filter_empty_conv length_greater_0_conv nth_mem)

lemma consSlabsHeld_pos:
  assumes "tracker_inv n t" and "i < n" and "consSlabRefcnt t ! i \<noteq> 0"
  shows "consSlabsHeld t \<noteq> 0"
  using filter_pos [of i "consSlabRefcnt t" "\<lambda>r. r \<noteq> 0"] assms
  by (auto simp: tracker_inv_def simp flip: unat_eq_zero)

lemma dec_cons_valid:
  assumes inv: "tracker_inv n t" and i: "unat i < n" and held: "consSlabRefcnt t ! unat i \<noteq> 0"
  shows "tracker_inv n (dec_cons i t)" and "dec_cons_errs i t = 0"
    and "cons_refs (dec_cons i t) = (cons_refs t)(unat i := cons_refs t (unat i) - 1)"
proof -
  let ?r = "consSlabRefcnt t ! unat i"
  note pos = consSlabsHeld_pos [OF inv i held]
  have len: "unat i < length (consSlabRefcnt t)" using i tracker_invD(2) [OF inv] by simp
  have cnt: "length (filter (\<lambda>r. r \<noteq> 0) ((consSlabRefcnt t)[unat i := ?r - 1])) + 1
      = length (filter (\<lambda>r. r \<noteq> 0) (consSlabRefcnt t)) + (if ?r - 1 \<noteq> 0 then 1 else 0)"
    using filter_update_length [OF len, of "\<lambda>r. r \<noteq> 0" "?r - 1"] held by simp
  show "tracker_inv n (dec_cons i t)"
    using inv cnt unat_dec [OF pos] pos
    by (auto simp: tracker_inv_def dec_cons_def Let_def)
  show "dec_cons_errs i t = 0"
    using held pos by (simp add: dec_cons_errs_def)
  show "cons_refs (dec_cons i t) = (cons_refs t)(unat i := cons_refs t (unat i) - 1)"
    using len unat_dec [OF held] by (auto simp: fun_eq_iff cons_refs_def dec_cons_def Let_def nth_list_update)
qed

lemma DecrementConsSlabs_loop_mono:
  "DecrementConsSlabs_loop ids errs t = Ok errs' t' \<Longrightarrow> errs \<le> errs'"
proof (induction ids arbitrary: errs t)
  case (Cons i ids)
  then have "errs + dec_cons_errs i t \<le> errs'"
    by (intro Cons.IH) (simp split: if_splits)
  then show ?case by simp
qed simp

lemma DecrementConsSlabs_loop_valid:
  assumes "tracker_inv n t" and "\<forall>i \<in> set ids. unat i < n"
    and "\<forall>j. count_list (map unat ids) j \<le> cons_refs t j"
  shows "\<exists>t'. DecrementConsSlabs_loop ids errs t = Ok errs t' \<and> tracker_inv n t'
     \<and> (\<forall>j. cons_refs t' j = cons_refs t j - count_list (map unat ids) j)
     \<and> prodSlabRefcnt t' = prodSlabRefcnt t \<and> prodSlabsHeld t' = prodSlabsHeld t
     \<and> numProdSlabs t' = numProdSlabs t \<and> numConsSlabs t' = numConsSlabs t"
  using assms
proof (induction ids arbitrary: t)
  case (Cons i ids)
  have i: "unat i < n" using Cons.prems(2) by simp
  have pos: "0 < cons_refs t (unat i)"
    using Cons.prems(3) [rule_format, of "unat i"] by simp
  then have held: "consSlabRefcnt t ! unat i \<noteq> 0"
    using i by (auto simp: cons_refs_def split: if_splits)
  note dec = dec_cons_valid [OF Cons.prems(1) i held]
  have "\<forall>j. count_list (map unat ids) j \<le> cons_refs (dec_cons i t) j"
  proof
    fix j show "count_list (map unat ids) j \<le> cons_refs (dec_cons i t) j"
      using Cons.prems(3) [rule_format, of j] by (auto simp: dec(3) split: if_splits)
  qed
  then obtain t' where t': "DecrementConsSlabs_loop ids errs (dec_cons i t) = Ok errs t'" "tracker_inv n t'"
    "\<forall>j. cons_refs t' j = cons_refs (dec_cons i t) j - count_list (map unat ids) j"
    "prodSlabRefcnt t' = prodSlabRefcnt (dec_cons i t)" "prodSlabsHeld t' = prodSlabsHeld (dec_cons i t)"
    "numProdSlabs t' = numProdSlabs (dec_cons i t)" "numConsSlabs t' = numConsSlabs (dec_cons i t)"
    using Cons.IH [OF dec(1)] Cons.prems(2) by auto
  then show ?case
    using i tracker_invD(2) [OF Cons.prems(1)]
    by (auto simp: dec(2,3))
qed auto

lemma DecrementConsSlabs_loop_invalid:
  assumes "tracker_inv n t" and "\<forall>i \<in> set ids. unat i < n"
    and "cons_refs t j < count_list (map unat ids) j"
    and "DecrementConsSlabs_loop ids errs t = Ok errs' t'"
  shows "errs < errs'"
  using assms
proof (induction ids arbitrary: t errs)
  case (Cons i ids)
  have i: "unat i < n" using Cons.prems(2) by simp
  have loop: "DecrementConsSlabs_loop ids (errs + dec_cons_errs i t) (dec_cons i t) = Ok errs' t'"
    using Cons.prems(4) by (simp split: if_splits)
  show ?case
  proof (cases "consSlabRefcnt t ! unat i = 0")
    case True
    then have "errs < errs + dec_cons_errs i t" by (simp add: dec_cons_errs_def)
    then show ?thesis using DecrementConsSlabs_loop_mono [OF loop] by simp
  next
    case False
    note dec = dec_cons_valid [OF Cons.prems(1) i False]
    have "cons_refs (dec_cons i t) j < count_list (map unat ids) j"
    proof (cases "j = unat i")
      case True
      have "0 < cons_refs t j"
        using False i tracker_invD(2) [OF Cons.prems(1)] True by (simp add: cons_refs_def unat_gt_0_iff)
      then show ?thesis using Cons.prems(3) True by (simp add: dec(3))
    next
      case False
      then show ?thesis using Cons.prems(3) by (auto simp: dec(3))
    qed
    then show ?thesis
      using Cons.IH [OF dec(1)] Cons.prems(2) loop dec(2) by simp
  qed
qed simp

section \<open>Taking a consumer slab\<close>

lemma TakeConsSlab_spec:
  assumes inv: "tracker_inv n t" and i: "unat i < n" and room: "cons_refs t (unat i) < 2 ^ 16 - 1"
    and bound: "consSlabsHeld t \<le> numConsSlabs t"
  shows "sat (TakeConsSlab i t) (\<lambda>taken t'. tracker_inv n t' \<and> consSlabsHeld t' \<le> numConsSlabs t'
     \<and> numConsSlabs t' = numConsSlabs t \<and> numProdSlabs t' = numProdSlabs t
     \<and> prodSlabRefcnt t' = prodSlabRefcnt t \<and> prodSlabsHeld t' = prodSlabsHeld t
     \<and> (taken \<longleftrightarrow> consSlabsHeld t < numConsSlabs t \<or> 0 < cons_refs t (unat i))
     \<and> (if taken then cons_refs t' = (cons_refs t)(unat i := Suc (cons_refs t (unat i))) else t' = t))
     (\<lambda>_ _. False)"
proof -
  let ?r = "consSlabRefcnt t ! unat i"
  have len: "unat i < length (consSlabRefcnt t)" using i tracker_invD(2) [OF inv] by simp
  have r: "cons_refs t (unat i) = unat ?r" using len by (simp add: cons_refs_def)
  have "?r \<noteq> - 1"
    using room r by (auto simp: unsigned_minus_1_eq_mask mask_eq_exp_minus_1)
  then have inc: "unat (?r + 1) = Suc (unat ?r)" by (rule unat_inc)
  then have ne: "?r + 1 \<noteq> 0" by (metis nat.distinct(1) unat_eq_zero)
  have cnt: "length (filter (\<lambda>r. r \<noteq> 0) ((consSlabRefcnt t)[unat i := ?r + 1])) + (if ?r \<noteq> 0 then 1 else 0)
      = length (filter (\<lambda>r. r \<noteq> 0) (consSlabRefcnt t)) + 1"
    using filter_update_length [OF len, of "\<lambda>r. r \<noteq> 0" "?r + 1"] ne by simp
  have refs: "cons_refs (t\<lparr>consSlabRefcnt := (consSlabRefcnt t)[unat i := ?r + 1]\<rparr>)
      = (cons_refs t)(unat i := Suc (cons_refs t (unat i)))"
    using len inc by (auto simp: fun_eq_iff cons_refs_def nth_list_update)
  have heldinc: "unat (consSlabsHeld t + 1) = Suc (unat (consSlabsHeld t))"
      "consSlabsHeld t + 1 \<le> numConsSlabs t" if "consSlabsHeld t < numConsSlabs t"
  proof -
    have "consSlabsHeld t \<noteq> - 1" using that leD [OF word_n1_ge [of "numConsSlabs t"]] by auto
    then show "unat (consSlabsHeld t + 1) = Suc (unat (consSlabsHeld t))" by (rule unat_inc)
    then show "consSlabsHeld t + 1 \<le> numConsSlabs t"
      using that by (simp add: word_less_nat_alt word_le_nat_alt)
  qed
  show ?thesis
    using len inv bound cnt refs heldinc r
    by (auto simp: TakeConsSlab_def Let_def tracker_inv_def unat_gt_0_iff cons_refs_def fun_eq_iff)
qed

section \<open>Producer slabs\<close>

lemma filter_id_less: "i < length xs \<Longrightarrow> \<not> xs ! i \<Longrightarrow> length (filter id xs) < length xs"
  by (metis id_apply length_filter_less nth_mem)

lemma insert_prod_step:
  assumes inv: "tracker_inv n t" and i: "unat i < n" and free: "\<not> prodSlabRefcnt t ! unat i" and n: "n < 2 ^ 32"
  defines "t' \<equiv> t\<lparr>prodSlabsHeld := prodSlabsHeld t + 1, prodSlabRefcnt := (prodSlabRefcnt t)[unat i := True]\<rparr>"
  shows "tracker_inv n t'" and "prod_held t' = (prod_held t)(unat i := 1)"
    and "unat (prodSlabsHeld t') = Suc (unat (prodSlabsHeld t))"
proof -
  have len: "unat i < length (prodSlabRefcnt t)" using i tracker_invD(1) [OF inv] by simp
  have "unat (prodSlabsHeld t) < n"
    using filter_id_less [OF len free] tracker_invD(1,3) [OF inv] by simp
  then have inc: "unat (prodSlabsHeld t + 1) = Suc (unat (prodSlabsHeld t))"
    using n by (intro unat_inc_u32) simp
  then show "unat (prodSlabsHeld t') = Suc (unat (prodSlabsHeld t))" by (simp add: t'_def)
  show "tracker_inv n t'"
    using inv inc filter_update_length [OF len, of id True] free by (simp add: t'_def tracker_inv_def)
  show "prod_held t' = (prod_held t)(unat i := 1)"
    using len by (auto simp: t'_def prod_held_def fun_eq_iff nth_list_update)
qed

lemma InsertProdSlabs_loop_spec:
  assumes "tracker_inv n t" and "n < 2 ^ 32" and "distinct ids"
    and "\<forall>i \<in> set ids. unat i < n \<and> \<not> prodSlabRefcnt t ! unat i"
  shows "\<exists>t'. InsertProdSlabs_loop ids errs t = Ok errs t' \<and> tracker_inv n t'
     \<and> (\<forall>j. prod_held t' j = prod_held t j + count_list (map unat ids) j)
     \<and> unat (prodSlabsHeld t') = unat (prodSlabsHeld t) + length ids
     \<and> consSlabRefcnt t' = consSlabRefcnt t \<and> consSlabsHeld t' = consSlabsHeld t
     \<and> numProdSlabs t' = numProdSlabs t \<and> numConsSlabs t' = numConsSlabs t"
  using assms
proof (induction ids arbitrary: t)
  case (Cons i ids)
  let ?t = "t\<lparr>prodSlabsHeld := prodSlabsHeld t + 1, prodSlabRefcnt := (prodSlabRefcnt t)[unat i := True]\<rparr>"
  have i: "unat i < n" "\<not> prodSlabRefcnt t ! unat i" using Cons.prems(4) by auto
  note st = insert_prod_step [OF Cons.prems(1) i Cons.prems(2)]
  have "\<forall>j \<in> set ids. unat j < n \<and> \<not> prodSlabRefcnt ?t ! unat j"
    using Cons.prems(3,4) nth_update_unat_neq [of i _ "prodSlabRefcnt t" True]
    by (metis distinct.simps(2) list.set_intros(2) slab_tracker.select_convs(5) slab_tracker.surjective
        slab_tracker.update_convs(3,5))
  then obtain t' where t': "InsertProdSlabs_loop ids errs ?t = Ok errs t'" "tracker_inv n t'"
     "\<forall>j. prod_held t' j = prod_held ?t j + count_list (map unat ids) j"
     "unat (prodSlabsHeld t') = unat (prodSlabsHeld ?t) + length ids"
     "consSlabRefcnt t' = consSlabRefcnt ?t" "consSlabsHeld t' = consSlabsHeld ?t"
     "numProdSlabs t' = numProdSlabs ?t" "numConsSlabs t' = numConsSlabs ?t"
    using Cons.IH [OF st(1) Cons.prems(2)] Cons.prems(3) by (metis distinct.simps(2))
  have "prod_held t (unat i) = 0" using i by (simp add: prod_held_def)
  then show ?case
    using t' st(2,3) i tracker_invD(1) [OF Cons.prems(1)] by (auto simp: Let_def)
qed simp

lemma InsertProdSlabs_spec:
  assumes "tracker_inv n t" and "n < 2 ^ 32" and "distinct ids"
    and "\<forall>i \<in> set ids. unat i < n \<and> \<not> prodSlabRefcnt t ! unat i"
  shows "sat (InsertProdSlabs ids t) (\<lambda>_ t'. tracker_inv n t'
     \<and> (\<forall>j. prod_held t' j = prod_held t j + count_list (map unat ids) j)
     \<and> unat (prodSlabsHeld t') = unat (prodSlabsHeld t) + length ids
     \<and> consSlabRefcnt t' = consSlabRefcnt t \<and> consSlabsHeld t' = consSlabsHeld t
     \<and> numProdSlabs t' = numProdSlabs t \<and> numConsSlabs t' = numConsSlabs t) (\<lambda>_ _. False)"
  using InsertProdSlabs_loop_spec [OF assms, of 0] by (auto simp: InsertProdSlabs_def)

lemma EraseProdSlabs_check_spec:
  assumes "\<forall>i \<in> set ids. unat i < length (prodSlabRefcnt t)"
  shows "EraseProdSlabs_check ids t =
     (if \<forall>i \<in> set ids. prodSlabRefcnt t ! unat i then Ok () t
      else Throw ''SlabTracker::EraseProdSlabs doesnt hold slab'' t)"
  using assms by (induction ids) auto

lemma EraseProdSlab_frame [simp]:
  "consSlabRefcnt (EraseProdSlab i t) = consSlabRefcnt t"
  "consSlabsHeld (EraseProdSlab i t) = consSlabsHeld t"
  "numProdSlabs (EraseProdSlab i t) = numProdSlabs t"
  "numConsSlabs (EraseProdSlab i t) = numConsSlabs t"
  by (simp_all add: EraseProdSlab_def)

lemma erase_prod_step:
  assumes inv: "tracker_inv n t" and i: "unat i < n" and held: "prodSlabRefcnt t ! unat i"
  shows "tracker_inv n (EraseProdSlab i t)"
    and "prod_held (EraseProdSlab i t) = (prod_held t)(unat i := 0)"
    and "unat (prodSlabsHeld t) = Suc (unat (prodSlabsHeld (EraseProdSlab i t)))"
proof -
  have len: "unat i < length (prodSlabRefcnt t)" using i tracker_invD(1) [OF inv] by simp
  have pos: "0 < unat (prodSlabsHeld t)"
    using filter_pos [of "unat i" "prodSlabRefcnt t" id] len held tracker_invD(3) [OF inv] by simp
  then have dec: "unat (prodSlabsHeld t - 1) = unat (prodSlabsHeld t) - 1"
    by (intro unat_dec) (simp flip: unat_gt_0_iff)
  then show "unat (prodSlabsHeld t) = Suc (unat (prodSlabsHeld (EraseProdSlab i t)))"
    using pos by (simp add: EraseProdSlab_def)
  show "tracker_inv n (EraseProdSlab i t)"
    using inv dec filter_update_length [OF len, of id False] held by (simp add: EraseProdSlab_def tracker_inv_def)
  show "prod_held (EraseProdSlab i t) = (prod_held t)(unat i := 0)"
    using len by (auto simp: EraseProdSlab_def prod_held_def fun_eq_iff nth_list_update)
qed

lemma fold_EraseProdSlab_spec:
  assumes "tracker_inv n t" and "distinct ids"
    and "\<forall>i \<in> set ids. unat i < n \<and> prodSlabRefcnt t ! unat i"
  shows "tracker_inv n (fold EraseProdSlab ids t)
     \<and> (\<forall>j. prod_held t j = prod_held (fold EraseProdSlab ids t) j + count_list (map unat ids) j)
     \<and> unat (prodSlabsHeld t) = unat (prodSlabsHeld (fold EraseProdSlab ids t)) + length ids
     \<and> consSlabRefcnt (fold EraseProdSlab ids t) = consSlabRefcnt t
     \<and> consSlabsHeld (fold EraseProdSlab ids t) = consSlabsHeld t
     \<and> numProdSlabs (fold EraseProdSlab ids t) = numProdSlabs t
     \<and> numConsSlabs (fold EraseProdSlab ids t) = numConsSlabs t"
  using assms
proof (induction ids arbitrary: t)
  case (Cons i ids)
  have i: "unat i < n" "prodSlabRefcnt t ! unat i" using Cons.prems(3) by auto
  note st = erase_prod_step [OF Cons.prems(1) i]
  have "\<forall>j \<in> set ids. unat j < n \<and> prodSlabRefcnt (EraseProdSlab i t) ! unat j"
    using Cons.prems(2,3) nth_update_unat_neq [of i _ "prodSlabRefcnt t" False]
    by (auto simp: EraseProdSlab_def) metis
  note IH = Cons.IH [OF st(1) _ this]
  have one: "prod_held t (unat i) = 1"
    using i tracker_invD(1) [OF Cons.prems(1)] by (simp add: prod_held_def)
  have "prod_held t j = prod_held (fold EraseProdSlab ids (EraseProdSlab i t)) j + count_list (map unat (i # ids)) j" for j
    using IH Cons.prems(2) one by (auto simp: st(2) split: if_splits dest: spec [where x = j])
  then show ?case
    using IH Cons.prems(2) st(3) by simp
qed simp

lemma EraseProdSlabs_spec:
  assumes inv: "tracker_inv n t" and "distinct ids" and "\<forall>i \<in> set ids. unat i < n"
  shows "sat (EraseProdSlabs ids t)
     (\<lambda>_ t'. (\<forall>i \<in> set ids. prodSlabRefcnt t ! unat i) \<and> tracker_inv n t'
        \<and> (\<forall>j. prod_held t j = prod_held t' j + count_list (map unat ids) j)
        \<and> unat (prodSlabsHeld t) = unat (prodSlabsHeld t') + length ids
        \<and> consSlabRefcnt t' = consSlabRefcnt t \<and> consSlabsHeld t' = consSlabsHeld t
        \<and> numProdSlabs t' = numProdSlabs t \<and> numConsSlabs t' = numConsSlabs t)
     (\<lambda>_ t'. t' = t \<and> \<not> (\<forall>i \<in> set ids. prodSlabRefcnt t ! unat i))"
proof (cases "\<forall>i \<in> set ids. prodSlabRefcnt t ! unat i")
  case True
  note spec = fold_EraseProdSlab_spec [OF inv assms(2), of] True assms(3)
  then have "length ids \<le> unat (prodSlabsHeld t)"
    using fold_EraseProdSlab_spec [OF inv assms(2)] by fastforce
  then show ?thesis
    using True assms(3) tracker_invD(1) [OF inv] fold_EraseProdSlab_spec [OF inv assms(2)]
    by (simp add: EraseProdSlabs_def EraseProdSlabs_check_spec)
next
  case False
  then show ?thesis
    using assms(3) tracker_invD(1) [OF inv] by (auto simp: EraseProdSlabs_def EraseProdSlabs_check_spec)
qed

section \<open>The scans of the destructor\<close>

lemma GetAndEraseProd_loop_spec:
  "length (filter id bs) \<le> mx \<Longrightarrow>
   GetAndEraseProd_loop sid mx bs =
     (map (\<lambda>(i, b). of_nat i) (filter (\<lambda>(i, b). b) (enumerate sid bs)), replicate (length bs) False)"
proof (induction bs arbitrary: sid mx)
  case (Cons b bs)
  show ?case
  proof (cases "mx = 0")
    case True
    with Cons.prems have "\<forall>x \<in> set (b # bs). \<not> x"
      by (auto simp: filter_empty_conv split: if_splits)
    moreover from this have "filter (\<lambda>(i, b). b) (enumerate sid (b # bs)) = []"
      by (intro filter_enumerate_none) auto
    ultimately show ?thesis
      using True replicate_length_same [of "b # bs" False] by fastforce
  next
    case False
    then show ?thesis using Cons by (auto simp: Let_def)
  qed
qed simp

lemma GetAndEraseCons_loop_spec:
  "length (filter (\<lambda>r. r \<noteq> 0) rs) \<le> mx \<Longrightarrow>
   GetAndEraseCons_loop sid mx rs =
     (map (\<lambda>(i, r). (of_nat i, ucast r)) (filter (\<lambda>(i, r). r \<noteq> 0) (enumerate sid rs)),
      replicate (length rs) 0)"
proof (induction rs arbitrary: sid mx)
  case (Cons r rs)
  show ?case
  proof (cases "mx = 0")
    case True
    with Cons.prems have "\<forall>x \<in> set (r # rs). x = 0"
      by (auto simp: filter_empty_conv split: if_splits)
    moreover from this have "filter (\<lambda>(i, r). r \<noteq> 0) (enumerate sid (r # rs)) = []"
      by (intro filter_enumerate_none) auto
    ultimately show ?thesis
      using True replicate_length_same [of "r # rs" 0] by simp
  next
    case False
    then show ?thesis using Cons by (auto simp: Let_def)
  qed
qed simp

lemma filter_enumerate_nth:
  "filter (\<lambda>(i, x). P x) (enumerate 0 xs) = map (\<lambda>i. (i, xs ! i)) (filter (\<lambda>i. P (xs ! i)) [0..<length xs])"
proof -
  have "enumerate 0 xs = map (\<lambda>i. (i, xs ! i)) [0..<length xs]"
    by (rule nth_equalityI) (auto simp: nth_enumerate_eq)
  then show ?thesis by (simp add: filter_map comp_def)
qed

section \<open>Properties\<close>

text \<open>
  C14: a consumer's release is all or nothing: it succeeds exactly when every slab is released
  at most as often as it is held, and then the counts go down by that much; otherwise it
  throws and the tracker is exactly what it was before.
\<close>

theorem DecrementConsSlabs_atomic:
  assumes inv: "tracker_inv n t" and ids: "\<forall>i \<in> set ids. unat i < n"
  shows "if \<forall>j. count_list (map unat ids) j \<le> cons_refs t j
    then \<exists>t'. DecrementConsSlabs ids t = Ok () t' \<and> tracker_inv n t'
      \<and> (\<forall>j. cons_refs t' j = cons_refs t j - count_list (map unat ids) j)
    else DecrementConsSlabs ids t = Throw ''SlabTracker::ReleaseConsSlabs encountered errors'' t"
proof (cases "\<forall>j. count_list (map unat ids) j \<le> cons_refs t j")
  case True
  then show ?thesis
    using DecrementConsSlabs_loop_valid [OF inv ids True, of 0] by (auto simp: DecrementConsSlabs_def)
next
  case False
  then obtain j where j: "cons_refs t j < count_list (map unat ids) j" by (auto simp: not_le)
  have ids': "\<forall>j \<in> set ids. unat j < length (consSlabRefcnt t)" using ids tracker_invD(2) [OF inv] by simp
  from DecrementConsSlabs_loop_Ok [OF this, of 0] obtain errs where
    loop: "DecrementConsSlabs_loop ids 0 t = Ok errs (fold dec_cons ids t)" by blast
  have "0 < errs" by (rule DecrementConsSlabs_loop_invalid [OF inv ids j loop])
  then show ?thesis
    unfolding if_not_P [OF False] using loop fold_inc_dec [OF ids'] by (simp add: DecrementConsSlabs_def)
qed

definition example_tracker :: slab_tracker where
  "example_tracker = \<lparr>numProdSlabs = 2, numConsSlabs = 2, prodSlabsHeld = 2, consSlabsHeld = 1,
     prodSlabRefcnt = [True, False, True], consSlabRefcnt = [0, 3, 0]\<rparr>"

lemma example_tracker_inv: "tracker_inv 3 example_tracker"
  by (simp add: tracker_inv_def example_tracker_def)

theorem DecrementConsSlabs_atomic_witness:
  "DecrementConsSlabs [1, 2, 1] example_tracker
    = Throw ''SlabTracker::ReleaseConsSlabs encountered errors'' example_tracker"
proof -
  have "\<not> (\<forall>j. count_list (map unat [1, 2, 1 :: u32]) j \<le> cons_refs example_tracker j)"
    by (intro notI, drule spec [of _ 2]) (simp add: cons_refs_def example_tracker_def)
  then show ?thesis
    using DecrementConsSlabs_atomic [OF example_tracker_inv, of "[1, 2, 1]"] by simp
qed

text \<open>
  C15: a consumer never holds more slabs than its quota: \<open>TakeConsSlab\<close> takes a reference when
  the slab is already held or the quota is not used up, and refuses it otherwise without a
  change.
\<close>

theorem TakeConsSlab_quota:
  assumes "tracker_inv n t" and "unat i < n" and "cons_refs t (unat i) < 2 ^ 16 - 1"
    and "consSlabsHeld t \<le> numConsSlabs t"
  shows "sat (TakeConsSlab i t) (\<lambda>taken t'. tracker_inv n t' \<and> consSlabsHeld t' \<le> numConsSlabs t'
     \<and> (taken \<longleftrightarrow> consSlabsHeld t < numConsSlabs t \<or> 0 < cons_refs t (unat i))
     \<and> (if taken then cons_refs t' = (cons_refs t)(unat i := Suc (cons_refs t (unat i))) else t' = t))
     (\<lambda>_ _. False)"
  by (rule sat_mono [OF TakeConsSlab_spec [OF assms]]) auto

theorem TakeConsSlab_quota_witness:
  "sat (TakeConsSlab 1 example_tracker) (\<lambda>taken t'. taken \<and> tracker_inv 3 t' \<and> cons_refs t' 1 = 4) (\<lambda>_ _. False)"
  by (rule sat_mono [OF TakeConsSlab_quota [OF example_tracker_inv]])
    (auto simp: cons_refs_def example_tracker_def)

text \<open>
  giving producer slabs to a client and taking the same slabs back leaves the client
  holding what it held before, with the counter in step.
\<close>

theorem prod_slabs_round_trip:
  assumes inv: "tracker_inv n t" and n: "n < 2 ^ 32" and d: "distinct ids"
    and new: "\<forall>i \<in> set ids. unat i < n \<and> \<not> prodSlabRefcnt t ! unat i"
  shows "\<exists>t' t''. InsertProdSlabs ids t = Ok () t' \<and> tracker_inv n t'
    \<and> (\<forall>j. prod_held t' j = prod_held t j + count_list (map unat ids) j)
    \<and> EraseProdSlabs ids t' = Ok () t'' \<and> tracker_inv n t''
    \<and> prod_held t'' = prod_held t \<and> prodSlabsHeld t'' = prodSlabsHeld t"
proof -
  obtain t' where t': "InsertProdSlabs ids t = Ok () t'" "tracker_inv n t'"
    "\<forall>j. prod_held t' j = prod_held t j + count_list (map unat ids) j"
    "unat (prodSlabsHeld t') = unat (prodSlabsHeld t) + length ids"
    using InsertProdSlabs_spec [OF inv n d new] by (cases "InsertProdSlabs ids t") auto
  have range: "\<forall>i \<in> set ids. unat i < n" using new by blast
  have held: "prodSlabRefcnt t' ! unat i" if "i \<in> set ids" for i
  proof -
    have "0 < count_list (map unat ids) (unat i)" using that by (metis count_list_0_iff gr0I image_eqI list.set_map)
    with t'(3) have "prod_held t' (unat i) \<noteq> 0" by simp
    then show ?thesis by (simp add: prod_held_def split: if_splits)
  qed
  from EraseProdSlabs_spec [OF t'(2) d range] held obtain t'' where t'':
    "EraseProdSlabs ids t' = Ok () t''" "tracker_inv n t''"
    "\<forall>j. prod_held t' j = prod_held t'' j + count_list (map unat ids) j"
    "unat (prodSlabsHeld t') = unat (prodSlabsHeld t'') + length ids"
    by (cases "EraseProdSlabs ids t'") auto
  have "prod_held t'' = prod_held t" using t'(3) t''(3) by (auto simp: fun_eq_iff)
  moreover have "prodSlabsHeld t'' = prodSlabsHeld t" using t'(4) t''(4) by (auto intro: unsigned_word_eqI)
  ultimately show ?thesis using t' t'' by blast
qed

theorem prod_slabs_round_trip_witness:
  "\<exists>t' t''. InsertProdSlabs [1] example_tracker = Ok () t' \<and> EraseProdSlabs [1] t' = Ok () t''
    \<and> prodSlabsHeld t'' = 2"
  using prod_slabs_round_trip [OF example_tracker_inv, of "[1]"] by (auto simp: example_tracker_def)

text \<open>
  the scans of the proxy's destructor find everything the client held: every slab it
  holds as a producer once, every slab it holds as a consumer with its full count, and leave
  nothing behind.
\<close>

theorem destructor_scans_complete:
  assumes inv: "tracker_inv n t" and n: "n < 2 ^ 32"
  shows "(\<exists>t'. GetAndEraseProdSlabs (unat (prodSlabsHeld t)) t = (map of_nat (filter (\<lambda>i. prod_held t i = 1) [0..<n]), t')
      \<and> (\<forall>j. prod_held t' j = 0))
    \<and> (\<exists>t'. GetAndEraseConsSlabs (unat (consSlabsHeld t)) t
        = (map (\<lambda>i. (of_nat i, of_nat (cons_refs t i))) (filter (\<lambda>i. cons_refs t i \<noteq> 0) [0..<n]), t')
      \<and> (\<forall>j. cons_refs t' j = 0))"
proof
  have "filter (\<lambda>i. prodSlabRefcnt t ! i) [0..<n] = filter (\<lambda>i. prod_held t i = 1) [0..<n]"
    using tracker_invD(1) [OF inv] by (intro filter_cong) (auto simp: prod_held_def)
  then show "\<exists>t'. GetAndEraseProdSlabs (unat (prodSlabsHeld t)) t = (map of_nat (filter (\<lambda>i. prod_held t i = 1) [0..<n]), t')
      \<and> (\<forall>j. prod_held t' j = 0)"
    using tracker_invD(1,3) [OF inv] filter_enumerate_nth [of "\<lambda>b. b" "prodSlabRefcnt t"]
    by (simp add: GetAndEraseProdSlabs_def GetAndEraseProd_loop_spec prod_held_def comp_def)
  have "filter (\<lambda>i. consSlabRefcnt t ! i \<noteq> 0) [0..<n] = filter (\<lambda>i. cons_refs t i \<noteq> 0) [0..<n]"
    using tracker_invD(2) [OF inv] by (intro filter_cong) (auto simp: cons_refs_def unat_eq_zero)
  moreover have "map (\<lambda>i. (of_nat i, ucast (consSlabRefcnt t ! i))) xs = map (\<lambda>i. (of_nat i, of_nat (cons_refs t i) :: u32)) xs"
    if "set xs \<subseteq> {0..<n}" for xs
    using that tracker_invD(2) [OF inv] by (auto simp: cons_refs_def intro!: unsigned_word_eqI simp: unsigned_ucast_eq unsigned_of_nat)
  ultimately show "\<exists>t'. GetAndEraseConsSlabs (unat (consSlabsHeld t)) t
        = (map (\<lambda>i. (of_nat i, of_nat (cons_refs t i))) (filter (\<lambda>i. cons_refs t i \<noteq> 0) [0..<n]), t')
      \<and> (\<forall>j. cons_refs t' j = 0)"
    using tracker_invD(2,4) [OF inv] filter_enumerate_nth [of "\<lambda>r. r \<noteq> 0" "consSlabRefcnt t"]
    by (simp add: GetAndEraseConsSlabs_def GetAndEraseCons_loop_spec comp_def) (simp add: cons_refs_def)
qed

theorem destructor_scans_complete_witness:
  "fst (GetAndEraseProdSlabs 2 example_tracker) = [0, 2] \<and> fst (GetAndEraseConsSlabs 1 example_tracker) = [(1, 3)]"
proof -
  have "unat (prodSlabsHeld example_tracker) = 2" "unat (consSlabsHeld example_tracker) = 1"
    "filter (\<lambda>i. prod_held example_tracker i = 1) [0..<3] = [0, 2]"
    "filter (\<lambda>i. cons_refs example_tracker i \<noteq> 0) [0..<3] = [1]" "cons_refs example_tracker 1 = 3"
    by (simp_all add: example_tracker_def prod_held_def cons_refs_def upt_rec)
  then show ?thesis
    using destructor_scans_complete [OF example_tracker_inv] by auto
qed

text \<open>
  \<open>EraseProdSlabs\<close> checks each ID against the state before the call, so an ID that a
  client lists twice is accepted: the slab is cleared once and the counter goes down by two.
\<close>

theorem EraseProdSlabs_duplicate:
  assumes inv: "tracker_inv n t" and i: "unat i < n" and held: "prodSlabRefcnt t ! unat i"
    and two: "2 \<le> unat (prodSlabsHeld t)"
  shows "\<exists>t'. EraseProdSlabs [i, i] t = Ok () t' \<and> prod_held t' = (prod_held t)(unat i := 0)
    \<and> unat (prodSlabsHeld t') = unat (prodSlabsHeld t) - 2 \<and> \<not> tracker_inv n t'"
proof -
  let ?t1 = "EraseProdSlab i t" and ?t2 = "EraseProdSlab i (EraseProdSlab i t)"
  note s1 = erase_prod_step [OF inv i held]
  have len: "unat i < length (prodSlabRefcnt t)" using i tracker_invD(1) [OF inv] by simp
  have r: "prodSlabRefcnt ?t2 = prodSlabRefcnt ?t1" by (simp add: EraseProdSlab_def)
  have "prodSlabsHeld ?t1 \<noteq> 0" using s1(3) two by auto
  then have cnt: "unat (prodSlabsHeld ?t2) = unat (prodSlabsHeld ?t1) - 1" "unat (prodSlabsHeld ?t1) \<noteq> 0"
    using unat_dec [of "prodSlabsHeld ?t1"] by (simp_all add: EraseProdSlab_def [of i ?t1] unat_eq_zero)
  then have "unat (prodSlabsHeld ?t2) < length (filter id (prodSlabRefcnt ?t2))"
    using tracker_invD(3) [OF s1(1)] unfolding r by linarith
  then have "\<not> tracker_inv n ?t2" using tracker_invD(3) [of n ?t2] by auto
  moreover have "prod_held ?t2 = prod_held ?t1" by (simp add: prod_held_def fun_eq_iff r)
  ultimately show ?thesis
    using cnt s1 len held two
    by (simp add: EraseProdSlabs_def)
qed

theorem EraseProdSlabs_duplicate_witness:
  "\<exists>t'. EraseProdSlabs [0, 0] example_tracker = Ok () t' \<and> prodSlabsHeld t' = 0 \<and> prod_held t' 2 = 1"
proof -
  have "prod_held example_tracker 2 = 1" "prodSlabRefcnt example_tracker ! unat (0 :: u32)"
    "unat (prodSlabsHeld example_tracker) = 2"
    by (simp_all add: example_tracker_def prod_held_def)
  then show ?thesis
    using EraseProdSlabs_duplicate [OF example_tracker_inv, of 0] by (auto simp: unat_eq_zero)
qed

end
