(* ===== verification/Slab_Manager.thy ===== *)
theory Slab_Manager
  imports MCSB_Prelude
begin

unbundle bit_operations_syntax

text \<open>
  \<open>SlabManager\<close> (apps/MCSBManager/SlabManager.cc): every slab of the shared memory is free,
  held (by producers and consumers, with a reference count) or wanted (not held, but some
  client has a segment of it queued).

  \<^item> A \<open>SlabInfo&\<close> is the index of the slab; \<open>infoVec\<close> is the vector of buffers, each with
    \<open>slabsPerBuf\<close> entries.  A \<open>WantedSegment&\<close> is its index among all segments allocated so far.
  \<^item> The intrusive lists are lists of indices.  \<open>push_slab\<close> has the assertion of
    \<open>IntrusiveListHook::insert\<close> (the slab is on no list), \<open>erase_slab\<close> crashes when the slab is
    not on the list it is erased from, which would corrupt both lists.
  \<^item> The state change handler runs inside the operations and may change the whole manager, so
    the operations are polymorphic in the record extension: the state of the manager extends
    \<open>slab_manager\<close>.
  \<^item> \<open>float pctNonreservable\<close> occurs only in \<open>(unsigned)ceil(pctNonreservable/100*NumSlabs())\<close>;
    the field is that function of \<open>NumSlabs()\<close>, as the floating-point unit computes it.
\<close>

section \<open>Model\<close>

record wanted_segment =
  ws_clientID :: u16
  ws_blockID :: u32

definition WantedSegment :: wanted_segment where
  "WantedSegment = \<lparr>ws_clientID = - 1, ws_blockID = - 1\<rparr>"

record slab_info =
  slabID :: u32
  heldRefcnt :: u32
  prodClientID :: int
  prodArg :: nat
  wantedSegs :: "nat list"

definition SlabInfo :: "u32 \<Rightarrow> slab_info" where
  "SlabInfo i = \<lparr>slabID = i, heldRefcnt = 0, prodClientID = -1, prodArg = 0, wantedSegs = []\<rparr>"

record slab_manager =
  slabsPerBuf :: u32
  numSlabsReserved :: u32
  pctNonreservable :: "u32 \<Rightarrow> u32"
  numSlabsNonreservable :: u32
  infoVec :: "slab_info list list"
  freeSlabs :: "nat list"
  heldSlabs :: "nat list"
  wantedSlabs :: "nat list"
  freeWantedSegs :: "nat list"
  wantedSegmentBlocks :: "wanted_segment list"
  whichStateChange :: u32

definition NumSlabs :: "'a slab_manager_scheme \<Rightarrow> u32" where
  "NumSlabs m = slabsPerBuf m * of_nat (length (infoVec m))"

text \<open>One new buffer of \<open>SlabManager::NumBuffers(unsigned)\<close>, with its slabs appended to the free list.\<close>

definition add_buffer :: "'a slab_manager_scheme \<Rightarrow> 'a slab_manager_scheme" where
  "add_buffer m =
     (let buf = length (infoVec m); spb = unat (slabsPerBuf m)
      in m\<lparr>infoVec := infoVec m @ [map (\<lambda>slab. SlabInfo (of_nat buf * slabsPerBuf m + of_nat slab)) [0..<spb]],
           freeSlabs := freeSlabs m @ [buf * spb..<buf * spb + spb]\<rparr>)"

definition NumBuffers :: "nat \<Rightarrow> 'a slab_manager_scheme \<Rightarrow> 'a slab_manager_scheme" where
  "NumBuffers n m =
     (if n \<le> length (infoVec m) then m
      else let m' = (add_buffer ^^ (n - length (infoVec m))) m
           in m'\<lparr>numSlabsNonreservable := pctNonreservable m' (NumSlabs m')\<rparr>)"

definition SlabManager :: "u32 \<Rightarrow> nat \<Rightarrow> (u32 \<Rightarrow> u32) \<Rightarrow> slab_manager" where
  "SlabManager spb numBufs pct =
     NumBuffers numBufs \<lparr>slabsPerBuf = spb, numSlabsReserved = 0, pctNonreservable = pct,
       numSlabsNonreservable = 0, infoVec = [], freeSlabs = [], heldSlabs = [], wantedSlabs = [],
       freeWantedSegs = [], wantedSegmentBlocks = [], whichStateChange = 0\<rparr>"

definition GetSlabReservation :: "u32 \<Rightarrow> 'a slab_manager_scheme \<Rightarrow> int \<times> 'a slab_manager_scheme" where
  "GetSlabReservation nSlabs m =
     (if nSlabs = 0 then (0, m)
      else if numSlabsReserved m + numSlabsNonreservable m + nSlabs > NumSlabs m then (-1, m)
      else (0, m\<lparr>numSlabsReserved := numSlabsReserved m + nSlabs\<rparr>))"

definition ReleaseSlabReservation :: "u32 \<Rightarrow> 'a slab_manager_scheme \<Rightarrow> int \<times> 'a slab_manager_scheme" where
  "ReleaseSlabReservation nSlabs m =
     (if nSlabs = 0 then (0, m)
      else if nSlabs > numSlabsReserved m then (-1, m)
      else (0, m\<lparr>numSlabsReserved := numSlabsReserved m - nSlabs\<rparr>))"

definition GetSlabInfo :: "u32 \<Rightarrow> 'a slab_manager_scheme \<Rightarrow> (nat, 'a slab_manager_scheme) outcome" where
  "GetSlabInfo sid m =
     (if slabsPerBuf m = 0 then Crash DivideByZero
      else if unat sid div unat (slabsPerBuf m) \<ge> length (infoVec m)
      then Throw ''SlabManager::GetSlabInfo invalid slabID'' m
      else Ok (unat sid) m)"

definition slab_at :: "'a slab_manager_scheme \<Rightarrow> nat \<Rightarrow> slab_info" where
  "slab_at m i = infoVec m ! (i div unat (slabsPerBuf m)) ! (i mod unat (slabsPerBuf m))"

definition upd_slab :: "nat \<Rightarrow> (slab_info \<Rightarrow> slab_info) \<Rightarrow> 'a slab_manager_scheme \<Rightarrow> 'a slab_manager_scheme" where
  "upd_slab i f m =
     (let q = i div unat (slabsPerBuf m); r = i mod unat (slabsPerBuf m)
      in m\<lparr>infoVec := (infoVec m)[q := (infoVec m ! q)[r := f (infoVec m ! q ! r)]]\<rparr>)"

datatype slab_list = FreeSlabs | HeldSlabs | WantedSlabs

fun on_list :: "slab_list \<Rightarrow> 'a slab_manager_scheme \<Rightarrow> nat list" where
  "on_list FreeSlabs m = freeSlabs m"
| "on_list HeldSlabs m = heldSlabs m"
| "on_list WantedSlabs m = wantedSlabs m"

fun set_list :: "slab_list \<Rightarrow> nat list \<Rightarrow> 'a slab_manager_scheme \<Rightarrow> 'a slab_manager_scheme" where
  "set_list FreeSlabs xs m = m\<lparr>freeSlabs := xs\<rparr>"
| "set_list HeldSlabs xs m = m\<lparr>heldSlabs := xs\<rparr>"
| "set_list WantedSlabs xs m = m\<lparr>wantedSlabs := xs\<rparr>"

definition push_slab ::
  "slab_list \<Rightarrow> nat \<Rightarrow> 'a slab_manager_scheme \<Rightarrow> (unit, 'a slab_manager_scheme) outcome" where
  "push_slab l i m =
     (if i \<in> set (freeSlabs m @ heldSlabs m @ wantedSlabs m) then Crash AssertionFailed
      else Ok () (set_list l (on_list l m @ [i]) m))"

definition erase_slab ::
  "slab_list \<Rightarrow> nat \<Rightarrow> 'a slab_manager_scheme \<Rightarrow> (unit, 'a slab_manager_scheme) outcome" where
  "erase_slab l i m =
     (if i \<notin> set (on_list l m) then Crash ListCorruption
      else Ok () (set_list l (remove1 i (on_list l m)) m))"

text \<open>The bits of the state change mask.\<close>

definition kFreeToHeld :: u32 where "kFreeToHeld = 1"
definition kHeldToFree :: u32 where "kHeldToFree = 4"
definition kHeldToWanted :: u32 where "kHeldToWanted = 8"
definition kWantedToFree :: u32 where "kWantedToFree = 16"
definition kWantedToHeld :: u32 where "kWantedToHeld = 32"

type_synonym 's slab_handler = "u32 \<Rightarrow> nat \<Rightarrow> 's \<Rightarrow> (unit, 's) outcome"

definition CallStateChangeHandler ::
  "'a slab_manager_scheme slab_handler option \<Rightarrow> u32 \<Rightarrow> nat \<Rightarrow> 'a slab_manager_scheme
     \<Rightarrow> (unit, 'a slab_manager_scheme) outcome" where
  "CallStateChangeHandler h which slab m =
     (case h of None \<Rightarrow> Ok () m
      | Some f \<Rightarrow> if whichStateChange m AND which \<noteq> 0 then f which slab m else Ok () m)"

subsection \<open>\<open>SlabInfo\<close>\<close>

definition SI_GetFreeSlab :: "nat \<Rightarrow> 'a slab_manager_scheme \<Rightarrow> (unit, 'a slab_manager_scheme) outcome" where
  "SI_GetFreeSlab i m =
     (if heldRefcnt (slab_at m i) \<noteq> 0 then Throw ''GetFreeSlab encountered non-zero heldRefcnt'' m
      else if wantedSegs (slab_at m i) \<noteq> [] then Throw ''GetFreeSlab encountered a wanted slab'' m
      else Ok () (upd_slab i (\<lambda>s. s\<lparr>heldRefcnt := heldRefcnt s + 1\<rparr>) m))"

definition SI_DecrementHeld ::
  "nat \<Rightarrow> u32 \<Rightarrow> 'a slab_manager_scheme \<Rightarrow> (u32, 'a slab_manager_scheme) outcome" where
  "SI_DecrementHeld i amount m =
     (let r = heldRefcnt (slab_at m i) in
      if r < amount
      then Throw ''SlabInfo::DecrementHeld encountered heldRefcnt==0'' (upd_slab i (\<lambda>s. s\<lparr>heldRefcnt := 0\<rparr>) m)
      else Ok (r - amount) (upd_slab i (\<lambda>s. s\<lparr>heldRefcnt := r - amount\<rparr>) m))"

definition SI_SetProducerParams :: "int \<Rightarrow> nat \<Rightarrow> nat \<Rightarrow> 'a slab_manager_scheme \<Rightarrow> 'a slab_manager_scheme" where
  "SI_SetProducerParams clientID arg i m = upd_slab i (\<lambda>s. s\<lparr>prodClientID := clientID, prodArg := arg\<rparr>) m"

definition SI_Erase :: "nat \<Rightarrow> nat \<Rightarrow> 'a slab_manager_scheme \<Rightarrow> (unit, 'a slab_manager_scheme) outcome" where
  "SI_Erase i seg m =
     (if wantedSegs (slab_at m i) = [] then Throw ''SlabInfo::Erase on empty list'' m
      else if seg \<notin> set (wantedSegs (slab_at m i)) then Crash ListCorruption
      else Ok () (upd_slab i (\<lambda>s. s\<lparr>wantedSegs := remove1 seg (wantedSegs s)\<rparr>) m))"

subsection \<open>The operations\<close>

text \<open>
  One iteration of the loop of \<open>GetFreeSlabs\<close>; its last statement, the call of the handler,
  is added by the loop.
\<close>

definition GetFreeSlabs_step ::
  "int \<Rightarrow> nat \<Rightarrow> 'a slab_manager_scheme \<Rightarrow> (nat, 'a slab_manager_scheme) outcome" where
  "GetFreeSlabs_step client arg m =
     (let i = hd (freeSlabs m); m1 = m\<lparr>freeSlabs := tl (freeSlabs m)\<rparr> in
      bind_o (SI_GetFreeSlab i m1) (\<lambda>_ m2.
      bind_o (push_slab HeldSlabs i (SI_SetProducerParams client arg i m2)) (\<lambda>_ m3. Ok i m3)))"

fun GetFreeSlabs_loop ::
  "'a slab_manager_scheme slab_handler option \<Rightarrow> int \<Rightarrow> nat \<Rightarrow> nat \<Rightarrow> 'a slab_manager_scheme
     \<Rightarrow> (u32 list, 'a slab_manager_scheme) outcome" where
  "GetFreeSlabs_loop h client arg 0 m = Ok [] m"
| "GetFreeSlabs_loop h client arg (Suc k) m =
     (if freeSlabs m = [] then Ok [] m
      else bind_o (GetFreeSlabs_step client arg m) (\<lambda>i m1.
           bind_o (CallStateChangeHandler h kFreeToHeld i m1) (\<lambda>_ m2.
           bind_o (GetFreeSlabs_loop h client arg k m2) (\<lambda>ids. Ok (of_nat i # ids)))))"

definition GetFreeSlabs ::
  "'a slab_manager_scheme slab_handler option \<Rightarrow> u32 \<Rightarrow> int \<Rightarrow> nat \<Rightarrow> 'a slab_manager_scheme
     \<Rightarrow> (u32 list, 'a slab_manager_scheme) outcome" where
  "GetFreeSlabs h mxcount client arg m = GetFreeSlabs_loop h client arg (unat mxcount) m"

definition IncrementHeld_step ::
  "'a slab_manager_scheme slab_handler option \<Rightarrow> u32 \<Rightarrow> 'a slab_manager_scheme
     \<Rightarrow> (unit, 'a slab_manager_scheme) outcome" where
  "IncrementHeld_step h sid m =
     bind_o (GetSlabInfo sid m) (\<lambda>i m.
     bind_o
       (if heldRefcnt (slab_at m i) = 0 then
          if wantedSegs (slab_at m i) = []
          then Throw ''IncrementHeldRefcnt but slab not held or wanted'' m
          else bind_o (erase_slab WantedSlabs i m) (\<lambda>_ m1.
               bind_o (push_slab HeldSlabs i m1) (\<lambda>_ m2.
               CallStateChangeHandler h kWantedToHeld i m2))
        else Ok () m)
       (\<lambda>_ m. Ok () (upd_slab i (\<lambda>s. s\<lparr>heldRefcnt := heldRefcnt s + 1\<rparr>) m)))"

definition IncrementHeldRefcnt ::
  "'a slab_manager_scheme slab_handler option \<Rightarrow> u32 list \<Rightarrow> 'a slab_manager_scheme
     \<Rightarrow> (unit, 'a slab_manager_scheme) outcome" where
  "IncrementHeldRefcnt h ids m = for_each (IncrementHeld_step h) ids m"

text \<open>
  One iteration of \<open>DecrementHeldRefcnt\<close> up to the call of the handler: the result is the
  handler's argument, or 0 when the slab is still held and the loop continues.
\<close>

definition DecrementHeld_step ::
  "u32 \<Rightarrow> u32 \<Rightarrow> 'a slab_manager_scheme \<Rightarrow> (u32, 'a slab_manager_scheme) outcome" where
  "DecrementHeld_step sid amount m =
     bind_o (GetSlabInfo sid m) (\<lambda>i m.
     bind_o (SI_DecrementHeld i amount m) (\<lambda>r m.
       if r \<noteq> 0 then Ok 0 m
       else bind_o (erase_slab HeldSlabs i m) (\<lambda>_ m.
         if wantedSegs (slab_at m i) \<noteq> [] then
           bind_o (push_slab WantedSlabs i m) (\<lambda>_ m. Ok kHeldToWanted m)
         else bind_o (push_slab FreeSlabs i (SI_SetProducerParams (-1) 0 i m)) (\<lambda>_ m. Ok kHeldToFree m))))"

definition DecrementHeldRefcnt ::
  "'a slab_manager_scheme slab_handler option \<Rightarrow> (u32 \<times> u32) list \<Rightarrow> 'a slab_manager_scheme
     \<Rightarrow> (unit, 'a slab_manager_scheme) outcome" where
  "DecrementHeldRefcnt h idsAmounts m =
     for_each (\<lambda>(sid, amount) m.
       bind_o (DecrementHeld_step sid amount m) (\<lambda>ev m.
         if ev = 0 then Ok () m else CallStateChangeHandler h ev (unat sid) m)) idsAmounts m"

definition kNumSegs :: nat where "kNumSegs = 256"

definition AddWantedSegmentBlock :: "'a slab_manager_scheme \<Rightarrow> 'a slab_manager_scheme" where
  "AddWantedSegmentBlock m =
     (let n = length (wantedSegmentBlocks m)
      in m\<lparr>wantedSegmentBlocks := wantedSegmentBlocks m @ replicate kNumSegs WantedSegment,
           freeWantedSegs := freeWantedSegs m @ [n..<n + kNumSegs]\<rparr>)"

definition GetWantedSegment ::
  "u16 \<Rightarrow> u32 \<Rightarrow> u32 \<Rightarrow> 'a slab_manager_scheme \<Rightarrow> (nat, 'a slab_manager_scheme) outcome" where
  "GetWantedSegment clientID blockID sid m =
     bind_o (GetSlabInfo sid m) (\<lambda>i m.
       if heldRefcnt (slab_at m i) = 0 \<and> wantedSegs (slab_at m i) = []
       then Throw ''GetWantedSegment but slab not held or wanted'' m
       else let m1 = (if freeWantedSegs m = [] then AddWantedSegmentBlock m else m);
                seg = hd (freeWantedSegs m1);
                m2 = m1\<lparr>wantedSegmentBlocks := (wantedSegmentBlocks m1)[seg := \<lparr>ws_clientID = clientID, ws_blockID = blockID\<rparr>],
                        freeWantedSegs := tl (freeWantedSegs m1)\<rparr>
            in Ok seg (upd_slab i (\<lambda>s. s\<lparr>wantedSegs := wantedSegs s @ [seg]\<rparr>) m2))"

definition ReleaseWanted_step ::
  "nat \<Rightarrow> u32 \<Rightarrow> 'a slab_manager_scheme \<Rightarrow> (u32, 'a slab_manager_scheme) outcome" where
  "ReleaseWanted_step seg sid m =
     bind_o (GetSlabInfo sid m) (\<lambda>i m.
     bind_o (SI_Erase i seg m) (\<lambda>_ m.
       let m = m\<lparr>freeWantedSegs := freeWantedSegs m @ [seg]\<rparr> in
       if wantedSegs (slab_at m i) = [] \<and> heldRefcnt (slab_at m i) = 0 then
         bind_o (erase_slab WantedSlabs i m) (\<lambda>_ m.
         bind_o (push_slab FreeSlabs i (SI_SetProducerParams (-1) 0 i m)) (\<lambda>_ m. Ok kWantedToFree m))
       else Ok 0 m))"

definition ReleaseWantedSegment ::
  "'a slab_manager_scheme slab_handler option \<Rightarrow> nat \<Rightarrow> u32 \<Rightarrow> 'a slab_manager_scheme
     \<Rightarrow> (unit, 'a slab_manager_scheme) outcome" where
  "ReleaseWantedSegment h seg sid m =
     bind_o (ReleaseWanted_step seg sid m) (\<lambda>ev m.
       if ev = 0 then Ok () m else CallStateChangeHandler h ev (unat sid) m)"

definition FrontWantedSegment :: "'a slab_manager_scheme \<Rightarrow> (nat, 'a slab_manager_scheme) outcome" where
  "FrontWantedSegment m =
     (case wantedSlabs m of
        [] \<Rightarrow> Throw ''SlabManager::FrontWantedSegment with no wanted slabs'' m
      | i # _ \<Rightarrow>
          (case wantedSegs (slab_at m i) of
             [] \<Rightarrow> Throw ''SlabManager::FrontWantedSegment slab has no WantedSegments'' m
           | seg # _ \<Rightarrow> Ok seg m))"

section \<open>Invariant\<close>

definition num_slabs :: "'a slab_manager_scheme \<Rightarrow> nat" where
  "num_slabs m = unat (slabsPerBuf m) * length (infoVec m)"

definition slab_shape :: "'a slab_manager_scheme \<Rightarrow> bool" where
  "slab_shape m \<longleftrightarrow> slabsPerBuf m \<noteq> 0 \<and> num_slabs m < 2 ^ 32
     \<and> (\<forall>b \<in> set (infoVec m). length b = unat (slabsPerBuf m))
     \<and> (\<forall>i < num_slabs m. slabID (slab_at m i) = of_nat i)"

definition queued_segs :: "'a slab_manager_scheme \<Rightarrow> nat list" where
  "queued_segs m = concat (map (\<lambda>i. wantedSegs (slab_at m i)) [0..<num_slabs m])"

text \<open>
  Every slab is on exactly one of the three lists, and the list says what its counters are;
  every wanted segment is free or queued at exactly one slab.
\<close>

definition slab_is_free :: "slab_info \<Rightarrow> bool" where
  "slab_is_free s \<longleftrightarrow> heldRefcnt s = 0 \<and> wantedSegs s = [] \<and> prodClientID s = -1"

definition slab_is_wanted :: "slab_info \<Rightarrow> bool" where
  "slab_is_wanted s \<longleftrightarrow> heldRefcnt s = 0 \<and> wantedSegs s \<noteq> []"

definition slab_lists :: "'a slab_manager_scheme \<Rightarrow> bool" where
  "slab_lists m \<longleftrightarrow> pool (freeSlabs m @ heldSlabs m @ wantedSlabs m) (num_slabs m)
     \<and> (\<forall>i \<in> set (freeSlabs m). slab_is_free (slab_at m i))
     \<and> (\<forall>i \<in> set (heldSlabs m). heldRefcnt (slab_at m i) \<noteq> 0)
     \<and> (\<forall>i \<in> set (wantedSlabs m). slab_is_wanted (slab_at m i))"

definition seg_pool :: "'a slab_manager_scheme \<Rightarrow> bool" where
  "seg_pool m \<longleftrightarrow> pool (freeWantedSegs m @ queued_segs m) (length (wantedSegmentBlocks m))"

definition slab_inv :: "'a slab_manager_scheme \<Rightarrow> bool" where
  "slab_inv m \<longleftrightarrow> slab_shape m \<and> slab_lists m \<and> seg_pool m"

section \<open>Addressing\<close>

lemma num_slabs_upd_slab [simp]: "num_slabs (upd_slab i f m) = num_slabs m"
  by (simp add: num_slabs_def upd_slab_def Let_def)

lemma upd_slab_fields [simp]:
  "slabsPerBuf (upd_slab i f m) = slabsPerBuf m"
  "numSlabsReserved (upd_slab i f m) = numSlabsReserved m"
  "pctNonreservable (upd_slab i f m) = pctNonreservable m"
  "numSlabsNonreservable (upd_slab i f m) = numSlabsNonreservable m"
  "length (infoVec (upd_slab i f m)) = length (infoVec m)"
  "freeSlabs (upd_slab i f m) = freeSlabs m"
  "heldSlabs (upd_slab i f m) = heldSlabs m"
  "wantedSlabs (upd_slab i f m) = wantedSlabs m"
  "freeWantedSegs (upd_slab i f m) = freeWantedSegs m"
  "wantedSegmentBlocks (upd_slab i f m) = wantedSegmentBlocks m"
  "whichStateChange (upd_slab i f m) = whichStateChange m"
  "slab_manager.more (upd_slab i f m) = slab_manager.more m"
  by (simp_all add: upd_slab_def Let_def)

lemma slab_at_other_fields [simp]:
  "slab_at (m\<lparr>freeSlabs := a\<rparr>) i = slab_at m i"
  "slab_at (m\<lparr>heldSlabs := a\<rparr>) i = slab_at m i"
  "slab_at (m\<lparr>wantedSlabs := a\<rparr>) i = slab_at m i"
  "slab_at (m\<lparr>freeWantedSegs := a\<rparr>) i = slab_at m i"
  "slab_at (m\<lparr>wantedSegmentBlocks := b\<rparr>) i = slab_at m i"
  "slab_at (m\<lparr>numSlabsReserved := c\<rparr>) i = slab_at m i"
  "slab_at (m\<lparr>numSlabsNonreservable := c\<rparr>) i = slab_at m i"
  "num_slabs (m\<lparr>freeSlabs := a\<rparr>) = num_slabs m"
  "num_slabs (m\<lparr>heldSlabs := a\<rparr>) = num_slabs m"
  "num_slabs (m\<lparr>wantedSlabs := a\<rparr>) = num_slabs m"
  "num_slabs (m\<lparr>freeWantedSegs := a\<rparr>) = num_slabs m"
  "num_slabs (m\<lparr>wantedSegmentBlocks := b\<rparr>) = num_slabs m"
  "num_slabs (m\<lparr>numSlabsReserved := c\<rparr>) = num_slabs m"
  "num_slabs (m\<lparr>numSlabsNonreservable := c\<rparr>) = num_slabs m"
  by (simp_all add: slab_at_def num_slabs_def)

lemma slab_index:
  assumes "slab_shape m" "i < num_slabs m"
  shows "i div unat (slabsPerBuf m) < length (infoVec m)"
    and "i mod unat (slabsPerBuf m) < length (infoVec m ! (i div unat (slabsPerBuf m)))"
proof -
  from assms have pos: "0 < unat (slabsPerBuf m)"
    by (simp add: slab_shape_def unat_gt_0_iff)
  with assms(2) show q: "i div unat (slabsPerBuf m) < length (infoVec m)"
    by (simp add: num_slabs_def div_less_iff_less_mult mult.commute)
  then have "infoVec m ! (i div unat (slabsPerBuf m)) \<in> set (infoVec m)" by simp
  with assms(1) pos show "i mod unat (slabsPerBuf m) < length (infoVec m ! (i div unat (slabsPerBuf m)))"
    by (simp add: slab_shape_def)
qed

lemma slab_at_upd_slab:
  assumes "slab_shape m" "i < num_slabs m"
  shows "slab_at (upd_slab i f m) j = (if j = i then f (slab_at m i) else slab_at m j)"
proof (cases "i div unat (slabsPerBuf m) = j div unat (slabsPerBuf m)")
  case True
  show ?thesis
  proof (cases "j = i")
    case False
    with True have "i mod unat (slabsPerBuf m) \<noteq> j mod unat (slabsPerBuf m)"
      by (metis div_mult_mod_eq)
    with True False show ?thesis
      using slab_index(1) [OF assms] by (simp add: slab_at_def upd_slab_def Let_def)
  next
    case True
    then show ?thesis
      using slab_index [OF assms] by (simp add: slab_at_def upd_slab_def Let_def)
  qed
next
  case False
  then have "i \<noteq> j" by auto
  with False show ?thesis by (simp add: slab_at_def upd_slab_def Let_def)
qed

lemma slab_shape_upd_slab:
  assumes "slab_shape m" "i < num_slabs m" "\<And>s. slabID (f s) = slabID s"
  shows "slab_shape (upd_slab i f m)"
proof -
  have "length b = unat (slabsPerBuf m)" if "b \<in> set (infoVec (upd_slab i f m))" for b
  proof -
    from that have "b \<in> set (infoVec m) \<or> length b = length (infoVec m ! (i div unat (slabsPerBuf m)))"
      by (auto simp: upd_slab_def Let_def dest!: set_update_subset_insert [THEN subsetD])
    moreover have "infoVec m ! (i div unat (slabsPerBuf m)) \<in> set (infoVec m)"
      using slab_index(1) [OF assms(1,2)] by simp
    ultimately show ?thesis using assms(1) by (auto simp: slab_shape_def)
  qed
  with assms show ?thesis
    by (simp add: slab_shape_def slab_at_upd_slab [OF assms(1,2)])
qed

lemma GetSlabInfo_valid:
  assumes "slab_shape m" "unat sid < num_slabs m"
  shows "GetSlabInfo sid m = Ok (unat sid) m"
  using assms slab_index(1) [OF assms] by (simp add: GetSlabInfo_def slab_shape_def)

lemma GetSlabInfo_invalid:
  assumes "slab_shape m" "\<not> unat sid < num_slabs m"
  shows "GetSlabInfo sid m = Throw ''SlabManager::GetSlabInfo invalid slabID'' m"
proof -
  have "0 < unat (slabsPerBuf m)" using assms(1) by (simp add: slab_shape_def unat_gt_0_iff)
  with assms(2) have "\<not> unat sid div unat (slabsPerBuf m) < length (infoVec m)"
    by (simp add: num_slabs_def div_less_iff_less_mult mult.commute)
  with assms show ?thesis by (simp add: GetSlabInfo_def slab_shape_def)
qed

lemma queued_segs_upd_slab:
  assumes "slab_shape m" "i < num_slabs m"
  shows "mset (queued_segs (upd_slab i f m)) + mset (wantedSegs (slab_at m i))
    = mset (queued_segs m) + mset (wantedSegs (f (slab_at m i)))"
proof -
  let ?xs = "map (\<lambda>i. wantedSegs (slab_at m i)) [0..<num_slabs m]"
  have "map (\<lambda>j. wantedSegs (slab_at (upd_slab i f m) j)) [0..<num_slabs m]
    = ?xs[i := wantedSegs (f (slab_at m i))]"
    using assms(2) by (intro nth_equalityI) (auto simp: slab_at_upd_slab [OF assms] nth_list_update)
  with mset_concat_update [of i ?xs "wantedSegs (f (slab_at m i))"] assms(2) show ?thesis
    by (simp add: queued_segs_def)
qed

lemma queued_segs_cong:
  assumes "num_slabs m' = num_slabs m" "\<And>j. wantedSegs (slab_at m' j) = wantedSegs (slab_at m j)"
  shows "queued_segs m' = queued_segs m"
  using assms by (simp add: queued_segs_def)

section \<open>Moving a slab between the lists\<close>

text \<open>What an operation on one slab leaves alone.\<close>

definition slab_frame :: "'a slab_manager_scheme \<Rightarrow> 'a slab_manager_scheme \<Rightarrow> bool" where
  "slab_frame m m' \<longleftrightarrow> slabsPerBuf m' = slabsPerBuf m \<and> length (infoVec m') = length (infoVec m)
     \<and> numSlabsReserved m' = numSlabsReserved m \<and> pctNonreservable m' = pctNonreservable m
     \<and> numSlabsNonreservable m' = numSlabsNonreservable m
     \<and> whichStateChange m' = whichStateChange m \<and> slab_manager.more m' = slab_manager.more m"

lemma slab_frame_refl [simp]: "slab_frame m m"
  by (simp add: slab_frame_def)

lemma slab_frame_trans: "slab_frame m m' \<Longrightarrow> slab_frame m' m'' \<Longrightarrow> slab_frame m m''"
  by (simp add: slab_frame_def)

lemma slab_frame_num_slabs: "slab_frame m m' \<Longrightarrow> num_slabs m' = num_slabs m"
  by (simp add: slab_frame_def num_slabs_def)

lemma slab_frame_updates [simp]:
  "slab_frame m (upd_slab i f m')  = slab_frame m m'"
  "slab_frame m (m'\<lparr>freeSlabs := a\<rparr>) = slab_frame m m'"
  "slab_frame m (m'\<lparr>heldSlabs := a\<rparr>) = slab_frame m m'"
  "slab_frame m (m'\<lparr>wantedSlabs := a\<rparr>) = slab_frame m m'"
  "slab_frame m (m'\<lparr>freeWantedSegs := a\<rparr>) = slab_frame m m'"
  "slab_frame m (m'\<lparr>wantedSegmentBlocks := b\<rparr>) = slab_frame m m'"
  by (simp_all add: slab_frame_def)

lemma slab_shape_list_updates [simp]:
  "slab_shape (m\<lparr>freeSlabs := a\<rparr>) = slab_shape m"
  "slab_shape (m\<lparr>heldSlabs := a\<rparr>) = slab_shape m"
  "slab_shape (m\<lparr>wantedSlabs := a\<rparr>) = slab_shape m"
  "slab_shape (m\<lparr>freeWantedSegs := a\<rparr>) = slab_shape m"
  "slab_shape (m\<lparr>wantedSegmentBlocks := b\<rparr>) = slab_shape m"
  "slab_shape (m\<lparr>numSlabsReserved := c\<rparr>) = slab_shape m"
  by (simp_all add: slab_shape_def)

lemma queued_segs_list_updates [simp]:
  "queued_segs (m\<lparr>freeSlabs := a\<rparr>) = queued_segs m"
  "queued_segs (m\<lparr>heldSlabs := a\<rparr>) = queued_segs m"
  "queued_segs (m\<lparr>wantedSlabs := a\<rparr>) = queued_segs m"
  "queued_segs (m\<lparr>freeWantedSegs := a\<rparr>) = queued_segs m"
  "queued_segs (m\<lparr>wantedSegmentBlocks := b\<rparr>) = queued_segs m"
  "queued_segs (m\<lparr>numSlabsReserved := c\<rparr>) = queued_segs m"
  by (simp_all add: queued_segs_def)

lemma slab_lists_mem:
  assumes "slab_lists m"
  shows "i \<in> set (freeSlabs m) \<Longrightarrow> i < num_slabs m"
    and "i \<in> set (heldSlabs m) \<Longrightarrow> i < num_slabs m"
    and "i \<in> set (wantedSlabs m) \<Longrightarrow> i < num_slabs m"
  using assms by (auto simp: slab_lists_def dest!: pool_set)

lemma slab_lists_distinct:
  "slab_lists m \<Longrightarrow> distinct (freeSlabs m @ heldSlabs m @ wantedSlabs m)"
  unfolding slab_lists_def using pool_distinct by blast

text \<open>The counters tell which list a slab is on.\<close>

lemma slab_lists_iff:
  assumes "slab_lists m" "i < num_slabs m"
  shows "i \<in> set (heldSlabs m) \<longleftrightarrow> heldRefcnt (slab_at m i) \<noteq> 0"
    and "i \<in> set (wantedSlabs m) \<longleftrightarrow> heldRefcnt (slab_at m i) = 0 \<and> wantedSegs (slab_at m i) \<noteq> []"
    and "i \<in> set (freeSlabs m) \<longleftrightarrow> heldRefcnt (slab_at m i) = 0 \<and> wantedSegs (slab_at m i) = []"
proof -
  from assms have "i \<in> set (freeSlabs m) \<or> i \<in> set (heldSlabs m) \<or> i \<in> set (wantedSlabs m)"
    using pool_mem [of "freeSlabs m @ heldSlabs m @ wantedSlabs m" "num_slabs m" i]
    by (simp add: slab_lists_def)
  then show "i \<in> set (heldSlabs m) \<longleftrightarrow> heldRefcnt (slab_at m i) \<noteq> 0"
    and "i \<in> set (wantedSlabs m) \<longleftrightarrow> heldRefcnt (slab_at m i) = 0 \<and> wantedSegs (slab_at m i) \<noteq> []"
    and "i \<in> set (freeSlabs m) \<longleftrightarrow> heldRefcnt (slab_at m i) = 0 \<and> wantedSegs (slab_at m i) = []"
    using assms(1) by (auto simp: slab_lists_def slab_is_free_def slab_is_wanted_def)
qed

lemma slab_lists_update:
  assumes "slab_lists m" "slab_shape m'" "num_slabs m' = num_slabs m" "i < num_slabs m"
    and "\<And>j. j \<noteq> i \<Longrightarrow> slab_at m' j = slab_at m j"
    and "mset (freeSlabs m' @ heldSlabs m' @ wantedSlabs m') = mset (freeSlabs m @ heldSlabs m @ wantedSlabs m)"
    and "set (freeSlabs m') \<subseteq> insert i (set (freeSlabs m))" "i \<in> set (freeSlabs m') \<Longrightarrow> slab_is_free (slab_at m' i)"
    and "set (heldSlabs m') \<subseteq> insert i (set (heldSlabs m))" "i \<in> set (heldSlabs m') \<Longrightarrow> heldRefcnt (slab_at m' i) \<noteq> 0"
    and "set (wantedSlabs m') \<subseteq> insert i (set (wantedSlabs m))" "i \<in> set (wantedSlabs m') \<Longrightarrow> slab_is_wanted (slab_at m' i)"
  shows "slab_lists m'"
  unfolding slab_lists_def
proof (intro conjI ballI)
  show "pool (freeSlabs m' @ heldSlabs m' @ wantedSlabs m') (num_slabs m')"
    using assms(1,3) pool_cong [OF assms(6)] by (simp add: slab_lists_def)
  show "slab_is_free (slab_at m' j)" if "j \<in> set (freeSlabs m')" for j
    using assms(1,5,7,8) that by (cases "j = i") (auto simp: slab_lists_def)
  show "heldRefcnt (slab_at m' j) \<noteq> 0" if "j \<in> set (heldSlabs m')" for j
    using assms(1,5,9,10) that by (cases "j = i") (auto simp: slab_lists_def)
  show "slab_is_wanted (slab_at m' j)" if "j \<in> set (wantedSlabs m')" for j
    using assms(1,5,11,12) that by (cases "j = i") (auto simp: slab_lists_def)
qed

section \<open>The operations keep the invariant\<close>

subsection \<open>Taking free slabs\<close>

lemma GetFreeSlabs_step_spec:
  assumes inv: "slab_inv m" and free: "freeSlabs m = i # fs"
  obtains m' where "GetFreeSlabs_step client arg m = Ok i m'" "slab_inv m'" "slab_frame m m'"
    "i < num_slabs m" "heldRefcnt (slab_at m i) = 0"
    "\<And>j. slab_at m' j = (if j = i then (slab_at m i)\<lparr>heldRefcnt := 1, prodClientID := client, prodArg := arg\<rparr> else slab_at m j)"
    "freeSlabs m' = fs" "heldSlabs m' = heldSlabs m @ [i]" "wantedSlabs m' = wantedSlabs m"
    "freeWantedSegs m' = freeWantedSegs m" "wantedSegmentBlocks m' = wantedSegmentBlocks m"
proof -
  from inv have sh: "slab_shape m" and ls: "slab_lists m" and sg: "seg_pool m"
    by (simp_all add: slab_inv_def)
  from slab_lists_mem(1) [OF ls] free have i: "i < num_slabs m" by simp
  have fi: "slab_is_free (slab_at m i)" using ls free by (simp add: slab_lists_def)
  define m1 where "m1 = upd_slab i (\<lambda>s. s\<lparr>heldRefcnt := heldRefcnt s + 1\<rparr>) (m\<lparr>freeSlabs := fs\<rparr>)"
  define m2 where "m2 = SI_SetProducerParams client arg i m1"
  define m' where "m' = m2\<lparr>heldSlabs := heldSlabs m @ [i]\<rparr>"
  have sh1: "slab_shape m1" unfolding m1_def by (rule slab_shape_upd_slab) (use sh i in auto)
  have i1: "i < num_slabs m1" using i by (simp add: m1_def)
  have sh2: "slab_shape m2" unfolding m2_def SI_SetProducerParams_def
    by (rule slab_shape_upd_slab [OF sh1 i1]) simp
  have at1: "slab_at m1 j = (if j = i then (slab_at m i)\<lparr>heldRefcnt := 1\<rparr> else slab_at m j)" for j
    using fi by (simp add: m1_def slab_at_upd_slab sh i slab_is_free_def)
  have at: "slab_at m' j = (if j = i then (slab_at m i)\<lparr>heldRefcnt := 1, prodClientID := client, prodArg := arg\<rparr> else slab_at m j)" for j
    by (simp add: m'_def m2_def SI_SetProducerParams_def slab_at_upd_slab [OF sh1 i1] at1)
  have ni: "i \<notin> set (freeSlabs m2 @ heldSlabs m2 @ wantedSlabs m2)"
    using slab_lists_distinct [OF ls] free by (auto simp: m2_def m1_def SI_SetProducerParams_def)
  have fr: "slab_frame m m'"
    by (simp add: m'_def m2_def m1_def SI_SetProducerParams_def)
  have "GetFreeSlabs_step client arg m = Ok i m'"
    using fi free ni
    by (simp add: GetFreeSlabs_step_def SI_GetFreeSlab_def slab_is_free_def push_slab_def
        m'_def m2_def m1_def SI_SetProducerParams_def)
  moreover have flds: "freeSlabs m' = fs" "heldSlabs m' = heldSlabs m @ [i]" "wantedSlabs m' = wantedSlabs m"
    "freeWantedSegs m' = freeWantedSegs m" "wantedSegmentBlocks m' = wantedSegmentBlocks m"
    "num_slabs m' = num_slabs m" "slab_shape m'"
    using sh2 by (simp_all add: m'_def m2_def m1_def SI_SetProducerParams_def)
  moreover have "slab_lists m'"
    by (rule slab_lists_update [OF ls, where i = i])
      (use i free flds at ni in \<open>auto simp: m2_def m1_def SI_SetProducerParams_def\<close>)
  moreover have "queued_segs m' = queued_segs m"
    by (rule queued_segs_cong) (simp_all add: flds at)
  ultimately show ?thesis
    using that [of m'] at fr i fi sg by (simp add: slab_inv_def seg_pool_def slab_is_free_def)
qed

text \<open>
  \<open>GetFreeSlabs\<close> with the handler masked off (as the manager calls it): it takes the slabs in
  the order of the free list, as many as there are, each with a reference count of 1.
\<close>

lemma GetFreeSlabs_loop_spec:
  assumes "slab_inv m" "h = None \<or> whichStateChange m AND kFreeToHeld = 0"
  obtains m' where "GetFreeSlabs_loop h client arg k m = Ok (map of_nat (take k (freeSlabs m))) m'"
    "slab_inv m'" "slab_frame m m'"
    "\<And>j. slab_at m' j = (if j \<in> set (take k (freeSlabs m))
        then (slab_at m j)\<lparr>heldRefcnt := 1, prodClientID := client, prodArg := arg\<rparr> else slab_at m j)"
    "freeSlabs m' = drop k (freeSlabs m)" "heldSlabs m' = heldSlabs m @ take k (freeSlabs m)"
    "wantedSlabs m' = wantedSlabs m"
    "freeWantedSegs m' = freeWantedSegs m" "wantedSegmentBlocks m' = wantedSegmentBlocks m"
  using assms
proof (induction k arbitrary: m thesis)
  case 0
  from 0(1) [of m] 0(2) show ?case by simp
next
  case (Suc k)
  show ?case
  proof (cases "freeSlabs m")
    case Nil
    with Suc.prems(1) [of m] Suc.prems(2) show ?thesis by simp
  next
    case (Cons i fs)
    obtain m1 where m1: "GetFreeSlabs_step client arg m = Ok i m1" "slab_inv m1" "slab_frame m m1"
      "\<And>j. slab_at m1 j = (if j = i then (slab_at m i)\<lparr>heldRefcnt := 1, prodClientID := client, prodArg := arg\<rparr> else slab_at m j)"
      "freeSlabs m1 = fs" "heldSlabs m1 = heldSlabs m @ [i]" "wantedSlabs m1 = wantedSlabs m"
      "freeWantedSegs m1 = freeWantedSegs m" "wantedSegmentBlocks m1 = wantedSegmentBlocks m"
      using GetFreeSlabs_step_spec [OF Suc.prems(2) Cons] by metis
    have mask: "h = None \<or> whichStateChange m1 AND kFreeToHeld = 0"
      using Suc.prems(3) m1(3) by (simp add: slab_frame_def)
    then have h1: "CallStateChangeHandler h kFreeToHeld i m1 = Ok () m1"
      by (auto simp: CallStateChangeHandler_def split: option.split)
    obtain m2 where m2: "GetFreeSlabs_loop h client arg k m1 = Ok (map of_nat (take k fs)) m2"
      "slab_inv m2" "slab_frame m1 m2"
      "\<And>j. slab_at m2 j = (if j \<in> set (take k fs)
        then (slab_at m1 j)\<lparr>heldRefcnt := 1, prodClientID := client, prodArg := arg\<rparr> else slab_at m1 j)"
      "freeSlabs m2 = drop k fs" "heldSlabs m2 = heldSlabs m1 @ take k fs"
      "wantedSlabs m2 = wantedSlabs m1"
      "freeWantedSegs m2 = freeWantedSegs m1" "wantedSegmentBlocks m2 = wantedSegmentBlocks m1"
      using Suc.IH [OF _ m1(2) mask] m1(5) by metis
    have "i \<notin> set (take k fs)"
      using slab_lists_distinct [of m] Suc.prems(2) Cons
      by (auto simp: slab_inv_def dest: in_set_takeD)
    with m1 m2 h1 show ?thesis
      using Suc.prems(1) [of m2] slab_frame_trans [OF m1(3) m2(3)] Cons by auto
  qed
qed

subsection \<open>Holding and releasing\<close>

lemma IncrementHeld_step_spec:
  assumes inv: "slab_inv m" and i: "unat sid < num_slabs m"
    and nf: "heldRefcnt (slab_at m (unat sid)) \<noteq> 0 \<or> wantedSegs (slab_at m (unat sid)) \<noteq> []"
    and mask: "h = None \<or> whichStateChange m AND kWantedToHeld = 0"
    and nowrap: "heldRefcnt (slab_at m (unat sid)) \<noteq> - 1"
  obtains m' where "IncrementHeld_step h sid m = Ok () m'" "slab_inv m'" "slab_frame m m'"
    "\<And>j. slab_at m' j = (if j = unat sid then (slab_at m j)\<lparr>heldRefcnt := heldRefcnt (slab_at m j) + 1\<rparr> else slab_at m j)"
    "freeSlabs m' = freeSlabs m"
    "freeWantedSegs m' = freeWantedSegs m" "wantedSegmentBlocks m' = wantedSegmentBlocks m"
proof -
  let ?i = "unat sid" and ?f = "\<lambda>s. s\<lparr>heldRefcnt := heldRefcnt s + 1\<rparr>"
  from inv have sh: "slab_shape m" and ls: "slab_lists m" and sg: "seg_pool m"
    by (simp_all add: slab_inv_def)
  define m1 where "m1 = (if heldRefcnt (slab_at m ?i) = 0
    then m\<lparr>wantedSlabs := remove1 ?i (wantedSlabs m), heldSlabs := heldSlabs m @ [?i]\<rparr> else m)"
  define m' where "m' = upd_slab ?i ?f m1"
  have at1: "slab_at m1 j = slab_at m j" and n1: "num_slabs m1 = num_slabs m" and sh1: "slab_shape m1"
    and flds1: "freeSlabs m1 = freeSlabs m" "freeWantedSegs m1 = freeWantedSegs m"
      "wantedSegmentBlocks m1 = wantedSegmentBlocks m" "slab_frame m m1" for j
    using sh by (simp_all add: m1_def)
  have at: "slab_at m' j = (if j = ?i then ?f (slab_at m j) else slab_at m j)" for j
    using i by (simp add: m'_def slab_at_upd_slab sh1 n1 at1)
  have sh': "slab_shape m'" unfolding m'_def by (rule slab_shape_upd_slab) (use sh1 n1 i in auto)
  have iff: "?i \<in> set (heldSlabs m) \<longleftrightarrow> heldRefcnt (slab_at m ?i) \<noteq> 0"
    "?i \<in> set (wantedSlabs m) \<longleftrightarrow> heldRefcnt (slab_at m ?i) = 0"
    "?i \<notin> set (freeSlabs m)"
    using slab_lists_iff [OF ls i] nf by auto
  have d: "distinct (wantedSlabs m)" using slab_lists_distinct [OF ls] by simp
  have "IncrementHeld_step h sid m = Ok () m'"
    using nf iff mask d
    by (auto simp: IncrementHeld_step_def GetSlabInfo_valid [OF sh i] erase_slab_def push_slab_def
        CallStateChangeHandler_def m'_def m1_def split: option.split)
  moreover have "slab_lists m'"
  proof (rule slab_lists_update [OF ls sh' _ i])
    show "heldRefcnt (slab_at m' ?i) \<noteq> 0"
      using nowrap by (simp add: at eq_neg_iff_add_eq_0)
    show "?i \<in> set (wantedSlabs m') \<Longrightarrow> slab_is_wanted (slab_at m' ?i)"
      using iff d by (auto simp: m'_def m1_def split: if_splits)
  qed (use iff n1 at in \<open>auto simp: m'_def m1_def\<close>)
  moreover have "queued_segs m' = queued_segs m"
    using n1 at by (intro queued_segs_cong) (simp add: m'_def, simp)
  ultimately show ?thesis
    using that [of m'] sg at flds1 sh' by (simp add: slab_inv_def seg_pool_def m'_def)
qed

text \<open>
  \<open>DecrementHeldRefcnt\<close> on one slab: the slab stays held, or it is the last reference and the
  slab moves to the wanted or to the free list.
\<close>

lemma DecrementHeld_step_spec:
  assumes inv: "slab_inv m" and i: "unat sid < num_slabs m"
    and le: "amount \<le> heldRefcnt (slab_at m (unat sid))" and pos: "amount \<noteq> 0"
  obtains ev m' where "DecrementHeld_step sid amount m = Ok ev m'" "slab_inv m'" "slab_frame m m'"
    "\<And>j. heldRefcnt (slab_at m' j) = (if j = unat sid then heldRefcnt (slab_at m j) - amount else heldRefcnt (slab_at m j))"
    "\<And>j. wantedSegs (slab_at m' j) = wantedSegs (slab_at m j)"
    "freeWantedSegs m' = freeWantedSegs m" "wantedSegmentBlocks m' = wantedSegmentBlocks m"
    "ev = (if heldRefcnt (slab_at m (unat sid)) \<noteq> amount then 0
           else if wantedSegs (slab_at m (unat sid)) = [] then kHeldToFree else kHeldToWanted)"
    "freeSlabs m' = freeSlabs m @ (if ev = kHeldToFree then [unat sid] else [])"
proof -
  let ?i = "unat sid" and ?r = "heldRefcnt (slab_at m (unat sid))"
  from inv have sh: "slab_shape m" and ls: "slab_lists m" and sg: "seg_pool m"
    by (simp_all add: slab_inv_def)
  have held: "?i \<in> set (heldSlabs m)"
    using slab_lists_iff(1) [OF ls i] le pos by auto
  have d: "distinct (heldSlabs m)" "?i \<notin> set (freeSlabs m)" "?i \<notin> set (wantedSlabs m)"
    using slab_lists_distinct [OF ls] held by auto
  define ev where "ev = (if ?r \<noteq> amount then 0
    else if wantedSegs (slab_at m ?i) = [] then kHeldToFree else kHeldToWanted)"
  define g where "g = (\<lambda>s :: slab_info. if ev = kHeldToFree then s\<lparr>heldRefcnt := ?r - amount, prodClientID := -1, prodArg := 0\<rparr>
    else s\<lparr>heldRefcnt := ?r - amount\<rparr>)"
  define m1 where "m1 = upd_slab ?i (\<lambda>s. s\<lparr>heldRefcnt := ?r - amount\<rparr>) m"
  define m2 where "m2 = (if ev = 0 then m1 else m1\<lparr>heldSlabs := remove1 ?i (heldSlabs m1)\<rparr>)"
  define m3 where "m3 = (if ev = kHeldToFree then SI_SetProducerParams (-1) 0 ?i m2 else m2)"
  define m' where "m' = (if ev = kHeldToFree then m3\<lparr>freeSlabs := freeSlabs m3 @ [?i]\<rparr>
    else if ev = kHeldToWanted then m3\<lparr>wantedSlabs := wantedSlabs m3 @ [?i]\<rparr> else m3)"
  note defs = m'_def m3_def m2_def m1_def SI_SetProducerParams_def
  have ne: "kHeldToFree \<noteq> 0" "kHeldToWanted \<noteq> 0" "kHeldToFree \<noteq> kHeldToWanted"
    by (simp_all add: kHeldToFree_def kHeldToWanted_def)
  have sh1: "slab_shape m1" "num_slabs m1 = num_slabs m"
    unfolding m1_def using slab_shape_upd_slab [OF sh i] by auto
  have at1: "slab_at m1 j = (if j = ?i then (slab_at m j)\<lparr>heldRefcnt := ?r - amount\<rparr> else slab_at m j)" for j
    by (simp add: m1_def slab_at_upd_slab [OF sh i])
  have at2: "slab_at m2 j = slab_at m1 j" and sh2: "slab_shape m2" "num_slabs m2 = num_slabs m" for j
    using sh1 by (simp_all add: m2_def)
  have at: "slab_at m' j = (if j = ?i then g (slab_at m j) else slab_at m j)" for j
    using i by (simp add: m'_def m3_def SI_SetProducerParams_def slab_at_upd_slab sh2 at2 at1 g_def)
  have sh': "slab_shape m'"
    using slab_shape_upd_slab [OF sh2(1)] sh2 i by (simp add: m'_def m3_def SI_SetProducerParams_def)
  have flds: "num_slabs m' = num_slabs m" "slab_frame m m'" "freeWantedSegs m' = freeWantedSegs m"
    "wantedSegmentBlocks m' = wantedSegmentBlocks m"
    "freeSlabs m' = freeSlabs m @ (if ev = kHeldToFree then [?i] else [])"
    "wantedSlabs m' = wantedSlabs m @ (if ev = kHeldToWanted then [?i] else [])"
    "heldSlabs m' = (if ev = 0 then heldSlabs m else remove1 ?i (heldSlabs m))"
    using ne by (simp_all add: defs)
  have "DecrementHeld_step sid amount m = Ok ev m'"
    using leD [OF le] ne held d
    by (simp add: DecrementHeld_step_def GetSlabInfo_valid [OF sh i] SI_DecrementHeld_def Let_def
        erase_slab_def push_slab_def slab_at_upd_slab [OF sh i] ev_def defs)
  moreover have "slab_lists m'"
  proof (rule slab_lists_update [OF ls sh' _ i])
    show "?i \<in> set (freeSlabs m') \<Longrightarrow> slab_is_free (slab_at m' ?i)"
      using d ne by (auto simp: flds at slab_is_free_def g_def ev_def split: if_splits)
    show "?i \<in> set (heldSlabs m') \<Longrightarrow> heldRefcnt (slab_at m' ?i) \<noteq> 0"
      using d ne by (auto simp: flds at g_def ev_def split: if_splits)
    show "?i \<in> set (wantedSlabs m') \<Longrightarrow> slab_is_wanted (slab_at m' ?i)"
      using d ne by (auto simp: flds at slab_is_wanted_def g_def ev_def split: if_splits)
    show "mset (freeSlabs m' @ heldSlabs m' @ wantedSlabs m') = mset (freeSlabs m @ heldSlabs m @ wantedSlabs m)"
      using held ne by (simp add: flds ev_def)
  qed (use at flds in \<open>auto dest: notin_set_remove1 [rotated] set_remove1_subset [THEN subsetD]\<close>)
  moreover have "queued_segs m' = queued_segs m"
    by (rule queued_segs_cong) (simp_all add: at flds g_def)
  ultimately show ?thesis
    using that [of ev m'] sg sh' flds at by (simp add: slab_inv_def seg_pool_def g_def ev_def)
qed

text \<open>With an amount above the count the slab keeps its place but its count is 0.\<close>

lemma DecrementHeld_step_underflow:
  assumes "slab_inv m" "unat sid < num_slabs m" "heldRefcnt (slab_at m (unat sid)) < amount"
  shows "DecrementHeld_step sid amount m
    = Throw ''SlabInfo::DecrementHeld encountered heldRefcnt==0''
        (upd_slab (unat sid) (\<lambda>s. s\<lparr>heldRefcnt := 0\<rparr>) m)"
  using assms by (simp add: DecrementHeld_step_def GetSlabInfo_valid slab_inv_def SI_DecrementHeld_def)

subsection \<open>Wanted segments\<close>

lemma AddWantedSegmentBlock_inv:
  assumes "slab_inv m" shows "slab_inv (AddWantedSegmentBlock m)"
proof -
  let ?n = "length (wantedSegmentBlocks m)"
  from assms have "pool ((freeWantedSegs m @ queued_segs m) @ [?n..<?n + kNumSegs]) (?n + kNumSegs)"
    by (intro pool_grow) (simp add: slab_inv_def seg_pool_def)
  then have "pool ((freeWantedSegs m @ [?n..<?n + kNumSegs]) @ queued_segs m) (?n + kNumSegs)"
    by (simp add: pool_def ac_simps)
  with assms show ?thesis
    by (simp add: AddWantedSegmentBlock_def Let_def slab_inv_def seg_pool_def slab_lists_def)
qed

lemma AddWantedSegmentBlock_fields [simp]:
  "slab_at (AddWantedSegmentBlock m) i = slab_at m i"
  "num_slabs (AddWantedSegmentBlock m) = num_slabs m"
  "slab_frame m' (AddWantedSegmentBlock m) = slab_frame m' m"
  "freeSlabs (AddWantedSegmentBlock m) = freeSlabs m"
  "heldSlabs (AddWantedSegmentBlock m) = heldSlabs m"
  "wantedSlabs (AddWantedSegmentBlock m) = wantedSlabs m"
  "queued_segs (AddWantedSegmentBlock m) = queued_segs m"
  "slab_shape (AddWantedSegmentBlock m) = slab_shape m"
  by (simp_all add: AddWantedSegmentBlock_def Let_def)

lemma GetWantedSegment_spec:
  assumes inv: "slab_inv m" and i: "unat sid < num_slabs m"
    and nf: "heldRefcnt (slab_at m (unat sid)) \<noteq> 0 \<or> wantedSegs (slab_at m (unat sid)) \<noteq> []"
  obtains seg m' where "GetWantedSegment clientID blockID sid m = Ok seg m'" "slab_inv m'" "slab_frame m m'"
    "seg \<notin> set (queued_segs m)" "seg < length (wantedSegmentBlocks m')"
    "wantedSegmentBlocks m' ! seg = \<lparr>ws_clientID = clientID, ws_blockID = blockID\<rparr>"
    "\<And>s. s \<in> set (queued_segs m) \<Longrightarrow> wantedSegmentBlocks m' ! s = wantedSegmentBlocks m ! s"
    "\<And>j. slab_at m' j = (if j = unat sid then (slab_at m j)\<lparr>wantedSegs := wantedSegs (slab_at m j) @ [seg]\<rparr> else slab_at m j)"
    "freeSlabs m' = freeSlabs m" "heldSlabs m' = heldSlabs m" "wantedSlabs m' = wantedSlabs m"
proof -
  let ?i = "unat sid"
  define m1 where "m1 = (if freeWantedSegs m = [] then AddWantedSegmentBlock m else m)"
  have inv1: "slab_inv m1" using inv AddWantedSegmentBlock_inv [OF inv] by (simp add: m1_def)
  have "freeWantedSegs m1 \<noteq> []"
    by (simp add: m1_def AddWantedSegmentBlock_def kNumSegs_def Let_def)
  then obtain seg fs where seg: "freeWantedSegs m1 = seg # fs" by (cases "freeWantedSegs m1") auto
  define m2 where "m2 = m1\<lparr>wantedSegmentBlocks := (wantedSegmentBlocks m1)[seg := \<lparr>ws_clientID = clientID, ws_blockID = blockID\<rparr>],
    freeWantedSegs := fs\<rparr>"
  define m' where "m' = upd_slab ?i (\<lambda>s. s\<lparr>wantedSegs := wantedSegs s @ [seg]\<rparr>) m2"
  have eq1: "slab_at m1 j = slab_at m j" "num_slabs m1 = num_slabs m" "slab_frame m m1"
    "freeSlabs m1 = freeSlabs m" "heldSlabs m1 = heldSlabs m" "wantedSlabs m1 = wantedSlabs m"
    "queued_segs m1 = queued_segs m" for j
    by (simp_all add: m1_def)
  have sh2: "slab_shape m2" "?i < num_slabs m2"
    using inv1 i by (simp_all add: m2_def slab_inv_def eq1)
  have sg: "pool (seg # fs @ queued_segs m) (length (wantedSegmentBlocks m1))"
    using inv1 seg by (simp add: slab_inv_def seg_pool_def eq1)
  have at: "slab_at m' j = (if j = ?i then (slab_at m j)\<lparr>wantedSegs := wantedSegs (slab_at m j) @ [seg]\<rparr> else slab_at m j)" for j
    by (simp add: m'_def slab_at_upd_slab [OF sh2]) (simp add: m2_def eq1)
  have sh': "slab_shape m'" unfolding m'_def by (rule slab_shape_upd_slab [OF sh2]) simp
  have flds: "freeSlabs m' = freeSlabs m" "heldSlabs m' = heldSlabs m" "wantedSlabs m' = wantedSlabs m"
    "num_slabs m' = num_slabs m" "slab_frame m m'" "freeWantedSegs m' = fs"
    "wantedSegmentBlocks m' = (wantedSegmentBlocks m1)[seg := \<lparr>ws_clientID = clientID, ws_blockID = blockID\<rparr>]"
    by (simp_all add: m'_def m2_def eq1)
  have "GetWantedSegment clientID blockID sid m = Ok seg m'"
    using inv i nf seg
    by (auto simp: GetWantedSegment_def GetSlabInfo_valid slab_inv_def Let_def m1_def m2_def m'_def
        split: if_splits)
  moreover have "slab_lists m'"
    by (rule slab_lists_update [of m, OF _ sh' _ i])
      (use inv nf at flds slab_lists_iff [of m ?i] i in \<open>auto simp: slab_inv_def slab_is_wanted_def\<close>)
  moreover have "mset (queued_segs m') = mset (queued_segs m) + {#seg#}"
    using queued_segs_upd_slab [OF sh2, of "\<lambda>s. s\<lparr>wantedSegs := wantedSegs s @ [seg]\<rparr>"]
    by (simp add: m'_def) (simp add: m2_def eq1)
  then have "seg_pool m'"
    using sg by (simp add: seg_pool_def flds pool_def)
  moreover have "seg \<notin> set (queued_segs m)" "seg < length (wantedSegmentBlocks m1)"
    using pool_distinct [OF sg] pool_mem [OF sg, of seg] by auto
  moreover have "wantedSegmentBlocks m' ! s = wantedSegmentBlocks m ! s" if "s \<in> set (queued_segs m)" for s
  proof -
    have "s < length (wantedSegmentBlocks m)"
      using inv that by (auto simp: slab_inv_def seg_pool_def dest!: pool_set)
    moreover have "s \<noteq> seg" using that \<open>seg \<notin> set (queued_segs m)\<close> by auto
    ultimately show ?thesis
      by (simp add: flds m1_def AddWantedSegmentBlock_def Let_def nth_append)
  qed
  ultimately show ?thesis
    using that [of seg m'] at sh' flds by (simp add: slab_inv_def)
qed

lemma ReleaseWanted_step_spec:
  assumes inv: "slab_inv m" and i: "unat sid < num_slabs m"
    and seg: "seg \<in> set (wantedSegs (slab_at m (unat sid)))"
  obtains ev m' where "ReleaseWanted_step seg sid m = Ok ev m'" "slab_inv m'" "slab_frame m m'"
    "\<And>j. wantedSegs (slab_at m' j) = (if j = unat sid then remove1 seg (wantedSegs (slab_at m j)) else wantedSegs (slab_at m j))"
    "\<And>j. heldRefcnt (slab_at m' j) = heldRefcnt (slab_at m j)"
    "wantedSegmentBlocks m' = wantedSegmentBlocks m"
    "ev = (if heldRefcnt (slab_at m (unat sid)) = 0 \<and> wantedSegs (slab_at m (unat sid)) = [seg]
           then kWantedToFree else 0)"
    "freeSlabs m' = freeSlabs m @ (if ev = kWantedToFree then [unat sid] else [])"
    "heldSlabs m' = heldSlabs m"
    "wantedSlabs m' = (if ev = kWantedToFree then remove1 (unat sid) (wantedSlabs m) else wantedSlabs m)"
proof -
  let ?i = "unat sid" and ?del = "\<lambda>s :: slab_info. s\<lparr>wantedSegs := remove1 seg (wantedSegs s)\<rparr>"
  from inv have sh: "slab_shape m" and ls: "slab_lists m" and sg: "seg_pool m"
    by (simp_all add: slab_inv_def)
  define ev where "ev = (if heldRefcnt (slab_at m ?i) = 0 \<and> wantedSegs (slab_at m ?i) = [seg]
           then kWantedToFree else 0)"
  define m1 where "m1 = (upd_slab ?i ?del m)\<lparr>freeWantedSegs := freeWantedSegs m @ [seg]\<rparr>"
  define m' where "m' = (if ev = kWantedToFree
    then (SI_SetProducerParams (-1) 0 ?i (m1\<lparr>wantedSlabs := remove1 ?i (wantedSlabs m1)\<rparr>))\<lparr>freeSlabs := freeSlabs m1 @ [?i]\<rparr>
    else m1)"
  have ne: "kWantedToFree \<noteq> 0" by (simp add: kWantedToFree_def)
  have sh1: "slab_shape m1" "num_slabs m1 = num_slabs m"
    unfolding m1_def using slab_shape_upd_slab [OF sh i] by auto
  have at1: "slab_at m1 j = (if j = ?i then ?del (slab_at m j) else slab_at m j)" for j
    by (simp add: m1_def slab_at_upd_slab [OF sh i])
  have at: "slab_at m' j = (if j = ?i
      then (if ev = kWantedToFree then (?del (slab_at m j))\<lparr>prodClientID := -1, prodArg := 0\<rparr> else ?del (slab_at m j))
      else slab_at m j)" for j
    using i sh1 by (simp add: m'_def SI_SetProducerParams_def slab_at_upd_slab at1)
  have sh': "slab_shape m'"
    using sh1 i by (simp add: m'_def SI_SetProducerParams_def slab_shape_upd_slab)
  have flds: "num_slabs m' = num_slabs m" "slab_frame m m'" "wantedSegmentBlocks m' = wantedSegmentBlocks m"
    "freeSlabs m' = freeSlabs m @ (if ev = kWantedToFree then [?i] else [])"
    "heldSlabs m' = heldSlabs m" "freeWantedSegs m' = freeWantedSegs m @ [seg]"
    "wantedSlabs m' = (if ev = kWantedToFree then remove1 ?i (wantedSlabs m) else wantedSlabs m)"
    by (simp_all add: m'_def m1_def SI_SetProducerParams_def)
  have one: "remove1 seg xs = [] \<longleftrightarrow> xs = [seg]" if "seg \<in> set xs" for xs
    using that by (cases xs) auto
  have wl: "ev = kWantedToFree \<Longrightarrow> ?i \<in> set (wantedSlabs m)"
    using slab_lists_iff(2) [OF ls i] ne by (simp add: ev_def split: if_splits)
  have d: "distinct (wantedSlabs m)" "?i \<in> set (wantedSlabs m) \<Longrightarrow> ?i \<notin> set (freeSlabs m) \<and> ?i \<notin> set (heldSlabs m)"
    "?i \<notin> set (freeSlabs m)"
    using slab_lists_distinct [OF ls] slab_lists_iff(3) [OF ls i] seg by auto
  have ne0: "wantedSegs (slab_at m ?i) \<noteq> []" using seg by auto
  have "ReleaseWanted_step seg sid m = Ok ev m'"
    using ne wl d seg ne0 one [OF seg]
    by (auto simp: ReleaseWanted_step_def GetSlabInfo_valid [OF sh i] SI_Erase_def Let_def SI_SetProducerParams_def
        erase_slab_def push_slab_def slab_at_upd_slab [OF sh i] ev_def m'_def m1_def)
  moreover have "slab_lists m'"
  proof (rule slab_lists_update [OF ls sh' _ i])
    show "?i \<in> set (freeSlabs m') \<Longrightarrow> slab_is_free (slab_at m' ?i)"
      using d ne by (auto simp: flds at slab_is_free_def ev_def split: if_splits)
    show "?i \<in> set (heldSlabs m') \<Longrightarrow> heldRefcnt (slab_at m' ?i) \<noteq> 0"
      using slab_lists_iff(1) [OF ls i] by (auto simp: flds at)
    show "?i \<in> set (wantedSlabs m') \<Longrightarrow> slab_is_wanted (slab_at m' ?i)"
      using d slab_lists_iff(2) [OF ls i] one [OF seg]
      by (auto simp: flds at slab_is_wanted_def ev_def split: if_splits)
    show "mset (freeSlabs m' @ heldSlabs m' @ wantedSlabs m') = mset (freeSlabs m @ heldSlabs m @ wantedSlabs m)"
      using wl by (simp add: flds)
  qed (use at flds in \<open>auto dest: set_remove1_subset [THEN subsetD]\<close>)
  moreover have "seg_pool m'"
  proof -
    have "queued_segs m' = queued_segs (upd_slab ?i ?del m)"
      by (rule queued_segs_cong) (simp_all add: flds at slab_at_upd_slab [OF sh i])
    with queued_segs_upd_slab [OF sh i, of ?del]
    have "mset (queued_segs m') + mset (wantedSegs (slab_at m ?i))
      = mset (queued_segs m) + (mset (wantedSegs (slab_at m ?i)) - {#seg#})" by simp
    moreover have "mset (wantedSegs (slab_at m ?i)) = {#seg#} + (mset (wantedSegs (slab_at m ?i)) - {#seg#})"
      using seg by simp
    ultimately have "mset (queued_segs m) = mset (queued_segs m') + {#seg#}"
      by (metis add_right_cancel add.assoc)
    with sg show ?thesis by (simp add: seg_pool_def flds pool_def)
  qed
  ultimately show ?thesis
    using that [of ev m'] sh' flds at by (simp add: slab_inv_def ev_def)
qed

text \<open>\<open>FrontWantedSegment\<close> finds a segment exactly when some slab is wanted.\<close>

lemma FrontWantedSegment_spec:
  assumes "slab_inv m" "wantedSlabs m = i # ws"
  obtains seg where "FrontWantedSegment m = Ok seg m" "seg \<in> set (wantedSegs (slab_at m i))"
    "i < num_slabs m" "heldRefcnt (slab_at m i) = 0"
proof -
  from assms have "slab_is_wanted (slab_at m i)" "i < num_slabs m"
    using slab_lists_mem(3) [of m i] by (auto simp: slab_inv_def slab_lists_def)
  then show ?thesis
    using that assms(2) by (cases "wantedSegs (slab_at m i)") (auto simp: FrontWantedSegment_def slab_is_wanted_def)
qed

subsection \<open>Construction and growth\<close>

lemma slab_at_add_buffer:
  assumes "slab_shape m"
  shows "j < num_slabs m \<Longrightarrow> slab_at (add_buffer m) j = slab_at m j"
    and "num_slabs m \<le> j \<Longrightarrow> j < num_slabs m + unat (slabsPerBuf m) \<Longrightarrow> slab_at (add_buffer m) j = SlabInfo (of_nat j)"
proof -
  let ?s = "unat (slabsPerBuf m)"
  from assms have pos: "0 < ?s" by (simp add: slab_shape_def unat_gt_0_iff)
  show "j < num_slabs m \<Longrightarrow> slab_at (add_buffer m) j = slab_at m j"
    using slab_index(1) [OF assms] by (simp add: slab_at_def add_buffer_def Let_def nth_append)
  assume j: "num_slabs m \<le> j" "j < num_slabs m + ?s"
  then have "j div ?s = length (infoVec m)" "j mod ?s = j - num_slabs m"
    using pos by (auto simp: num_slabs_def div_nat_eqI mult.commute modulo_nat_def)
  moreover have "of_nat (length (infoVec m)) * slabsPerBuf m + of_nat (j - num_slabs m) = (of_nat j :: u32)"
    using j(1) by (simp add: num_slabs_def algebra_simps of_nat_diff)
  ultimately show "slab_at (add_buffer m) j = SlabInfo (of_nat j)"
    using j pos by (simp add: slab_at_def add_buffer_def Let_def nth_append)
qed

lemma num_slabs_add_buffer: "num_slabs (add_buffer m) = num_slabs m + unat (slabsPerBuf m)"
  by (simp add: num_slabs_def add_buffer_def Let_def)

lemma add_buffer_inv:
  assumes inv: "slab_inv m" and fits: "num_slabs m + unat (slabsPerBuf m) < 2 ^ 32"
  shows "slab_inv (add_buffer m)"
proof -
  let ?n = "num_slabs m" and ?s = "unat (slabsPerBuf m)"
  from inv have sh: "slab_shape m" and ls: "slab_lists m" and sg: "seg_pool m"
    by (simp_all add: slab_inv_def)
  note at = slab_at_add_buffer [OF sh]
  have flds: "freeSlabs (add_buffer m) = freeSlabs m @ [?n..<?n + ?s]"
    "heldSlabs (add_buffer m) = heldSlabs m" "wantedSlabs (add_buffer m) = wantedSlabs m"
    "freeWantedSegs (add_buffer m) = freeWantedSegs m" "wantedSegmentBlocks (add_buffer m) = wantedSegmentBlocks m"
    "slabsPerBuf (add_buffer m) = slabsPerBuf m"
    by (simp_all add: add_buffer_def Let_def num_slabs_def mult.commute)
  have "slabID (slab_at (add_buffer m) i) = of_nat i" if "i < ?n + ?s" for i
    using that sh at [of i] by (cases "i < ?n") (auto simp: slab_shape_def SlabInfo_def)
  moreover have "\<forall>b \<in> set (infoVec (add_buffer m)). length b = ?s"
    using sh by (auto simp: slab_shape_def add_buffer_def Let_def)
  ultimately have sh': "slab_shape (add_buffer m)"
    using sh fits by (simp add: slab_shape_def num_slabs_add_buffer flds)
  have "pool ((freeSlabs m @ heldSlabs m @ wantedSlabs m) @ [?n..<?n + ?s]) (?n + ?s)"
    using ls by (intro pool_grow) (simp add: slab_lists_def)
  then have "pool (freeSlabs (add_buffer m) @ heldSlabs (add_buffer m) @ wantedSlabs (add_buffer m)) (?n + ?s)"
    by (simp add: flds pool_def ac_simps)
  moreover have "slab_is_free (slab_at (add_buffer m) i)" if "i \<in> set (freeSlabs (add_buffer m))" for i
    using that ls at [of i] slab_lists_mem(1) [OF ls, of i]
    by (cases "i < ?n") (auto simp: flds slab_lists_def slab_is_free_def SlabInfo_def)
  ultimately have ls': "slab_lists (add_buffer m)"
    using ls at(1) slab_lists_mem [OF ls] by (auto simp: slab_lists_def flds num_slabs_add_buffer)
  have "queued_segs (add_buffer m) = queued_segs m"
  proof -
    have "map (\<lambda>i. wantedSegs (slab_at (add_buffer m) i)) [?n..<?n + ?s] = map (\<lambda>_. []) [?n..<?n + ?s]"
      by (rule map_cong) (simp_all add: at(2) SlabInfo_def)
    moreover have "map (\<lambda>i. wantedSegs (slab_at (add_buffer m) i)) [0..<?n] = map (\<lambda>i. wantedSegs (slab_at m i)) [0..<?n]"
      by (rule map_cong) (simp_all add: at(1))
    ultimately show ?thesis
      unfolding queued_segs_def num_slabs_add_buffer upt_add_eq_append [of 0 ?n ?s, OF le0] map_append concat_append
      by (simp only:) (simp add: concat_eq_Nil_conv)
  qed
  with sg sh' ls' show ?thesis by (simp add: slab_inv_def seg_pool_def flds)
qed

lemma add_buffer_power:
  assumes "slab_inv m" "num_slabs m + k * unat (slabsPerBuf m) < 2 ^ 32"
  shows "slab_inv ((add_buffer ^^ k) m) \<and> num_slabs ((add_buffer ^^ k) m) = num_slabs m + k * unat (slabsPerBuf m)
    \<and> slabsPerBuf ((add_buffer ^^ k) m) = slabsPerBuf m \<and> numSlabsReserved ((add_buffer ^^ k) m) = numSlabsReserved m
    \<and> length (infoVec ((add_buffer ^^ k) m)) = length (infoVec m) + k
    \<and> freeSlabs ((add_buffer ^^ k) m) = freeSlabs m @ [num_slabs m..<num_slabs m + k * unat (slabsPerBuf m)]"
  using assms
proof (induction k)
  case (Suc k)
  then have ih: "slab_inv ((add_buffer ^^ k) m)" "num_slabs ((add_buffer ^^ k) m) = num_slabs m + k * unat (slabsPerBuf m)"
    "slabsPerBuf ((add_buffer ^^ k) m) = slabsPerBuf m" "numSlabsReserved ((add_buffer ^^ k) m) = numSlabsReserved m"
    "length (infoVec ((add_buffer ^^ k) m)) = length (infoVec m) + k"
    "freeSlabs ((add_buffer ^^ k) m) = freeSlabs m @ [num_slabs m..<num_slabs m + k * unat (slabsPerBuf m)]"
    by simp_all
  let ?b = "(add_buffer ^^ k) m" and ?n = "num_slabs m + k * unat (slabsPerBuf m)"
  have "length (infoVec ?b) * unat (slabsPerBuf ?b) = ?n"
    using ih(2) by (simp add: num_slabs_def mult.commute)
  then have "freeSlabs (add_buffer ?b) = freeSlabs m @ [num_slabs m..<?n] @ [?n..<?n + unat (slabsPerBuf m)]"
    by (simp add: add_buffer_def Let_def ih)
  also have "[num_slabs m..<?n] @ [?n..<?n + unat (slabsPerBuf m)] = [num_slabs m..<?n + unat (slabsPerBuf m)]"
    by (rule upt_add_eq_append [symmetric]) simp
  finally have f: "freeSlabs (add_buffer ?b) = freeSlabs m @ [num_slabs m..<?n + unat (slabsPerBuf m)]" .
  have suc: "num_slabs m + Suc k * unat (slabsPerBuf m) = ?n + unat (slabsPerBuf m)" by simp
  have p: "(add_buffer ^^ Suc k) m = add_buffer ?b" by simp
  have "slab_inv (add_buffer ?b)"
    by (rule add_buffer_inv [OF ih(1)]) (simp only: ih Suc.prems(2) [unfolded suc])
  moreover have "slabsPerBuf (add_buffer ?b) = slabsPerBuf ?b" "numSlabsReserved (add_buffer ?b) = numSlabsReserved ?b"
    "length (infoVec (add_buffer ?b)) = Suc (length (infoVec ?b))"
    by (simp_all add: add_buffer_def Let_def)
  ultimately show ?case
    unfolding p suc f using ih by (simp add: num_slabs_add_buffer)
qed simp

text \<open>
  A new manager, and one grown by \<open>NumBuffers\<close> (which is a public method, used when the
  shared memory grows): every slab is free.
\<close>

lemma NumBuffers_inv:
  assumes "slab_inv m" "unat (slabsPerBuf m) * n < 2 ^ 32"
  shows "slab_inv (NumBuffers n m)"
    and "num_slabs (NumBuffers n m) = max (num_slabs m) (unat (slabsPerBuf m) * n)"
    and "freeSlabs (NumBuffers n m) = freeSlabs m @ [num_slabs m..<unat (slabsPerBuf m) * n]"
proof -
  define k where "k = n - length (infoVec m)"
  let ?s = "unat (slabsPerBuf m)" and ?b = "(add_buffer ^^ k) m"
  have le: "?s * n \<le> num_slabs m" if "n \<le> length (infoVec m)"
    using that by (simp add: num_slabs_def)
  have eq: "num_slabs m + k * ?s = ?s * n" if "\<not> n \<le> length (infoVec m)"
    using that by (simp add: num_slabs_def k_def algebra_simps)
  note p = add_buffer_power [OF assms(1), of k]
  have inv: "slab_inv (m'\<lparr>numSlabsNonreservable := c\<rparr>) = slab_inv m'" for m' :: "'a slab_manager_scheme" and c
    by (simp add: slab_inv_def slab_shape_def slab_lists_def seg_pool_def queued_segs_def)
  show "slab_inv (NumBuffers n m)"
    using p eq assms by (simp add: NumBuffers_def Let_def inv flip: k_def)
  show "num_slabs (NumBuffers n m) = max (num_slabs m) (?s * n)"
    using p eq le assms(2) by (auto simp: NumBuffers_def Let_def simp flip: k_def)
  show "freeSlabs (NumBuffers n m) = freeSlabs m @ [num_slabs m..<?s * n]"
    using p eq le assms(2) by (auto simp: NumBuffers_def Let_def simp flip: k_def)
qed

lemma SlabManager_inv:
  assumes "spb \<noteq> 0" "unat spb * n < 2 ^ 32"
  shows "slab_inv (SlabManager spb n pct)"
    and "freeSlabs (SlabManager spb n pct) = [0..<unat spb * n]"
    and "num_slabs (SlabManager spb n pct) = unat spb * n"
proof -
  let ?m = "\<lparr>slabsPerBuf = spb, numSlabsReserved = 0, pctNonreservable = pct,
       numSlabsNonreservable = 0, infoVec = [], freeSlabs = [], heldSlabs = [], wantedSlabs = [],
       freeWantedSegs = [], wantedSegmentBlocks = [], whichStateChange = 0\<rparr>"
  have "slab_inv ?m"
    using assms(1) by (simp add: slab_inv_def slab_shape_def slab_lists_def seg_pool_def num_slabs_def queued_segs_def pool_Nil)
  from NumBuffers_inv [OF this, of n] assms(2)
  show "slab_inv (SlabManager spb n pct)" "freeSlabs (SlabManager spb n pct) = [0..<unat spb * n]"
    "num_slabs (SlabManager spb n pct) = unat spb * n"
    by (simp_all add: SlabManager_def num_slabs_def)
qed

subsection \<open>Reservations\<close>

lemma unat_NumSlabs: "slab_shape m \<Longrightarrow> unat (NumSlabs m) = num_slabs m"
  by (simp add: NumSlabs_def num_slabs_def slab_shape_def unat_word_ariths unat_of_nat mod_mult_right_eq)

definition reservation_ok :: "'a slab_manager_scheme \<Rightarrow> bool" where
  "reservation_ok m \<longleftrightarrow> unat (numSlabsReserved m) + unat (numSlabsNonreservable m) \<le> num_slabs m"

lemma GetSlabReservation_spec:
  assumes "slab_shape m" "reservation_ok m" "num_slabs m + unat n < 2 ^ 32"
  shows "GetSlabReservation n m =
      (if n = 0 then (0, m)
       else if unat (numSlabsReserved m) + unat (numSlabsNonreservable m) + unat n > num_slabs m then (-1, m)
       else (0, m\<lparr>numSlabsReserved := numSlabsReserved m + n\<rparr>))"
proof -
  have "unat (numSlabsReserved m + numSlabsNonreservable m) = unat (numSlabsReserved m) + unat (numSlabsNonreservable m)"
    using assms by (intro unat_add_u32) (simp add: reservation_ok_def)
  then have "unat (numSlabsReserved m + numSlabsNonreservable m + n)
    = unat (numSlabsReserved m) + unat (numSlabsNonreservable m) + unat n"
    using assms by (subst unat_add_u32) (auto simp: reservation_ok_def)
  with assms(1) show ?thesis
    by (simp add: GetSlabReservation_def word_less_nat_alt unat_NumSlabs)
qed

lemma GetSlabReservation_ok:
  assumes "slab_shape m" "reservation_ok m" "num_slabs m + unat n < 2 ^ 32" "GetSlabReservation n m = (r, m')"
  shows "reservation_ok m' \<and> (r = 0 \<or> r = -1)
    \<and> unat (numSlabsReserved m') = unat (numSlabsReserved m) + (if r = 0 then unat n else 0)"
proof (cases "n \<noteq> 0 \<and> unat (numSlabsReserved m) + unat (numSlabsNonreservable m) + unat n \<le> num_slabs m")
  case True
  then have "unat (numSlabsReserved m + n) = unat (numSlabsReserved m) + unat n"
    using assms(1) by (intro unat_add_u32) (simp add: slab_shape_def)
  with True assms show ?thesis
    by (auto simp: GetSlabReservation_spec reservation_ok_def)
next
  case False
  with assms show ?thesis
    by (auto simp: GetSlabReservation_spec reservation_ok_def split: if_splits)
qed

lemma ReleaseSlabReservation_ok:
  assumes "reservation_ok m" "ReleaseSlabReservation n m = (r, m')"
  shows "reservation_ok m' \<and> (r = 0 \<or> r = -1) \<and> (r = 0 \<longleftrightarrow> unat n \<le> unat (numSlabsReserved m))
    \<and> unat (numSlabsReserved m') = unat (numSlabsReserved m) - (if r = 0 then unat n else 0)"
proof -
  have "unat (numSlabsReserved m - n) = unat (numSlabsReserved m) - unat n" if "\<not> n > numSlabsReserved m"
    using that by (simp add: unat_sub not_less)
  with assms show ?thesis
    by (auto simp: ReleaseSlabReservation_def reservation_ok_def word_less_nat_alt split: if_splits)
qed

section \<open>Arrays of slabs\<close>

text \<open>The loops of the two reference counting operations, with no handler installed.\<close>

definition held :: "'a slab_manager_scheme \<Rightarrow> nat \<Rightarrow> nat" where
  "held m i = unat (heldRefcnt (slab_at m i))"

definition released :: "(u32 \<times> u32) list \<Rightarrow> nat \<Rightarrow> nat" where
  "released xs i = sum_list (map (\<lambda>(sid, amount). if unat sid = i then unat amount else 0) xs)"

lemma released_simps [simp]:
  "released [] i = 0"
  "released ((sid, a) # xs) i = (if unat sid = i then unat a else 0) + released xs i"
  by (simp_all add: released_def)

lemma DecrementHeldRefcnt_list:
  assumes "slab_inv m" and "\<forall>(sid, a) \<in> set xs. unat sid < num_slabs m \<and> a \<noteq> 0"
    and "\<forall>i < num_slabs m. released xs i \<le> held m i"
  shows "\<exists>m'. DecrementHeldRefcnt None xs m = Ok () m' \<and> slab_inv m' \<and> slab_frame m m'
    \<and> (\<forall>i < num_slabs m. held m' i = held m i - released xs i)
    \<and> (\<forall>i. wantedSegs (slab_at m' i) = wantedSegs (slab_at m i))"
  using assms
proof (induction xs arbitrary: m)
  case Nil
  then show ?case by (simp add: DecrementHeldRefcnt_def)
next
  case (Cons x xs)
  obtain sid a where x: "x = (sid, a)" by (cases x)
  have i: "unat sid < num_slabs m" and a: "a \<noteq> 0" using Cons.prems(2) x by auto
  have "unat a \<le> held m (unat sid)" using Cons.prems(3) i x by fastforce
  then have le: "a \<le> heldRefcnt (slab_at m (unat sid))" by (simp add: held_def word_le_nat_alt)
  obtain ev m1 where
    m1: "DecrementHeld_step sid a m = Ok ev m1" "slab_inv m1" "slab_frame m m1"
    "\<And>j. heldRefcnt (slab_at m1 j) = (if j = unat sid then heldRefcnt (slab_at m j) - a else heldRefcnt (slab_at m j))"
    "\<And>j. wantedSegs (slab_at m1 j) = wantedSegs (slab_at m j)"
    by (rule DecrementHeld_step_spec [OF Cons.prems(1) i le a]) (rule that)
  have h1: "held m1 j = held m j - (if unat sid = j then unat a else 0)" for j
    using le by (auto simp: held_def m1(4) unat_sub)
  have n1: "num_slabs m1 = num_slabs m" by (rule slab_frame_num_slabs [OF m1(3)])
  have "\<forall>i < num_slabs m1. released xs i \<le> held m1 i"
    using Cons.prems(3) x by (auto simp: n1 h1)
  then obtain m2 where m2: "DecrementHeldRefcnt None xs m1 = Ok () m2" "slab_inv m2" "slab_frame m1 m2"
    "\<forall>i < num_slabs m1. held m2 i = held m1 i - released xs i"
    "\<forall>i. wantedSegs (slab_at m2 i) = wantedSegs (slab_at m1 i)"
    using Cons.IH [OF m1(2)] Cons.prems(2) n1 by auto
  then show ?case
    using m1 x n1 h1 slab_frame_trans [OF m1(3) m2(3)]
    by (auto simp: DecrementHeldRefcnt_def CallStateChangeHandler_def)
qed

lemma IncrementHeldRefcnt_list:
  assumes "slab_inv m" and "\<forall>sid \<in> set ids. unat sid < num_slabs m \<and> unat sid \<notin> set (freeSlabs m)"
    and "\<forall>i < num_slabs m. held m i + count_list (map unat ids) i < 2 ^ 32"
  shows "\<exists>m'. IncrementHeldRefcnt None ids m = Ok () m' \<and> slab_inv m' \<and> slab_frame m m'
    \<and> (\<forall>i < num_slabs m. held m' i = held m i + count_list (map unat ids) i)
    \<and> (\<forall>i. wantedSegs (slab_at m' i) = wantedSegs (slab_at m i)) \<and> freeSlabs m' = freeSlabs m"
  using assms
proof (induction ids arbitrary: m)
  case Nil
  then show ?case by (simp add: IncrementHeldRefcnt_def)
next
  case (Cons sid ids)
  have i: "unat sid < num_slabs m" "unat sid \<notin> set (freeSlabs m)" using Cons.prems(2) by auto
  have nf: "heldRefcnt (slab_at m (unat sid)) \<noteq> 0 \<or> wantedSegs (slab_at m (unat sid)) \<noteq> []"
    using slab_lists_iff(3) [of m "unat sid"] Cons.prems(1) i by (auto simp: slab_inv_def)
  have "held m (unat sid) + 1 < 2 ^ 32" using Cons.prems(3) i(1) by fastforce
  then have nw: "heldRefcnt (slab_at m (unat sid)) \<noteq> - 1"
    by (auto simp: held_def unat_minus_1_u32)
  obtain m1 where
    m1: "IncrementHeld_step None sid m = Ok () m1" "slab_inv m1" "slab_frame m m1"
    "\<And>j. slab_at m1 j = (if j = unat sid then (slab_at m j)\<lparr>heldRefcnt := heldRefcnt (slab_at m j) + 1\<rparr> else slab_at m j)"
    "freeSlabs m1 = freeSlabs m"
    by (rule IncrementHeld_step_spec [OF Cons.prems(1) i(1) nf _ nw, of None]) (simp, rule that)
  have h1: "held m1 j = held m j + (if unat sid = j then 1 else 0)" for j
    using unat_inc [OF nw] by (auto simp: held_def m1(4))
  have n1: "num_slabs m1 = num_slabs m" by (rule slab_frame_num_slabs [OF m1(3)])
  have "\<forall>i < num_slabs m1. held m1 i + count_list (map unat ids) i < 2 ^ 32"
    using Cons.prems(3) by (auto simp: n1 h1)
  then obtain m2 where m2: "IncrementHeldRefcnt None ids m1 = Ok () m2" "slab_inv m2" "slab_frame m1 m2"
    "\<forall>i < num_slabs m1. held m2 i = held m1 i + count_list (map unat ids) i"
    "\<forall>i. wantedSegs (slab_at m2 i) = wantedSegs (slab_at m1 i)" "freeSlabs m2 = freeSlabs m1"
    using Cons.IH [OF m1(2)] Cons.prems(2) n1 m1(5) by auto
  then show ?case
    using m1 n1 h1 slab_frame_trans [OF m1(3) m2(3)] by (auto simp: IncrementHeldRefcnt_def)
qed

section \<open>Properties\<close>

lemmas example_slabs_facts = SlabManager_inv [of 2 3 "\<lambda>n. 1"]



lemma example_held:
  obtains m where "GetFreeSlabs None 2 7 0 (SlabManager 2 3 (\<lambda>n. 1)) = Ok [0, 1] m" "slab_inv m"
    "num_slabs m = 6" "wantedSegs (slab_at m 1) = []" "held m 0 = 1" "held m 1 = 1"
proof -
  let ?m = "SlabManager 2 3 (\<lambda>n. 1)"
  have inv: "slab_inv ?m" and free: "freeSlabs ?m = [0..<6]" and n: "num_slabs ?m = 6"
    using example_slabs_facts by simp_all
  have t: "take 2 (freeSlabs ?m) = [0, 1]" by (simp add: free upt_rec)
  obtain m where m: "GetFreeSlabs_loop None 7 0 2 ?m = Ok (map of_nat (take 2 (freeSlabs ?m))) m" "slab_inv m"
    "slab_frame ?m m" "\<And>j. slab_at m j = (if j \<in> set (take 2 (freeSlabs ?m))
        then (slab_at ?m j)\<lparr>heldRefcnt := 1, prodClientID := 7, prodArg := 0\<rparr> else slab_at ?m j)"
    by (rule GetFreeSlabs_loop_spec [OF inv, of None 7 0 2]) (simp, rule that)
  have "wantedSegs (slab_at ?m 1) = []"
    using slab_lists_iff(3) [of ?m 1] inv free n by (simp add: slab_inv_def)
  then show ?thesis
    using that [of m] m slab_frame_num_slabs [OF m(3)] n
    by (simp add: GetFreeSlabs_def t held_def)
qed

text \<open>
  C12: \<open>GetFreeSlabs\<close> hands out slabs in the order of the free list, as many as asked for or as
  there are; each is held with one reference by its producer, and no other slab changes.
\<close>

theorem GetFreeSlabs_takes:
  assumes "slab_inv m" and "h = None \<or> whichStateChange m AND kFreeToHeld = 0"
  shows "\<exists>m'. GetFreeSlabs h k client arg m = Ok (map of_nat (take (unat k) (freeSlabs m))) m'
    \<and> slab_inv m' \<and> freeSlabs m' = drop (unat k) (freeSlabs m)
    \<and> heldSlabs m' = heldSlabs m @ take (unat k) (freeSlabs m)
    \<and> (\<forall>i. slab_at m' i = (if i \<in> set (take (unat k) (freeSlabs m))
         then (slab_at m i)\<lparr>heldRefcnt := 1, prodClientID := client, prodArg := arg\<rparr> else slab_at m i))"
  using GetFreeSlabs_loop_spec [OF assms, of client arg "unat k"] unfolding GetFreeSlabs_def by metis

theorem GetFreeSlabs_takes_witness:
  "\<exists>m'. GetFreeSlabs None 2 7 0 (SlabManager 2 3 (\<lambda>n. 1)) = Ok [0, 1] m' \<and> held m' 1 = 1"
proof -
  have "take 2 [0..<6] = [0, 1 :: nat]" by (simp add: upt_rec)
  then show ?thesis
    using GetFreeSlabs_takes [of "SlabManager 2 3 (\<lambda>n. 1)" None 2 7 0] example_slabs_facts
    by (auto simp: held_def)
qed

text \<open>
  C11: releasing references over an array of slabs (each at most as often as it is held in
  total) lowers the counts by what was released, changes no wanted segment, and keeps every
  slab on the list its counters say.
\<close>

theorem DecrementHeldRefcnt_releases:
  assumes "slab_inv m" and "\<forall>(sid, a) \<in> set xs. unat sid < num_slabs m \<and> a \<noteq> 0"
    and "\<forall>i < num_slabs m. released xs i \<le> held m i"
  shows "\<exists>m'. DecrementHeldRefcnt None xs m = Ok () m' \<and> slab_inv m'
    \<and> (\<forall>i < num_slabs m. held m' i = held m i - released xs i
         \<and> (i \<in> set (freeSlabs m') \<longleftrightarrow> held m i = released xs i \<and> wantedSegs (slab_at m i) = []))
    \<and> (\<forall>i. wantedSegs (slab_at m' i) = wantedSegs (slab_at m i))"
proof -
  from DecrementHeldRefcnt_list [OF assms] obtain m' where
    m': "DecrementHeldRefcnt None xs m = Ok () m'" "slab_inv m'" "slab_frame m m'"
    "\<forall>i < num_slabs m. held m' i = held m i - released xs i"
    "\<forall>i. wantedSegs (slab_at m' i) = wantedSegs (slab_at m i)" by blast
  have "i \<in> set (freeSlabs m') \<longleftrightarrow> held m i = released xs i \<and> wantedSegs (slab_at m i) = []"
    if "i < num_slabs m" for i
  proof -
    have "i \<in> set (freeSlabs m') \<longleftrightarrow> held m' i = 0 \<and> wantedSegs (slab_at m' i) = []"
      using slab_lists_iff(3) [of m' i] m'(2) slab_frame_num_slabs [OF m'(3)] that
      by (simp add: slab_inv_def held_def unat_eq_zero)
    moreover have "held m' i = held m i - released xs i" "released xs i \<le> held m i"
      using m'(4) assms(3) that by blast+
    ultimately show ?thesis using m'(5) by auto
  qed
  with m' show ?thesis by blast
qed

theorem DecrementHeldRefcnt_releases_witness:
  "\<exists>m m'. GetFreeSlabs None 2 7 0 (SlabManager 2 3 (\<lambda>n. 1)) = Ok [0, 1] m
    \<and> DecrementHeldRefcnt None [(1, 1)] m = Ok () m' \<and> 1 \<in> set (freeSlabs m') \<and> held m' 0 = 1"
proof -
  obtain m where m: "GetFreeSlabs None 2 7 0 (SlabManager 2 3 (\<lambda>n. 1)) = Ok [0, 1] m" "slab_inv m"
    "num_slabs m = 6" "wantedSegs (slab_at m 1) = []" "held m 0 = 1" "held m 1 = 1"
    by (rule example_held)
  have "\<forall>i < num_slabs m. released [(1, 1)] i \<le> held m i" using m(6) by simp
  from DecrementHeldRefcnt_releases [OF m(2) _ this] m(3) obtain m' where
    "DecrementHeldRefcnt None [(1, 1)] m = Ok () m'"
    "\<forall>i < 6. held m' i = held m i - released [(1, 1)] i
      \<and> (i \<in> set (freeSlabs m') \<longleftrightarrow> held m i = released [(1, 1)] i \<and> wantedSegs (slab_at m i) = [])"
    by auto
  with m show ?thesis by (intro exI [of _ m] exI [of _ m']) simp
qed

text \<open>
  C13: queueing a wanted segment at a slab and releasing it again restores the segments queued
  at every slab and the reference counts; meanwhile the segment carries the client and block
  it was queued for, and no segment queued before is touched.
\<close>

theorem wanted_segment_round_trip:
  assumes inv: "slab_inv m" and i: "unat sid < num_slabs m" and nf: "unat sid \<notin> set (freeSlabs m)"
  shows "\<exists>seg m' ev m''. GetWantedSegment c b sid m = Ok seg m' \<and> slab_inv m'
    \<and> wantedSegmentBlocks m' ! seg = \<lparr>ws_clientID = c, ws_blockID = b\<rparr>
    \<and> (\<forall>s \<in> set (queued_segs m). s \<noteq> seg \<and> wantedSegmentBlocks m' ! s = wantedSegmentBlocks m ! s)
    \<and> ReleaseWanted_step seg sid m' = Ok ev m'' \<and> slab_inv m''
    \<and> (\<forall>j. wantedSegs (slab_at m'' j) = wantedSegs (slab_at m j) \<and> held m'' j = held m j)"
proof -
  have nf': "heldRefcnt (slab_at m (unat sid)) \<noteq> 0 \<or> wantedSegs (slab_at m (unat sid)) \<noteq> []"
    using slab_lists_iff(3) [of m "unat sid"] inv i nf by (auto simp: slab_inv_def)
  obtain seg m' where m': "GetWantedSegment c b sid m = Ok seg m'" "slab_inv m'" "slab_frame m m'"
    "seg \<notin> set (queued_segs m)" "seg < length (wantedSegmentBlocks m')"
    "wantedSegmentBlocks m' ! seg = \<lparr>ws_clientID = c, ws_blockID = b\<rparr>"
    "\<And>s. s \<in> set (queued_segs m) \<Longrightarrow> wantedSegmentBlocks m' ! s = wantedSegmentBlocks m ! s"
    "\<And>j. slab_at m' j = (if j = unat sid then (slab_at m j)\<lparr>wantedSegs := wantedSegs (slab_at m j) @ [seg]\<rparr> else slab_at m j)"
    by (rule GetWantedSegment_spec [OF inv i nf']) (rule that)
  have i': "unat sid < num_slabs m'" using i slab_frame_num_slabs [OF m'(3)] by simp
  have seg: "seg \<in> set (wantedSegs (slab_at m' (unat sid)))" by (simp add: m'(8))
  obtain ev m'' where m'': "ReleaseWanted_step seg sid m' = Ok ev m''" "slab_inv m''"
    "\<And>j. wantedSegs (slab_at m'' j) = (if j = unat sid then remove1 seg (wantedSegs (slab_at m' j)) else wantedSegs (slab_at m' j))"
    "\<And>j. heldRefcnt (slab_at m'' j) = heldRefcnt (slab_at m' j)"
    by (rule ReleaseWanted_step_spec [OF m'(2) i' seg]) (rule that)
  have "seg \<notin> set (wantedSegs (slab_at m (unat sid)))"
    using m'(4) i by (auto simp: queued_segs_def)
  then have "wantedSegs (slab_at m'' j) = wantedSegs (slab_at m j) \<and> held m'' j = held m j" for j
    by (simp add: m''(3,4) m'(8) held_def remove1_append)
  with m' m'' show ?thesis by metis
qed

theorem wanted_segment_round_trip_witness:
  "\<exists>m seg m'. GetFreeSlabs None 2 7 0 (SlabManager 2 3 (\<lambda>n. 1)) = Ok [0, 1] m
    \<and> GetWantedSegment 5 42 1 m = Ok seg m' \<and> wantedSegmentBlocks m' ! seg = \<lparr>ws_clientID = 5, ws_blockID = 42\<rparr>"
proof -
  obtain m where m: "GetFreeSlabs None 2 7 0 (SlabManager 2 3 (\<lambda>n. 1)) = Ok [0, 1] m" "slab_inv m"
    "num_slabs m = 6" "wantedSegs (slab_at m 1) = []" "held m 0 = 1" "held m 1 = 1"
    by (rule example_held)
  have "1 \<notin> set (freeSlabs m)"
    using slab_lists_iff(3) [of m 1] m by (auto simp: slab_inv_def held_def)
  then show ?thesis using wanted_segment_round_trip [OF m(2), of 1 5 42] m(1,3) by fastforce
qed

text \<open>
  as long as the sum does not leave 32 bits, a reservation is granted exactly when
  reserved, non-reservable and requested slabs together fit into the slabs there are, and
  granting and releasing keep that bound; a release is refused exactly when more is released
  than is reserved.
\<close>

theorem reservations_bounded:
  assumes "slab_inv m" and "reservation_ok m" and "num_slabs m + unat n < 2 ^ 32"
    and "GetSlabReservation n m = (r, m')"
  shows "reservation_ok m'
    \<and> (r = 0 \<longleftrightarrow> n = 0 \<or> unat (numSlabsReserved m) + unat (numSlabsNonreservable m) + unat n \<le> num_slabs m)
    \<and> (r \<noteq> 0 \<longrightarrow> r = -1 \<and> m' = m)
    \<and> (r = 0 \<longrightarrow> unat (numSlabsReserved m') = unat (numSlabsReserved m) + unat n
         \<and> ReleaseSlabReservation n m' = (0, m))
    \<and> fst (ReleaseSlabReservation k m) = (if unat k \<le> unat (numSlabsReserved m) then 0 else -1)"
proof -
  have sh: "slab_shape m" using assms(1) by (simp add: slab_inv_def)
  note ok = GetSlabReservation_ok [OF sh assms(2-4)]
  note eq = GetSlabReservation_spec [OF sh assms(2,3)]
  have "ReleaseSlabReservation n m' = (0, m)" if "r = 0"
  proof (cases "n = 0")
    case True
    with assms(4) that eq show ?thesis by (simp add: ReleaseSlabReservation_def)
  next
    case False
    with assms(4) that eq have m': "m' = m\<lparr>numSlabsReserved := numSlabsReserved m + n\<rparr>"
      by (simp split: if_splits)
    have "\<not> n > numSlabsReserved m'" using ok that by (simp add: word_less_nat_alt)
    with False m' show ?thesis by (simp add: ReleaseSlabReservation_def)
  qed
  with ok eq assms(4) show ?thesis
    by (auto simp: ReleaseSlabReservation_def word_less_nat_alt split: if_splits)
qed

theorem reservations_bounded_witness:
  "reservation_ok (snd (GetSlabReservation 4 (SlabManager 2 3 (\<lambda>n. 1))))
    \<and> fst (GetSlabReservation 4 (SlabManager 2 3 (\<lambda>n. 1))) = 0"
proof -
  have m: "numSlabsReserved (SlabManager 2 3 (\<lambda>n. 1)) = 0" "numSlabsNonreservable (SlabManager 2 3 (\<lambda>n. 1)) = 1"
    by (simp_all add: SlabManager_def NumBuffers_def add_buffer_def Let_def numeral_3_eq_3)
  then have "reservation_ok (SlabManager 2 3 (\<lambda>n. 1))"
    using example_slabs_facts by (simp add: reservation_ok_def)
  from reservations_bounded [OF _ this _ prod.collapse [symmetric], of 4 0] m example_slabs_facts show ?thesis
    by simp
qed

text \<open>
  The sum of the check is a 32-bit sum: a request within \<open>2^32 - reserved\<close> of the top of
  the range wraps around and is granted although no manager has that many slabs, and the
  reserved count goes down.
\<close>

theorem reservation_wraps:
  assumes "reservation_ok m" and "slab_inv m" and "num_slabs m < 2 ^ 31" and "numSlabsReserved m \<noteq> 0"
    and "n = - numSlabsReserved m"
  shows "fst (GetSlabReservation n m) = 0 \<and> numSlabsReserved (snd (GetSlabReservation n m)) = 0
    \<and> num_slabs m < unat n"
proof -
  have sh: "slab_shape m" using assms(2) by (simp add: slab_inv_def)
  have le: "unat (numSlabsNonreservable m) \<le> num_slabs m" "unat (numSlabsReserved m) < 2 ^ 31"
    using assms(1,3) by (simp_all add: reservation_ok_def)
  have "\<not> numSlabsNonreservable m > NumSlabs m"
    using le(1) unat_NumSlabs [OF sh] by (simp add: word_less_nat_alt)
  moreover have "numSlabsReserved m + numSlabsNonreservable m + n = numSlabsNonreservable m"
    using assms(5) by simp
  moreover have "unat n = 2 ^ 32 - unat (numSlabsReserved m)"
    using assms(4,5) by (simp add: unat_neg_u32)
  ultimately show ?thesis
    using assms(3-5) le(2) by (simp add: GetSlabReservation_def)
qed

theorem reservation_wraps_witness:
  "let m = (SlabManager 2 3 (\<lambda>n. 1))\<lparr>numSlabsReserved := 5\<rparr> in
   fst (GetSlabReservation (- 5) m) = 0 \<and> numSlabsReserved (snd (GetSlabReservation (- 5) m)) = 0"
proof -
  let ?m = "(SlabManager 2 3 (\<lambda>n. 1))\<lparr>numSlabsReserved := 5\<rparr>"
  have "numSlabsNonreservable (SlabManager 2 3 (\<lambda>n. 1)) = 1"
    by (simp add: SlabManager_def NumBuffers_def add_buffer_def Let_def numeral_3_eq_3)
  then have "reservation_ok ?m" "num_slabs ?m < 2 ^ 31" "slab_inv ?m"
    using example_slabs_facts
    by (simp_all add: reservation_ok_def slab_inv_def slab_lists_def seg_pool_def)
  from reservation_wraps [OF this(1,3,2)] show ?thesis by simp
qed

text \<open>
  releasing more references than a slab has throws, and it leaves the slab on the held
  list with a count of 0, which breaks the invariant.
\<close>

theorem DecrementHeld_underflow_corrupts:
  assumes "slab_inv m" and "i \<in> set (heldSlabs m)" and "sid = of_nat i" and "heldRefcnt (slab_at m i) < amount"
  shows "\<exists>m'. DecrementHeldRefcnt h [(sid, amount)] m = Throw ''SlabInfo::DecrementHeld encountered heldRefcnt==0'' m'
    \<and> i \<in> set (heldSlabs m') \<and> held m' i = 0 \<and> \<not> slab_inv m'"
proof -
  let ?m = "upd_slab i (\<lambda>s. s\<lparr>heldRefcnt := 0\<rparr>) m"
  have sh: "slab_shape m" and i: "i < num_slabs m"
    using assms(1,2) slab_lists_mem(2) [of m i] by (simp_all add: slab_inv_def)
  have u: "unat sid = i" using assms(3) i sh by (simp add: slab_shape_def unat_of_nat_u32)
  have "DecrementHeldRefcnt h [(sid, amount)] m = Throw ''SlabInfo::DecrementHeld encountered heldRefcnt==0'' ?m"
    using DecrementHeld_step_underflow [OF assms(1), of sid amount] i assms(4) by (simp add: u DecrementHeldRefcnt_def)
  moreover have "held ?m i = 0" by (simp add: held_def slab_at_upd_slab [OF sh i])
  moreover from this have "\<not> slab_inv ?m"
    using assms(2) by (auto simp: slab_inv_def slab_lists_def held_def unat_eq_zero)
  ultimately show ?thesis using assms(2) by auto
qed

theorem DecrementHeld_underflow_corrupts_witness:
  "\<exists>m m'. GetFreeSlabs None 2 7 0 (SlabManager 2 3 (\<lambda>n. 1)) = Ok [0, 1] m
    \<and> DecrementHeldRefcnt None [(1, 2)] m = Throw ''SlabInfo::DecrementHeld encountered heldRefcnt==0'' m'
    \<and> 1 \<in> set (heldSlabs m')"
proof -
  obtain m where m: "GetFreeSlabs None 2 7 0 (SlabManager 2 3 (\<lambda>n. 1)) = Ok [0, 1] m" "slab_inv m"
    "num_slabs m = 6" "wantedSegs (slab_at m 1) = []" "held m 0 = 1" "held m 1 = 1"
    by (rule example_held)
  have "1 \<in> set (heldSlabs m)" "heldRefcnt (slab_at m 1) < 2"
    using slab_lists_iff(1) [of m 1] m by (auto simp: slab_inv_def held_def word_less_nat_alt)
  from DecrementHeld_underflow_corrupts [OF m(2) this(1) _ this(2), of 1 None] m(1) show ?thesis by auto
qed

end
