(* ===== verification/Shm_Mapper.thy ===== *)
theory Shm_Mapper
  imports Socket_Endpoint
begin

unbundle bit_operations_syntax

text \<open>
  The shared memory of the manager: \<open>ShmHeader\<close> and \<open>BlockInfo\<close> (src/ShmDefs.cc) and
  \<open>ShmMapper\<close> (apps/MCSBManager/ShmMapper.cc).

  \<^item> \<open>getpagesize()\<close> is the argument \<open>ps\<close>; the theorems take it to be a power of two.
  \<^item> The sizes are not zero: \<open>ManagerParams\<close> refuses them (see the theory of the parameters), and
    \<open>BlocksPerSlab\<close> would divide by zero otherwise.
  \<^item> A mapped buffer is its header and its vector of \<open>BlockInfo\<close>; the address arithmetic is the
    subject of \<open>shm_layout_sound\<close>.
  \<^item> The operating system: \<open>shm_names\<close> are the numbers of the buffers for which a shared memory
    object of the manager's name format exists, \<open>shm_os\<close> is what the coming \<open>shm_open\<close>,
    \<open>ftruncate\<close>, \<open>mmap\<close> and \<open>mlock\<close> calls answer (true for success); when it is used up they
    succeed.  \<open>shm_open\<close> has \<open>O_EXCL\<close> and fails when the object exists.
\<close>

section \<open>Model\<close>

record shm_header =
  syncWord :: u32
  shmVersion :: u32
  infoOffset :: u32
  blockOffset :: u32
  bufferNumber :: u32
  numBuffers :: u32
  maxNumBuffers :: u32
  blockSize :: u32
  slabSize :: u32
  numBlocks :: u32
  infoSize :: u32

definition kSyncWord :: u32 where "kSyncWord = 0x4D435342"
definition kVersion :: u32 where "kVersion = 1"

definition sizeof_ShmHeader :: u64 where "sizeof_ShmHeader = 44"
definition sizeof_BlockInfo :: u64 where "sizeof_BlockInfo = 24"

text \<open>The rounding expression of the three size functions, in \<open>size_t\<close>.\<close>

definition round_page :: "u64 \<Rightarrow> u64 \<Rightarrow> u64" where
  "round_page ps x = (x + ps - 1) AND (- ps)"

definition hdr_PaddedSize :: "u64 \<Rightarrow> u32" where
  "hdr_PaddedSize ps = ucast (round_page ps sizeof_ShmHeader)"

definition info_PaddedSize :: "u64 \<Rightarrow> u32 \<Rightarrow> u32" where
  "info_PaddedSize ps n = ucast (round_page ps (sizeof_BlockInfo * ucast n))"

definition ShmHeader :: "u64 \<Rightarrow> u32 \<Rightarrow> u32 \<Rightarrow> u32 \<Rightarrow> u32 \<Rightarrow> u32 \<Rightarrow> shm_header" where
  "ShmHeader ps blkSz slbSz numBlks numBufs mxNumBufs =
     \<lparr>syncWord = kSyncWord, shmVersion = kVersion, infoOffset = hdr_PaddedSize ps,
      blockOffset = hdr_PaddedSize ps + info_PaddedSize ps numBlks, bufferNumber = 0,
      numBuffers = numBufs, maxNumBuffers = (if numBufs > mxNumBufs then numBufs else mxNumBufs),
      blockSize = blkSz, slabSize = slbSz, numBlocks = numBlks, infoSize = ucast sizeof_BlockInfo\<rparr>"

definition ValidHeader :: "shm_header \<Rightarrow> bool" where
  "ValidHeader h \<longleftrightarrow> syncWord h = kSyncWord \<and> shmVersion h = kVersion"

definition TotalBlocksSize :: "u64 \<Rightarrow> shm_header \<Rightarrow> u64" where
  "TotalBlocksSize ps h = round_page ps (ucast (blockSize h) * ucast (numBlocks h))"

text \<open>\<open>PaddedSize() + BlockInfo::PaddedSize(numBlocks)\<close> is a sum of two \<open>uint32_t\<close>.\<close>

definition TotalBufferSize :: "u64 \<Rightarrow> shm_header \<Rightarrow> u64" where
  "TotalBufferSize ps h =
     ucast (hdr_PaddedSize ps + info_PaddedSize ps (numBlocks h)) + TotalBlocksSize ps h"

definition IsContiguous :: "u32 \<Rightarrow> u32 \<Rightarrow> shm_header \<Rightarrow> (bool, shm_header) outcome" where
  "IsContiguous startBlock runLen h =
     (if numBlocks h = 0 then Crash DivideByZero
      else Ok (startBlock div numBlocks h = (startBlock + runLen - 1) div numBlocks h) h)"

definition BlockInfo :: block_info where
  "BlockInfo = \<lparr>bi_messageID = 0, bi_size = 0, bi_crc32c = 0, bi_segmentNumber = 0,
     bi_numSegments = 0, bi_sendTime = 0\<rparr>"

record shm_mapper =
  shm_nameFormat :: "u8 list"
  shm_force :: bool
  shm_blockSize :: u32
  shm_slabSize :: u32
  shm_numBlocks :: u32
  shm_bufSize :: u64
  shm_maxNumBuffers :: u32
  shm_headerVec :: "shm_header list"
  shm_infoVec :: "block_info list list"
  shm_lockErrors :: u32
  shm_pagesize :: u64
  shm_names :: "nat set"
  shm_os :: "bool list"

definition ShmMapper ::
  "u64 \<Rightarrow> u8 list \<Rightarrow> bool \<Rightarrow> u32 \<Rightarrow> u32 \<Rightarrow> u32 \<Rightarrow> u32 \<Rightarrow> nat set \<Rightarrow> bool list \<Rightarrow> shm_mapper" where
  "ShmMapper ps nameFmt force blkSz slbSz numBlks mxNumBufs names os =
     \<lparr>shm_nameFormat = nameFmt, shm_force = force, shm_blockSize = blkSz, shm_slabSize = slbSz,
      shm_numBlocks = numBlks, shm_bufSize = TotalBufferSize ps (ShmHeader ps blkSz slbSz numBlks 0 mxNumBufs),
      shm_maxNumBuffers = mxNumBufs, shm_headerVec = [], shm_infoVec = [], shm_lockErrors = 0,
      shm_pagesize = ps, shm_names = names, shm_os = os\<rparr>"

text \<open>The destructor unmaps the buffers and unlinks their objects.\<close>

definition ShmMapper_destroy :: "shm_mapper \<Rightarrow> shm_mapper" where
  "ShmMapper_destroy m = m\<lparr>shm_names := shm_names m - {0..<length (shm_headerVec m)}\<rparr>"

definition os_call :: "shm_mapper \<Rightarrow> bool \<times> shm_mapper" where
  "os_call m = (case shm_os m of [] \<Rightarrow> (True, m) | b # bs \<Rightarrow> (b, m\<lparr>shm_os := bs\<rparr>))"

definition OpenShm :: "nat \<Rightarrow> shm_mapper \<Rightarrow> (unit, shm_mapper) outcome" where
  "OpenShm bufNum m =
     (let (ok, m) = os_call m in
      if ok \<and> bufNum \<notin> shm_names m then Ok () (m\<lparr>shm_names := insert bufNum (shm_names m)\<rparr>)
      else Throw ''shm_open'' m)"

definition shm_unlink :: "nat \<Rightarrow> shm_mapper \<Rightarrow> shm_mapper" where
  "shm_unlink bufNum m = m\<lparr>shm_names := shm_names m - {bufNum}\<rparr>"

text \<open>
  \<open>LockOrTouch\<close> returns the number of errors; after a failed \<open>mlock\<close> it reads one byte of each
  page, which changes nothing.
\<close>

definition LockOrTouch :: "shm_mapper \<Rightarrow> u32 \<times> shm_mapper" where
  "LockOrTouch m = (let (ok, m) = os_call m in (if ok then 0 else 1, m))"

text \<open>The second half of \<open>CreateAndMap\<close>: record the new buffer and tell every header how many there are.\<close>

definition add_mapped :: "nat \<Rightarrow> shm_mapper \<Rightarrow> (unit, shm_mapper) outcome" where
  "add_mapped bufNum m =
     (let header = (ShmHeader (shm_pagesize m) (shm_blockSize m) (shm_slabSize m) (shm_numBlocks m) 0
             (shm_maxNumBuffers m))\<lparr>bufferNumber := of_nat bufNum\<rparr>;
          headers = shm_headerVec m @ [header];
          numBufs = bufNum + 1
      in if numBufs > length headers then Crash OutOfBounds
         else let m = m\<lparr>shm_headerVec := map (\<lambda>h. h\<lparr>numBuffers := of_nat numBufs\<rparr>) (take numBufs headers) @ drop numBufs headers,
                        shm_infoVec := shm_infoVec m @ [replicate (unat (shm_numBlocks m)) BlockInfo]\<rparr>
         in if numBufs \<noteq> length (shm_headerVec m) \<or> numBufs \<noteq> length (shm_infoVec m) then Crash AssertionFailed
            else let (errs, m) = LockOrTouch m
                 in Ok () (m\<lparr>shm_lockErrors := shm_lockErrors m + errs\<rparr>))"

definition CreateAndMap :: "nat \<Rightarrow> shm_mapper \<Rightarrow> (unit, shm_mapper) outcome" where
  "CreateAndMap bufNum m =
     (if bufNum < length (shm_headerVec m) then Crash AssertionFailed
      else
        bind_o (catch_o (OpenShm bufNum m) (\<lambda>e m.
          if \<not> shm_force m then Throw e m else OpenShm bufNum (shm_unlink bufNum m))) (\<lambda>_ m.
        let (ok, m) = os_call m in
        if \<not> ok then Throw ''ftruncate'' (shm_unlink bufNum m)
        else let (ok, m) = os_call m in
        if \<not> ok then Throw ''mmap'' (shm_unlink bufNum m)
        else add_mapped bufNum m))"

definition shm_NumBuffers :: "u32 \<Rightarrow> shm_mapper \<Rightarrow> (u32, shm_mapper) outcome" where
  "shm_NumBuffers n m =
     (let numBufs = length (shm_headerVec m) in
      if n = of_nat numBufs then Ok n m
      else if n > shm_maxNumBuffers m then Ok n m
      else if n < of_nat numBufs then Ok n m
      else bind_o (for_each CreateAndMap [numBufs..<unat n] m) (\<lambda>_. Ok n))"

definition TotalNumBlocks :: "shm_mapper \<Rightarrow> u32" where
  "TotalNumBlocks m = of_nat (length (shm_headerVec m)) * shm_numBlocks m"

definition BlocksPerSlab :: "shm_mapper \<Rightarrow> u32" where
  "BlocksPerSlab m = shm_slabSize m div shm_blockSize m"

definition shm_TotalNumSlabs :: "shm_mapper \<Rightarrow> u32" where
  "shm_TotalNumSlabs m = TotalNumBlocks m div BlocksPerSlab m"

text \<open>\<open>GetBlockInfo\<close> does not check the buffer number, \<open>GetBlockPtr\<close> does; a block's address is
  the buffer and the offset from its first block.\<close>

definition GetBlockInfo :: "u32 \<Rightarrow> shm_mapper \<Rightarrow> (block_info, shm_mapper) outcome" where
  "GetBlockInfo blockID m =
     (if shm_numBlocks m = 0 then Crash DivideByZero
      else let q = unat (blockID div shm_numBlocks m); r = unat (blockID mod shm_numBlocks m) in
        if q \<ge> length (shm_infoVec m) then Crash OutOfBounds
        else Ok (shm_infoVec m ! q ! r) m)"

definition SetBlockInfo :: "u32 \<Rightarrow> block_info \<Rightarrow> shm_mapper \<Rightarrow> (unit, shm_mapper) outcome" where
  "SetBlockInfo blockID info m =
     (if shm_numBlocks m = 0 then Crash DivideByZero
      else let q = unat (blockID div shm_numBlocks m); r = unat (blockID mod shm_numBlocks m) in
        if q \<ge> length (shm_infoVec m) then Crash OutOfBounds
        else Ok () (m\<lparr>shm_infoVec := (shm_infoVec m)[q := (shm_infoVec m ! q)[r := info]]\<rparr>))"

definition GetBlockPtr :: "u32 \<Rightarrow> shm_mapper \<Rightarrow> (nat \<times> nat, shm_mapper) outcome" where
  "GetBlockPtr blockID m =
     (if shm_numBlocks m = 0 then Crash DivideByZero
      else let q = unat (blockID div shm_numBlocks m); r = unat (blockID mod shm_numBlocks m) in
        if q \<ge> length (shm_headerVec m) then Throw ''ShmMapper::GetBlockPtr invalid slabID'' m
        else Ok (q, r * unat (shm_blockSize m)) m)"

section \<open>Rounding and layout\<close>

lemma and_neg_exp: "x AND (- (2 ^ k)) = push_bit k (drop_bit k (x :: u64))"
proof (rule bit_eqI)
  fix n assume "possible_bit TYPE(u64) n"
  then have n: "n < 64" by simp
  have "- (2 ^ k :: u64) = NOT (mask k)" by (simp add: mask_eq_exp_minus_1 not_eq_complement)
  then show "bit (x AND (- (2 ^ k))) n = bit (push_bit k (drop_bit k x)) n"
    using n by (auto simp: bit_and_iff bit_not_iff bit_mask_iff bit_push_bit_iff bit_drop_bit_eq)
qed

lemma unat_push_drop: "unat (push_bit k (drop_bit k (x :: u64))) = unat x div 2 ^ k * 2 ^ k"
proof -
  have "push_bit k (drop_bit k x) = x - take_bit k x" by (metis add_diff_cancel_right' bits_ident)
  moreover have "take_bit k x \<le> x" by (simp add: word_le_nat_alt unsigned_take_bit_eq take_bit_nat_less_eq_self)
  ultimately have "unat (push_bit k (drop_bit k x)) = unat x - unat x mod 2 ^ k"
    by (simp only: unat_sub unsigned_take_bit_eq) (simp add: take_bit_eq_mod)
  then show ?thesis by (simp add: minus_mod_eq_div_mult)
qed

lemma unat_round_page:
  assumes k: "k < 64" and x: "unat x + 2 ^ k \<le> 2 ^ 64"
  shows "unat (round_page (2 ^ k) x) = (unat x + 2 ^ k - 1) div 2 ^ k * 2 ^ k"
proof -
  have p: "unat (2 ^ k :: u64) = 2 ^ k"
    using unat_of_nat_u64 [of "2 ^ k"] power_strict_increasing [OF k, of "2 :: nat"] by simp
  have "unat (x + (2 ^ k - 1)) = unat x + (2 ^ k - 1)"
  proof -
    have q: "unat (2 ^ k - 1 :: u64) = 2 ^ k - 1"
      using p by (metis One_nat_def unat_minus_one unsigned_0 zero_less_numeral zero_less_power less_irrefl)
    moreover have "(0::nat) < 2 ^ k" by simp
    ultimately have "unat x + unat (2 ^ k - 1 :: u64) < 2 ^ 64" using x by linarith
    then show ?thesis using q by (simp add: unat_add_u64)
  qed
  moreover have "unat x + (2 ^ k - 1) = unat x + 2 ^ k - 1" by simp
  ultimately show ?thesis
    unfolding round_page_def by (simp add: and_neg_exp unat_push_drop add_diff_eq [symmetric])
qed

text \<open>The rounded size is the least multiple of the page size that is large enough.\<close>

lemma round_page_least:
  assumes "k < 64" and "unat x + 2 ^ k \<le> 2 ^ 64"
  shows "unat x \<le> unat (round_page (2 ^ k) x)"
    and "2 ^ k dvd unat (round_page (2 ^ k) x)"
    and "unat (round_page (2 ^ k) x) < unat x + 2 ^ k"
proof -
  let ?y = "unat x + 2 ^ k - 1"
  have r: "unat (round_page (2 ^ k) x) = ?y - ?y mod 2 ^ k"
    by (simp only: unat_round_page [OF assms] minus_mod_eq_div_mult)
  have "?y mod 2 ^ k < 2 ^ k" by simp
  then show "unat x \<le> unat (round_page (2 ^ k) x)" unfolding r by linarith
  have "(0::nat) < 2 ^ k" by simp
  then show "unat (round_page (2 ^ k) x) < unat x + 2 ^ k" unfolding r by linarith
  show "2 ^ k dvd unat (round_page (2 ^ k) x)" by (simp add: unat_round_page [OF assms])
qed
text \<open>
  The parameters for which the 32-bit offsets of a buffer do not wrap, for a page size of
  \<open>2 ^ k\<close> bytes.
\<close>

definition layout_fits :: "nat \<Rightarrow> u32 \<Rightarrow> bool" where
  "layout_fits k nBlocks \<longleftrightarrow> k < 31 \<and> 44 + 24 * unat nBlocks + 2 * 2 ^ k \<le> 2 ^ 32"

lemma padded_sizes:
  assumes "layout_fits k n"
  shows "44 \<le> unat (hdr_PaddedSize (2 ^ k))" "unat (hdr_PaddedSize (2 ^ k)) < 44 + 2 ^ k"
    "2 ^ k dvd unat (hdr_PaddedSize (2 ^ k))"
    "24 * unat n \<le> unat (info_PaddedSize (2 ^ k) n)" "unat (info_PaddedSize (2 ^ k) n) < 24 * unat n + 2 ^ k"
    "2 ^ k dvd unat (info_PaddedSize (2 ^ k) n)"
    "unat (hdr_PaddedSize (2 ^ k) + info_PaddedSize (2 ^ k) n)
       = unat (hdr_PaddedSize (2 ^ k)) + unat (info_PaddedSize (2 ^ k) n)"
proof -
  from assms have k: "k < 64" and fits: "44 + 24 * unat n + 2 * 2 ^ k \<le> 2 ^ 32"
    by (simp_all add: layout_fits_def)
  have h: "unat sizeof_ShmHeader = 44" by (simp add: sizeof_ShmHeader_def)
  have i: "unat (sizeof_BlockInfo * ucast n) = 24 * unat n"
    using unsigned_less [of n, where ?'a = nat] by (simp add: sizeof_BlockInfo_def unat_word_ariths)
  have "unat sizeof_ShmHeader + 2 ^ k \<le> 2 ^ 64" "unat (sizeof_BlockInfo * ucast n) + 2 ^ k \<le> 2 ^ 64"
    using fits unfolding h i by simp_all
  note rh = round_page_least [OF k this(1)] and ri = round_page_least [OF k this(2)]
  have "unat (round_page (2 ^ k) sizeof_ShmHeader) < 2 ^ 32" using rh(3) fits unfolding h by linarith
  then have H: "unat (hdr_PaddedSize (2 ^ k)) = unat (round_page (2 ^ k) sizeof_ShmHeader)"
    by (simp add: hdr_PaddedSize_def unat_ucast_u64_u32)
  have "unat (round_page (2 ^ k) (sizeof_BlockInfo * ucast n)) < 2 ^ 32" using ri(3) fits unfolding i by linarith
  then have I: "unat (info_PaddedSize (2 ^ k) n) = unat (round_page (2 ^ k) (sizeof_BlockInfo * ucast n))"
    by (simp add: info_PaddedSize_def unat_ucast_u64_u32)
  show "44 \<le> unat (hdr_PaddedSize (2 ^ k))" "2 ^ k dvd unat (hdr_PaddedSize (2 ^ k))"
    and hl: "unat (hdr_PaddedSize (2 ^ k)) < 44 + 2 ^ k"
    using rh unfolding H h by simp_all
  show "24 * unat n \<le> unat (info_PaddedSize (2 ^ k) n)" "2 ^ k dvd unat (info_PaddedSize (2 ^ k) n)"
    and il: "unat (info_PaddedSize (2 ^ k) n) < 24 * unat n + 2 ^ k"
    using ri unfolding I i by simp_all
  show "unat (hdr_PaddedSize (2 ^ k) + info_PaddedSize (2 ^ k) n)
       = unat (hdr_PaddedSize (2 ^ k)) + unat (info_PaddedSize (2 ^ k) n)"
    by (rule unat_add_u32) (use hl il fits in linarith)
qed

lemma TotalBufferSize_parts:
  assumes fits: "layout_fits k (numBlocks h)" and total: "unat (blockSize h) * unat (numBlocks h) + 2 ^ 34 \<le> 2 ^ 64"
  shows "unat (hdr_PaddedSize (2 ^ k) + info_PaddedSize (2 ^ k) (numBlocks h)) + unat (blockSize h) * unat (numBlocks h)
    \<le> unat (TotalBufferSize (2 ^ k) h)"
proof -
  have k: "k < 64" and p: "(2 :: nat) ^ k \<le> 2 ^ 32" using fits by (simp_all add: layout_fits_def power_increasing)
  have m: "unat (ucast (blockSize h) * ucast (numBlocks h) :: u64) = unat (blockSize h) * unat (numBlocks h)"
    using total by (simp add: unat_word_ariths)
  then have le: "unat (ucast (blockSize h) * ucast (numBlocks h) :: u64) + 2 ^ k \<le> 2 ^ 64"
    using total p by simp
  let ?s = "hdr_PaddedSize (2 ^ k) + info_PaddedSize (2 ^ k) (numBlocks h)"
  let ?b = "TotalBlocksSize (2 ^ k) h"
  from round_page_least [OF k le] have b: "unat (blockSize h) * unat (numBlocks h) \<le> unat ?b"
      "unat ?b < unat (blockSize h) * unat (numBlocks h) + 2 ^ k"
    by (simp_all add: TotalBlocksSize_def m)
  have s: "unat ?s < 2 ^ 32" by (rule unsigned_less [where ?'a = nat, THEN order_less_le_trans]) simp
  have "unat (ucast ?s :: u64) + unat ?b < 2 ^ 64" using s b(2) total p by simp
  then have "unat (TotalBufferSize (2 ^ k) h) = unat ?s + unat ?b"
    by (simp add: TotalBufferSize_def unat_add_u64)
  with b(1) show ?thesis by simp
qed


section \<open>The mapped buffers\<close>

definition buffer_header :: "shm_mapper \<Rightarrow> nat \<Rightarrow> shm_header" where
  "buffer_header m i =
     (ShmHeader (shm_pagesize m) (shm_blockSize m) (shm_slabSize m) (shm_numBlocks m) 0 (shm_maxNumBuffers m))
       \<lparr>bufferNumber := of_nat i, numBuffers := of_nat (length (shm_headerVec m))\<rparr>"

definition shm_ok :: "shm_mapper \<Rightarrow> bool" where
  "shm_ok m \<longleftrightarrow>
     (\<forall>i < length (shm_headerVec m). shm_headerVec m ! i = buffer_header m i)
     \<and> length (shm_infoVec m) = length (shm_headerVec m)
     \<and> (\<forall>b \<in> set (shm_infoVec m). length b = unat (shm_numBlocks m))
     \<and> {0..<length (shm_headerVec m)} \<subseteq> shm_names m
     \<and> length (shm_headerVec m) \<le> unat (shm_maxNumBuffers m)"

text \<open>What the operations leave alone.\<close>

definition shm_frame :: "shm_mapper \<Rightarrow> shm_mapper \<Rightarrow> bool" where
  "shm_frame m m' \<longleftrightarrow> shm_nameFormat m' = shm_nameFormat m \<and> shm_blockSize m' = shm_blockSize m
     \<and> shm_slabSize m' = shm_slabSize m \<and> shm_numBlocks m' = shm_numBlocks m
     \<and> shm_maxNumBuffers m' = shm_maxNumBuffers m \<and> shm_pagesize m' = shm_pagesize m
     \<and> shm_force m' = shm_force m"

lemma shm_frame_refl [simp]: "shm_frame m m"
  by (simp add: shm_frame_def)

lemma shm_frame_trans: "shm_frame m m' \<Longrightarrow> shm_frame m' m'' \<Longrightarrow> shm_frame m m''"
  by (simp add: shm_frame_def)

lemma shm_frame_updates [simp]:
  "shm_frame m (m'\<lparr>shm_os := os\<rparr>) = shm_frame m m'"
  "shm_frame m (m'\<lparr>shm_names := ns\<rparr>) = shm_frame m m'"
  "shm_frame m (m'\<lparr>shm_headerVec := hs\<rparr>) = shm_frame m m'"
  "shm_frame m (m'\<lparr>shm_infoVec := is\<rparr>) = shm_frame m m'"
  "shm_frame m (m'\<lparr>shm_lockErrors := e\<rparr>) = shm_frame m m'"
  by (simp_all add: shm_frame_def)

lemma os_call_cases:
  obtains os where "os_call m = (True, m\<lparr>shm_os := os\<rparr>)" | os where "os_call m = (False, m\<lparr>shm_os := os\<rparr>)"
proof (cases "shm_os m")
  case Nil
  then have "m\<lparr>shm_os := []\<rparr> = m" by (cases m) simp
  with Nil have "os_call m = (True, m\<lparr>shm_os := []\<rparr>)" by (simp add: os_call_def)
  then show ?thesis by (rule that(1))
next
  case (Cons b bs)
  then have "os_call m = (b, m\<lparr>shm_os := bs\<rparr>)" by (simp add: os_call_def)
  then show ?thesis by (cases b) (auto intro: that)
qed

text \<open>The system calls change the answers in store and the names; nothing else.\<close>

definition after_os :: "shm_mapper \<Rightarrow> nat set \<Rightarrow> shm_mapper \<Rightarrow> bool" where
  "after_os m ns m' \<longleftrightarrow> (\<exists>os. m' = m\<lparr>shm_names := ns, shm_os := os\<rparr>)"

lemma after_osI: "after_os m ns (m\<lparr>shm_names := ns, shm_os := os\<rparr>)"
  by (auto simp: after_os_def)

lemma after_os_refl: "after_os m (shm_names m) (m\<lparr>shm_os := os\<rparr>)"
proof -
  have "m\<lparr>shm_os := os\<rparr> = m\<lparr>shm_names := shm_names m, shm_os := os\<rparr>" by (cases m) simp
  then show ?thesis by (auto simp: after_os_def)
qed

lemma after_os_os: "after_os m ns m' \<Longrightarrow> after_os m ns (m'\<lparr>shm_os := os\<rparr>)"
  by (auto simp: after_os_def)

lemma after_os_names:
  assumes "after_os m ns m'"
  shows "after_os m ns' (m'\<lparr>shm_names := ns'\<rparr>)"
proof -
  from assms obtain os where "m' = m\<lparr>shm_names := ns, shm_os := os\<rparr>" unfolding after_os_def by blast
  then have "m'\<lparr>shm_names := ns'\<rparr> = m\<lparr>shm_names := ns', shm_os := os\<rparr>" by (cases m) simp
  then show ?thesis unfolding after_os_def by blast
qed

lemma after_os_names_eq: "after_os m ns m' \<Longrightarrow> shm_names m' = ns"
  by (auto simp: after_os_def)

lemma after_os_force: "after_os m ns m' \<Longrightarrow> shm_force m' = shm_force m"
  by (auto simp: after_os_def)

lemmas after_os_rules = after_os_refl after_os_os after_os_names

lemma os_call_after: "after_os m ns m' \<Longrightarrow> os_call m' = (ok, m'') \<Longrightarrow> after_os m ns m''"
  by (rule os_call_cases [of m']) (auto intro: after_os_os)

lemma OpenShm_spec:
  assumes "after_os m ns m1"
  shows "sat (OpenShm b m1) (\<lambda>_. after_os m (insert b ns)) (\<lambda>_. after_os m ns)"
proof -
  obtain ok m2 where c: "os_call m1 = (ok, m2)" by (cases "os_call m1")
  with assms have "after_os m ns m2" by (rule os_call_after)
  then show ?thesis by (auto simp: OpenShm_def c after_os_names_eq intro: after_os_names)
qed

lemma open_retry_spec:
  "sat (catch_o (OpenShm b m) (\<lambda>e m. if \<not> shm_force m then Throw e m else OpenShm b (shm_unlink b m)))
     (\<lambda>_. after_os m (insert b (shm_names m))) (\<lambda>_ m'. after_os m (shm_names m) m' \<or> after_os m (shm_names m - {b}) m')"
proof -
  have 0: "after_os m (shm_names m) m" using after_os_refl [of m "shm_os m"] by simp
  show ?thesis
  proof (rule sat_catch [OF sat_mono [OF OpenShm_spec [OF 0]]])
    fix e m' assume m': "after_os m (shm_names m) m'"
    then have "after_os m (shm_names m - {b}) (shm_unlink b m')"
      by (simp add: shm_unlink_def after_os_names after_os_names_eq)
    note retry = OpenShm_spec [OF this, of b]
    show "sat (if \<not> shm_force m' then Throw e m' else OpenShm b (shm_unlink b m'))
        (\<lambda>_. after_os m (insert b (shm_names m))) (\<lambda>_ m'. after_os m (shm_names m) m' \<or> after_os m (shm_names m - {b}) m')"
      using m' by (cases "shm_force m'") (auto intro: sat_mono [OF retry])
  qed
qed

lemma shm_ok_after_os:
  assumes "shm_ok m" and "after_os m ns m'" and "{0..<length (shm_headerVec m)} \<subseteq> ns"
  shows "shm_ok m' \<and> shm_frame m m' \<and> length (shm_headerVec m') = length (shm_headerVec m) \<and> shm_names m' = ns"
  using assms by (auto simp: after_os_def shm_ok_def buffer_header_def [abs_def])


lemma add_mapped_spec:
  assumes ok: "shm_ok m" and room: "length (shm_headerVec m) < unat (shm_maxNumBuffers m)"
    and names: "length (shm_headerVec m) \<in> shm_names m"
  shows "\<exists>m'. add_mapped (length (shm_headerVec m)) m = Ok () m' \<and> shm_ok m' \<and> shm_frame m m'
    \<and> length (shm_headerVec m') = Suc (length (shm_headerVec m)) \<and> shm_names m' = shm_names m"
proof -
  let ?n = "length (shm_headerVec m)"
  define m1 where "m1 = m\<lparr>shm_headerVec := map (\<lambda>h. h\<lparr>numBuffers := of_nat (?n + 1)\<rparr>)
       (shm_headerVec m @ [(ShmHeader (shm_pagesize m) (shm_blockSize m) (shm_slabSize m) (shm_numBlocks m) 0
          (shm_maxNumBuffers m))\<lparr>bufferNumber := of_nat ?n\<rparr>]),
     shm_infoVec := shm_infoVec m @ [replicate (unat (shm_numBlocks m)) BlockInfo]\<rparr>"
  have "shm_headerVec m1 ! i = buffer_header m1 i" if "i < length (shm_headerVec m1)" for i
    using ok that by (auto simp: shm_ok_def m1_def buffer_header_def nth_append less_Suc_eq)
  then have "shm_ok m1"
    using ok room names by (auto simp: shm_ok_def m1_def atLeastLessThanSuc)
  moreover obtain b os where o: "os_call m1 = (b, m1\<lparr>shm_os := os\<rparr>)" by (rule os_call_cases [of m1]) (auto intro: that)
  moreover have "add_mapped ?n m = (let (errs, m) = LockOrTouch m1 in Ok () (m\<lparr>shm_lockErrors := shm_lockErrors m + errs\<rparr>))"
    using ok by (simp add: add_mapped_def Let_def m1_def [symmetric] shm_ok_def) (simp add: m1_def)
  ultimately show ?thesis
    by (simp add: LockOrTouch_def o shm_ok_def buffer_header_def [abs_def]) (simp add: m1_def)
qed

lemma CreateAndMap_spec:
  assumes ok: "shm_ok m" and room: "length (shm_headerVec m) < unat (shm_maxNumBuffers m)"
  shows "sat (CreateAndMap (length (shm_headerVec m)) m)
     (\<lambda>_ m'. shm_ok m' \<and> shm_frame m m' \<and> length (shm_headerVec m') = Suc (length (shm_headerVec m))
        \<and> shm_names m' = insert (length (shm_headerVec m)) (shm_names m))
     (\<lambda>_ m'. shm_ok m' \<and> shm_frame m m' \<and> length (shm_headerVec m') = length (shm_headerVec m)
        \<and> shm_names m' \<subseteq> shm_names m)" (is "sat _ ?Q ?E")
proof -
  let ?n = "length (shm_headerVec m)"
  have sub: "{0..<?n} \<subseteq> shm_names m" "{0..<?n} \<subseteq> shm_names m - {?n}" "{0..<?n} \<subseteq> insert ?n (shm_names m)"
    using ok by (auto simp: shm_ok_def)
  have undo: "?E e m'" if "after_os m (shm_names m) m' \<or> after_os m (shm_names m - {?n}) m'" for e m'
    using that shm_ok_after_os [OF ok _ sub(1)] shm_ok_after_os [OF ok _ sub(2)] by blast
  have unlink: "?E e (shm_unlink ?n m')" if "after_os m (insert ?n (shm_names m)) m'" for e m'
  proof (rule undo, rule disjI2)
    show "after_os m (shm_names m - {?n}) (shm_unlink ?n m')"
      using that by (auto simp: shm_unlink_def after_os_names_eq intro: after_os_names)
  qed
  have body: "sat (let (ok, m) = os_call m1 in
        if \<not> ok then Throw ''ftruncate'' (shm_unlink ?n m)
        else let (ok, m) = os_call m in
        if \<not> ok then Throw ''mmap'' (shm_unlink ?n m)
        else add_mapped ?n m) ?Q ?E"
    if m1: "after_os m (insert ?n (shm_names m)) m1" for m1
  proof -
    obtain b2 m2 where c2: "os_call m1 = (b2, m2)" by (cases "os_call m1")
    obtain b3 m3 where c3: "os_call m2 = (b3, m3)" by (cases "os_call m2")
    have m2: "after_os m (insert ?n (shm_names m)) m2" using m1 c2 by (rule os_call_after)
    then have m3: "after_os m (insert ?n (shm_names m)) m3" using c3 by (rule os_call_after)
    note k3 = shm_ok_after_os [OF ok m3 sub(3)]
    then obtain m4 where "add_mapped ?n m3 = Ok () m4" "?Q () m4"
      using add_mapped_spec [of m3] room shm_frame_trans [of m m3] by (auto simp: shm_frame_def)
    then show ?thesis
      using unlink [OF m2] unlink [OF m3] by (simp add: c2 c3)
  qed
  show ?thesis
    unfolding CreateAndMap_def if_not_P [OF less_irrefl]
    by (rule sat_bind [OF sat_mono [OF open_retry_spec]]) (assumption | rule undo body | assumption)+
qed

lemma create_buffers_spec:
  assumes "shm_ok m" and "n \<le> unat (shm_maxNumBuffers m)" and "length (shm_headerVec m) \<le> n"
  shows "sat (for_each CreateAndMap [length (shm_headerVec m)..<n] m)
     (\<lambda>_ m'. shm_ok m' \<and> shm_frame m m' \<and> length (shm_headerVec m') = n \<and> shm_names m' = shm_names m \<union> {0..<n})
     (\<lambda>_ m'. shm_ok m' \<and> shm_frame m m' \<and> length (shm_headerVec m) \<le> length (shm_headerVec m') \<and> length (shm_headerVec m') < n
        \<and> shm_names m' \<subseteq> shm_names m \<union> {0..<length (shm_headerVec m')})"
  using assms
proof (induction "n - length (shm_headerVec m)" arbitrary: m)
  case 0
  then have "n = length (shm_headerVec m)" "{0..<n} \<subseteq> shm_names m" by (auto simp: shm_ok_def)
  with 0 show ?case by (simp add: sup_absorb1)
next
  case (Suc d)
  let ?n = "length (shm_headerVec m)"
  from Suc.hyps(2) have lt: "?n < n" by simp
  then have room: "?n < unat (shm_maxNumBuffers m)" using Suc.prems by simp
  have "sat (bind_o (CreateAndMap ?n m) (\<lambda>_. for_each CreateAndMap [Suc ?n..<n]))
     (\<lambda>_ m'. shm_ok m' \<and> shm_frame m m' \<and> length (shm_headerVec m') = n \<and> shm_names m' = shm_names m \<union> {0..<n})
     (\<lambda>_ m'. shm_ok m' \<and> shm_frame m m' \<and> length (shm_headerVec m) \<le> length (shm_headerVec m') \<and> length (shm_headerVec m') < n
        \<and> shm_names m' \<subseteq> shm_names m \<union> {0..<length (shm_headerVec m')})" (is "sat _ ?Q ?E")
  proof (rule sat_bind [OF sat_mono [OF CreateAndMap_spec [OF Suc.prems(1) room]]])
    fix a m' assume m': "shm_ok m' \<and> shm_frame m m' \<and> length (shm_headerVec m') = Suc ?n \<and> shm_names m' = insert ?n (shm_names m)"
    have "sat (for_each CreateAndMap [length (shm_headerVec m')..<n] m')
       (\<lambda>_ m''. shm_ok m'' \<and> shm_frame m' m'' \<and> length (shm_headerVec m'') = n \<and> shm_names m'' = shm_names m' \<union> {0..<n})
       (\<lambda>_ m''. shm_ok m'' \<and> shm_frame m' m'' \<and> length (shm_headerVec m') \<le> length (shm_headerVec m'') \<and> length (shm_headerVec m'') < n
          \<and> shm_names m'' \<subseteq> shm_names m' \<union> {0..<length (shm_headerVec m'')})"
      by (rule Suc.hyps(1)) (use m' Suc lt in \<open>auto simp: shm_frame_def\<close>)
    then show "sat (for_each CreateAndMap [Suc ?n..<n] m') ?Q ?E"
      using m' lt by (auto elim!: sat_mono intro: shm_frame_trans)
  qed (use lt in auto)
  moreover have "[?n..<n] = ?n # [Suc ?n..<n]" using lt by (rule upt_conv_Cons)
  ultimately show ?case by simp
qed

lemma shm_NumBuffers_spec:
  assumes ok: "shm_ok m"
  shows "sat (shm_NumBuffers n m)
     (\<lambda>r m'. r = n \<and> shm_ok m' \<and> shm_frame m m'
        \<and> (if length (shm_headerVec m) < unat n \<and> n \<le> shm_maxNumBuffers m
           then length (shm_headerVec m') = unat n \<and> shm_names m' = shm_names m \<union> {0..<unat n}
           else m' = m))
     (\<lambda>_ m'. shm_ok m' \<and> shm_frame m m' \<and> length (shm_headerVec m) \<le> length (shm_headerVec m')
        \<and> length (shm_headerVec m') < unat n \<and> shm_names m' \<subseteq> shm_names m \<union> {0..<length (shm_headerVec m')})"
proof -
  let ?l = "length (shm_headerVec m)"
  have "unat (shm_maxNumBuffers m) < 2 ^ 32" using unsigned_less [of "shm_maxNumBuffers m", where ?'a = nat] by simp
  then have l: "unat (of_nat ?l :: u32) = ?l"
    using ok by (intro unat_of_nat_u32) (simp add: shm_ok_def)
  have eq: "n = of_nat ?l \<longleftrightarrow> unat n = ?l" and lt: "n < of_nat ?l \<longleftrightarrow> unat n < ?l"
    by (simp_all only: word_unat_eq_iff word_less_nat_alt l)
  show ?thesis
  proof (cases "?l < unat n \<and> n \<le> shm_maxNumBuffers m")
    case True
    then have "unat n \<le> unat (shm_maxNumBuffers m)" by (simp add: word_le_nat_alt)
    from create_buffers_spec [OF ok this] True
    have "sat (bind_o (for_each CreateAndMap [?l..<unat n] m) (\<lambda>_. Ok n))
      (\<lambda>r m'. r = n \<and> shm_ok m' \<and> shm_frame m m' \<and> length (shm_headerVec m') = unat n \<and> shm_names m' = shm_names m \<union> {0..<unat n})
      (\<lambda>_ m'. shm_ok m' \<and> shm_frame m m' \<and> length (shm_headerVec m) \<le> length (shm_headerVec m')
        \<and> length (shm_headerVec m') < unat n \<and> shm_names m' \<subseteq> shm_names m \<union> {0..<length (shm_headerVec m')})"
      by (intro sat_bind) auto
    with True show ?thesis by (simp add: shm_NumBuffers_def eq lt not_less Let_def)
  next
    case False
    then show ?thesis using ok unfolding shm_NumBuffers_def Let_def eq lt by auto
  qed
qed

section \<open>Properties\<close>

lemma div_mod_u32_unat: "unat (b div n) = unat b div unat n" "unat (b mod n) = unat b mod unat n"
  for b n :: u32
  by (simp_all add: unat_div unat_mod)

text \<open>
  C27: the memory layout of a buffer is sound.  In a buffer whose sizes do not wrap, the block
  information of every block lies between the header and the first block, every block lies
  inside the mapping, the parts begin on page boundaries, and the bytes of two different
  blocks do not overlap.
\<close>

theorem shm_layout_sound:
  assumes made: "m = m0\<lparr>shm_os := os, shm_names := ns, shm_headerVec := hs, shm_infoVec := iv, shm_lockErrors := le\<rparr>"
      "m0 = ShmMapper (2 ^ k) nm fc bs ss nb mx ns0 os0"
    and fits: "layout_fits k nb" "unat bs * unat nb + 2 ^ 34 \<le> 2 ^ 64"
    and a: "GetBlockPtr a m = Ok (q, off) m'" and b: "GetBlockPtr b m = Ok (q', off') m''" and "a \<noteq> b"
    and h: "h = buffer_header m q"
  shows "44 \<le> unat (infoOffset h) \<and> 2 ^ k dvd unat (infoOffset h)
    \<and> unat (infoOffset h) + 24 * Suc (unat (a mod nb)) \<le> unat (blockOffset h) \<and> 2 ^ k dvd unat (blockOffset h)
    \<and> unat (blockOffset h) + off + unat bs \<le> unat (shm_bufSize m)
    \<and> (q = q' \<longrightarrow> off + unat bs \<le> off' \<or> off' + unat bs \<le> off)"
proof -
  have f: "shm_numBlocks m = nb" "shm_blockSize m = bs" "shm_pagesize m = 2 ^ k"
      "shm_bufSize m = TotalBufferSize (2 ^ k) (ShmHeader (2 ^ k) bs ss nb 0 mx)"
    by (simp_all add: made ShmMapper_def)
  have h': "infoOffset h = hdr_PaddedSize (2 ^ k)" "blockOffset h = hdr_PaddedSize (2 ^ k) + info_PaddedSize (2 ^ k) nb"
    by (simp_all add: h buffer_header_def ShmHeader_def f)
  have nb: "nb \<noteq> 0" and q: "q = unat a div unat nb" "q' = unat b div unat nb"
    and off: "off = unat a mod unat nb * unat bs" "off' = unat b mod unat nb * unat bs"
    using a b unfolding GetBlockPtr_def f Let_def div_mod_u32_unat by (auto split: if_splits)
  have r: "unat (a mod nb) < unat nb" using nb by (simp add: div_mod_u32_unat unat_gt_0)
  note p = padded_sizes [OF fits(1)]
  have "24 * Suc (unat (a mod nb)) \<le> 24 * unat nb" using r by (intro mult_le_mono2) simp
  then have info: "unat (infoOffset h) + 24 * Suc (unat (a mod nb)) \<le> unat (blockOffset h)"
    unfolding h' p(7) using p(4) by linarith
  have "off + unat bs \<le> unat nb * unat bs"
  proof -
    have "Suc (unat (a mod nb)) * unat bs \<le> unat nb * unat bs" using r by (intro mult_le_mono1) simp
    then show ?thesis by (simp add: off div_mod_u32_unat)
  qed
  moreover have "unat (blockOffset h) + unat bs * unat nb \<le> unat (shm_bufSize m)"
    using TotalBufferSize_parts [of k "ShmHeader (2 ^ k) bs ss nb 0 mx"] fits
    by (simp add: h' f ShmHeader_def)
  ultimately have blocks: "unat (blockOffset h) + off + unat bs \<le> unat (shm_bufSize m)"
    by (simp add: mult.commute)
  have apart: "off + unat bs \<le> off' \<or> off' + unat bs \<le> off" if "q = q'"
  proof -
    have "unat a mod unat nb \<noteq> unat b mod unat nb"
    proof
      assume "unat a mod unat nb = unat b mod unat nb"
      then have "unat a = unat b" using \<open>q = q'\<close> by (metis div_mult_mod_eq q)
      then show False using \<open>a \<noteq> b\<close> by (simp add: word_unat_eq_iff)
    qed
    then have "Suc (unat a mod unat nb) \<le> unat b mod unat nb \<or> Suc (unat b mod unat nb) \<le> unat a mod unat nb"
      by linarith
    then have "Suc (unat a mod unat nb) * unat bs \<le> unat b mod unat nb * unat bs
        \<or> Suc (unat b mod unat nb) * unat bs \<le> unat a mod unat nb * unat bs"
      by (blast intro: mult_le_mono1)
    then show ?thesis by (auto simp: off add.commute)
  qed
  have "2 ^ k dvd unat (blockOffset h)" unfolding h' p(7) using p(3,6) by (rule dvd_add)
  with p(1,3) info blocks apart show ?thesis unfolding h'(1) by blast
qed

definition example_mapper :: shm_mapper where
  "example_mapper = (ShmMapper (2 ^ 12) [] False 1024 4096 8 3 {} [])\<lparr>shm_os := [], shm_names := {0},
     shm_headerVec := [(ShmHeader (2 ^ 12) 1024 4096 8 0 3)\<lparr>numBuffers := 1\<rparr>],
     shm_infoVec := [replicate 8 BlockInfo], shm_lockErrors := 0\<rparr>"

lemma example_mapper_ok: "shm_ok example_mapper"
  by (simp add: shm_ok_def example_mapper_def ShmMapper_def buffer_header_def ShmHeader_def)

theorem shm_layout_sound_witness:
  "GetBlockPtr 3 example_mapper = Ok (0, 3072) example_mapper
    \<and> unat (blockOffset (buffer_header example_mapper 0)) + 3072 + 1024 \<le> unat (shm_bufSize example_mapper)"
proof
  have a: "GetBlockPtr 3 example_mapper = Ok (0, 3072) example_mapper"
    and b: "GetBlockPtr 4 example_mapper = Ok (0, 4096) example_mapper"
    by (simp_all add: GetBlockPtr_def example_mapper_def ShmMapper_def div_mod_u32_unat)
  show "GetBlockPtr 3 example_mapper = Ok (0, 3072) example_mapper" by (rule a)
  have fits: "layout_fits 12 8" "unat (1024 :: u32) * unat (8 :: u32) + 2 ^ 34 \<le> 2 ^ 64"
    by (simp_all add: layout_fits_def)
  show "unat (blockOffset (buffer_header example_mapper 0)) + 3072 + 1024 \<le> unat (shm_bufSize example_mapper)"
    using shm_layout_sound [OF example_mapper_def refl fits a b _ refl] by simp
qed

text \<open>
  C28: growing the shared memory keeps every header telling the true number of buffers, and
  cleans up on every path: when a system call fails, the buffers created before it stay and no
  shared memory object without a mapped buffer is left behind.
\<close>

theorem shm_growth_cleans_up:
  assumes "shm_ok m"
  shows "sat (shm_NumBuffers n m)
     (\<lambda>r m'. r = n \<and> shm_ok m' \<and> shm_frame m m'
        \<and> (if length (shm_headerVec m) < unat n \<and> n \<le> shm_maxNumBuffers m
           then length (shm_headerVec m') = unat n \<and> shm_names m' = shm_names m \<union> {0..<unat n}
           else m' = m))
     (\<lambda>_ m'. shm_ok m' \<and> shm_frame m m' \<and> length (shm_headerVec m) \<le> length (shm_headerVec m')
        \<and> length (shm_headerVec m') < unat n \<and> shm_names m' \<subseteq> shm_names m \<union> {0..<length (shm_headerVec m')})"
  by (rule shm_NumBuffers_spec [OF assms])

theorem shm_growth_cleans_up_witness:
  "sat (shm_NumBuffers 3 (example_mapper\<lparr>shm_os := [True, True, True, True, True, True, False]\<rparr>)) (\<lambda>_ _. False)
     (\<lambda>_ m'. shm_names m' \<subseteq> {0} \<union> {0..<length (shm_headerVec m')} \<and> length (shm_headerVec m') < 3)"
proof -
  let ?m = "example_mapper\<lparr>shm_os := [True, True, True, True, True, True, False]\<rparr>"
  have "shm_ok ?m" using example_mapper_ok by (simp add: shm_ok_def buffer_header_def [abs_def])
  from shm_growth_cleans_up [OF this, of 3]
  have ex: "sat (shm_NumBuffers 3 ?m) (\<lambda>_ _. True) (\<lambda>_ m'. length (shm_headerVec m') < 3
      \<and> shm_names m' \<subseteq> shm_names example_mapper \<union> {0..<length (shm_headerVec m')})"
    by (rule sat_mono) simp_all
  have "\<exists>e m'. shm_NumBuffers 3 ?m = Throw e m'"
    by (simp add: shm_NumBuffers_def example_mapper_def ShmMapper_def CreateAndMap_def OpenShm_def os_call_def
        add_mapped_def LockOrTouch_def upt_rec)
  with ex show ?thesis by (auto simp: example_mapper_def ShmMapper_def)
qed

end
