(* ===== verification/Message_Segment.thy ===== *)
theory Message_Segment
  imports Socket_Endpoint Crc32c
begin

text \<open>
  \<open>MessageSegment\<close>, \<open>SendMsgSegment\<close> and \<open>RecvMsgSegment\<close> (src/MessageSegment.cc): a message is a
  chain of segments, each a run of blocks in the shared memory.

  \<^item> The segments live in the blocks their manager allocates; here they are the elements of a
    list, a pointer is an index and the null pointer is \<open>None\<close>.
  \<^item> A loop \<open>while (seg)\<close> follows \<open>next\<close>; it gets one more turn than there are segments, which
    is enough for every chain without a cycle (\<open>linked\<close>), and does not end on a cycle.
  \<^item> The shared memory is a function from addresses to bytes.
  \<^item> \<open>blockInfo\<close> of a received segment is the record in shared memory; it stays the same while the
    client holds the block.  The value of \<open>crc32c\<close> is the one the theorem \<open>crc32c_correct\<close> gives.
\<close>

section \<open>Model\<close>

record msg_segment =
  seg_buf :: nat
  seg_size :: u32
  seg_blockID :: u32
  seg_next :: "nat option"

definition MessageSegment :: msg_segment where
  "MessageSegment = \<lparr>seg_buf = 0, seg_size = 0, seg_blockID = 0, seg_next = None\<rparr>"

record recv_segment = msg_segment +
  seg_blockInfo :: block_info
  seg_refcnt :: u32

type_synonym memory = "nat \<Rightarrow> u8"

definition read_mem :: "memory \<Rightarrow> nat \<Rightarrow> nat \<Rightarrow> u8 list" where
  "read_mem mem a n = map mem [a..<a + n]"

definition write_mem :: "nat \<Rightarrow> u8 list \<Rightarrow> memory \<Rightarrow> memory" where
  "write_mem a bs mem = (\<lambda>x. if a \<le> x \<and> x < a + length bs then bs ! (x - a) else mem x)"

text \<open>
  The loops return \<open>None\<close> when they do not end or follow a pointer outside the segments.
\<close>

fun NumSegments_loop :: "nat \<Rightarrow> 'a msg_segment_scheme list \<Rightarrow> nat option \<Rightarrow> u32 \<Rightarrow> u32 option" where
  "NumSegments_loop fuel segs None n = Some n"
| "NumSegments_loop 0 segs (Some i) n = None"
| "NumSegments_loop (Suc fuel) segs (Some i) n =
     (if i < length segs then NumSegments_loop fuel segs (seg_next (segs ! i)) (n + 1) else None)"

definition NumSegments :: "'a msg_segment_scheme list \<Rightarrow> nat \<Rightarrow> u32 option" where
  "NumSegments segs i = NumSegments_loop (length segs) segs (Some i) 0"

fun TotalSize_loop :: "nat \<Rightarrow> 'a msg_segment_scheme list \<Rightarrow> nat option \<Rightarrow> u64 \<Rightarrow> u64 option" where
  "TotalSize_loop fuel segs None n = Some n"
| "TotalSize_loop 0 segs (Some i) n = None"
| "TotalSize_loop (Suc fuel) segs (Some i) n =
     (if i < length segs then TotalSize_loop fuel segs (seg_next (segs ! i)) (n + ucast (seg_size (segs ! i)))
      else None)"

definition TotalSize :: "'a msg_segment_scheme list \<Rightarrow> nat \<Rightarrow> u64 option" where
  "TotalSize segs i = TotalSize_loop (length segs) segs (Some i) 0"

text \<open>
  \<open>GetIovec\<close> with room for \<open>iovcnt\<close> vectors: the negative of the number needed when there is
  not enough room, otherwise the vectors it filled (a null vector marks their end if there is room).
\<close>

fun GetIovec_loop ::
  "'a msg_segment_scheme list \<Rightarrow> nat option \<Rightarrow> nat \<Rightarrow> (nat \<times> u32) list option" where
  "GetIovec_loop segs None room = Some []"
| "GetIovec_loop segs (Some i) 0 = None"
| "GetIovec_loop segs (Some i) (Suc room) =
     (if i < length segs then
        map_option ((#) (seg_buf (segs ! i), seg_size (segs ! i))) (GetIovec_loop segs (seg_next (segs ! i)) room)
      else None)"

definition GetIovec ::
  "'a msg_segment_scheme list \<Rightarrow> nat \<Rightarrow> nat \<Rightarrow> (int \<times> (nat \<times> u32) list) option" where
  "GetIovec segs i iovcnt =
     (case GetIovec_loop segs (Some i) iovcnt of
        Some iov \<Rightarrow> Some (int (length iov), iov)
      | None \<Rightarrow> map_option (\<lambda>n. (- uint n, [])) (NumSegments segs i))"

fun IovecMatch :: "'a msg_segment_scheme list \<Rightarrow> nat option \<Rightarrow> (nat \<times> u32) list \<Rightarrow> bool" where
  "IovecMatch segs p [] = True"
| "IovecMatch segs None (v # iov) = False"
| "IovecMatch segs (Some i) ((base, len) # iov) =
     (base = seg_buf (segs ! i) \<and> len \<le> seg_size (segs ! i) \<and> IovecMatch segs (seg_next (segs ! i)) iov)"

definition crc_value :: "u8 list \<Rightarrow> u32" where
  "crc_value bs = crc_bytes kPolynomialCRC32C 0xffffffff bs XOR 0xffffffff"

fun ValidCRC_loop ::
  "nat \<Rightarrow> memory \<Rightarrow> bool \<Rightarrow> bool \<Rightarrow> 'a recv_segment_scheme list \<Rightarrow> nat option \<Rightarrow> bool option" where
  "ValidCRC_loop fuel mem ignoreZeros allSegs segs None = Some True"
| "ValidCRC_loop 0 mem ignoreZeros allSegs segs (Some i) = None"
| "ValidCRC_loop (Suc fuel) mem ignoreZeros allSegs segs (Some i) =
     (if i < length segs then
        let s = segs ! i; c = bi_crc32c (seg_blockInfo s) in
        if \<not> (ignoreZeros \<and> c = 0) \<and> crc_value (read_mem mem (seg_buf s) (unat (seg_size s))) \<noteq> c then Some False
        else if \<not> allSegs then Some True
        else ValidCRC_loop fuel mem ignoreZeros allSegs segs (seg_next s)
      else None)"

definition ValidCRC :: "memory \<Rightarrow> bool \<Rightarrow> bool \<Rightarrow> 'a recv_segment_scheme list \<Rightarrow> nat \<Rightarrow> bool option" where
  "ValidCRC mem ignoreZeros allSegs segs i = ValidCRC_loop (length segs) mem ignoreZeros allSegs segs (Some i)"

text \<open>
  \<open>CopyToBuffer\<close>: the bytes written from \<open>dst\<close> on, at most \<open>maxlen\<close> in all.  The sum
  \<open>totalLen+bytesToCopy\<close> is a \<open>size_t\<close>.
\<close>

fun CopyToBuffer_loop ::
  "nat \<Rightarrow> memory \<Rightarrow> u64 \<Rightarrow> 'a msg_segment_scheme list \<Rightarrow> nat option \<Rightarrow> u64 \<Rightarrow> (u8 list \<times> u64) option" where
  "CopyToBuffer_loop fuel mem maxlen segs None totalLen = Some ([], totalLen)"
| "CopyToBuffer_loop 0 mem maxlen segs (Some i) totalLen = None"
| "CopyToBuffer_loop (Suc fuel) mem maxlen segs (Some i) totalLen =
     (if i < length segs then
        let s = segs ! i;
            n = (if totalLen + ucast (seg_size s) > maxlen then ucast (maxlen - totalLen) else seg_size s) :: u32
        in map_option (\<lambda>(bs, t). (read_mem mem (seg_buf s) (unat n) @ bs, t))
             (CopyToBuffer_loop fuel mem maxlen segs (seg_next s) (totalLen + ucast n))
      else None)"

definition CopyToBuffer :: "memory \<Rightarrow> u64 \<Rightarrow> 'a msg_segment_scheme list \<Rightarrow> nat \<Rightarrow> (u8 list \<times> u64) option" where
  "CopyToBuffer mem maxlen segs i = CopyToBuffer_loop (length segs) mem maxlen segs (Some i) 0"

section \<open>Chains of segments\<close>

text \<open>\<open>linked segs p xs\<close>: following \<open>next\<close> from \<open>p\<close> meets the segments \<open>xs\<close> and ends.\<close>

fun linked :: "'a msg_segment_scheme list \<Rightarrow> nat option \<Rightarrow> nat list \<Rightarrow> bool" where
  "linked segs p [] \<longleftrightarrow> p = None"
| "linked segs p (x # xs) \<longleftrightarrow> p = Some x \<and> x < length segs \<and> linked segs (seg_next (segs ! x)) xs"

lemma linked_None [simp]: "linked segs None xs \<longleftrightarrow> xs = []"
  by (cases xs) auto

lemma linked_SomeE:
  assumes "linked segs (Some i) xs"
  obtains ys where "xs = i # ys" "i < length segs" "linked segs (seg_next (segs ! i)) ys"
  using assms by (cases xs) auto

lemma linked_unique: "linked segs p xs \<Longrightarrow> linked segs p ys \<Longrightarrow> xs = ys"
proof (induction xs arbitrary: p ys)
  case (Cons x xs)
  then show ?case by (cases ys) auto
qed simp

lemma linked_cong:
  assumes "linked segs p xs" and "length segs \<le> length segs'"
    and "\<And>x. x \<in> set xs \<Longrightarrow> seg_next (segs' ! x) = seg_next (segs ! x)"
  shows "linked segs' p xs"
  using assms by (induction xs arbitrary: p) auto

lemma linked_bounded: "linked segs p xs \<Longrightarrow> x \<in> set xs \<Longrightarrow> x < length segs"
  by (induction xs arbitrary: p) auto

lemma linked_distinct:
  assumes "linked segs p xs"
  shows "distinct xs"
  using assms
proof (induction xs arbitrary: p)
  case (Cons x xs)
  then have l: "linked segs (seg_next (segs ! x)) xs" by simp
  have "x \<notin> set xs"
  proof
    assume "x \<in> set xs"
    then obtain us vs where xs: "xs = us @ x # vs" by (auto simp: in_set_conv_decomp)
    have "linked segs q (us @ x # vs) \<Longrightarrow> linked segs (seg_next (segs ! x)) vs" for q
      by (induction us arbitrary: q) auto
    then have "linked segs (seg_next (segs ! x)) vs" using l xs by blast
    then have "vs = xs" using linked_unique l by blast
    then show False using xs by (metis append_Cons append_eq_append_conv2 length_append length_Cons
        not_add_less2 less_Suc_eq add.commute lessI)
  qed
  with Cons l show ?case by auto
qed simp

lemma linked_length: "linked segs p xs \<Longrightarrow> length xs \<le> length segs"
proof -
  assume l: "linked segs p xs"
  then have "set xs \<subseteq> {0..<length segs}" using linked_bounded by fastforce
  then have "card (set xs) \<le> length segs" using card_mono [of "{0..<length segs}"] by fastforce
  then show ?thesis using linked_distinct [OF l] by (simp add: distinct_card)
qed

text \<open>The bytes of a chain, and what the loops compute on it.\<close>

definition chain_bytes :: "memory \<Rightarrow> 'a msg_segment_scheme list \<Rightarrow> nat list \<Rightarrow> u8 list" where
  "chain_bytes mem segs xs = concat (map (\<lambda>x. read_mem mem (seg_buf (segs ! x)) (unat (seg_size (segs ! x)))) xs)"

lemma length_read_mem [simp]: "length (read_mem mem a n) = n"
  by (simp add: read_mem_def)

lemma NumSegments_loop_eq:
  "linked segs p xs \<Longrightarrow> length xs \<le> fuel \<Longrightarrow> NumSegments_loop fuel segs p n = Some (n + of_nat (length xs))"
proof (induction xs arbitrary: p fuel n)
  case (Cons x xs)
  then show ?case by (cases fuel) (auto simp: algebra_simps)
qed simp

lemma NumSegments_eq: "linked segs (Some i) xs \<Longrightarrow> NumSegments segs i = Some (of_nat (length xs))"
  using NumSegments_loop_eq [OF _ linked_length] by (fastforce simp: NumSegments_def)

lemma TotalSize_loop_eq:
  "linked segs p xs \<Longrightarrow> length xs \<le> fuel \<Longrightarrow>
     TotalSize_loop fuel segs p n = Some (n + (\<Sum>x \<leftarrow> xs. ucast (seg_size (segs ! x))))"
proof (induction xs arbitrary: p fuel n)
  case (Cons x xs)
  then show ?case by (cases fuel) (auto simp: algebra_simps)
qed simp

lemma GetIovec_loop_eq:
  "linked segs p xs \<Longrightarrow> GetIovec_loop segs p room =
     (if length xs \<le> room then Some (map (\<lambda>x. (seg_buf (segs ! x), seg_size (segs ! x))) xs) else None)"
proof (induction xs arbitrary: p room)
  case (Cons x xs)
  then show ?case by (cases room) auto
qed simp

lemma GetIovec_eq:
  assumes "linked segs (Some i) xs"
  shows "GetIovec segs i iovcnt =
    (if length xs \<le> iovcnt then Some (int (length xs), map (\<lambda>x. (seg_buf (segs ! x), seg_size (segs ! x))) xs)
     else Some (- uint (of_nat (length xs) :: u32), []))"
  using assms by (simp add: GetIovec_def GetIovec_loop_eq NumSegments_eq)

lemma IovecMatch_self:
  "linked segs p xs \<Longrightarrow> IovecMatch segs p (map (\<lambda>x. (seg_buf (segs ! x), seg_size (segs ! x))) xs)"
  by (induction xs arbitrary: p) auto

lemma ValidCRC_loop_eq:
  "linked segs p xs \<Longrightarrow> length xs \<le> fuel \<Longrightarrow> ValidCRC_loop fuel mem z True segs p =
     Some (\<forall>x \<in> set xs. (z \<and> bi_crc32c (seg_blockInfo (segs ! x)) = 0)
        \<or> crc_value (read_mem mem (seg_buf (segs ! x)) (unat (seg_size (segs ! x)))) = bi_crc32c (seg_blockInfo (segs ! x)))"
proof (induction xs arbitrary: p fuel)
  case (Cons x xs)
  then show ?case by (cases fuel) (auto simp: Let_def)
qed simp

lemma CopyToBuffer_loop_all:
  assumes "linked segs p xs" "length xs \<le> fuel"
    and "unat t + (\<Sum>x \<leftarrow> xs. unat (seg_size (segs ! x))) \<le> unat mx"
  shows "\<exists>t'. CopyToBuffer_loop fuel mem mx segs p t = Some (chain_bytes mem segs xs, t')
    \<and> unat t' = unat t + (\<Sum>x \<leftarrow> xs. unat (seg_size (segs ! x)))"
  using assms
proof (induction xs arbitrary: p fuel t)
  case (Cons x xs)
  then obtain f where f: "fuel = Suc f" by (cases fuel) auto
  let ?s = "seg_size (segs ! x)"
  have "unat mx < 2 ^ 64" using unsigned_less [of mx, where ?'a = nat] by simp
  moreover have le: "unat t + unat ?s \<le> unat mx" using Cons.prems(3) by simp
  ultimately have add: "unat (t + ucast ?s) = unat t + unat ?s"
    using unat_add_u64 [of t "ucast ?s"] by simp
  then have "\<not> t + ucast ?s > mx" using le by (simp add: word_less_nat_alt)
  moreover obtain t' where "CopyToBuffer_loop f mem mx segs (seg_next (segs ! x)) (t + ucast ?s) = Some (chain_bytes mem segs xs, t')"
      "unat t' = unat (t + ucast ?s) + (\<Sum>x \<leftarrow> xs. unat (seg_size (segs ! x)))"
    using Cons.IH [of "seg_next (segs ! x)" f "t + ucast ?s"] Cons.prems add by (auto simp: f)
  ultimately show ?case using Cons.prems add by (simp add: f Let_def chain_bytes_def)
qed (simp add: chain_bytes_def)

end
