(* ===== verification/Send_Manager.thy ===== *)
theory Send_Manager
  imports Message_Segment
begin

text \<open>
  \<open>ClientSendManager\<close> (src/ClientSendManager.cc): the pool of producer slabs of a client.  Slabs
  move from \<open>freeSlabs\<close> to \<open>workingSlabs\<close>, where runs of blocks are allocated front to back, to
  \<open>fullSlabs\<close> and, when the last run is released, to \<open>retiredSlabs\<close>.

  \<^item> A \<open>SlabInfo&\<close> is the slab's index in \<open>slabInfoVec\<close>, a \<open>SendMsgSegment*\<close> the index of a
    segment; the intrusive lists are lists of indices.  Pushing an element that is on a list
    fails the assertion of the hook; erasing one that is not on the list corrupts the lists.
  \<^item> \<open>buf\<close> is the address of the slab's first block in the client's writeable mapping.
\<close>

section \<open>Model\<close>

record send_slab =
  ss_slabID :: u32
  ss_blocksUsed :: u32
  ss_refcount :: u32
  ss_working :: bool
  ss_buf :: nat

definition SendSlab :: "u32 \<Rightarrow> send_slab" where
  "SendSlab sid = \<lparr>ss_slabID = sid, ss_blocksUsed = 0, ss_refcount = 0, ss_working = False, ss_buf = 0\<rparr>"

definition SI_Reset :: "nat \<Rightarrow> send_slab \<Rightarrow> send_slab" where
  "SI_Reset p s = s\<lparr>ss_blocksUsed := 0, ss_refcount := 0, ss_working := False, ss_buf := p\<rparr>"

record send_manager =
  sm_blockSize :: u32
  sm_slabSize :: u32
  sm_blocksPerSlab :: u32
  sm_maxWorkingSlabs :: u32
  sm_slabsHeld :: u32
  sm_free :: "nat list"
  sm_working :: "nat list"
  sm_full :: "nat list"
  sm_retired :: "nat list"
  sm_slabInfoVec :: "send_slab list"
  sm_freeSegs :: "nat list"
  sm_busySegs :: "nat list"
  sm_segs :: "msg_segment list"

definition sm_kNumSegs :: nat where "sm_kNumSegs = 32"

definition sm_AddMsgSegBlock :: "send_manager \<Rightarrow> send_manager" where
  "sm_AddMsgSegBlock m =
     (let n = length (sm_segs m)
      in m\<lparr>sm_segs := sm_segs m @ replicate sm_kNumSegs MessageSegment,
           sm_freeSegs := sm_freeSegs m @ [n..<n + sm_kNumSegs]\<rparr>)"

definition ClientSendManager :: send_manager where
  "ClientSendManager = sm_AddMsgSegBlock
     \<lparr>sm_blockSize = 0, sm_slabSize = 0, sm_blocksPerSlab = 0, sm_maxWorkingSlabs = 1, sm_slabsHeld = 0,
      sm_free = [], sm_working = [], sm_full = [], sm_retired = [], sm_slabInfoVec = [],
      sm_freeSegs = [], sm_busySegs = [], sm_segs = []\<rparr>"

definition SetSizeParams :: "u32 \<Rightarrow> u32 \<Rightarrow> send_manager \<Rightarrow> (unit, send_manager) outcome" where
  "SetSizeParams blockSz slabSz m =
     (if blockSz = 0 then Crash DivideByZero
      else let bps = slabSz div blockSz in
        if slabSz \<noteq> bps * blockSz then Crash AssertionFailed
        else Ok () (m\<lparr>sm_blockSize := blockSz, sm_slabSize := slabSz, sm_blocksPerSlab := bps\<rparr>))"

definition SetNumTotalSlabs :: "u32 \<Rightarrow> send_manager \<Rightarrow> send_manager" where
  "SetNumTotalSlabs n m =
     (let k = length (sm_slabInfoVec m) in
      if k \<ge> unat n then m
      else m\<lparr>sm_slabInfoVec := sm_slabInfoVec m @ map (\<lambda>i. SendSlab (of_nat i)) [k..<unat n]\<rparr>)"

text \<open>The four slab lists.\<close>

definition sm_listed :: "send_manager \<Rightarrow> nat list" where
  "sm_listed m = sm_free m @ sm_working m @ sm_full m @ sm_retired m"

definition upd_send_slab :: "nat \<Rightarrow> (send_slab \<Rightarrow> send_slab) \<Rightarrow> send_manager \<Rightarrow> send_manager" where
  "upd_send_slab i f m = m\<lparr>sm_slabInfoVec := (sm_slabInfoVec m)[i := f (sm_slabInfoVec m ! i)]\<rparr>"

definition AddFreeSlab :: "u32 \<times> nat \<Rightarrow> send_manager \<Rightarrow> (unit, send_manager) outcome" where
  "AddFreeSlab = (\<lambda>(slabID, ptr) m.
     let m = (if unat slabID \<ge> length (sm_slabInfoVec m) then SetNumTotalSlabs (slabID + 1) m else m);
         i = unat slabID
     in if i \<ge> length (sm_slabInfoVec m) then Crash OutOfBounds
        else if i \<in> set (sm_listed m) then Crash AssertionFailed
        else Ok () (upd_send_slab i (SI_Reset ptr) (m\<lparr>sm_free := sm_free m @ [i]\<rparr>)))"

definition AddFreeSlabs :: "(u32 \<times> nat) list \<Rightarrow> send_manager \<Rightarrow> (unit, send_manager) outcome" where
  "AddFreeSlabs slabs m =
     bind_o (for_each AddFreeSlab slabs m) (\<lambda>_ m.
       Ok () (m\<lparr>sm_slabsHeld := sm_slabsHeld m + of_nat (length slabs)\<rparr>))"

definition GetRetiredSlabs :: "nat \<Rightarrow> send_manager \<Rightarrow> u32 list \<times> send_manager" where
  "GetRetiredSlabs maxCount m =
     (let now = take maxCount (sm_retired m)
      in (map (\<lambda>i. ss_slabID (sm_slabInfoVec m ! i)) now,
          m\<lparr>sm_retired := drop maxCount (sm_retired m), sm_slabsHeld := sm_slabsHeld m - of_nat (length now)\<rparr>))"

text \<open>One iteration of the loop of \<open>MaxWorkingSlabs\<close>: the oldest working slab is closed.\<close>

definition close_oldest :: "send_manager \<Rightarrow> (unit, send_manager) outcome" where
  "close_oldest m =
     (case sm_working m of
        [] \<Rightarrow> Crash OutOfBounds
      | i # is \<Rightarrow>
          (let m = upd_send_slab i (\<lambda>s. s\<lparr>ss_working := False\<rparr>) (m\<lparr>sm_working := is\<rparr>) in
           if i \<in> set (sm_listed m) then Crash AssertionFailed
           else if ss_refcount (sm_slabInfoVec m ! i) \<noteq> 0 then Ok () (m\<lparr>sm_full := sm_full m @ [i]\<rparr>)
           else Ok () (m\<lparr>sm_retired := sm_retired m @ [i]\<rparr>)))"

fun close_slabs :: "nat \<Rightarrow> send_manager \<Rightarrow> (unit, send_manager) outcome" where
  "close_slabs 0 m = Ok () m"
| "close_slabs (Suc k) m = bind_o (close_oldest m) (\<lambda>_. close_slabs k)"

definition MaxWorkingSlabs :: "u32 \<Rightarrow> send_manager \<Rightarrow> (u32, send_manager) outcome" where
  "MaxWorkingSlabs maxSlabs m =
     bind_o (close_slabs (length (sm_working m) - unat maxSlabs) (m\<lparr>sm_maxWorkingSlabs := maxSlabs\<rparr>)) (\<lambda>_. Ok maxSlabs)"

definition FlushWorkingSlabs :: "send_manager \<Rightarrow> (unit, send_manager) outcome" where
  "FlushWorkingSlabs m =
     (let slabs = sm_maxWorkingSlabs m in
      bind_o (MaxWorkingSlabs 0 m) (\<lambda>_ m. bind_o (MaxWorkingSlabs slabs m) (\<lambda>_. Ok ())))"

text \<open>\<open>GetSegment\<close> from the comment ``we will allocate a segment from the slab at *it'' on.\<close>

definition fill_segment :: "nat \<Rightarrow> u32 \<Rightarrow> send_slab \<Rightarrow> u32 \<Rightarrow> u32 \<Rightarrow> msg_segment" where
  "fill_segment buf nBlocks slab bps bsz =
     \<lparr>seg_buf = buf + unat (ss_blocksUsed slab * bsz), seg_size = nBlocks * bsz,
      seg_blockID = ss_slabID slab * bps + ss_blocksUsed slab, seg_next = None\<rparr>"

definition alloc_at :: "nat \<Rightarrow> u32 \<Rightarrow> send_manager \<Rightarrow> (nat option, send_manager) outcome" where
  "alloc_at i nBlocks m =
     (let m = (if sm_freeSegs m = [] then sm_AddMsgSegBlock m else m);
          seg = hd (sm_freeSegs m);
          m = m\<lparr>sm_freeSegs := tl (sm_freeSegs m), sm_busySegs := sm_busySegs m @ [seg]\<rparr>;
          slab = sm_slabInfoVec m ! i
      in if \<not> ss_working slab then Crash AssertionFailed
         else
           let m = upd_send_slab i (\<lambda>s. s\<lparr>ss_blocksUsed := ss_blocksUsed s + nBlocks, ss_refcount := ss_refcount s + 1\<rparr>) m;
               m = m\<lparr>sm_segs := (sm_segs m)[seg := fill_segment (ss_buf slab) nBlocks slab (sm_blocksPerSlab m) (sm_blockSize m)]\<rparr>;
               m = (if sm_blocksPerSlab m - ss_blocksUsed (sm_slabInfoVec m ! i) = 0
                    then upd_send_slab i (\<lambda>s. s\<lparr>ss_working := False\<rparr>)
                           (m\<lparr>sm_working := remove1 i (sm_working m), sm_full := sm_full m @ [i]\<rparr>)
                    else m)
           in if length (sm_working m) > unat (sm_maxWorkingSlabs m)
              then bind_o (MaxWorkingSlabs (sm_maxWorkingSlabs m) m) (\<lambda>_. Ok (Some seg))
              else Ok (Some seg) m)"

definition find_room :: "u32 \<Rightarrow> send_manager \<Rightarrow> nat option" where
  "find_room nBlocks m =
     find (\<lambda>i. sm_blocksPerSlab m - ss_blocksUsed (sm_slabInfoVec m ! i) \<ge> nBlocks) (sm_working m)"

definition GetSegment :: "u32 \<Rightarrow> bool \<Rightarrow> send_manager \<Rightarrow> (nat option, send_manager) outcome" where
  "GetSegment nBlocks noFreeSlabs m =
     (if nBlocks > sm_blocksPerSlab m then Throw ''ClientSendManager::GetSegment: nBlocks exceeds blocksPerSlab'' m
      else case (if nBlocks < sm_blocksPerSlab m then find_room nBlocks m else None) of
        Some i \<Rightarrow> alloc_at i nBlocks m
      | None \<Rightarrow>
          (if sm_free m = [] \<or> noFreeSlabs then Ok None m
           else let i = hd (sm_free m)
                in alloc_at i nBlocks (upd_send_slab i (\<lambda>s. s\<lparr>ss_working := True\<rparr>)
                     (m\<lparr>sm_free := tl (sm_free m), sm_working := sm_working m @ [i]\<rparr>))))"

text \<open>The loop over the whole slabs of a message that spans several: \<open>segN\<close> is the last segment of the chain.\<close>

fun chain_slabs ::
  "nat \<Rightarrow> nat option \<Rightarrow> nat option \<Rightarrow> send_manager \<Rightarrow> (nat option, send_manager) outcome" where
  "chain_slabs 0 seg0 segN m = Ok seg0 m"
| "chain_slabs (Suc k) seg0 segN m =
     bind_o (GetSegment (sm_blocksPerSlab m) False m) (\<lambda>next m.
       let (seg0, segN) = (if seg0 = None then (next, next) else (seg0, segN)) in
       case segN of
         None \<Rightarrow> Crash NullDereference
       | Some n \<Rightarrow> chain_slabs k seg0 next (m\<lparr>sm_segs := (sm_segs m)[n := (sm_segs m ! n)\<lparr>seg_next := next\<rparr>]\<rparr>))"

definition blocks_needed :: "u32 \<Rightarrow> u32 \<Rightarrow> u32" where
  "blocks_needed len bsz = (let n = (len - 1 + bsz) div bsz in if n = 0 then 1 else n)"

definition GetMessageDescriptor :: "u32 \<Rightarrow> bool \<Rightarrow> send_manager \<Rightarrow> (nat option, send_manager) outcome" where
  "GetMessageDescriptor len contiguous m =
     (if sm_blockSize m = 0 then Ok None m
      else
        let nBlocks = blocks_needed len (sm_blockSize m); bps = sm_blocksPerSlab m in
        if contiguous \<or> nBlocks \<le> bps then GetSegment nBlocks False m
        else if bps = 0 then Crash DivideByZero
        else
          let wholeSlabs = unat (nBlocks div bps); part = nBlocks - nBlocks div bps * bps in
          if wholeSlabs > length (sm_free m) then Ok None m
          else if part \<noteq> 0 then
            bind_o (GetSegment part (wholeSlabs = length (sm_free m)) m) (\<lambda>seg0 m.
              if seg0 = None then Ok None m else chain_slabs wholeSlabs seg0 seg0 m)
          else chain_slabs wholeSlabs None None m)"

fun ReleaseMessageDescriptor_loop ::
  "nat \<Rightarrow> nat option \<Rightarrow> send_manager \<Rightarrow> (unit, send_manager) outcome" where
  "ReleaseMessageDescriptor_loop fuel None m = Ok () m"
| "ReleaseMessageDescriptor_loop 0 (Some seg) m = Crash NonTermination"
| "ReleaseMessageDescriptor_loop (Suc fuel) (Some seg) m =
     (if sm_blocksPerSlab m = 0 then Crash DivideByZero
      else let i = unat (seg_blockID (sm_segs m ! seg) div sm_blocksPerSlab m) in
        if i \<ge> length (sm_slabInfoVec m) then Crash OutOfBounds
        else
          let m = upd_send_slab i (\<lambda>s. s\<lparr>ss_refcount := ss_refcount s - 1\<rparr>) m;
              info = sm_slabInfoVec m ! i
          in if seg \<notin> set (sm_busySegs m) then Crash ListCorruption
             else
               let m = m\<lparr>sm_busySegs := remove1 seg (sm_busySegs m), sm_freeSegs := sm_freeSegs m @ [seg]\<rparr> in
               if \<not> ss_working info \<and> ss_refcount info = 0 then
                 if i \<notin> set (sm_full m) then Crash ListCorruption
                 else ReleaseMessageDescriptor_loop fuel (seg_next (sm_segs m ! seg))
                        (m\<lparr>sm_full := remove1 i (sm_full m), sm_retired := sm_retired m @ [i]\<rparr>)
               else ReleaseMessageDescriptor_loop fuel (seg_next (sm_segs m ! seg)) m)"

definition ReleaseMessageDescriptor :: "nat option \<Rightarrow> send_manager \<Rightarrow> (unit, send_manager) outcome" where
  "ReleaseMessageDescriptor desc m = ReleaseMessageDescriptor_loop (length (sm_segs m)) desc m"

section \<open>Invariant\<close>

abbreviation send_slab_at :: "send_manager \<Rightarrow> nat \<Rightarrow> send_slab" where
  "send_slab_at m i \<equiv> sm_slabInfoVec m ! i"

text \<open>The run of blocks of a segment: its slab, its first block in the slab and its length.\<close>

definition seg_slab :: "send_manager \<Rightarrow> nat \<Rightarrow> nat" where
  "seg_slab m s = unat (seg_blockID (sm_segs m ! s)) div unat (sm_blocksPerSlab m)"

definition seg_run :: "send_manager \<Rightarrow> nat \<Rightarrow> nat \<times> nat" where
  "seg_run m s = (unat (seg_blockID (sm_segs m ! s)) mod unat (sm_blocksPerSlab m),
                  unat (seg_size (sm_segs m ! s)) div unat (sm_blockSize m))"

definition runs :: "send_manager \<Rightarrow> nat \<Rightarrow> (nat \<times> nat) list" where
  "runs m i = map (seg_run m) (filter (\<lambda>s. seg_slab m s = i) (sm_busySegs m))"

text \<open>Runs that lie one after the other, none empty, from \<open>lo\<close> to \<open>hi\<close>.\<close>

fun packed :: "nat \<Rightarrow> (nat \<times> nat) list \<Rightarrow> nat \<Rightarrow> bool" where
  "packed lo [] hi \<longleftrightarrow> lo \<le> hi"
| "packed lo ((off, len) # rs) hi \<longleftrightarrow> lo \<le> off \<and> 0 < len \<and> packed (off + len) rs hi"

lemma packed_mono: "packed lo rs hi \<Longrightarrow> lo' \<le> lo \<Longrightarrow> hi \<le> hi' \<Longrightarrow> packed lo' rs hi'"
  by (induction lo rs hi arbitrary: lo' hi' rule: packed.induct) auto

lemma packed_snoc: "packed lo rs hi \<Longrightarrow> 0 < n \<Longrightarrow> packed lo (rs @ [(hi, n)]) (hi + n)"
  by (induction lo rs hi rule: packed.induct) auto

lemma packed_remove: "packed lo (us @ r # vs) hi \<Longrightarrow> packed lo (us @ vs) hi"
proof (induction us arbitrary: lo)
  case Nil
  then show ?case by (cases r) (auto elim: packed_mono)
next
  case (Cons u us)
  then show ?case by (cases u) auto
qed

lemma packed_le: "packed lo rs hi \<Longrightarrow> lo \<le> hi"
  by (induction lo rs hi rule: packed.induct) auto

lemma packed_bounds: "packed lo rs hi \<Longrightarrow> (off, len) \<in> set rs \<Longrightarrow> lo \<le> off \<and> 0 < len \<and> off + len \<le> hi"
proof (induction lo rs hi rule: packed.induct)
  case (2 lo o' l' rs hi)
  then show ?case
    using packed_le [of "o' + l'" rs hi] by (cases "(off, len) = (o', l')") auto
qed simp

lemma packed_length: "packed lo rs hi \<Longrightarrow> lo + length rs \<le> hi"
  by (induction lo rs hi rule: packed.induct) auto

text \<open>Different positions of the list are disjoint runs.\<close>

lemma packed_disjoint:
  assumes "packed lo (us @ (o1, l1) # vs @ (o2, l2) # ws) hi"
  shows "o1 + l1 \<le> o2"
proof -
  have "packed lo (us @ (o1, l1) # vs @ (o2, l2) # ws) hi \<Longrightarrow> packed (o1 + l1) (vs @ (o2, l2) # ws) hi" for lo
    by (induction us arbitrary: lo) auto
  then have "packed (o1 + l1) (vs @ (o2, l2) # ws) hi" using assms by blast
  then show ?thesis using packed_bounds [of _ _ _ o2 l2] by fastforce
qed

definition state_ok :: "send_manager \<Rightarrow> nat \<Rightarrow> bool" where
  "state_ok m i \<longleftrightarrow> (let s = send_slab_at m i in
     if i \<in> set (sm_free m) then ss_blocksUsed s = 0 \<and> ss_refcount s = 0 \<and> \<not> ss_working s
     else if i \<in> set (sm_working m) then ss_working s \<and> ss_blocksUsed s < sm_blocksPerSlab m
     else if i \<in> set (sm_full m) then \<not> ss_working s \<and> ss_refcount s \<noteq> 0
     else \<not> ss_working s \<and> ss_refcount s = 0)"

definition slab_runs_ok :: "send_manager \<Rightarrow> nat \<Rightarrow> bool" where
  "slab_runs_ok m i \<longleftrightarrow> (let s = send_slab_at m i in
     ss_slabID s = of_nat i \<and> unat (ss_refcount s) = length (runs m i)
     \<and> packed 0 (runs m i) (unat (ss_blocksUsed s)) \<and> ss_blocksUsed s \<le> sm_blocksPerSlab m)"

definition busy_ok :: "send_manager \<Rightarrow> nat \<Rightarrow> bool" where
  "busy_ok m s \<longleftrightarrow> seg_slab m s < length (sm_slabInfoVec m)
     \<and> unat (seg_size (sm_segs m ! s)) = snd (seg_run m s) * unat (sm_blockSize m)
     \<and> seg_buf (sm_segs m ! s) = ss_buf (send_slab_at m (seg_slab m s)) + fst (seg_run m s) * unat (sm_blockSize m)"

definition sizes_ok :: "send_manager \<Rightarrow> bool" where
  "sizes_ok m \<longleftrightarrow> sm_blockSize m \<noteq> 0 \<and> sm_blocksPerSlab m \<noteq> 0
     \<and> unat (sm_blocksPerSlab m) * unat (sm_blockSize m) < 2 ^ 32
     \<and> length (sm_slabInfoVec m) * unat (sm_blocksPerSlab m) < 2 ^ 32"

definition send_inv :: "send_manager \<Rightarrow> bool" where
  "send_inv m \<longleftrightarrow> sizes_ok m
     \<and> distinct (sm_listed m) \<and> (\<forall>i \<in> set (sm_listed m). i < length (sm_slabInfoVec m))
     \<and> unat (sm_slabsHeld m) = length (sm_listed m)
     \<and> pool (sm_freeSegs m @ sm_busySegs m) (length (sm_segs m))
     \<and> (\<forall>i < length (sm_slabInfoVec m). state_ok m i \<and> slab_runs_ok m i)
     \<and> (\<forall>s \<in> set (sm_busySegs m). busy_ok m s)"

text \<open>What the operations that allocate nothing leave alone.\<close>

definition same_segs :: "send_manager \<Rightarrow> send_manager \<Rightarrow> bool" where
  "same_segs m m' \<longleftrightarrow> sm_segs m' = sm_segs m \<and> sm_busySegs m' = sm_busySegs m \<and> sm_freeSegs m' = sm_freeSegs m
     \<and> sm_blocksPerSlab m' = sm_blocksPerSlab m \<and> sm_blockSize m' = sm_blockSize m"

lemma same_segs_runs: "same_segs m m' \<Longrightarrow> runs m' = runs m \<and> seg_slab m' = seg_slab m \<and> seg_run m' = seg_run m"
  by (auto simp: same_segs_def runs_def seg_slab_def seg_run_def fun_eq_iff)

lemma same_segs_updates [simp]:
  "same_segs m (m'\<lparr>sm_free := xs\<rparr>) = same_segs m m'"
  "same_segs m (m'\<lparr>sm_working := xs\<rparr>) = same_segs m m'"
  "same_segs m (m'\<lparr>sm_full := xs\<rparr>) = same_segs m m'"
  "same_segs m (m'\<lparr>sm_retired := xs\<rparr>) = same_segs m m'"
  "same_segs m (m'\<lparr>sm_maxWorkingSlabs := n\<rparr>) = same_segs m m'"
  "same_segs m (m'\<lparr>sm_slabsHeld := n\<rparr>) = same_segs m m'"
  "same_segs m (m'\<lparr>sm_slabInfoVec := v\<rparr>) = same_segs m m'"
  "same_segs m (upd_send_slab i f m') = same_segs m m'"
  "same_segs m m"
  by (simp_all add: same_segs_def upd_send_slab_def)

lemma same_segs_trans: "same_segs m m' \<Longrightarrow> same_segs m' m'' \<Longrightarrow> same_segs m m''"
  by (simp add: same_segs_def)

text \<open>
  Moving one slab between the lists: the segments stay, and only the slab's \<open>working\<close> flag
  changes.
\<close>

lemma send_inv_move:
  assumes inv: "send_inv m" and i: "i < length (sm_slabInfoVec m)"
    and same: "same_segs m m'" and vec: "sm_slabInfoVec m' = (sm_slabInfoVec m)[i := (send_slab_at m i)\<lparr>ss_working := w\<rparr>]"
    and lists: "mset (sm_listed m') = mset (sm_listed m)" "sm_slabsHeld m' = sm_slabsHeld m"
    and others: "\<And>j. j < length (sm_slabInfoVec m) \<Longrightarrow> j \<noteq> i \<Longrightarrow> state_ok m' j = state_ok m j" and "state_ok m' i"
  shows "send_inv m'"
proof -
  have len: "length (sm_slabInfoVec m') = length (sm_slabInfoVec m)" by (simp add: vec)
  have slab: "send_slab_at m' j = (if j = i then (send_slab_at m i)\<lparr>ss_working := w\<rparr> else send_slab_at m j)" if "j < length (sm_slabInfoVec m)" for j
    using that by (simp add: vec)
  have sm: "runs m' = runs m" "seg_slab m' = seg_slab m" "seg_run m' = seg_run m" using same_segs_runs [OF same] by simp_all
  have f: "sm_segs m' = sm_segs m" "sm_busySegs m' = sm_busySegs m" "sm_freeSegs m' = sm_freeSegs m"
      "sm_blocksPerSlab m' = sm_blocksPerSlab m" "sm_blockSize m' = sm_blockSize m"
    using same by (simp_all add: same_segs_def)
  have "state_ok m' j \<and> slab_runs_ok m' j" if "j < length (sm_slabInfoVec m)" for j
    using that inv others [of j] \<open>state_ok m' i\<close>
    by (cases "j = i") (simp_all add: send_inv_def slab_runs_ok_def slab sm f Let_def)
  moreover have "busy_ok m' s" if "s \<in> set (sm_busySegs m)" for s
    using that inv by (auto simp: send_inv_def busy_ok_def sm f len slab)
  moreover have "sizes_ok m'" using inv by (simp add: send_inv_def sizes_ok_def f len)
  moreover have "distinct (sm_listed m')" using inv lists by (metis mset_eq_imp_distinct_iff send_inv_def)
  moreover have "set (sm_listed m') = set (sm_listed m)" "length (sm_listed m') = length (sm_listed m)"
    using lists(1) by (metis mset_eq_setD) (metis lists(1) size_mset)
  ultimately show ?thesis using inv lists(2) by (simp add: send_inv_def f len)
qed

lemma listed_distinct:
  assumes "send_inv m"
  shows "distinct (sm_free m)" "distinct (sm_working m)" "distinct (sm_full m)" "distinct (sm_retired m)"
    "set (sm_free m) \<inter> set (sm_working m) = {}" "set (sm_free m) \<inter> set (sm_full m) = {}"
    "set (sm_free m) \<inter> set (sm_retired m) = {}" "set (sm_working m) \<inter> set (sm_full m) = {}"
    "set (sm_working m) \<inter> set (sm_retired m) = {}" "set (sm_full m) \<inter> set (sm_retired m) = {}"
  using assms by (auto simp: send_inv_def sm_listed_def)

lemma send_invD:
  assumes "send_inv m"
  shows "sizes_ok m" "i \<in> set (sm_listed m) \<Longrightarrow> i < length (sm_slabInfoVec m)"
    "i < length (sm_slabInfoVec m) \<Longrightarrow> state_ok m i" "i < length (sm_slabInfoVec m) \<Longrightarrow> slab_runs_ok m i"
    "s \<in> set (sm_busySegs m) \<Longrightarrow> busy_ok m s"
    "pool (sm_freeSegs m @ sm_busySegs m) (length (sm_segs m))" "unat (sm_slabsHeld m) = length (sm_listed m)"
  using assms by (auto simp: send_inv_def)

lemma slab_state:
  assumes inv: "send_inv m"
  shows "i \<in> set (sm_free m) \<Longrightarrow> ss_blocksUsed (send_slab_at m i) = 0 \<and> ss_refcount (send_slab_at m i) = 0 \<and> \<not> ss_working (send_slab_at m i)"
    and "i \<in> set (sm_working m) \<Longrightarrow> ss_working (send_slab_at m i) \<and> ss_blocksUsed (send_slab_at m i) < sm_blocksPerSlab m"
    and "i \<in> set (sm_full m) \<Longrightarrow> \<not> ss_working (send_slab_at m i) \<and> ss_refcount (send_slab_at m i) \<noteq> 0"
    and "i \<in> set (sm_retired m) \<Longrightarrow> \<not> ss_working (send_slab_at m i) \<and> ss_refcount (send_slab_at m i) = 0"
proof -
  have st: "state_ok m i" if "i \<in> set (sm_listed m)" using send_invD [OF inv] that by blast
  note d = listed_distinct [OF inv]
  show "i \<in> set (sm_free m) \<Longrightarrow> ss_blocksUsed (send_slab_at m i) = 0 \<and> ss_refcount (send_slab_at m i) = 0 \<and> \<not> ss_working (send_slab_at m i)"
    using st by (simp add: state_ok_def sm_listed_def Let_def)
  show "i \<in> set (sm_working m) \<Longrightarrow> ss_working (send_slab_at m i) \<and> ss_blocksUsed (send_slab_at m i) < sm_blocksPerSlab m"
    using st d(5) by (simp add: state_ok_def sm_listed_def Let_def disjoint_iff split: if_splits)
  show "i \<in> set (sm_full m) \<Longrightarrow> \<not> ss_working (send_slab_at m i) \<and> ss_refcount (send_slab_at m i) \<noteq> 0"
    using st d(6,8) by (auto simp: state_ok_def sm_listed_def Let_def disjoint_iff split: if_splits)
  show "i \<in> set (sm_retired m) \<Longrightarrow> \<not> ss_working (send_slab_at m i) \<and> ss_refcount (send_slab_at m i) = 0"
    using st d(7,9,10) by (auto simp: state_ok_def sm_listed_def Let_def disjoint_iff split: if_splits)
qed

lemma close_oldest_spec:
  assumes inv: "send_inv m" and w: "sm_working m = i # is"
  shows "\<exists>m'. close_oldest m = Ok () m' \<and> send_inv m' \<and> same_segs m m' \<and> sm_working m' = is
    \<and> sm_free m' = sm_free m \<and> sm_maxWorkingSlabs m' = sm_maxWorkingSlabs m \<and> sm_slabsHeld m' = sm_slabsHeld m
    \<and> length (sm_slabInfoVec m') = length (sm_slabInfoVec m)"
proof -
  note d = listed_distinct [OF inv]
  have i: "i < length (sm_slabInfoVec m)" using send_invD(2) [OF inv, of i] w by (simp add: sm_listed_def)
  define m1 where "m1 = upd_send_slab i (\<lambda>s. s\<lparr>ss_working := False\<rparr>) (m\<lparr>sm_working := is\<rparr>)"
  have notin: "i \<notin> set (sm_listed m1)"
    using d w by (auto simp: sm_listed_def m1_def upd_send_slab_def)
  define m2 where "m2 = (if ss_refcount (send_slab_at m1 i) \<noteq> 0 then m1\<lparr>sm_full := sm_full m1 @ [i]\<rparr>
      else m1\<lparr>sm_retired := sm_retired m1 @ [i]\<rparr>)"
  have eq: "close_oldest m = Ok () m2"
    using notin by (simp add: close_oldest_def w Let_def m1_def [symmetric] m2_def)
  have "send_inv m2"
  proof (rule send_inv_move [OF inv i, where w = False])
    show "state_ok m2 j = state_ok m j" if "j < length (sm_slabInfoVec m)" "j \<noteq> i" for j
      using that w by (auto simp: state_ok_def m2_def m1_def upd_send_slab_def Let_def)
    show "state_ok m2 i"
      using notin i d w by (auto simp: state_ok_def m2_def m1_def upd_send_slab_def Let_def sm_listed_def)
  qed (auto simp: m2_def m1_def upd_send_slab_def sm_listed_def w)
  then show ?thesis using eq by (auto simp: m2_def m1_def upd_send_slab_def)
qed

lemma close_slabs_spec:
  assumes "send_inv m" "k \<le> length (sm_working m)"
  shows "\<exists>m'. close_slabs k m = Ok () m' \<and> send_inv m' \<and> same_segs m m' \<and> sm_working m' = drop k (sm_working m)
    \<and> sm_free m' = sm_free m \<and> sm_maxWorkingSlabs m' = sm_maxWorkingSlabs m \<and> sm_slabsHeld m' = sm_slabsHeld m
    \<and> length (sm_slabInfoVec m') = length (sm_slabInfoVec m)"
  using assms
proof (induction k arbitrary: m)
  case (Suc k)
  then obtain i "is" where w: "sm_working m = i # is" by (cases "sm_working m") auto
  from close_oldest_spec [OF Suc.prems(1) w] obtain m1 where m1: "close_oldest m = Ok () m1" "send_inv m1" "same_segs m m1"
      "sm_working m1 = is" "sm_free m1 = sm_free m" "sm_maxWorkingSlabs m1 = sm_maxWorkingSlabs m" "sm_slabsHeld m1 = sm_slabsHeld m"
      "length (sm_slabInfoVec m1) = length (sm_slabInfoVec m)"
    by blast
  from Suc.IH [OF m1(2)] Suc.prems w m1 show ?case by (auto intro: same_segs_trans)
qed simp

lemma send_inv_max [simp]: "send_inv (m\<lparr>sm_maxWorkingSlabs := n\<rparr>) = send_inv m"
  by (simp add: send_inv_def sizes_ok_def sm_listed_def state_ok_def slab_runs_ok_def busy_ok_def runs_def seg_slab_def
      seg_run_def [abs_def])

lemma MaxWorkingSlabs_spec:
  assumes "send_inv m"
  shows "\<exists>m'. MaxWorkingSlabs n m = Ok n m' \<and> send_inv m' \<and> same_segs m m'
    \<and> sm_working m' = drop (length (sm_working m) - unat n) (sm_working m)
    \<and> sm_free m' = sm_free m \<and> sm_maxWorkingSlabs m' = n \<and> sm_slabsHeld m' = sm_slabsHeld m
    \<and> length (sm_slabInfoVec m') = length (sm_slabInfoVec m)"
proof -
  have "send_inv (m\<lparr>sm_maxWorkingSlabs := n\<rparr>)" using assms by simp
  from close_slabs_spec [OF this, of "length (sm_working m) - unat n"] show ?thesis
    by (auto simp: MaxWorkingSlabs_def same_segs_def)
qed

lemma FlushWorkingSlabs_spec:
  assumes "send_inv m"
  shows "\<exists>m'. FlushWorkingSlabs m = Ok () m' \<and> send_inv m' \<and> same_segs m m' \<and> sm_working m' = []
    \<and> sm_free m' = sm_free m \<and> sm_maxWorkingSlabs m' = sm_maxWorkingSlabs m \<and> sm_slabsHeld m' = sm_slabsHeld m
    \<and> length (sm_slabInfoVec m') = length (sm_slabInfoVec m)"
proof -
  from MaxWorkingSlabs_spec [OF assms, of 0] obtain m1 where m1: "MaxWorkingSlabs 0 m = Ok 0 m1" "send_inv m1" "same_segs m m1"
      "sm_working m1 = []" "sm_free m1 = sm_free m" "sm_slabsHeld m1 = sm_slabsHeld m"
      "length (sm_slabInfoVec m1) = length (sm_slabInfoVec m)"
    by auto
  from MaxWorkingSlabs_spec [OF m1(2), of "sm_maxWorkingSlabs m"] m1 show ?thesis
    by (auto simp: FlushWorkingSlabs_def Let_def intro: same_segs_trans)
qed

section \<open>Allocation\<close>

text \<open>What an allocation keeps: the segments in use and their chains; new segments come after them.\<close>

definition segs_kept :: "send_manager \<Rightarrow> send_manager \<Rightarrow> bool" where
  "segs_kept m m' \<longleftrightarrow> length (sm_segs m) \<le> length (sm_segs m')
     \<and> (\<forall>s \<in> set (sm_busySegs m). s < length (sm_segs m) \<and> sm_segs m' ! s = sm_segs m ! s)
     \<and> sm_blocksPerSlab m' = sm_blocksPerSlab m \<and> sm_blockSize m' = sm_blockSize m
     \<and> length (sm_slabInfoVec m') = length (sm_slabInfoVec m)
     \<and> sm_maxWorkingSlabs m' = sm_maxWorkingSlabs m \<and> sm_slabsHeld m' = sm_slabsHeld m"

text \<open>The state of \<open>alloc_at\<close> before it may have to close a working slab.\<close>

definition alloc_mid :: "nat \<Rightarrow> u32 \<Rightarrow> nat \<Rightarrow> send_manager \<Rightarrow> send_manager" where
  "alloc_mid i nBlocks seg m =
     (let slab = send_slab_at m i;
          full = (sm_blocksPerSlab m - (ss_blocksUsed slab + nBlocks) = 0)
      in m\<lparr>sm_freeSegs := tl (sm_freeSegs m), sm_busySegs := sm_busySegs m @ [seg],
           sm_slabInfoVec := (sm_slabInfoVec m)[i := slab\<lparr>ss_blocksUsed := ss_blocksUsed slab + nBlocks,
             ss_refcount := ss_refcount slab + 1, ss_working := \<not> full\<rparr>],
           sm_segs := (sm_segs m)[seg := fill_segment (ss_buf slab) nBlocks slab (sm_blocksPerSlab m) (sm_blockSize m)],
           sm_working := (if full then remove1 i (sm_working m) else sm_working m),
           sm_full := (if full then sm_full m @ [i] else sm_full m)\<rparr>)"

lemma alloc_at_eq:
  assumes "sm_freeSegs m = seg # rest" and "ss_working (send_slab_at m i)" and "i < length (sm_slabInfoVec m)"
  shows "alloc_at i nBlocks m =
    (let m' = alloc_mid i nBlocks seg m in
     if length (sm_working m') > unat (sm_maxWorkingSlabs m')
     then bind_o (MaxWorkingSlabs (sm_maxWorkingSlabs m') m') (\<lambda>_. Ok (Some seg))
     else Ok (Some seg) m')"
proof -
  have eq: "slab\<lparr>ss_blocksUsed := u, ss_refcount := r\<rparr> = slab\<lparr>ss_blocksUsed := u, ss_refcount := r, ss_working := True\<rparr>"
    if "ss_working slab" for slab :: send_slab and u r
    using that by (cases slab) simp
  show ?thesis
    using assms by (cases m) (simp add: alloc_at_def alloc_mid_def upd_send_slab_def Let_def eq [symmetric])
qed

lemma AddMsgSegBlock_inv:
  assumes "send_inv m"
  shows "send_inv (sm_AddMsgSegBlock m)" "segs_kept m (sm_AddMsgSegBlock m)"
proof -
  let ?m = "sm_AddMsgSegBlock m"
  have busy: "s < length (sm_segs m)" if "s \<in> set (sm_busySegs m)" for s
    using that pool_set [OF send_invD(6) [OF assms]] by auto
  have f: "sm_blocksPerSlab ?m = sm_blocksPerSlab m" "sm_blockSize ?m = sm_blockSize m" "sm_busySegs ?m = sm_busySegs m"
      "sm_slabInfoVec ?m = sm_slabInfoVec m" "sm_listed ?m = sm_listed m" "sm_slabsHeld ?m = sm_slabsHeld m"
      "sm_free ?m = sm_free m" "sm_working ?m = sm_working m" "sm_full ?m = sm_full m"
    by (simp_all add: sm_AddMsgSegBlock_def Let_def sm_listed_def)
  have segs: "sm_segs ?m ! s = sm_segs m ! s" if "s \<in> set (sm_busySegs m)" for s
    using busy [OF that] by (simp add: sm_AddMsgSegBlock_def Let_def nth_append)
  have r: "seg_slab ?m s = seg_slab m s" "seg_run ?m s = seg_run m s" if "s \<in> set (sm_busySegs m)" for s
    by (simp_all add: seg_slab_def seg_run_def f segs [OF that])
  have "runs ?m i = runs m i" for i
    unfolding runs_def f by (rule map_cong) (auto simp: r intro: filter_cong)
  then have "slab_runs_ok ?m i = slab_runs_ok m i" "state_ok ?m i = state_ok m i" for i
    by (simp_all add: slab_runs_ok_def state_ok_def f)
  moreover have "busy_ok ?m s" if "s \<in> set (sm_busySegs m)" for s
    using send_invD(5) [OF assms that] by (simp add: busy_ok_def f r [OF that] segs [OF that])
  moreover have "pool (sm_freeSegs ?m @ sm_busySegs m) (length (sm_segs ?m))"
    using pool_grow [OF send_invD(6) [OF assms], of sm_kNumSegs]
    by (simp add: sm_AddMsgSegBlock_def Let_def pool_def ac_simps)
  ultimately show "send_inv ?m"
    using assms by (simp add: send_inv_def f sizes_ok_def)
  show "segs_kept m ?m"
    using busy segs by (simp add: segs_kept_def f) (simp add: sm_AddMsgSegBlock_def Let_def)
qed

lemma alloc_mid_inv:
  assumes inv: "send_inv m" and free: "sm_freeSegs m = seg # rest"
    and i: "i \<in> set (sm_working m)" and n: "nBlocks \<noteq> 0"
    and room: "unat (ss_blocksUsed (send_slab_at m i)) + unat nBlocks \<le> unat (sm_blocksPerSlab m)"
  defines "m' \<equiv> alloc_mid i nBlocks seg m"
  shows "send_inv m'" and "segs_kept m m'" and "sm_busySegs m' = sm_busySegs m @ [seg]" and "seg \<notin> set (sm_busySegs m)"
    and "seg_next (sm_segs m' ! seg) = None" and "unat (seg_size (sm_segs m' ! seg)) = unat nBlocks * unat (sm_blockSize m)"
    and "seg < length (sm_segs m')" and "sm_free m' = sm_free m"
proof -
  note d = listed_distinct [OF inv]
  let ?slab = "send_slab_at m i" and ?bps = "sm_blocksPerSlab m" and ?bsz = "sm_blockSize m"
  let ?N = "length (sm_slabInfoVec m)"
  have il: "i < ?N" using send_invD(2) [OF inv, of i] i by (simp add: sm_listed_def)
  have bps: "0 < unat ?bps" and bsz: "0 < unat ?bsz" and fit: "unat ?bps * unat ?bsz < 2 ^ 32" "?N * unat ?bps < 2 ^ 32"
    using send_invD(1) [OF inv] by (simp_all add: sizes_ok_def unat_gt_0)
  have pool: "pool (seg # rest @ sm_busySegs m) (length (sm_segs m))" using send_invD(6) [OF inv] free by simp
  have seg: "seg < length (sm_segs m)" and new: "seg \<notin> set (sm_busySegs m)"
    using pool_set [OF pool] pool_distinct [OF pool] by auto
  have busy: "s < length (sm_segs m)" if "s \<in> set (sm_busySegs m)" for s
    using that pool_set [OF pool] by auto
  show "seg \<notin> set (sm_busySegs m)" by (rule new)
  show b': "sm_busySegs m' = sm_busySegs m @ [seg]" and "sm_free m' = sm_free m" and "seg < length (sm_segs m')"
    using seg by (simp_all add: m'_def alloc_mid_def Let_def)
  have f: "sm_blocksPerSlab m' = ?bps" "sm_blockSize m' = ?bsz" "length (sm_slabInfoVec m') = ?N" "sm_slabsHeld m' = sm_slabsHeld m"
    "length (sm_segs m') = length (sm_segs m)" "sm_maxWorkingSlabs m' = sm_maxWorkingSlabs m"
    by (simp_all add: m'_def alloc_mid_def Let_def)
  define used where "used = ss_blocksUsed ?slab + nBlocks"
  have used: "unat used = unat (ss_blocksUsed ?slab) + unat nBlocks"
    unfolding used_def using room unsigned_less [of ?bps, where ?'a = nat] by (intro unat_add_u32) simp
  have ok: "slab_runs_ok m i" "state_ok m i" using send_invD [OF inv] il by blast+
  have sid: "ss_slabID ?slab = of_nat i" using ok by (simp add: slab_runs_ok_def Let_def)
  have w: "ss_working ?slab" "ss_blocksUsed ?slab < ?bps" using slab_state(2) [OF inv i] by simp_all
  define sg where "sg = fill_segment (ss_buf ?slab) nBlocks ?slab ?bps ?bsz"
  have segs: "sm_segs m' = (sm_segs m)[seg := sg]" by (simp add: m'_def alloc_mid_def Let_def sg_def)
  have bid: "unat (seg_blockID sg) = i * unat ?bps + unat (ss_blocksUsed ?slab)"
  proof -
    have "Suc i * unat ?bps \<le> ?N * unat ?bps" using il by (intro mult_le_mono1) simp
    then have b: "i * unat ?bps + unat ?bps < 2 ^ 32" using fit(2) by simp
    have "unat (ss_blocksUsed ?slab) < unat ?bps" using w(2) by (simp add: word_less_nat_alt)
    moreover have "unat (of_nat i :: u32) = i"
    proof (rule unat_of_nat_u32)
      have "i \<le> i * unat ?bps" using bps by (cases "unat ?bps") simp_all
      then show "i < 2 ^ 32" using b by linarith
    qed
    ultimately show ?thesis using b unfolding sg_def fill_segment_def sid
      by (simp add: unat_word_ariths)
  qed
  have sz: "unat (seg_size sg) = unat nBlocks * unat ?bsz"
  proof -
    have "unat nBlocks * unat ?bsz \<le> unat ?bps * unat ?bsz" using room by (intro mult_le_mono1) simp
    then have "unat nBlocks * unat ?bsz < 2 ^ 32" using fit(1) by (rule order_le_less_trans)
    then show ?thesis by (simp add: sg_def fill_segment_def unat_word_ariths)
  qed
  show "seg_next (sm_segs m' ! seg) = None" "unat (seg_size (sm_segs m' ! seg)) = unat nBlocks * unat ?bsz"
    using seg sz by (simp_all add: segs sg_def fill_segment_def)
  have old: "sm_segs m' ! s = sm_segs m ! s" if "s \<in> set (sm_busySegs m)" for s
    unfolding segs using that new by (metis nth_list_update_neq)
  then show "segs_kept m m'" using busy by (simp add: segs_kept_def f)
  have r: "seg_slab m' s = seg_slab m s" "seg_run m' s = seg_run m s" if "s \<in> set (sm_busySegs m)" for s
    by (simp_all add: seg_slab_def seg_run_def f old [OF that])
  have used_lt: "unat (ss_blocksUsed ?slab) < unat ?bps" using w(2) by (simp add: word_less_nat_alt)
  have rseg: "seg_slab m' seg = i" "seg_run m' seg = (unat (ss_blocksUsed ?slab), unat nBlocks)"
    using seg used_lt bsz by (simp_all add: seg_slab_def seg_run_def f segs bid sz)
  have old_runs: "map (seg_run m') (filter (\<lambda>s. seg_slab m' s = j) (sm_busySegs m)) = runs m j" for j
    unfolding runs_def by (rule map_cong) (auto simp: r intro: filter_cong)
  have runs: "runs m' j = (if j = i then runs m i @ [(unat (ss_blocksUsed ?slab), unat nBlocks)] else runs m j)" for j
    using old_runs [of j] by (auto simp: runs_def [of m'] b' rseg)
  have slab: "send_slab_at m' j = (if j = i then ?slab\<lparr>ss_blocksUsed := used, ss_refcount := ss_refcount ?slab + 1,
      ss_working := ?bps \<noteq> used\<rparr> else send_slab_at m j)" if "j < ?N" for j
    using that by (cases "j = i") (simp_all add: m'_def alloc_mid_def Let_def used_def right_minus_eq)
  have ref: "unat (ss_refcount ?slab + 1) = Suc (unat (ss_refcount ?slab))"
  proof (rule unat_inc_u32)
    have "unat (ss_refcount ?slab) \<le> unat (ss_blocksUsed ?slab)"
      using ok(1) packed_length [of 0 "runs m i"] by (simp add: slab_runs_ok_def Let_def)
    then show "unat (ss_refcount ?slab) < 2 ^ 32 - 1"
      using used_lt unsigned_less [of ?bps, where ?'a = nat] by simp
  qed
  have "slab_runs_ok m' j" if "j < ?N" for j
  proof (cases "j = i")
    case True
    have "packed 0 (runs m i @ [(unat (ss_blocksUsed ?slab), unat nBlocks)]) (unat used)"
      unfolding used using ok(1) n by (intro packed_snoc) (simp_all add: slab_runs_ok_def Let_def unat_gt_0)
    then show ?thesis using True il ok(1) room used ref
      by (simp add: slab_runs_ok_def slab runs Let_def f word_le_nat_alt)
  next
    case False
    then show ?thesis using that send_invD(4) [OF inv that] by (simp add: slab_runs_ok_def slab runs f Let_def)
  qed
  moreover have "state_ok m' j" if "j < ?N" for j
  proof (cases "j = i")
    case True
    have "i \<notin> set (remove1 i (sm_working m))" using d(2) by simp
    moreover have "used \<le> ?bps" using room by (simp add: word_le_nat_alt used)
    moreover have "ss_refcount ?slab + 1 \<noteq> 0" using ref by auto
    moreover have "i \<notin> set (sm_free m)" using d(5) i by auto
    moreover have "sm_working m' = (if ?bps = used then remove1 i (sm_working m) else sm_working m)"
        "sm_full m' = (if ?bps = used then sm_full m @ [i] else sm_full m)" "sm_free m' = sm_free m"
      by (simp_all add: m'_def alloc_mid_def Let_def used_def right_minus_eq)
    ultimately show ?thesis using True il i
      by (cases "?bps = used") (auto simp: state_ok_def slab Let_def f)
  next
    case False
    then have "j \<in> set (sm_free m') \<longleftrightarrow> j \<in> set (sm_free m)" "j \<in> set (sm_working m') \<longleftrightarrow> j \<in> set (sm_working m)"
        "j \<in> set (sm_full m') \<longleftrightarrow> j \<in> set (sm_full m)"
      by (simp_all add: m'_def alloc_mid_def Let_def)
    then have "state_ok m' j = state_ok m j" using False by (simp add: state_ok_def slab [OF that] f)
    then show ?thesis using send_invD(3) [OF inv that] by simp
  qed
  moreover have "busy_ok m' s" if "s \<in> set (sm_busySegs m')" for s
  proof (cases "s = seg")
    case True
    have "ss_buf (send_slab_at m' i) = ss_buf ?slab" using slab [OF il] by simp
    moreover have "unat (ss_blocksUsed ?slab * ?bsz) = unat (ss_blocksUsed ?slab) * unat ?bsz"
    proof -
      have "unat (ss_blocksUsed ?slab) * unat ?bsz \<le> unat ?bps * unat ?bsz" using used_lt by (intro mult_le_mono1) simp
      then have "unat (ss_blocksUsed ?slab) * unat ?bsz < 2 ^ 32" using fit(1) by (rule order_le_less_trans)
      then show ?thesis by (simp add: unat_word_ariths)
    qed
    ultimately show ?thesis using True il rseg seg
      by (simp add: busy_ok_def f segs sz) (simp add: sg_def fill_segment_def)
  next
    case False
    then have s: "s \<in> set (sm_busySegs m)" using that b' by simp
    then have "busy_ok m s" by (rule send_invD(5) [OF inv])
    then show ?thesis using slab by (simp add: busy_ok_def r [OF s] f old [OF s])
  qed
  moreover have "sizes_ok m'" using send_invD(1) [OF inv] by (simp add: sizes_ok_def f)
  moreover have "mset (sm_listed m') = mset (sm_listed m)"
    using i by (simp add: m'_def alloc_mid_def Let_def sm_listed_def)
  then have "distinct (sm_listed m')" "set (sm_listed m') = set (sm_listed m)" "length (sm_listed m') = length (sm_listed m)"
    using inv by (metis mset_eq_imp_distinct_iff send_inv_def, metis mset_eq_setD, metis size_mset)
  moreover have "pool (sm_freeSegs m' @ sm_busySegs m') (length (sm_segs m'))"
    using pool free by (simp add: m'_def alloc_mid_def Let_def pool_def)
  ultimately show "send_inv m'" using inv by (simp add: send_inv_def f)
qed

text \<open>An allocation that succeeds.\<close>

definition allocated :: "send_manager \<Rightarrow> send_manager \<Rightarrow> nat \<Rightarrow> nat \<Rightarrow> bool" where
  "allocated m m' seg n \<longleftrightarrow> send_inv m' \<and> segs_kept m m' \<and> sm_busySegs m' = sm_busySegs m @ [seg]
     \<and> seg \<notin> set (sm_busySegs m) \<and> seg < length (sm_segs m') \<and> seg_next (sm_segs m' ! seg) = None
     \<and> unat (seg_size (sm_segs m' ! seg)) = n * unat (sm_blockSize m)"

lemma same_segs_kept:
  "segs_kept m m1 \<Longrightarrow> same_segs m1 m' \<Longrightarrow> length (sm_slabInfoVec m') = length (sm_slabInfoVec m1)
     \<Longrightarrow> sm_maxWorkingSlabs m' = sm_maxWorkingSlabs m1 \<Longrightarrow> sm_slabsHeld m' = sm_slabsHeld m1 \<Longrightarrow> segs_kept m m'"
  by (auto simp: segs_kept_def same_segs_def)

lemma alloc_at_spec:
  assumes inv: "send_inv m" and i: "i \<in> set (sm_working m)" and n: "nBlocks \<noteq> 0"
    and room: "unat (ss_blocksUsed (send_slab_at m i)) + unat nBlocks \<le> unat (sm_blocksPerSlab m)"
  shows "\<exists>seg m'. alloc_at i nBlocks m = Ok (Some seg) m' \<and> allocated m m' seg (unat nBlocks) \<and> sm_free m' = sm_free m"
proof -
  define m0 where "m0 = (if sm_freeSegs m = [] then sm_AddMsgSegBlock m else m)"
  have m0: "send_inv m0" "segs_kept m m0" "sm_working m0 = sm_working m" "sm_slabInfoVec m0 = sm_slabInfoVec m"
      "sm_blocksPerSlab m0 = sm_blocksPerSlab m" "sm_blockSize m0 = sm_blockSize m" "sm_free m0 = sm_free m"
      "sm_busySegs m0 = sm_busySegs m" "sm_freeSegs m0 \<noteq> []"
    using AddMsgSegBlock_inv [OF inv] inv pool_set [OF send_invD(6) [OF inv]]
    by (auto simp: m0_def sm_AddMsgSegBlock_def Let_def sm_kNumSegs_def segs_kept_def)
  then obtain seg rest where free: "sm_freeSegs m0 = seg # rest" by (cases "sm_freeSegs m0") auto
  have i0: "i \<in> set (sm_working m0)" and il: "i < length (sm_slabInfoVec m0)" and w: "ss_working (send_slab_at m0 i)"
    and room0: "unat (ss_blocksUsed (send_slab_at m0 i)) + unat nBlocks \<le> unat (sm_blocksPerSlab m0)"
    using i room m0 send_invD(2) [OF inv, of i] slab_state(2) [OF inv i] by (simp_all add: sm_listed_def)
  let ?m1 = "alloc_mid i nBlocks seg m0"
  note mid = alloc_mid_inv [OF m0(1) free i0 n room0]
  have eq: "alloc_at i nBlocks m = alloc_at i nBlocks m0"
    using m0(9) by (simp add: m0_def alloc_at_def)
  have kept: "segs_kept m ?m1" using m0(2,8) mid(2) by (auto simp: segs_kept_def)
  have fin: "allocated m ?m1 seg (unat nBlocks)"
    using mid kept m0(6,8) by (simp add: allocated_def)
  show ?thesis
  proof (cases "length (sm_working ?m1) > unat (sm_maxWorkingSlabs ?m1)")
    case True
    from MaxWorkingSlabs_spec [OF mid(1), of "sm_maxWorkingSlabs ?m1"] obtain m' where
      m': "MaxWorkingSlabs (sm_maxWorkingSlabs ?m1) ?m1 = Ok (sm_maxWorkingSlabs ?m1) m'" "send_inv m'" "same_segs ?m1 m'"
        "sm_free m' = sm_free ?m1" "sm_maxWorkingSlabs m' = sm_maxWorkingSlabs ?m1" "sm_slabsHeld m' = sm_slabsHeld ?m1"
        "length (sm_slabInfoVec m') = length (sm_slabInfoVec ?m1)"
      by blast
    then have "allocated m m' seg (unat nBlocks)"
      using fin same_segs_kept [OF kept m'(3,7,5,6)] by (simp add: allocated_def same_segs_def)
    moreover have "alloc_at i nBlocks m = Ok (Some seg) m'"
      unfolding eq alloc_at_eq [OF free w il] Let_def using True m'(1) by simp
    ultimately show ?thesis using m'(4) mid(8) m0(7) by auto
  next
    case False
    then have "alloc_at i nBlocks m = Ok (Some seg) ?m1"
      unfolding eq alloc_at_eq [OF free w il] Let_def by simp
    then show ?thesis using fin mid(8) m0(7) by auto
  qed
qed

text \<open>Taking a free slab into the working list.\<close>

lemma take_free_inv:
  assumes inv: "send_inv m" and free: "sm_free m = i # is"
  defines "m' \<equiv> upd_send_slab i (\<lambda>s. s\<lparr>ss_working := True\<rparr>) (m\<lparr>sm_free := is, sm_working := sm_working m @ [i]\<rparr>)"
  shows "send_inv m'" "same_segs m m'" "ss_blocksUsed (send_slab_at m' i) = 0"
proof -
  note d = listed_distinct [OF inv]
  have i: "i < length (sm_slabInfoVec m)" using send_invD(2) [OF inv, of i] free by (simp add: sm_listed_def)
  have st: "ss_blocksUsed (send_slab_at m i) = 0" using slab_state(1) [OF inv, of i] free by simp
  show "send_inv m'"
  proof (rule send_inv_move [OF inv i, where w = True])
    show "state_ok m' j = state_ok m j" if "j < length (sm_slabInfoVec m)" "j \<noteq> i" for j
      using that free by (auto simp: state_ok_def m'_def upd_send_slab_def Let_def)
    have "0 < sm_blocksPerSlab m" using send_invD(1) [OF inv] by (simp add: sizes_ok_def word_neq_0_conv)
    then show "state_ok m' i"
      using i d free st by (auto simp: state_ok_def m'_def upd_send_slab_def Let_def)
  qed (auto simp: m'_def upd_send_slab_def sm_listed_def free)
  show "same_segs m m'" by (simp add: m'_def)
  show "ss_blocksUsed (send_slab_at m' i) = 0" using i st by (simp add: m'_def upd_send_slab_def)
qed

lemma GetSegment_spec:
  assumes inv: "send_inv m" and n: "nBlocks \<noteq> 0" "nBlocks \<le> sm_blocksPerSlab m"
  shows "(\<exists>seg m'. GetSegment nBlocks noFree m = Ok (Some seg) m' \<and> allocated m m' seg (unat nBlocks)
       \<and> (sm_free m' = sm_free m \<or> \<not> noFree \<and> sm_free m \<noteq> [] \<and> sm_free m' = tl (sm_free m)))
    \<or> GetSegment nBlocks noFree m = Ok None m \<and> (sm_free m = [] \<or> noFree)
       \<and> (nBlocks < sm_blocksPerSlab m \<longrightarrow> find_room nBlocks m = None)"
proof (cases "if nBlocks < sm_blocksPerSlab m then find_room nBlocks m else None")
  case None
  show ?thesis
  proof (cases "sm_free m = [] \<or> noFree")
    case True
    then show ?thesis using None by (auto simp: GetSegment_def leD [OF n(2)] split: if_splits)
  next
    case False
    then obtain i "is" where free: "sm_free m = i # is" by (cases "sm_free m") auto
    let ?m1 = "upd_send_slab i (\<lambda>s. s\<lparr>ss_working := True\<rparr>) (m\<lparr>sm_free := is, sm_working := sm_working m @ [i]\<rparr>)"
    note t = take_free_inv [OF inv free]
    have w: "i \<in> set (sm_working ?m1)" and f: "sm_blocksPerSlab ?m1 = sm_blocksPerSlab m" "sm_free ?m1 = is"
      by (simp_all add: upd_send_slab_def)
    have room: "unat (ss_blocksUsed (send_slab_at ?m1 i)) + unat nBlocks \<le> unat (sm_blocksPerSlab ?m1)"
      unfolding t(3) f using n(2) by (simp add: word_le_nat_alt)
    from alloc_at_spec [OF t(1) w n(1) room] obtain seg m'
      where m': "alloc_at i nBlocks ?m1 = Ok (Some seg) m'" "allocated ?m1 m' seg (unat nBlocks)" "sm_free m' = is"
      unfolding f by blast
    have "segs_kept ?m1 m' \<Longrightarrow> segs_kept m m'"
      by (auto simp: segs_kept_def upd_send_slab_def)
    then have "allocated m m' seg (unat nBlocks)"
      using m'(2) by (simp add: allocated_def upd_send_slab_def)
    moreover have "GetSegment nBlocks noFree m = alloc_at i nBlocks ?m1"
      using None False free by (simp add: GetSegment_def leD [OF n(2)])
    ultimately show ?thesis using m' False free by auto
  qed
next
  case (Some i)
  then have i: "i \<in> set (sm_working m)" "sm_blocksPerSlab m - ss_blocksUsed (send_slab_at m i) \<ge> nBlocks"
    by (auto simp: find_room_def find_Some_iff split: if_splits)
  have "ss_blocksUsed (send_slab_at m i) < sm_blocksPerSlab m" using slab_state(2) [OF inv i(1)] by simp
  then have "unat (ss_blocksUsed (send_slab_at m i)) + unat nBlocks \<le> unat (sm_blocksPerSlab m)"
    using i(2) by (simp add: word_le_nat_alt word_less_nat_alt unat_sub)
  from alloc_at_spec [OF inv i(1) n(1) this] show ?thesis
    using Some by (auto simp: GetSegment_def leD [OF n(2)])
qed

section \<open>Descriptors\<close>

definition set_next :: "nat \<Rightarrow> nat option \<Rightarrow> send_manager \<Rightarrow> send_manager" where
  "set_next n p m = m\<lparr>sm_segs := (sm_segs m)[n := (sm_segs m ! n)\<lparr>seg_next := p\<rparr>]\<rparr>"

lemma set_next_fields [simp]:
  "sm_busySegs (set_next n p m) = sm_busySegs m" "sm_free (set_next n p m) = sm_free m"
  "sm_blocksPerSlab (set_next n p m) = sm_blocksPerSlab m" "sm_blockSize (set_next n p m) = sm_blockSize m"
  "length (sm_segs (set_next n p m)) = length (sm_segs m)" "sm_slabInfoVec (set_next n p m) = sm_slabInfoVec m"
  "sm_slabsHeld (set_next n p m) = sm_slabsHeld m" "sm_maxWorkingSlabs (set_next n p m) = sm_maxWorkingSlabs m"
  "sm_working (set_next n p m) = sm_working m" "sm_full (set_next n p m) = sm_full m" "sm_retired (set_next n p m) = sm_retired m"
  "sm_freeSegs (set_next n p m) = sm_freeSegs m"
  by (simp_all add: set_next_def)

lemma set_next_seg:
  "seg_blockID (sm_segs (set_next n p m) ! s) = seg_blockID (sm_segs m ! s)"
  "seg_size (sm_segs (set_next n p m) ! s) = seg_size (sm_segs m ! s)"
  "seg_buf (sm_segs (set_next n p m) ! s) = seg_buf (sm_segs m ! s)"
proof -
  have "sm_segs (set_next n p m) ! s = (if n < length (sm_segs m) \<and> s = n then (sm_segs m ! s)\<lparr>seg_next := p\<rparr> else sm_segs m ! s)"
    by (cases "n < length (sm_segs m)") (simp_all add: set_next_def nth_list_update not_less list_update_beyond)
  then show "seg_blockID (sm_segs (set_next n p m) ! s) = seg_blockID (sm_segs m ! s)"
    "seg_size (sm_segs (set_next n p m) ! s) = seg_size (sm_segs m ! s)"
    "seg_buf (sm_segs (set_next n p m) ! s) = seg_buf (sm_segs m ! s)"
    by simp_all
qed

lemma send_inv_set_next [simp]: "send_inv (set_next n p m) = send_inv m"
proof -
  have r: "seg_slab (set_next n p m) = seg_slab m" "seg_run (set_next n p m) = seg_run m"
    by (simp_all add: fun_eq_iff seg_slab_def seg_run_def set_next_seg)
  then have "runs (set_next n p m) = runs m" by (simp add: fun_eq_iff runs_def)
  then have "state_ok (set_next n p m) = state_ok m" "slab_runs_ok (set_next n p m) = slab_runs_ok m"
      "busy_ok (set_next n p m) = busy_ok m"
    using r by (simp_all add: fun_eq_iff state_ok_def slab_runs_ok_def busy_ok_def set_next_seg)
  then show ?thesis by (simp add: send_inv_def sizes_ok_def sm_listed_def)
qed

text \<open>A chain whose last element's \<open>next\<close> is still to be set.\<close>

definition linked_open :: "msg_segment list \<Rightarrow> nat option \<Rightarrow> nat list \<Rightarrow> bool" where
  "linked_open segs p xs \<longleftrightarrow> xs \<noteq> [] \<and> linked (segs[last xs := (segs ! last xs)\<lparr>seg_next := None\<rparr>]) p xs"

lemma linked_set_last:
  assumes "distinct (xs @ [y])" "xs \<noteq> []" "linked (segs[last xs := v]) p xs" "seg_next v = None"
    "y < length segs" "seg_next (segs ! y) = None"
  shows "linked (segs[last xs := (segs ! last xs)\<lparr>seg_next := Some y\<rparr>]) p (xs @ [y])"
  using assms
proof (induction xs arbitrary: p)
  case (Cons x xs)
  show ?case
  proof (cases "xs = []")
    case True
    with Cons.prems show ?thesis by auto
  next
    case False
    with Cons.prems have "x \<noteq> last xs" by auto
    with Cons False show ?thesis by simp
  qed
qed simp

lemma linked_imp_open:
  assumes "linked segs p xs" "xs \<noteq> []"
  shows "linked_open segs p xs"
proof -
  have "linked segs p xs \<Longrightarrow> xs \<noteq> [] \<Longrightarrow> seg_next (segs ! last xs) = None" for p
    by (induction xs arbitrary: p) (auto split: if_splits)
  then have "(segs ! last xs)\<lparr>seg_next := None\<rparr> = segs ! last xs" using assms by simp
  then show ?thesis using assms by (simp add: linked_open_def)
qed

definition chain_state :: "send_manager \<Rightarrow> send_manager \<Rightarrow> nat list \<Rightarrow> bool" where
  "chain_state m0 m xs \<longleftrightarrow> send_inv m \<and> sm_busySegs m = sm_busySegs m0 @ xs \<and> segs_kept m0 m"

lemma chain_slabs_spec:
  assumes "chain_state m0 m xs" and "linked_open (sm_segs m) (Some (hd xs)) xs"
    and "k \<le> length (sm_free m)" and "k = 0 \<longrightarrow> linked (sm_segs m) (Some (hd xs)) xs"
  shows "\<exists>m' ys. chain_slabs k (Some (hd xs)) (Some (last xs)) m = Ok (Some (hd xs)) m' \<and> chain_state m0 m' (xs @ ys)
    \<and> linked (sm_segs m') (Some (hd xs)) (xs @ ys) \<and> length ys = k
    \<and> (\<forall>y \<in> set ys. unat (seg_size (sm_segs m' ! y)) = unat (sm_blocksPerSlab m) * unat (sm_blockSize m))
    \<and> (\<forall>x \<in> set xs. seg_size (sm_segs m' ! x) = seg_size (sm_segs m ! x))"
  using assms
proof (induction k arbitrary: m xs)
  case 0
  then show ?case by auto
next
  case (Suc k)
  have inv: "send_inv m" and busy: "sm_busySegs m = sm_busySegs m0 @ xs" and kept: "segs_kept m0 m"
    using Suc.prems(1) by (simp_all add: chain_state_def)
  have xs: "xs \<noteq> []" using Suc.prems(2) by (simp add: linked_open_def)
  have bps: "sm_blocksPerSlab m \<noteq> 0" using send_invD(1) [OF inv] by (simp add: sizes_ok_def)
  have "sm_free m \<noteq> []" using Suc.prems(3) by auto
  then obtain y m1 where y: "GetSegment (sm_blocksPerSlab m) False m = Ok (Some y) m1"
      "allocated m m1 y (unat (sm_blocksPerSlab m))" "length (sm_free m) \<le> Suc (length (sm_free m1))"
    using GetSegment_spec [OF inv bps order_refl, of False] by fastforce
  then have a: "send_inv m1" "segs_kept m m1" "sm_busySegs m1 = sm_busySegs m @ [y]" "y \<notin> set (sm_busySegs m)"
      "y < length (sm_segs m1)" "seg_next (sm_segs m1 ! y) = None"
      "unat (seg_size (sm_segs m1 ! y)) = unat (sm_blocksPerSlab m) * unat (sm_blockSize m)"
    by (simp_all add: allocated_def)
  let ?m2 = "set_next (last xs) (Some y) m1"
  have old: "sm_segs m1 ! x = sm_segs m ! x" "x < length (sm_segs m)" if "x \<in> set xs" for x
    using a(2) that busy by (simp_all add: segs_kept_def)
  have last: "last xs \<in> set xs" using xs by simp
  have dist: "distinct xs" using pool_distinct [OF send_invD(6) [OF inv]] busy by simp
  have dist': "distinct (xs @ [y])" using dist a(4) busy by simp
  have linked: "linked (sm_segs ?m2) (Some (hd xs)) (xs @ [y])"
  proof -
    let ?v = "(sm_segs m ! last xs)\<lparr>seg_next := None\<rparr>"
    have "linked ((sm_segs m1)[last xs := ?v]) (Some (hd xs)) xs"
    proof (rule linked_cong)
      show "linked ((sm_segs m)[last xs := ?v]) (Some (hd xs)) xs" using Suc.prems(2) by (simp add: linked_open_def)
      show "length ((sm_segs m)[last xs := ?v]) \<le> length ((sm_segs m1)[last xs := ?v])"
        using a(2) by (simp add: segs_kept_def)
      show "seg_next ((sm_segs m1)[last xs := ?v] ! x) = seg_next ((sm_segs m)[last xs := ?v] ! x)" if "x \<in> set xs" for x
        using old [OF that] a(2) by (cases "x = last xs") (simp_all add: segs_kept_def)
    qed
    from linked_set_last [OF dist' xs this _ a(5,6)] show ?thesis by (simp add: set_next_def)
  qed
  have keep2: "segs_kept m0 ?m2"
  proof -
    have "last xs \<notin> set (sm_busySegs m0)"
      using last pool_distinct [OF send_invD(6) [OF inv]] busy by auto
    then have "sm_segs ?m2 ! s = sm_segs m1 ! s" if "s \<in> set (sm_busySegs m0)" for s
      using that unfolding set_next_def by (cases "s = last xs") simp_all
    then show ?thesis using kept a(2) busy by (simp add: segs_kept_def)
  qed
  have st: "chain_state m0 ?m2 (xs @ [y])"
    using a(1,3) busy keep2 by (simp add: chain_state_def)
  have open': "linked_open (sm_segs ?m2) (Some (hd (xs @ [y]))) (xs @ [y])"
    using linked_imp_open [OF linked] xs by simp
  have "k \<le> length (sm_free ?m2)" using y(3) Suc.prems(3) by simp
  from Suc.IH [OF st open' this] linked obtain m' ys where m':
    "chain_slabs k (Some (hd xs)) (Some y) ?m2 = Ok (Some (hd xs)) m'" "chain_state m0 m' ((xs @ [y]) @ ys)"
    "linked (sm_segs m') (Some (hd xs)) ((xs @ [y]) @ ys)" "length ys = k"
    "\<forall>y \<in> set ys. unat (seg_size (sm_segs m' ! y)) = unat (sm_blocksPerSlab m) * unat (sm_blockSize m)"
    "\<forall>x \<in> set (xs @ [y]). seg_size (sm_segs m' ! x) = seg_size (sm_segs ?m2 ! x)"
    using xs a(2) by (auto simp: segs_kept_def)
  have "chain_slabs (Suc k) (Some (hd xs)) (Some (last xs)) m = chain_slabs k (Some (hd xs)) (Some y) ?m2"
    by (simp add: y(1) set_next_def)
  then show ?case
    using m' a(7) old by (intro exI [of _ m'] exI [of _ "y # ys"]) (auto simp: set_next_seg)
qed

lemma blocks_needed_nonzero [simp]: "blocks_needed len bsz \<noteq> 0"
  by (simp add: blocks_needed_def Let_def)

lemma blocks_needed_0: "bsz \<noteq> 0 \<Longrightarrow> blocks_needed 0 bsz = 1"
proof -
  assume bsz: "bsz \<noteq> 0"
  then have "unat (bsz - 1) < unat bsz" by (simp add: unat_dec unat_gt_0)
  then have "(bsz - 1) div bsz = 0" by (simp add: word_unat_eq_iff unat_div)
  then show ?thesis by (simp add: blocks_needed_def)
qed

lemma blocks_needed_pos:
  assumes bsz: "bsz \<noteq> 0" and fit: "unat len + unat bsz \<le> 2 ^ 32" and len: "len \<noteq> 0"
  shows "unat (blocks_needed len bsz) = (unat len + unat bsz - 1) div unat bsz"
proof -
  have b: "0 < unat bsz" and l: "0 < unat len" using bsz len by (simp_all add: unat_gt_0)
  have "unat (len - 1 + bsz) = unat len - 1 + unat bsz"
    using unat_add_u32 [of "len - 1" bsz] fit l by (simp add: unat_dec [OF len])
  then have d: "unat ((len - 1 + bsz) div bsz) = (unat len + unat bsz - 1) div unat bsz"
    using l by (simp add: unat_div)
  moreover have "unat bsz div unat bsz \<le> (unat len + unat bsz - 1) div unat bsz"
    by (rule div_le_mono) (use l in simp)
  ultimately have "(len - 1 + bsz) div bsz \<noteq> 0" using b by auto
  with d show ?thesis by (simp add: blocks_needed_def)
qed

lemma blocks_needed_enough:
  assumes bsz: "bsz \<noteq> 0" and fit: "unat len + unat bsz \<le> 2 ^ 32"
  shows "unat len \<le> unat (blocks_needed len bsz) * unat bsz"
    and "len \<noteq> 0 \<Longrightarrow> unat (blocks_needed len bsz) * unat bsz < unat len + unat bsz"
proof -
  have b: "0 < unat bsz" using bsz by (simp add: unat_gt_0)
  let ?y = "unat len + unat bsz - 1"
  have y: "?y div unat bsz * unat bsz = ?y - ?y mod unat bsz" by (simp add: minus_mod_eq_div_mult)
  have m: "?y mod unat bsz < unat bsz" using b by simp
  show "unat len \<le> unat (blocks_needed len bsz) * unat bsz"
  proof (cases "len = 0")
    case False
    show ?thesis unfolding blocks_needed_pos [OF bsz fit False] y using m by linarith
  qed simp
  show "unat (blocks_needed len bsz) * unat bsz < unat len + unat bsz" if "len \<noteq> 0"
    unfolding blocks_needed_pos [OF bsz fit that] y using b by linarith
qed

text \<open>The descriptor of a message: a chain of new segments with room for \<open>n\<close> blocks.\<close>

definition descriptor :: "send_manager \<Rightarrow> send_manager \<Rightarrow> nat list \<Rightarrow> nat \<Rightarrow> bool" where
  "descriptor m m' xs n \<longleftrightarrow> chain_state m m' xs \<and> xs \<noteq> [] \<and> linked (sm_segs m') (Some (hd xs)) xs
     \<and> (\<Sum>x \<leftarrow> xs. unat (seg_size (sm_segs m' ! x))) = n * unat (sm_blockSize m)"

lemma allocated_descriptor: "allocated m m' seg n \<Longrightarrow> descriptor m m' [seg] n"
  by (simp add: allocated_def descriptor_def chain_state_def)

lemma whole_slabs_spec:
  assumes inv: "send_inv m" and k: "2 \<le> k" "k \<le> length (sm_free m)"
  shows "\<exists>m' xs. chain_slabs k None None m = Ok (Some (hd xs)) m'
    \<and> descriptor m m' xs (k * unat (sm_blocksPerSlab m)) \<and> length xs = k"
proof -
  obtain j where j: "k = Suc j" "1 \<le> j" using k(1) by (cases k) auto
  have bps: "sm_blocksPerSlab m \<noteq> 0" using send_invD(1) [OF inv] by (simp add: sizes_ok_def)
  have "sm_free m \<noteq> []" using k by auto
  then obtain y m1 where y: "GetSegment (sm_blocksPerSlab m) False m = Ok (Some y) m1"
      "allocated m m1 y (unat (sm_blocksPerSlab m))" "length (sm_free m) \<le> Suc (length (sm_free m1))"
    using GetSegment_spec [OF inv bps order_refl, of False] by fastforce
  let ?m2 = "set_next y (Some y) m1"
  have a: "send_inv m1" "segs_kept m m1" "sm_busySegs m1 = sm_busySegs m @ [y]" "y \<notin> set (sm_busySegs m)"
      "y < length (sm_segs m1)" "unat (seg_size (sm_segs m1 ! y)) = unat (sm_blocksPerSlab m) * unat (sm_blockSize m)"
    using y(2) by (simp_all add: allocated_def)
  have "sm_segs ?m2 ! s = sm_segs m1 ! s" if "s \<in> set (sm_busySegs m)" for s
    using that a(4) unfolding set_next_def by (cases "s = y") simp_all
  then have st: "chain_state m ?m2 [y]"
    using a by (simp add: chain_state_def segs_kept_def)
  have op: "linked_open (sm_segs ?m2) (Some (hd [y])) [y]"
    using a(5) by (simp add: linked_open_def set_next_def)
  have "j \<le> length (sm_free ?m2)" using y(3) k(2) j by simp
  from chain_slabs_spec [OF st op this] j(2) obtain m' ys where m':
    "chain_slabs j (Some y) (Some y) ?m2 = Ok (Some y) m'" "chain_state m m' ([y] @ ys)"
    "linked (sm_segs m') (Some y) ([y] @ ys)" "length ys = j"
    "\<forall>z \<in> set ys. unat (seg_size (sm_segs m' ! z)) = unat (sm_blocksPerSlab m) * unat (sm_blockSize m)"
    "\<forall>x \<in> set [y]. seg_size (sm_segs m' ! x) = seg_size (sm_segs ?m2 ! x)"
    using a(2) by (auto simp: segs_kept_def)
  have "(\<Sum>x \<leftarrow> y # ys. unat (seg_size (sm_segs m' ! x))) = k * unat (sm_blocksPerSlab m) * unat (sm_blockSize m)"
  proof -
    have "(\<Sum>x \<leftarrow> zs. unat (seg_size (sm_segs m' ! x))) = length zs * (unat (sm_blocksPerSlab m) * unat (sm_blockSize m))"
      if "set zs \<subseteq> set ys" for zs
      using that m'(5) by (induction zs) auto
    from this [of ys] show ?thesis using m'(4,6) a(6) by (simp add: j set_next_seg algebra_simps)
  qed
  moreover have "chain_slabs k None None m = chain_slabs j (Some y) (Some y) ?m2"
    by (simp add: j y(1) set_next_def)
  ultimately show ?thesis
    using m'(1-4) j by (intro exI [of _ m'] exI [of _ "y # ys"]) (auto simp: descriptor_def)
qed

lemma part_slabs_spec:
  assumes inv: "send_inv m" and p: "part \<noteq> 0" "part < sm_blocksPerSlab m" and k: "1 \<le> k" "k \<le> length (sm_free m)"
  shows "(\<exists>m' xs. bind_o (GetSegment part (k = length (sm_free m)) m) (\<lambda>seg0 m.
            if seg0 = None then Ok None m else chain_slabs k seg0 seg0 m) = Ok (Some (hd xs)) m'
      \<and> descriptor m m' xs (k * unat (sm_blocksPerSlab m) + unat part) \<and> length xs = Suc k)
    \<or> bind_o (GetSegment part (k = length (sm_free m)) m) (\<lambda>seg0 m.
            if seg0 = None then Ok None m else chain_slabs k seg0 seg0 m) = Ok None m \<and> k = length (sm_free m)"
proof -
  have le: "part \<le> sm_blocksPerSlab m" using p(2) by simp
  consider seg m1 where "GetSegment part (k = length (sm_free m)) m = Ok (Some seg) m1" "allocated m m1 seg (unat part)"
        "k \<le> length (sm_free m1)"
      | "GetSegment part (k = length (sm_free m)) m = Ok None m" "k = length (sm_free m)"
    using GetSegment_spec [OF inv p(1) le, of "k = length (sm_free m)"] k by fastforce
  then show ?thesis
  proof cases
    case 1
    have a: "send_inv m1" "segs_kept m m1" "sm_busySegs m1 = sm_busySegs m @ [seg]" "linked (sm_segs m1) (Some (hd [seg])) [seg]"
        "unat (seg_size (sm_segs m1 ! seg)) = unat part * unat (sm_blockSize m)"
      using 1(2) by (simp_all add: allocated_def)
    have st: "chain_state m m1 [seg]" using a by (simp add: chain_state_def)
    have "linked_open (sm_segs m1) (Some (hd [seg])) [seg]" using linked_imp_open [OF a(4)] by simp
    from chain_slabs_spec [OF st this 1(3)] a(4) obtain m' ys where m':
      "chain_slabs k (Some seg) (Some seg) m1 = Ok (Some seg) m'" "chain_state m m' ([seg] @ ys)"
      "linked (sm_segs m') (Some seg) ([seg] @ ys)" "length ys = k"
      "\<forall>z \<in> set ys. unat (seg_size (sm_segs m' ! z)) = unat (sm_blocksPerSlab m) * unat (sm_blockSize m)"
      "\<forall>x \<in> set [seg]. seg_size (sm_segs m' ! x) = seg_size (sm_segs m1 ! x)"
      using a(2) by (auto simp: segs_kept_def)
    have "(\<Sum>x \<leftarrow> zs. unat (seg_size (sm_segs m' ! x))) = length zs * (unat (sm_blocksPerSlab m) * unat (sm_blockSize m))"
      if "set zs \<subseteq> set ys" for zs
      using that m'(5) by (induction zs) auto
    from this [of ys] have "(\<Sum>x \<leftarrow> seg # ys. unat (seg_size (sm_segs m' ! x)))
        = (k * unat (sm_blocksPerSlab m) + unat part) * unat (sm_blockSize m)"
      using m'(4,6) a(5) by (simp add: algebra_simps)
    then have "descriptor m m' (seg # ys) (k * unat (sm_blocksPerSlab m) + unat part)"
      using m'(2,3) by (simp add: descriptor_def)
    then show ?thesis using 1(1) m'(1,4) by (intro disjI1 exI [of _ m'] exI [of _ "seg # ys"]) simp
  next
    case 2
    then show ?thesis by simp
  qed
qed

lemma GetMessageDescriptor_spec:
  fixes len :: u32
  assumes inv: "send_inv m"
  defines "n \<equiv> blocks_needed len (sm_blockSize m)" and "bps \<equiv> sm_blocksPerSlab m"
  shows "if contiguous \<and> n > bps then \<exists>e. GetMessageDescriptor len contiguous m = Throw e m
    else (\<exists>m' xs. GetMessageDescriptor len contiguous m = Ok (Some (hd xs)) m' \<and> descriptor m m' xs (unat n)
           \<and> (n \<le> bps \<longrightarrow> length xs = 1))
      \<or> GetMessageDescriptor len contiguous m = Ok None m \<and> length (sm_free m) * unat bps < unat n"
proof -
  have sz: "sm_blockSize m \<noteq> 0" "bps \<noteq> 0" using send_invD(1) [OF inv] by (simp_all add: sizes_ok_def bps_def)
  have n0: "n \<noteq> 0" by (simp add: n_def)
  show ?thesis
  proof (cases "n \<le> bps")
    case True
    then have eq: "GetMessageDescriptor len contiguous m = GetSegment n False m"
      using sz by (simp add: GetMessageDescriptor_def n_def bps_def)
    have "(\<exists>m' xs. GetSegment n False m = Ok (Some (hd xs)) m' \<and> descriptor m m' xs (unat n) \<and> length xs = 1)
        \<or> GetSegment n False m = Ok None m \<and> sm_free m = []"
      using GetSegment_spec [OF inv n0, of False] True allocated_descriptor
      by (fastforce simp: bps_def intro: exI [of _ "[_]"])
    then show ?thesis using True n0 eq by (auto simp: not_less [symmetric] unat_gt_0)
  next
    case False
    then have gt: "bps < n" by simp
    show ?thesis
    proof (cases contiguous)
      case True
      then show ?thesis using gt sz by (simp add: GetMessageDescriptor_def GetSegment_def n_def bps_def)
    next
      case nc: False
      define k where "k = unat (n div bps)"
      define part where "part = n - n div bps * bps"
      have part: "part = n mod bps" by (simp add: part_def minus_div_mult_eq_mod)
      have pu: "unat part = unat n mod unat bps" and ku: "k = unat n div unat bps"
        by (simp_all add: part k_def unat_mod unat_div)
      have nk: "unat n = k * unat bps + unat part" by (simp add: pu ku)
      have bpos: "0 < unat bps" using sz by (simp add: unat_gt_0)
      have plt: "part < bps" using bpos by (simp add: word_less_nat_alt pu)
      have k1: "1 \<le> k" using gt bpos div_le_mono [of "unat bps" "unat n" "unat bps"] by (simp add: ku word_less_nat_alt)
      have eq: "GetMessageDescriptor len contiguous m =
          (if k > length (sm_free m) then Ok None m
           else if part \<noteq> 0 then
             bind_o (GetSegment part (k = length (sm_free m)) m) (\<lambda>seg0 m.
               if seg0 = None then Ok None m else chain_slabs k seg0 seg0 m)
           else chain_slabs k None None m)"
        using nc False sz unfolding GetMessageDescriptor_def Let_def n_def bps_def k_def part_def by simp
      consider "k > length (sm_free m)" | "k \<le> length (sm_free m)" "part \<noteq> 0" | "k \<le> length (sm_free m)" "part = 0"
        by linarith
      then have "(\<exists>m' xs. GetMessageDescriptor len contiguous m = Ok (Some (hd xs)) m' \<and> descriptor m m' xs (unat n))
          \<or> GetMessageDescriptor len contiguous m = Ok None m \<and> length (sm_free m) * unat bps < unat n"
      proof cases
        case 1
        then have "length (sm_free m) * unat bps < k * unat bps" using bpos by simp
        then have "length (sm_free m) * unat bps < unat n" unfolding nk by (rule trans_less_add1)
        then show ?thesis using 1 eq by simp
      next
        case 2
        have "0 < unat part" using 2(2) by (simp add: unat_gt_0)
        then show ?thesis
          using part_slabs_spec [OF inv 2(2) plt [unfolded bps_def] k1 2(1)] 2 eq nk
          by (fastforce simp: bps_def)
      next
        case 3
        then have "k \<noteq> 1" using gt nk by (auto simp: word_less_nat_alt)
        then have "2 \<le> k" using k1 by simp
        then show ?thesis
          using whole_slabs_spec [OF inv _ 3(1)] 3 eq nk by (fastforce simp: bps_def)
      qed
      then show ?thesis using nc False by auto
    qed
  qed
qed

section \<open>Release\<close>

definition release_one :: "nat \<Rightarrow> send_manager \<Rightarrow> send_manager" where
  "release_one seg m =
     (let i = seg_slab m seg; slab = send_slab_at m i;
          retire = (\<not> ss_working slab \<and> ss_refcount slab - 1 = 0)
      in m\<lparr>sm_slabInfoVec := (sm_slabInfoVec m)[i := slab\<lparr>ss_refcount := ss_refcount slab - 1\<rparr>],
           sm_busySegs := remove1 seg (sm_busySegs m), sm_freeSegs := sm_freeSegs m @ [seg],
           sm_full := (if retire then remove1 i (sm_full m) else sm_full m),
           sm_retired := (if retire then sm_retired m @ [i] else sm_retired m)\<rparr>)"

lemma busy_slab:
  assumes inv: "send_inv m" and seg: "seg \<in> set (sm_busySegs m)"
  shows "seg_slab m seg < length (sm_slabInfoVec m)" "ss_refcount (send_slab_at m (seg_slab m seg)) \<noteq> 0"
    "ss_working (send_slab_at m (seg_slab m seg)) \<Longrightarrow> seg_slab m seg \<in> set (sm_working m)"
    "\<not> ss_working (send_slab_at m (seg_slab m seg)) \<Longrightarrow> seg_slab m seg \<in> set (sm_full m)"
proof -
  let ?i = "seg_slab m seg"
  show i: "?i < length (sm_slabInfoVec m)" using send_invD(5) [OF inv seg] by (simp add: busy_ok_def)
  have "runs m ?i \<noteq> []" using seg by (auto simp: runs_def filter_empty_conv)
  then show r: "ss_refcount (send_slab_at m ?i) \<noteq> 0"
    using send_invD(4) [OF inv i] by (auto simp: slab_runs_ok_def Let_def)
  have st: "state_ok m ?i" by (rule send_invD(3) [OF inv i])
  show "ss_working (send_slab_at m ?i) \<Longrightarrow> ?i \<in> set (sm_working m)"
    and "\<not> ss_working (send_slab_at m ?i) \<Longrightarrow> ?i \<in> set (sm_full m)"
    using st r by (simp_all add: state_ok_def Let_def split: if_splits)
qed

lemma release_step_eq:
  assumes inv: "send_inv m" and seg: "seg \<in> set (sm_busySegs m)"
  shows "ReleaseMessageDescriptor_loop (Suc fuel) (Some seg) m
    = ReleaseMessageDescriptor_loop fuel (seg_next (sm_segs m ! seg)) (release_one seg m)"
proof -
  note b = busy_slab [OF inv seg]
  have i: "unat (seg_blockID (sm_segs m ! seg) div sm_blocksPerSlab m) = seg_slab m seg"
    by (simp add: seg_slab_def unat_div)
  have "sm_blocksPerSlab m \<noteq> 0" using send_invD(1) [OF inv] by (simp add: sizes_ok_def)
  then show ?thesis
    using b seg unfolding ReleaseMessageDescriptor_loop.simps i
    by (cases m) (simp add: Let_def release_one_def upd_send_slab_def not_le)
qed

lemma release_one_inv:
  assumes inv: "send_inv m" and seg: "seg \<in> set (sm_busySegs m)"
  shows "send_inv (release_one seg m)"
proof -
  let ?m = "release_one seg m" and ?i = "seg_slab m seg" and ?N = "length (sm_slabInfoVec m)"
  let ?slab = "send_slab_at m ?i"
  let ?retire = "\<not> ss_working ?slab \<and> ss_refcount ?slab - 1 = 0"
  note b = busy_slab [OF inv seg] and d = listed_distinct [OF inv]
  have f: "sm_blocksPerSlab ?m = sm_blocksPerSlab m" "sm_blockSize ?m = sm_blockSize m" "sm_segs ?m = sm_segs m"
      "length (sm_slabInfoVec ?m) = ?N" "sm_busySegs ?m = remove1 seg (sm_busySegs m)" "sm_freeSegs ?m = sm_freeSegs m @ [seg]"
      "sm_slabsHeld ?m = sm_slabsHeld m" "sm_free ?m = sm_free m" "sm_working ?m = sm_working m"
      "sm_full ?m = (if ?retire then remove1 ?i (sm_full m) else sm_full m)"
      "sm_retired ?m = (if ?retire then sm_retired m @ [?i] else sm_retired m)"
    by (simp_all add: release_one_def Let_def)
  have slab: "send_slab_at ?m j = (if j = ?i then ?slab\<lparr>ss_refcount := ss_refcount ?slab - 1\<rparr> else send_slab_at m j)" for j
    using b(1) by (simp add: release_one_def Let_def nth_list_update)
  have r: "seg_slab ?m = seg_slab m" "seg_run ?m = seg_run m"
    by (simp_all add: fun_eq_iff seg_slab_def seg_run_def f)
  have distinct: "distinct (sm_busySegs m)" using pool_distinct [OF send_invD(6) [OF inv]] by simp
  obtain us vs where busy: "sm_busySegs m = us @ seg # vs" "remove1 seg (sm_busySegs m) = us @ vs"
    using seg distinct by (metis (no_types, lifting) remove1_split)
  have busy': "sm_busySegs ?m = us @ vs" by (simp only: f busy(2))
  have runs_j: "runs ?m j = runs m j" if "j \<noteq> ?i" for j
    using that unfolding runs_def r busy' busy(1) by simp
  define us' where "us' = map (seg_run m) (filter (\<lambda>s. seg_slab m s = ?i) us)"
  define vs' where "vs' = map (seg_run m) (filter (\<lambda>s. seg_slab m s = ?i) vs)"
  have runs_i: "runs m ?i = us' @ seg_run m seg # vs'" "runs ?m ?i = us' @ vs'"
    unfolding runs_def r busy' busy(1) by (simp_all add: us'_def vs'_def)
  have oki: "slab_runs_ok m ?i" by (rule send_invD(4) [OF inv b(1)])
  have "slab_runs_ok ?m j" if "j < ?N" for j
  proof (cases "j = ?i")
    case True
    have "packed 0 (us' @ vs') (unat (ss_blocksUsed ?slab))"
      using oki packed_remove [of 0 us' "seg_run m seg" vs'] by (simp add: slab_runs_ok_def Let_def runs_i)
    moreover have "unat (ss_refcount ?slab - 1) = length (us' @ vs')"
      using oki unat_dec [OF b(2)] by (simp add: slab_runs_ok_def Let_def runs_i)
    ultimately show ?thesis using True oki by (simp add: slab_runs_ok_def slab f runs_i Let_def)
  next
    case False
    then show ?thesis using send_invD(4) [OF inv that] by (simp add: slab_runs_ok_def slab f runs_j Let_def)
  qed
  moreover have "state_ok ?m j" if "j < ?N" for j
  proof (cases "j = ?i")
    case True
    have nf: "?i \<notin> set (sm_free m)" using slab_state(1) [OF inv] b(2) by blast
    show ?thesis
    proof (cases "ss_working ?slab")
      case True
      then show ?thesis using \<open>j = ?i\<close> nf b(3) slab_state(2) [OF inv, of ?i] by (simp add: state_ok_def slab f Let_def)
    next
      case False
      then have full: "?i \<in> set (sm_full m)" by (rule b(4))
      then have "?i \<notin> set (sm_working m)" "?i \<notin> set (remove1 ?i (sm_full m))" using d(3,8) by auto
      then show ?thesis using \<open>j = ?i\<close> nf False full
        by (cases "ss_refcount ?slab - 1 = 0") (simp_all add: state_ok_def slab f Let_def)
    qed
  next
    case False
    then have "state_ok ?m j = state_ok m j" by (simp add: state_ok_def slab f)
    then show ?thesis using send_invD(3) [OF inv that] by simp
  qed
  moreover have "busy_ok ?m s" if "s \<in> set (sm_busySegs ?m)" for s
  proof -
    have "busy_ok m s" using that send_invD(5) [OF inv] by (auto simp: f dest: notin_set_remove1)
    then show ?thesis by (auto simp: busy_ok_def f r slab)
  qed
  moreover have "sizes_ok ?m" using send_invD(1) [OF inv] by (simp add: sizes_ok_def f)
  moreover have "mset (sm_listed ?m) = mset (sm_listed m)"
    using b(4) by (auto simp: sm_listed_def f)
  then have "distinct (sm_listed ?m)" "set (sm_listed ?m) = set (sm_listed m)" "length (sm_listed ?m) = length (sm_listed m)"
    using inv by (metis mset_eq_imp_distinct_iff send_inv_def, metis mset_eq_setD, metis size_mset)
  moreover have "pool (sm_freeSegs ?m @ sm_busySegs ?m) (length (sm_segs ?m))"
    using send_invD(6) [OF inv] seg by (simp add: f pool_def)
  ultimately show "send_inv ?m" using inv by (simp add: send_inv_def f)
qed

lemma release_one_fields [simp]:
  "sm_segs (release_one seg m) = sm_segs m" "sm_busySegs (release_one seg m) = remove1 seg (sm_busySegs m)"
  "sm_free (release_one seg m) = sm_free m" "sm_working (release_one seg m) = sm_working m"
  "length (sm_slabInfoVec (release_one seg m)) = length (sm_slabInfoVec m)"
  "sm_slabsHeld (release_one seg m) = sm_slabsHeld m" "sm_maxWorkingSlabs (release_one seg m) = sm_maxWorkingSlabs m"
  "sm_blocksPerSlab (release_one seg m) = sm_blocksPerSlab m" "sm_blockSize (release_one seg m) = sm_blockSize m"
  by (simp_all add: release_one_def Let_def)

lemma ReleaseMessageDescriptor_loop_spec:
  assumes "send_inv m" "linked (sm_segs m) p xs" "set xs \<subseteq> set (sm_busySegs m)" "length xs \<le> fuel"
  shows "\<exists>m'. ReleaseMessageDescriptor_loop fuel p m = Ok () m' \<and> send_inv m' \<and> sm_segs m' = sm_segs m
    \<and> sm_busySegs m' = filter (\<lambda>s. s \<notin> set xs) (sm_busySegs m) \<and> sm_free m' = sm_free m
    \<and> sm_working m' = sm_working m \<and> sm_slabsHeld m' = sm_slabsHeld m \<and> sm_maxWorkingSlabs m' = sm_maxWorkingSlabs m
    \<and> length (sm_slabInfoVec m') = length (sm_slabInfoVec m)
    \<and> sm_blocksPerSlab m' = sm_blocksPerSlab m \<and> sm_blockSize m' = sm_blockSize m"
  using assms
proof (induction xs arbitrary: p m fuel)
  case (Cons x xs)
  then obtain k where k: "fuel = Suc k" "length xs \<le> k" by (cases fuel) auto
  have x: "x \<in> set (sm_busySegs m)" and l: "linked (sm_segs m) (seg_next (sm_segs m ! x)) xs" "p = Some x"
    using Cons.prems by simp_all
  have "x \<notin> set xs" using linked_distinct [OF Cons.prems(2)] by simp
  moreover have distinct: "distinct (sm_busySegs m)" using pool_distinct [OF send_invD(6) [OF Cons.prems(1)]] by simp
  ultimately have "set xs \<subseteq> set (sm_busySegs (release_one x m))" using Cons.prems(3) by auto
  from Cons.IH [OF release_one_inv [OF Cons.prems(1) x] _ this k(2), of "seg_next (sm_segs m ! x)"] l obtain m' where
    m': "ReleaseMessageDescriptor_loop k (seg_next (sm_segs m ! x)) (release_one x m) = Ok () m'" "send_inv m'" "sm_segs m' = sm_segs m"
      "sm_busySegs m' = filter (\<lambda>s. s \<notin> set xs) (remove1 x (sm_busySegs m))" "sm_free m' = sm_free m"
      "sm_working m' = sm_working m" "sm_slabsHeld m' = sm_slabsHeld m" "sm_maxWorkingSlabs m' = sm_maxWorkingSlabs m"
      "length (sm_slabInfoVec m') = length (sm_slabInfoVec m)" "sm_blocksPerSlab m' = sm_blocksPerSlab m" "sm_blockSize m' = sm_blockSize m"
    by auto
  have "filter (\<lambda>s. s \<notin> set xs) (remove1 x (sm_busySegs m)) = filter (\<lambda>s. s \<notin> set (x # xs)) (sm_busySegs m)"
    using distinct by (simp add: distinct_remove1_removeAll removeAll_filter_not_eq filter_filter) (metis (mono_tags, lifting))
  then show ?case using m' release_step_eq [OF Cons.prems(1) x, of k] l(2) k(1) by auto
qed simp

lemma ReleaseMessageDescriptor_spec:
  assumes "send_inv m" "linked (sm_segs m) p xs" "set xs \<subseteq> set (sm_busySegs m)"
  shows "\<exists>m'. ReleaseMessageDescriptor p m = Ok () m' \<and> send_inv m' \<and> sm_segs m' = sm_segs m
    \<and> sm_busySegs m' = filter (\<lambda>s. s \<notin> set xs) (sm_busySegs m) \<and> sm_free m' = sm_free m
    \<and> sm_working m' = sm_working m \<and> sm_slabsHeld m' = sm_slabsHeld m \<and> sm_maxWorkingSlabs m' = sm_maxWorkingSlabs m
    \<and> length (sm_slabInfoVec m') = length (sm_slabInfoVec m)
    \<and> sm_blocksPerSlab m' = sm_blocksPerSlab m \<and> sm_blockSize m' = sm_blockSize m"
  unfolding ReleaseMessageDescriptor_def
  by (rule ReleaseMessageDescriptor_loop_spec [OF assms linked_length [OF assms(2)]])

section \<open>Slabs coming and going\<close>

definition send_core :: "send_manager \<Rightarrow> bool" where
  "send_core m \<longleftrightarrow> sizes_ok m
     \<and> distinct (sm_listed m) \<and> (\<forall>i \<in> set (sm_listed m). i < length (sm_slabInfoVec m))
     \<and> pool (sm_freeSegs m @ sm_busySegs m) (length (sm_segs m))
     \<and> (\<forall>i < length (sm_slabInfoVec m). state_ok m i \<and> slab_runs_ok m i)
     \<and> (\<forall>s \<in> set (sm_busySegs m). busy_ok m s)"

lemma send_inv_core: "send_inv m \<longleftrightarrow> send_core m \<and> unat (sm_slabsHeld m) = length (sm_listed m)"
  by (auto simp: send_inv_def send_core_def)

lemma send_core_held [simp]: "send_core (m\<lparr>sm_slabsHeld := h\<rparr>) = send_core m"
proof -
  let ?m = "m\<lparr>sm_slabsHeld := h\<rparr>"
  have "runs ?m = runs m" "seg_slab ?m = seg_slab m" "seg_run ?m = seg_run m"
    using same_segs_runs [of m ?m] by simp_all
  then have "state_ok ?m = state_ok m" "slab_runs_ok ?m = slab_runs_ok m" "busy_ok ?m = busy_ok m"
    by (simp_all add: fun_eq_iff state_ok_def slab_runs_ok_def busy_ok_def)
  then show ?thesis by (simp add: send_core_def sizes_ok_def sm_listed_def)
qed

lemma SetNumTotalSlabs_core:
  assumes core: "send_core m" and fit: "unat n * unat (sm_blocksPerSlab m) < 2 ^ 32"
  shows "send_core (SetNumTotalSlabs n m)"
proof (cases "unat n \<le> length (sm_slabInfoVec m)")
  case True
  then show ?thesis using core by (simp add: SetNumTotalSlabs_def)
next
  case False
  let ?m = "SetNumTotalSlabs n m" and ?k = "length (sm_slabInfoVec m)"
  have f: "sm_slabInfoVec ?m = sm_slabInfoVec m @ map (\<lambda>i. SendSlab (of_nat i)) [?k..<unat n]"
      "sm_blocksPerSlab ?m = sm_blocksPerSlab m" "sm_blockSize ?m = sm_blockSize m" "sm_listed ?m = sm_listed m"
      "sm_busySegs ?m = sm_busySegs m" "sm_segs ?m = sm_segs m" "sm_freeSegs ?m = sm_freeSegs m"
      "sm_free ?m = sm_free m" "sm_working ?m = sm_working m" "sm_full ?m = sm_full m"
    using False by (simp_all add: SetNumTotalSlabs_def Let_def sm_listed_def)
  have len: "length (sm_slabInfoVec ?m) = unat n" using False by (simp add: f)
  have r: "seg_slab ?m = seg_slab m" "seg_run ?m = seg_run m" "runs ?m = runs m"
    by (simp_all add: fun_eq_iff seg_slab_def seg_run_def [abs_def] runs_def f(2-))
  have old: "send_slab_at ?m i = send_slab_at m i" if "i < ?k" for i using that by (simp add: f nth_append)
  have new: "send_slab_at ?m i = SendSlab (of_nat i)" if "?k \<le> i" "i < unat n" for i
    using that by (simp add: f nth_append)
  have busy: "seg_slab m s < ?k" if "s \<in> set (sm_busySegs m)" for s
    using core that by (simp add: send_core_def busy_ok_def)
  have listed: "i \<notin> set (sm_listed m)" if "?k \<le> i" for i using core that by (auto simp: send_core_def)
  have "state_ok ?m i \<and> slab_runs_ok ?m i" if i: "i < unat n" for i
  proof (cases "i < ?k")
    case True
    then have "state_ok ?m i = state_ok m i" "slab_runs_ok ?m i = slab_runs_ok m i"
      by (simp_all add: state_ok_def slab_runs_ok_def old f(2-) r)
    then show ?thesis using core True by (simp add: send_core_def)
  next
    case False
    then have "runs m i = []" using busy by (auto simp: runs_def filter_empty_conv)
    then show ?thesis using False i listed [of i] new [of i]
      by (simp add: state_ok_def slab_runs_ok_def f(2-) r SendSlab_def Let_def sm_listed_def)
  qed
  moreover have "busy_ok ?m s" if "s \<in> set (sm_busySegs m)" for s
  proof -
    have "seg_slab m s < unat n" using busy [OF that] False by linarith
    then show ?thesis using core that busy [OF that] by (simp add: send_core_def busy_ok_def f(2-) r len old)
  qed
  moreover have "\<forall>i \<in> set (sm_listed m). i < unat n" using core False by (fastforce simp: send_core_def)
  ultimately show ?thesis using core fit by (simp add: send_core_def f(2-) len sizes_ok_def)
qed

lemma SetNumTotalSlabs_fields [simp]:
  "sm_listed (SetNumTotalSlabs n m) = sm_listed m" "sm_busySegs (SetNumTotalSlabs n m) = sm_busySegs m"
  "sm_segs (SetNumTotalSlabs n m) = sm_segs m" "sm_slabsHeld (SetNumTotalSlabs n m) = sm_slabsHeld m"
  "sm_blocksPerSlab (SetNumTotalSlabs n m) = sm_blocksPerSlab m" "sm_blockSize (SetNumTotalSlabs n m) = sm_blockSize m"
  "sm_maxWorkingSlabs (SetNumTotalSlabs n m) = sm_maxWorkingSlabs m" "sm_free (SetNumTotalSlabs n m) = sm_free m"
  "length (sm_slabInfoVec (SetNumTotalSlabs n m)) = max (length (sm_slabInfoVec m)) (unat n)"
  by (simp_all add: SetNumTotalSlabs_def Let_def sm_listed_def)

lemma AddFreeSlab_core:
  assumes core: "send_core m" and new: "unat sid \<notin> set (sm_listed m)"
    and fit: "Suc (unat sid) * unat (sm_blocksPerSlab m) < 2 ^ 32"
  shows "\<exists>m'. AddFreeSlab (sid, ptr) m = Ok () m' \<and> send_core m' \<and> sm_listed m' = sm_free m @ unat sid # sm_working m @ sm_full m @ sm_retired m
    \<and> sm_segs m' = sm_segs m \<and> sm_busySegs m' = sm_busySegs m \<and> sm_slabsHeld m' = sm_slabsHeld m
    \<and> sm_blocksPerSlab m' = sm_blocksPerSlab m \<and> sm_blockSize m' = sm_blockSize m \<and> sm_free m' = sm_free m @ [unat sid]"
proof -
  let ?i = "unat sid"
  define m1 where "m1 = (if ?i \<ge> length (sm_slabInfoVec m) then SetNumTotalSlabs (sid + 1) m else m)"
  have "sid \<noteq> - 1"
  proof
    assume "sid = - 1"
    then have "2 ^ 32 * unat (sm_blocksPerSlab m) < 2 ^ 32" using fit by (simp add: unat_minus_1_u32)
    moreover have "0 < unat (sm_blocksPerSlab m)" using core by (simp add: send_core_def sizes_ok_def unat_gt_0)
    ultimately show False by simp
  qed
  then have s1: "unat (sid + 1) = Suc ?i" by (rule unat_inc)
  have c1: "send_core m1" using core fit SetNumTotalSlabs_core [OF core, of "sid + 1"] by (simp add: m1_def s1)
  have f1: "sm_listed m1 = sm_listed m" "sm_busySegs m1 = sm_busySegs m" "sm_segs m1 = sm_segs m" "sm_slabsHeld m1 = sm_slabsHeld m"
      "sm_blocksPerSlab m1 = sm_blocksPerSlab m" "sm_blockSize m1 = sm_blockSize m" "sm_free m1 = sm_free m"
      "sm_working m1 = sm_working m" "sm_full m1 = sm_full m" "sm_retired m1 = sm_retired m"
    by (simp_all add: m1_def SetNumTotalSlabs_def Let_def sm_listed_def)
  have i1: "?i < length (sm_slabInfoVec m1)" by (simp add: m1_def s1)
  define m2 where "m2 = upd_send_slab ?i (SI_Reset ptr) (m1\<lparr>sm_free := sm_free m1 @ [?i]\<rparr>)"
  have eq: "AddFreeSlab (sid, ptr) m = Ok () m2"
    using i1 new f1(1) by (simp add: AddFreeSlab_def Let_def m1_def [symmetric] m2_def)
  have f2: "sm_blocksPerSlab m2 = sm_blocksPerSlab m1" "sm_blockSize m2 = sm_blockSize m1" "sm_segs m2 = sm_segs m1"
      "sm_busySegs m2 = sm_busySegs m1" "sm_freeSegs m2 = sm_freeSegs m1" "length (sm_slabInfoVec m2) = length (sm_slabInfoVec m1)"
      "sm_free m2 = sm_free m1 @ [?i]" "sm_working m2 = sm_working m1" "sm_full m2 = sm_full m1" "sm_retired m2 = sm_retired m1"
      "sm_slabsHeld m2 = sm_slabsHeld m1"
    by (simp_all add: m2_def upd_send_slab_def)
  have slab: "send_slab_at m2 j = (if j = ?i then SI_Reset ptr (send_slab_at m1 ?i) else send_slab_at m1 j)" for j
    using i1 by (simp add: m2_def upd_send_slab_def nth_list_update)
  have r: "seg_slab m2 = seg_slab m1" "seg_run m2 = seg_run m1" "runs m2 = runs m1"
    by (simp_all add: fun_eq_iff seg_slab_def seg_run_def [abs_def] runs_def f2)
  have st: "state_ok m1 ?i" "slab_runs_ok m1 ?i" using c1 i1 by (simp_all add: send_core_def)
  have "ss_refcount (send_slab_at m1 ?i) = 0"
    using st(1) new f1(7-9) by (auto simp: state_ok_def Let_def sm_listed_def split: if_splits)
  then have norun: "runs m1 ?i = []" using st(2) by (simp add: slab_runs_ok_def Let_def)
  have "state_ok m2 j \<and> slab_runs_ok m2 j" if "j < length (sm_slabInfoVec m1)" for j
  proof (cases "j = ?i")
    case True
    then show ?thesis using st(2) norun by (simp add: state_ok_def slab_runs_ok_def slab f2 r SI_Reset_def Let_def)
  next
    case False
    then have "state_ok m2 j = state_ok m1 j" "slab_runs_ok m2 j = slab_runs_ok m1 j"
      by (simp_all add: state_ok_def slab_runs_ok_def slab f2 r)
    then show ?thesis using c1 that by (simp add: send_core_def)
  qed
  moreover have "busy_ok m2 s" if "s \<in> set (sm_busySegs m1)" for s
  proof -
    have "seg_slab m1 s \<noteq> ?i" using norun that by (auto simp: runs_def filter_empty_conv)
    then show ?thesis using c1 that by (simp add: send_core_def busy_ok_def f2 r slab)
  qed
  moreover have "mset (sm_listed m2) = add_mset ?i (mset (sm_listed m1))" by (simp add: sm_listed_def f2)
  then have "mset (sm_listed m2) = mset (?i # sm_listed m1)" by simp
  then have "distinct (sm_listed m2)" "set (sm_listed m2) = insert ?i (set (sm_listed m1))"
    using c1 new f1(1) by (metis distinct.simps(2) mset_eq_imp_distinct_iff send_core_def, metis list.simps(15) mset_eq_setD)
  ultimately have "send_core m2" using c1 i1 by (simp add: send_core_def f2 sizes_ok_def)
  then show ?thesis using eq f1 f2 by (auto simp: sm_listed_def)
qed

lemma listed_le: "send_core m \<Longrightarrow> length (sm_listed m) \<le> length (sm_slabInfoVec m) \<and> length (sm_slabInfoVec m) < 2 ^ 32"
proof
  assume core: "send_core m"
  then have "set (sm_listed m) \<subseteq> {0..<length (sm_slabInfoVec m)}" "distinct (sm_listed m)" by (auto simp: send_core_def)
  then show "length (sm_listed m) \<le> length (sm_slabInfoVec m)"
    using card_mono [of "{0..<length (sm_slabInfoVec m)}" "set (sm_listed m)"] by (simp add: distinct_card)
  have b: "sm_blocksPerSlab m \<noteq> 0" "length (sm_slabInfoVec m) * unat (sm_blocksPerSlab m) < 2 ^ 32"
    using core by (simp_all add: send_core_def sizes_ok_def)
  have "length (sm_slabInfoVec m) \<le> length (sm_slabInfoVec m) * unat (sm_blocksPerSlab m)"
    using b(1) by (cases "unat (sm_blocksPerSlab m)") (simp_all add: unat_eq_zero)
  then show "length (sm_slabInfoVec m) < 2 ^ 32" using b(2) by linarith
qed

text \<open>The slabs the manager hands out are not held by the client already and lie in the shared memory.\<close>

definition slabs_new :: "(u32 \<times> nat) list \<Rightarrow> send_manager \<Rightarrow> bool" where
  "slabs_new slabs m \<longleftrightarrow> distinct (map (unat \<circ> fst) slabs)
     \<and> (\<forall>(sid, ptr) \<in> set slabs. unat sid \<notin> set (sm_listed m) \<and> Suc (unat sid) * unat (sm_blocksPerSlab m) < 2 ^ 32)"

lemma AddFreeSlabs_core:
  assumes "send_core m" and "slabs_new slabs m"
  shows "\<exists>m'. for_each AddFreeSlab slabs m = Ok () m' \<and> send_core m' \<and> sm_segs m' = sm_segs m
    \<and> sm_busySegs m' = sm_busySegs m \<and> sm_slabsHeld m' = sm_slabsHeld m \<and> sm_free m' = sm_free m @ map (unat \<circ> fst) slabs
    \<and> length (sm_listed m') = length (sm_listed m) + length slabs
    \<and> sm_blocksPerSlab m' = sm_blocksPerSlab m \<and> sm_blockSize m' = sm_blockSize m"
  using assms
proof (induction slabs arbitrary: m)
  case (Cons p slabs)
  obtain sid ptr where p: "p = (sid, ptr)" by (cases p)
  have "unat sid \<notin> set (sm_listed m)" "Suc (unat sid) * unat (sm_blocksPerSlab m) < 2 ^ 32"
    using Cons.prems(2) by (simp_all add: slabs_new_def p)
  from AddFreeSlab_core [OF Cons.prems(1) this, of ptr] obtain m1 where m1: "AddFreeSlab p m = Ok () m1" "send_core m1"
    "sm_listed m1 = sm_free m @ unat sid # sm_working m @ sm_full m @ sm_retired m" "sm_segs m1 = sm_segs m"
    "sm_busySegs m1 = sm_busySegs m" "sm_slabsHeld m1 = sm_slabsHeld m" "sm_blocksPerSlab m1 = sm_blocksPerSlab m"
    "sm_blockSize m1 = sm_blockSize m" "sm_free m1 = sm_free m @ [unat sid]"
    unfolding p by blast
  have "set (sm_listed m1) = insert (unat sid) (set (sm_listed m))" unfolding m1(3) sm_listed_def [of m] by auto
  then have "slabs_new slabs m1"
    using Cons.prems(2) by (auto simp: slabs_new_def p m1(7) image_iff split: prod.splits)
  moreover have "length (sm_listed m1) = Suc (length (sm_listed m))" unfolding m1(3) sm_listed_def [of m] by simp
  ultimately show ?case using Cons.IH [OF m1(2)] m1 by (auto simp: p)
qed simp

lemma AddFreeSlabs_spec:
  assumes inv: "send_inv m" and new: "slabs_new slabs m"
  shows "\<exists>m'. AddFreeSlabs slabs m = Ok () m' \<and> send_inv m' \<and> sm_segs m' = sm_segs m
    \<and> sm_busySegs m' = sm_busySegs m \<and> sm_free m' = sm_free m @ map (unat \<circ> fst) slabs"
proof -
  have core: "send_core m" and held: "unat (sm_slabsHeld m) = length (sm_listed m)" using inv by (simp_all add: send_inv_core)
  from AddFreeSlabs_core [OF core new] obtain m1 where m1: "for_each AddFreeSlab slabs m = Ok () m1" "send_core m1"
    "sm_segs m1 = sm_segs m" "sm_busySegs m1 = sm_busySegs m" "sm_slabsHeld m1 = sm_slabsHeld m"
    "sm_free m1 = sm_free m @ map (unat \<circ> fst) slabs" "length (sm_listed m1) = length (sm_listed m) + length slabs"
    by blast
  let ?m = "m1\<lparr>sm_slabsHeld := sm_slabsHeld m1 + of_nat (length slabs)\<rparr>"
  have lt: "length (sm_listed m) + length slabs < 2 ^ 32" using listed_le [OF m1(2)] m1(7) by linarith
  then have "unat (of_nat (length slabs) :: u32) = length slabs" by (intro unat_of_nat_u32) linarith
  then have "unat (sm_slabsHeld ?m) = length (sm_listed m) + length slabs"
    using lt held m1(5) by (simp add: unat_add_u32)
  then have "send_inv ?m" using m1(2,7) by (simp add: send_inv_core sm_listed_def)
  then show ?thesis using m1 by (auto simp: AddFreeSlabs_def)
qed

lemma GetRetiredSlabs_spec:
  assumes inv: "send_inv m"
  shows "send_inv (snd (GetRetiredSlabs k m)) \<and> fst (GetRetiredSlabs k m) = map of_nat (take k (sm_retired m))"
proof -
  let ?m = "snd (GetRetiredSlabs k m)"
  have f: "sm_segs ?m = sm_segs m" "sm_busySegs ?m = sm_busySegs m" "sm_freeSegs ?m = sm_freeSegs m"
      "sm_free ?m = sm_free m" "sm_working ?m = sm_working m" "sm_full ?m = sm_full m" "sm_retired ?m = drop k (sm_retired m)"
      "sm_slabInfoVec ?m = sm_slabInfoVec m" "sm_blocksPerSlab ?m = sm_blocksPerSlab m" "sm_blockSize ?m = sm_blockSize m"
    by (simp_all add: GetRetiredSlabs_def Let_def)
  have same: "same_segs m ?m" by (simp add: same_segs_def f)
  have core: "send_core m" and held: "unat (sm_slabsHeld m) = length (sm_listed m)" using inv by (simp_all add: send_inv_core)
  have "state_ok ?m = state_ok m" "slab_runs_ok ?m = slab_runs_ok m" "busy_ok ?m = busy_ok m"
    using same_segs_runs [OF same] by (simp_all add: fun_eq_iff state_ok_def slab_runs_ok_def busy_ok_def f)
  moreover have "distinct (sm_listed ?m)" using core set_drop_subset [of k "sm_retired m"]
    by (auto simp: send_core_def sm_listed_def f)
  moreover have "set (sm_listed ?m) \<subseteq> set (sm_listed m)" using set_drop_subset [of k "sm_retired m"]
    by (auto simp: sm_listed_def f)
  ultimately have "send_core ?m" using core by (auto simp: send_core_def f sizes_ok_def)
  moreover have "unat (sm_slabsHeld ?m) = length (sm_listed ?m)"
  proof -
    let ?n = "length (take k (sm_retired m))"
    have le: "?n \<le> length (sm_listed m)" "length (sm_listed m) < 2 ^ 32"
      using listed_le [OF core] by (simp_all add: sm_listed_def)
    have n: "unat (of_nat ?n :: u32) = ?n" by (rule unat_of_nat_u32) (use le in linarith)
    then have "(of_nat ?n :: u32) \<le> sm_slabsHeld m" using held le(1) by (simp add: word_le_nat_alt)
    then have "unat (sm_slabsHeld m - of_nat ?n) = length (sm_listed m) - ?n" using held n by (simp add: unat_sub)
    then show ?thesis by (simp add: GetRetiredSlabs_def Let_def sm_listed_def)
  qed
  moreover have "ss_slabID (send_slab_at m i) = of_nat i" if "i \<in> set (take k (sm_retired m))" for i
  proof -
    have "i \<in> set (sm_listed m)" using that by (auto simp: sm_listed_def dest: in_set_takeD)
    then have "slab_runs_ok m i" using core by (auto simp: send_core_def)
    then show ?thesis by (simp add: slab_runs_ok_def Let_def)
  qed
  ultimately show ?thesis by (simp add: send_inv_core) (simp add: GetRetiredSlabs_def Let_def)
qed

lemma initial_send_inv:
  assumes bsz: "bsz \<noteq> 0" and ok: "SetSizeParams bsz ssz ClientSendManager = Ok () m" and ssz: "ssz \<noteq> 0"
  shows "send_inv m \<and> sm_busySegs m = []"
proof -
  let ?bps = "ssz div bsz"
  have mult: "ssz = ?bps * bsz" and m: "m = ClientSendManager\<lparr>sm_blockSize := bsz, sm_slabSize := ssz, sm_blocksPerSlab := ?bps\<rparr>"
    using ok bsz by (auto simp: SetSizeParams_def Let_def split: if_splits)
  then have bps: "?bps \<noteq> 0" using ssz by auto
  have "unat ?bps * unat bsz \<le> unat ssz" by (simp add: unat_div)
  then have "unat ?bps * unat bsz < 2 ^ 32"
    using unsigned_less [of ssz, where ?'a = nat] by simp
  then show ?thesis using bsz bps
    by (simp add: m ClientSendManager_def sm_AddMsgSegBlock_def Let_def send_inv_def sizes_ok_def sm_listed_def pool_def)
qed

section \<open>The life of a pool\<close>

text \<open>
  The states a client can bring its pool into, with the messages it holds descriptors of.
  A descriptor is released once; the manager's slabs are new to the client.
\<close>

inductive send_reach :: "send_manager \<Rightarrow> nat list list \<Rightarrow> bool" where
  init: "SetSizeParams bsz ssz ClientSendManager = Ok () m \<Longrightarrow> bsz \<noteq> 0 \<Longrightarrow> ssz \<noteq> 0 \<Longrightarrow> send_reach m []"
| total: "send_reach m live \<Longrightarrow> unat n * unat (sm_blocksPerSlab m) < 2 ^ 32 \<Longrightarrow> send_reach (SetNumTotalSlabs n m) live"
| add: "send_reach m live \<Longrightarrow> slabs_new slabs m \<Longrightarrow> AddFreeSlabs slabs m = Ok () m' \<Longrightarrow> send_reach m' live"
| retired: "send_reach m live \<Longrightarrow> GetRetiredSlabs k m = (ids, m') \<Longrightarrow> send_reach m' live"
| max: "send_reach m live \<Longrightarrow> MaxWorkingSlabs n m = Ok r m' \<Longrightarrow> send_reach m' live"
| flush: "send_reach m live \<Longrightarrow> FlushWorkingSlabs m = Ok () m' \<Longrightarrow> send_reach m' live"
| none: "send_reach m live \<Longrightarrow> GetMessageDescriptor len c m = Ok None m' \<Longrightarrow> send_reach m' live"
| get: "send_reach m live \<Longrightarrow> GetMessageDescriptor len c m = Ok (Some d) m' \<Longrightarrow> linked (sm_segs m') (Some d) xs
    \<Longrightarrow> send_reach m' (xs # live)"
| release: "send_reach m live \<Longrightarrow> xs \<in> set live \<Longrightarrow> ReleaseMessageDescriptor (Some (hd xs)) m = Ok () m'
    \<Longrightarrow> send_reach m' (remove1 xs live)"

definition live_ok :: "send_manager \<Rightarrow> nat list list \<Rightarrow> bool" where
  "live_ok m live \<longleftrightarrow> send_inv m \<and> mset (concat live) = mset (sm_busySegs m)
     \<and> (\<forall>xs \<in> set live. xs \<noteq> [] \<and> linked (sm_segs m) (Some (hd xs)) xs)"

lemma live_ok_same:
  "live_ok m live \<Longrightarrow> send_inv m' \<Longrightarrow> sm_segs m' = sm_segs m \<Longrightarrow> sm_busySegs m' = sm_busySegs m \<Longrightarrow> live_ok m' live"
  by (simp add: live_ok_def)

lemma live_ok_descriptor:
  assumes live: "live_ok m live" and d: "descriptor m m' xs n"
  shows "live_ok m' (xs # live)"
proof -
  have k: "send_inv m'" "sm_busySegs m' = sm_busySegs m @ xs" "segs_kept m m'" "xs \<noteq> []" "linked (sm_segs m') (Some (hd xs)) xs"
    using d by (simp_all add: descriptor_def chain_state_def)
  have "linked (sm_segs m') (Some (hd ys)) ys" if ys: "ys \<in> set live" for ys
  proof (rule linked_cong)
    show "linked (sm_segs m) (Some (hd ys)) ys" using live ys by (simp add: live_ok_def)
    show "length (sm_segs m) \<le> length (sm_segs m')" using k(3) by (simp add: segs_kept_def)
    show "seg_next (sm_segs m' ! y) = seg_next (sm_segs m ! y)" if "y \<in> set ys" for y
    proof -
      have "y \<in> set (sm_busySegs m)" using live ys that by (metis UN_I live_ok_def mset_eq_setD set_concat)
      then show ?thesis using k(3) by (simp add: segs_kept_def)
    qed
  qed
  then show ?thesis using live k by (auto simp: live_ok_def)
qed

lemma GetMessageDescriptor_Some:
  assumes "send_inv m" and "GetMessageDescriptor len c m = Ok (Some d) m'"
  obtains xs where "d = hd xs" "descriptor m m' xs (unat (blocks_needed len (sm_blockSize m)))"
  using GetMessageDescriptor_spec [OF assms(1), where len = len and contiguous = c] assms(2) that
  by (auto split: if_splits)

lemma GetMessageDescriptor_None:
  assumes "send_inv m" and "GetMessageDescriptor len c m = Ok None m'"
  shows "m' = m"
  using GetMessageDescriptor_spec [OF assms(1), where len = len and contiguous = c] assms(2)
  by (auto split: if_splits)

lemma live_ok_release:
  assumes live: "live_ok m live" and xs: "xs \<in> set live" and r: "ReleaseMessageDescriptor (Some (hd xs)) m = Ok () m'"
  shows "live_ok m' (remove1 xs live)"
proof -
  have l: "linked (sm_segs m) (Some (hd xs)) xs" and inv: "send_inv m" and ms: "mset (concat live) = mset (sm_busySegs m)"
    using live xs by (simp_all add: live_ok_def)
  have sub: "set xs \<subseteq> set (sm_busySegs m)" using xs mset_eq_setD [OF ms] by auto
  from ReleaseMessageDescriptor_spec [OF inv l sub] r have
    m': "send_inv m'" "sm_segs m' = sm_segs m" "sm_busySegs m' = filter (\<lambda>s. s \<notin> set xs) (sm_busySegs m)" by auto
  obtain us vs where split: "live = us @ xs # vs" "remove1 xs live = us @ vs"
    using xs by (metis (no_types, lifting) remove1_split)
  have "distinct (concat live)"
    using ms pool_distinct [OF send_invD(6) [OF inv]] by (simp add: mset_eq_imp_distinct_iff [OF ms])
  then have dis: "set xs \<inter> set (concat us) = {}" "set xs \<inter> set (concat vs) = {}" by (auto simp: split(1))
  have "mset (sm_busySegs m') = filter_mset (\<lambda>s. s \<notin> set xs) (mset (concat live))"
    by (simp add: m'(3) ms [symmetric] mset_filter)
  also have "\<dots> = mset (filter (\<lambda>s. s \<notin> set xs) (concat live))" by simp
  also have "filter (\<lambda>s. s \<notin> set xs) (concat live) = concat us @ concat vs"
  proof -
    have "filter (\<lambda>s. s \<notin> set xs) zs = zs" if "set xs \<inter> set zs = {}" for zs
      using that by (intro filter_True) auto
    then show ?thesis using dis by (simp add: split(1))
  qed
  finally have "mset (concat (remove1 xs live)) = mset (sm_busySegs m')" by (simp add: split(2))
  then show ?thesis using live m' by (auto simp: live_ok_def split(2)) (auto simp: split(1))
qed

lemma send_reach_live_ok: "send_reach m live \<Longrightarrow> live_ok m live"
proof (induction rule: send_reach.induct)
  case (init bsz ssz m)
  then show ?case using initial_send_inv by (simp add: live_ok_def)
next
  case (total m live n)
  then have "send_inv (SetNumTotalSlabs n m)"
    using SetNumTotalSlabs_core [of m n] by (simp add: live_ok_def send_inv_core)
  then show ?case using total by (auto intro: live_ok_same)
next
  case (add m live slabs m')
  then show ?case using AddFreeSlabs_spec [of m slabs] by (auto simp: live_ok_def)
next
  case (retired m live k ids m')
  then have "m' = snd (GetRetiredSlabs k m)" by simp
  moreover have "send_inv (snd (GetRetiredSlabs k m))" using retired(3) GetRetiredSlabs_spec [of m k] by (simp add: live_ok_def)
  ultimately have "send_inv m'" by simp
  with retired(3) show ?case
    by (rule live_ok_same) (use retired(2) in \<open>auto simp: GetRetiredSlabs_def Let_def\<close>)
next
  case (max m live n r m')
  then show ?case using MaxWorkingSlabs_spec [of m n] by (auto simp: live_ok_def same_segs_def)
next
  case (flush m live m')
  then show ?case using FlushWorkingSlabs_spec [of m] by (auto simp: live_ok_def same_segs_def)
next
  case (none m live len c m')
  then show ?case using GetMessageDescriptor_None [of m len c m'] by (auto simp: live_ok_def)
next
  case (get m live len c d m' xs)
  then have "send_inv m" by (simp add: live_ok_def)
  then obtain ys where "d = hd ys" "descriptor m m' ys (unat (blocks_needed len (sm_blockSize m)))"
    using get(2) by (rule GetMessageDescriptor_Some)
  moreover then have "xs = ys" using get(3) linked_unique by (auto simp: descriptor_def)
  ultimately show ?case using live_ok_descriptor get by blast
next
  case (release m live xs m')
  then show ?case using live_ok_release by blast
qed

section \<open>Examples\<close>

definition example_send0 :: send_manager where
  "example_send0 = ClientSendManager\<lparr>sm_blockSize := 4, sm_slabSize := 16, sm_blocksPerSlab := 4\<rparr>"

definition example_send :: send_manager where
  "example_send = example_send0\<lparr>sm_slabsHeld := 2, sm_free := [0, 1],
     sm_slabInfoVec := [(SendSlab 0)\<lparr>ss_buf := 1000\<rparr>, (SendSlab 1)\<lparr>ss_buf := 2000\<rparr>]\<rparr>"

lemma example_send_reach: "send_reach example_send []"
proof (rule send_reach.add [where slabs = "[(0, 1000), (1, 2000)]"])
  show "send_reach example_send0 []"
    by (rule send_reach.init [of 4 16]) (simp_all add: SetSizeParams_def example_send0_def)
  show "slabs_new [(0, 1000), (1, 2000)] example_send0"
    by (simp add: slabs_new_def example_send0_def sm_listed_def ClientSendManager_def sm_AddMsgSegBlock_def Let_def)
  show "AddFreeSlabs [(0, 1000), (1, 2000)] example_send0 = Ok () example_send"
    by (simp add: AddFreeSlabs_def AddFreeSlab_def example_send0_def example_send_def ClientSendManager_def
        sm_AddMsgSegBlock_def SetNumTotalSlabs_def sm_listed_def upd_send_slab_def SI_Reset_def SendSlab_def Let_def upt_rec)
qed

definition example_send2 :: send_manager where
  "example_send2 = example_send\<lparr>sm_free := [1], sm_working := [0], sm_freeSegs := [2..<32], sm_busySegs := [0, 1],
     sm_slabInfoVec := [(SendSlab 0)\<lparr>ss_buf := 1000, ss_blocksUsed := 3, ss_refcount := 2, ss_working := True\<rparr>,
       (SendSlab 1)\<lparr>ss_buf := 2000\<rparr>],
     sm_segs := \<lparr>seg_buf = 1000, seg_size = 8, seg_blockID = 0, seg_next = None\<rparr>
       # \<lparr>seg_buf = 1008, seg_size = 4, seg_blockID = 2, seg_next = None\<rparr> # replicate 30 MessageSegment\<rparr>"

lemma example_segs:
  "[0..<32] = 0 # 1 # [2..<32]" "replicate 32 x = x # x # replicate 30 x"
  by (simp add: upt_rec, simp add: numeral_eq_Suc)

lemma example_gets:
  "\<exists>m. GetMessageDescriptor 5 False example_send = Ok (Some 0) m \<and> linked (sm_segs m) (Some 0) [0]
     \<and> GetMessageDescriptor 4 True m = Ok (Some 1) example_send2"
  by (simp add: GetMessageDescriptor_def blocks_needed_def GetSegment_def find_room_def alloc_at_def
    example_send_def example_send0_def example_send2_def ClientSendManager_def sm_AddMsgSegBlock_def sm_kNumSegs_def upd_send_slab_def
    fill_segment_def SendSlab_def Let_def example_segs)
lemma example_send_inv: "send_inv example_send"
  using send_reach_live_ok [OF example_send_reach] by (simp add: live_ok_def)

lemma example_send2_reach: "send_reach example_send2 [[1], [0]]"
proof -
  from example_gets obtain m where m: "GetMessageDescriptor 5 False example_send = Ok (Some 0) m"
      "linked (sm_segs m) (Some 0) [0]" "GetMessageDescriptor 4 True m = Ok (Some 1) example_send2" by blast
  have "linked (sm_segs example_send2) (Some 1) [1]" by (simp add: example_send2_def)
  with m(3) show ?thesis by (rule send_reach.get [OF send_reach.get [OF example_send_reach m(1,2)]])
qed

section \<open>Properties\<close>

lemma distinct_two:
  assumes "distinct zs" "x \<in> set zs" "y \<in> set zs" "x \<noteq> y"
  obtains us vs ws where "zs = us @ x # vs @ y # ws" | us vs ws where "zs = us @ y # vs @ x # ws"
proof -
  obtain us zs' where zs: "zs = us @ x # zs'" using assms(2) by (auto simp: in_set_conv_decomp)
  then consider "y \<in> set us" | "y \<in> set zs'" using assms(3,4) by auto
  then show ?thesis
  proof cases
    case 1
    then obtain as bs where "us = as @ y # bs" by (auto simp: in_set_conv_decomp)
    then have "zs = as @ y # bs @ x # zs'" using zs by simp
    then show ?thesis by (rule that(2))
  next
    case 2
    then obtain as bs where "zs' = as @ y # bs" by (auto simp: in_set_conv_decomp)
    then have "zs = us @ x # as @ y # bs" using zs by simp
    then show ?thesis by (rule that(1))
  qed
qed

lemma busy_runs_disjoint:
  assumes inv: "send_inv m" and x: "x \<in> set (sm_busySegs m)" and y: "y \<in> set (sm_busySegs m)" and "x \<noteq> y"
    and same: "seg_slab m x = seg_slab m y"
  shows "fst (seg_run m x) + snd (seg_run m x) \<le> fst (seg_run m y) \<or> fst (seg_run m y) + snd (seg_run m y) \<le> fst (seg_run m x)"
proof -
  let ?i = "seg_slab m x" and ?zs = "filter (\<lambda>s. seg_slab m s = seg_slab m x) (sm_busySegs m)"
  have packed: "packed 0 (map (seg_run m) ?zs) (unat (ss_blocksUsed (send_slab_at m ?i)))"
    using send_invD(4) [OF inv busy_slab(1) [OF inv x]] by (simp add: slab_runs_ok_def Let_def runs_def)
  have "distinct ?zs" using pool_distinct [OF send_invD(6) [OF inv]] by simp
  moreover have "x \<in> set ?zs" "y \<in> set ?zs" using x y same by simp_all
  ultimately show ?thesis using \<open>x \<noteq> y\<close>
  proof (rule distinct_two)
    fix us vs ws assume "?zs = us @ x # vs @ y # ws"
    then show ?thesis using packed packed_disjoint [of 0 _ "fst (seg_run m x)" "snd (seg_run m x)" _ "fst (seg_run m y)" "snd (seg_run m y)"]
      by (metis (no_types, lifting) list.simps(9) map_append prod.collapse)
  next
    fix us vs ws assume "?zs = us @ y # vs @ x # ws"
    then show ?thesis using packed packed_disjoint [of 0 _ "fst (seg_run m y)" "snd (seg_run m y)" _ "fst (seg_run m x)" "snd (seg_run m x)"]
      by (metis (no_types, lifting) list.simps(9) map_append prod.collapse)
  qed
qed

lemma busy_run_bounds:
  assumes inv: "send_inv m" and x: "x \<in> set (sm_busySegs m)"
  shows "0 < snd (seg_run m x)" "fst (seg_run m x) + snd (seg_run m x) \<le> unat (sm_blocksPerSlab m)"
proof -
  let ?i = "seg_slab m x"
  have ok: "slab_runs_ok m ?i" by (rule send_invD(4) [OF inv busy_slab(1) [OF inv x]])
  have "seg_run m x \<in> set (runs m ?i)" using x by (auto simp: runs_def)
  then have "0 < snd (seg_run m x) \<and> fst (seg_run m x) + snd (seg_run m x) \<le> unat (ss_blocksUsed (send_slab_at m ?i))"
    using ok packed_bounds [of 0 "runs m ?i" "unat (ss_blocksUsed (send_slab_at m ?i))" "fst (seg_run m x)" "snd (seg_run m x)"]
    by (simp add: slab_runs_ok_def Let_def)
  moreover have "unat (ss_blocksUsed (send_slab_at m ?i)) \<le> unat (sm_blocksPerSlab m)"
    using ok by (simp add: slab_runs_ok_def Let_def word_le_nat_alt)
  ultimately show "0 < snd (seg_run m x)" "fst (seg_run m x) + snd (seg_run m x) \<le> unat (sm_blocksPerSlab m)" by linarith+
qed

text \<open>
  C29: in every state a client can reach, the segments of the messages it is writing lie inside
  slabs it holds that are neither free nor retired, none is empty, and the bytes of two
  different segments do not overlap.
\<close>

theorem send_segments_disjoint:
  assumes "send_reach m live" and x: "x \<in> set (concat live)" and y: "y \<in> set (concat live)" and "x \<noteq> y"
  shows "seg_slab m x \<in> set (sm_working m) \<union> set (sm_full m)
    \<and> 0 < seg_size (sm_segs m ! x)
    \<and> ss_buf (send_slab_at m (seg_slab m x)) \<le> seg_buf (sm_segs m ! x)
    \<and> seg_buf (sm_segs m ! x) + unat (seg_size (sm_segs m ! x))
        \<le> ss_buf (send_slab_at m (seg_slab m x)) + unat (sm_blocksPerSlab m) * unat (sm_blockSize m)
    \<and> (seg_slab m x = seg_slab m y \<longrightarrow>
        seg_buf (sm_segs m ! x) + unat (seg_size (sm_segs m ! x)) \<le> seg_buf (sm_segs m ! y)
        \<or> seg_buf (sm_segs m ! y) + unat (seg_size (sm_segs m ! y)) \<le> seg_buf (sm_segs m ! x))"
proof -
  have ok: "live_ok m live" by (rule send_reach_live_ok [OF assms(1)])
  then have inv: "send_inv m" by (simp add: live_ok_def)
  have set_eq: "set (concat live) = set (sm_busySegs m)" by (rule mset_eq_setD) (use ok in \<open>simp add: live_ok_def\<close>)
  have xb: "x \<in> set (sm_busySegs m)" and yb: "y \<in> set (sm_busySegs m)" using x y unfolding set_eq .
  let ?b = "unat (sm_blockSize m)"
  have b: "0 < ?b" using send_invD(1) [OF inv] by (simp add: sizes_ok_def unat_gt_0)
  have place: "seg_buf (sm_segs m ! s) = ss_buf (send_slab_at m (seg_slab m s)) + fst (seg_run m s) * ?b"
      "unat (seg_size (sm_segs m ! s)) = snd (seg_run m s) * ?b" if "s \<in> set (sm_busySegs m)" for s
    using send_invD(5) [OF inv that] by (simp_all add: busy_ok_def)
  note bx = busy_run_bounds [OF inv xb]
  have "(fst (seg_run m x) + snd (seg_run m x)) * ?b \<le> unat (sm_blocksPerSlab m) * ?b" using bx(2) by (rule mult_le_mono1)
  then have inside: "seg_buf (sm_segs m ! x) + unat (seg_size (sm_segs m ! x))
      \<le> ss_buf (send_slab_at m (seg_slab m x)) + unat (sm_blocksPerSlab m) * ?b"
    unfolding place [OF xb] by (simp add: add_mult_distrib)
  have pos: "0 < seg_size (sm_segs m ! x)"
    using place(2) [OF xb] bx(1) b by (simp add: word_less_nat_alt)
  have apart: "seg_buf (sm_segs m ! x) + unat (seg_size (sm_segs m ! x)) \<le> seg_buf (sm_segs m ! y)
        \<or> seg_buf (sm_segs m ! y) + unat (seg_size (sm_segs m ! y)) \<le> seg_buf (sm_segs m ! x)" if "seg_slab m x = seg_slab m y"
  proof -
    from busy_runs_disjoint [OF inv xb yb \<open>x \<noteq> y\<close> that]
    have "(fst (seg_run m x) + snd (seg_run m x)) * ?b \<le> fst (seg_run m y) * ?b
        \<or> (fst (seg_run m y) + snd (seg_run m y)) * ?b \<le> fst (seg_run m x) * ?b"
      by (blast intro: mult_le_mono1)
    then show ?thesis unfolding place [OF xb] place [OF yb] by (simp add: that add_mult_distrib)
  qed
  show ?thesis
    using busy_slab(3,4) [OF inv xb] pos inside apart place(1) [OF xb] by (cases "ss_working (send_slab_at m (seg_slab m x))") auto
qed

theorem send_segments_disjoint_witness:
  "send_reach example_send2 [[1], [0]]
    \<and> (seg_buf (sm_segs example_send2 ! 0) + 8 \<le> seg_buf (sm_segs example_send2 ! 1)
      \<or> seg_buf (sm_segs example_send2 ! 1) + 4 \<le> seg_buf (sm_segs example_send2 ! 0))"
proof
  show r: "send_reach example_send2 [[1], [0]]" by (rule example_send2_reach)
  have "seg_slab example_send2 0 = seg_slab example_send2 1" "seg_size (sm_segs example_send2 ! 0) = 8"
      "seg_size (sm_segs example_send2 ! 1) = 4"
    by (simp_all add: seg_slab_def example_send2_def example_send_def example_send0_def ClientSendManager_def
        sm_AddMsgSegBlock_def Let_def)
  then show "seg_buf (sm_segs example_send2 ! 0) + 8 \<le> seg_buf (sm_segs example_send2 ! 1)
      \<or> seg_buf (sm_segs example_send2 ! 1) + 4 \<le> seg_buf (sm_segs example_send2 ! 0)"
    using send_segments_disjoint [OF r, of 0 1] by simp
qed

lemma descriptor_TotalSize:
  assumes "descriptor m m' xs n" and "n * unat (sm_blockSize m) < 2 ^ 64"
  shows "\<exists>t. TotalSize (sm_segs m') (hd xs) = Some t \<and> unat t = n * unat (sm_blockSize m)"
proof -
  have l: "linked (sm_segs m') (Some (hd xs)) xs" and sum: "(\<Sum>x \<leftarrow> xs. unat (seg_size (sm_segs m' ! x))) = n * unat (sm_blockSize m)"
    using assms(1) by (simp_all add: descriptor_def)
  have u: "unat (\<Sum>x \<leftarrow> ys. ucast (seg_size (sm_segs m' ! x)) :: u64) = (\<Sum>x \<leftarrow> ys. unat (seg_size (sm_segs m' ! x)))"
    if "(\<Sum>x \<leftarrow> ys. unat (seg_size (sm_segs m' ! x))) < 2 ^ 64" for ys
    using that by (induction ys) (simp_all add: unat_add_u64)
  show ?thesis
    using TotalSize_loop_eq [OF l linked_length [OF l], of 0] u [of xs] sum assms(2) by (simp add: TotalSize_def)
qed

text \<open>
  C30: what \<open>GetMessageDescriptor\<close> returns.  A contiguous message that does not fit in a slab is
  refused with an exception; otherwise the result is a chain of new segments with room for the
  message and less than a block to spare (one block for an empty message), a single segment
  if the message fits in a slab; it returns null, changing nothing, only when the free slabs
  alone could not hold the message.
\<close>

theorem GetMessageDescriptor_allocates:
  assumes inv: "send_inv m" and fit: "unat len + unat (sm_blockSize m) \<le> 2 ^ 32"
  shows "case GetMessageDescriptor len contiguous m of
      Crash f \<Rightarrow> False
    | Throw e m' \<Rightarrow> m' = m \<and> contiguous \<and> unat (sm_blocksPerSlab m) * unat (sm_blockSize m) < unat len
    | Ok None m' \<Rightarrow> m' = m \<and> length (sm_free m) * unat (sm_blocksPerSlab m) < unat (blocks_needed len (sm_blockSize m))
    | Ok (Some d) m' \<Rightarrow> send_inv m' \<and> (\<exists>t k. TotalSize (sm_segs m') d = Some t \<and> unat len \<le> unat t
          \<and> unat t < unat len + unat (sm_blockSize m) + (if len = 0 then 1 else 0)
          \<and> NumSegments (sm_segs m') d = Some k \<and> (unat len \<le> unat (sm_blocksPerSlab m) * unat (sm_blockSize m) \<longrightarrow> k = 1))"
proof -
  let ?bsz = "sm_blockSize m" and ?bps = "sm_blocksPerSlab m"
  let ?n = "blocks_needed len ?bsz"
  have bsz: "?bsz \<noteq> 0" using send_invD(1) [OF inv] by (simp add: sizes_ok_def)
  note need = blocks_needed_enough [OF bsz fit]
  have up: "unat ?n * unat ?bsz < unat len + unat ?bsz + (if len = 0 then 1 else 0)"
    using need(2) blocks_needed_0 [OF bsz] by (cases "len = 0") simp_all
  have gt: "unat ?bps * unat ?bsz < unat len" if "?bps < ?n"
  proof -
    have "Suc (unat ?bps) * unat ?bsz \<le> unat ?n * unat ?bsz"
      using that by (intro mult_le_mono1) (simp add: word_less_nat_alt)
    moreover have "len \<noteq> 0"
      using that blocks_needed_0 [OF bsz] send_invD(1) [OF inv]
      by (auto simp: sizes_ok_def word_less_nat_alt unat_eq_zero)
    ultimately show ?thesis using need(2) by simp
  qed
  show ?thesis
  proof (cases "contiguous \<and> ?n > ?bps")
    case True
    then show ?thesis using GetMessageDescriptor_spec [OF inv, where len = len and contiguous = contiguous] gt by auto
  next
    case False
    then consider m' xs where "GetMessageDescriptor len contiguous m = Ok (Some (hd xs)) m'" "descriptor m m' xs (unat ?n)"
          "?n \<le> ?bps \<longrightarrow> length xs = 1"
        | "GetMessageDescriptor len contiguous m = Ok None m" "length (sm_free m) * unat ?bps < unat ?n"
      using GetMessageDescriptor_spec [OF inv, where len = len and contiguous = contiguous] by auto
    then show ?thesis
    proof cases
      case 1
      have "unat ?n * unat ?bsz < 2 ^ 64" using up fit by (simp split: if_splits)
      from descriptor_TotalSize [OF 1(2) this] obtain t where "TotalSize (sm_segs m') (hd xs) = Some t" "unat t = unat ?n * unat ?bsz"
        by blast
      moreover have "NumSegments (sm_segs m') (hd xs) = Some (of_nat (length xs))"
        using 1(2) by (simp add: descriptor_def NumSegments_eq)
      moreover have "send_inv m'" using 1(2) by (simp add: descriptor_def chain_state_def)
      ultimately show ?thesis using 1(1,3) need(1) up gt by (auto simp: not_le [symmetric])
    next
      case 2
      then show ?thesis by simp
    qed
  qed
qed

theorem GetMessageDescriptor_allocates_witness:
  "\<exists>m t k. GetMessageDescriptor 5 False example_send = Ok (Some 0) m \<and> TotalSize (sm_segs m) 0 = Some t
    \<and> 5 \<le> unat t \<and> NumSegments (sm_segs m) 0 = Some k"
proof -
  from example_gets obtain m where m: "GetMessageDescriptor 5 False example_send = Ok (Some 0) m" by blast
  have "unat (5 :: u32) + unat (sm_blockSize example_send) \<le> 2 ^ 32"
    by (simp add: example_send_def example_send0_def)
  from GetMessageDescriptor_allocates [OF example_send_inv this, of False] m show ?thesis by auto
qed

lemma release_all:
  assumes "live_ok m live"
  shows "\<exists>m'. for_each (\<lambda>xs m. ReleaseMessageDescriptor (Some (hd xs)) m) live m = Ok () m' \<and> live_ok m' []
    \<and> sm_slabsHeld m' = sm_slabsHeld m"
  using assms
proof (induction live arbitrary: m)
  case (Cons xs live)
  have l: "linked (sm_segs m) (Some (hd xs)) xs" and inv: "send_inv m" and ms: "mset (concat (xs # live)) = mset (sm_busySegs m)"
    using Cons.prems by (simp_all add: live_ok_def)
  have "set xs \<subseteq> set (sm_busySegs m)" using mset_eq_setD [OF ms] by auto
  from ReleaseMessageDescriptor_spec [OF inv l this] obtain m1 where
    m1: "ReleaseMessageDescriptor (Some (hd xs)) m = Ok () m1" "sm_slabsHeld m1 = sm_slabsHeld m" by blast
  have "live_ok m1 (remove1 xs (xs # live))" by (rule live_ok_release [OF Cons.prems _ m1(1)]) simp
  then show ?case using Cons.IH [of m1] m1 by auto
qed simp

text \<open>
  C31: nothing is lost.  From every state a client can reach, releasing its messages and
  flushing the working slabs leaves every slab it holds either unused or ready to be handed
  back, and the number of slabs held does not change on the way.
\<close>

theorem send_pool_drains:
  assumes "send_reach m live"
  shows "\<exists>m1 m2. for_each (\<lambda>xs m. ReleaseMessageDescriptor (Some (hd xs)) m) live m = Ok () m1
    \<and> FlushWorkingSlabs m1 = Ok () m2 \<and> sm_working m2 = [] \<and> sm_full m2 = []
    \<and> length (sm_free m2) + length (sm_retired m2) = unat (sm_slabsHeld m)
    \<and> fst (GetRetiredSlabs (length (sm_retired m2)) m2) = map of_nat (sm_retired m2)"
proof -
  from release_all [OF send_reach_live_ok [OF assms]] obtain m1 where
    m1: "for_each (\<lambda>xs m. ReleaseMessageDescriptor (Some (hd xs)) m) live m = Ok () m1" "live_ok m1 []"
      "sm_slabsHeld m1 = sm_slabsHeld m" by blast
  then have inv1: "send_inv m1" and busy: "sm_busySegs m1 = []" by (simp_all add: live_ok_def)
  from FlushWorkingSlabs_spec [OF inv1] obtain m2 where
    m2: "FlushWorkingSlabs m1 = Ok () m2" "send_inv m2" "same_segs m1 m2" "sm_working m2 = []" "sm_slabsHeld m2 = sm_slabsHeld m1"
    by blast
  have "sm_busySegs m2 = []" using m2(3) busy by (simp add: same_segs_def)
  then have none: "runs m2 i = []" for i by (simp add: runs_def)
  have "sm_full m2 = []"
  proof (rule ccontr)
    assume "sm_full m2 \<noteq> []"
    then obtain i where i: "i \<in> set (sm_full m2)" by (cases "sm_full m2") auto
    then have "i < length (sm_slabInfoVec m2)" using send_invD(2) [OF m2(2), of i] by (simp add: sm_listed_def)
    then have "ss_refcount (send_slab_at m2 i) = 0"
      using send_invD(4) [OF m2(2)] none by (simp add: slab_runs_ok_def Let_def unat_eq_zero)
    then show False using slab_state(3) [OF m2(2) i] by simp
  qed
  moreover have "length (sm_listed m2) = unat (sm_slabsHeld m)"
    using send_invD(7) [OF m2(2)] m2(5) m1(3) by simp
  ultimately have "length (sm_free m2) + length (sm_retired m2) = unat (sm_slabsHeld m)"
    using m2(4) by (simp add: sm_listed_def)
  then show ?thesis
    using m1(1) m2 \<open>sm_full m2 = []\<close> GetRetiredSlabs_spec [OF m2(2), of "length (sm_retired m2)"] by auto
qed

theorem send_pool_drains_witness:
  "\<exists>m1 m2. for_each (\<lambda>xs m. ReleaseMessageDescriptor (Some (hd xs)) m) [[1], [0]] example_send2 = Ok () m1
    \<and> FlushWorkingSlabs m1 = Ok () m2 \<and> length (sm_free m2) + length (sm_retired m2) = 2"
proof -
  have "sm_slabsHeld example_send2 = 2" by (simp add: example_send2_def example_send_def)
  then show ?thesis using send_pool_drains [OF example_send2_reach] by auto
qed

text \<open>
  C32: the block count is computed in 32 bits.  For a length within a block of \<open>2 ^ 32\<close> the sum
  \<open>len-1+blockSize\<close> wraps, and the descriptor returned has room for a single block.
\<close>

theorem GetMessageDescriptor_wraps:
  assumes inv: "send_inv m" and free: "sm_free m \<noteq> []" and big: "2 ^ 32 < unat len + unat (sm_blockSize m)"
    and more: "sm_blockSize m < len"
  shows "\<exists>d m' t. GetMessageDescriptor len contiguous m = Ok (Some d) m'
    \<and> TotalSize (sm_segs m') d = Some t \<and> unat t = unat (sm_blockSize m) \<and> unat t < unat len"
proof -
  let ?bsz = "sm_blockSize m"
  have sz: "?bsz \<noteq> 0" "sm_blocksPerSlab m \<noteq> 0" using send_invD(1) [OF inv] by (simp_all add: sizes_ok_def)
  have lt: "unat len < 2 ^ 32" "unat ?bsz < 2 ^ 32"
    using unsigned_less [of len, where ?'a = nat] unsigned_less [of ?bsz, where ?'a = nat] by simp_all
  have len: "len \<noteq> 0" using more by auto
  then have dec: "unat (len - 1) = unat len - 1" "0 < unat len" by (simp_all add: unat_dec unat_gt_0)
  have "unat (len - 1 + ?bsz) = (unat len - 1 + unat ?bsz) mod 2 ^ 32" by (simp add: unat_word_ariths dec)
  also have "\<dots> = unat len - 1 + unat ?bsz - 2 ^ 32"
  proof -
    have "2 ^ 32 \<le> unat len - 1 + unat ?bsz" "unat len - 1 + unat ?bsz - 2 ^ 32 < 2 ^ 32"
      using big lt dec(2) by linarith+
    then show ?thesis by (simp add: le_mod_geq)
  qed
  finally have "unat ((len - 1 + ?bsz) div ?bsz) = 0" using lt big by (simp add: unat_div)
  then have n: "blocks_needed len ?bsz = 1" by (simp add: blocks_needed_def unat_eq_zero)
  have le: "(1 :: u32) \<le> sm_blocksPerSlab m" using sz(2) by (simp add: word_le_nat_alt Suc_leI unat_gt_0)
  have "\<not> length (sm_free m) * unat (sm_blocksPerSlab m) < unat (1 :: u32)"
    using free sz(2) by (simp add: unat_gt_0)
  then obtain m' xs where d: "GetMessageDescriptor len contiguous m = Ok (Some (hd xs)) m'" "descriptor m m' xs 1"
    using GetMessageDescriptor_spec [OF inv, where len = len and contiguous = contiguous] le
    by (auto simp: n split: if_splits)
  from descriptor_TotalSize [OF d(2)] lt obtain t where "TotalSize (sm_segs m') (hd xs) = Some t" "unat t = unat ?bsz" by auto
  then show ?thesis using d(1) more by (auto simp: word_less_nat_alt)
qed

theorem GetMessageDescriptor_wraps_witness:
  "\<exists>d m t. GetMessageDescriptor 0xFFFFFFFE True example_send = Ok (Some d) m
    \<and> TotalSize (sm_segs m) d = Some t \<and> unat t = 4"
proof -
  have f: "sm_free example_send \<noteq> []" "sm_blockSize example_send = 4"
    by (simp_all add: example_send_def example_send0_def)
  then have "2 ^ 32 < unat (0xFFFFFFFE :: u32) + unat (sm_blockSize example_send)" "sm_blockSize example_send < 0xFFFFFFFE"
    by simp_all
  from GetMessageDescriptor_wraps [OF example_send_inv f(1) this, of True] f(2) show ?thesis by auto
qed

section \<open>Where the slabs are\<close>

text \<open>The operations that neither take slabs from the manager nor give them back only move them between the lists.\<close>

definition slabs_kept :: "send_manager \<Rightarrow> send_manager \<Rightarrow> bool" where
  "slabs_kept m m' \<longleftrightarrow> mset (sm_listed m') = mset (sm_listed m) \<and> map ss_buf (sm_slabInfoVec m') = map ss_buf (sm_slabInfoVec m)"

lemma slabs_kept_refl [simp]: "slabs_kept m m"
  by (simp add: slabs_kept_def)

lemma slabs_kept_trans: "slabs_kept m m' \<Longrightarrow> slabs_kept m' m'' \<Longrightarrow> slabs_kept m m''"
  by (simp add: slabs_kept_def)

lemma map_update_same: "f y = f (xs ! i) \<Longrightarrow> map f (xs[i := y]) = map f xs"
  by (metis list_update_id map_update)

lemma upd_send_slab_bufs [simp]:
  "(\<And>s. ss_buf (f s) = ss_buf s) \<Longrightarrow> map ss_buf (sm_slabInfoVec (upd_send_slab i f m)) = map ss_buf (sm_slabInfoVec m)"
  by (simp add: upd_send_slab_def map_update_same)

lemma upd_send_slab_listed [simp]: "sm_listed (upd_send_slab i f m) = sm_listed m" "sm_working (upd_send_slab i f m) = sm_working m"
    "sm_free (upd_send_slab i f m) = sm_free m" "sm_full (upd_send_slab i f m) = sm_full m" "sm_retired (upd_send_slab i f m) = sm_retired m"
  by (simp_all add: upd_send_slab_def sm_listed_def)

lemma close_oldest_kept: "close_oldest m = Ok u m' \<Longrightarrow> slabs_kept m m'"
  by (auto simp: close_oldest_def Let_def slabs_kept_def sm_listed_def upd_send_slab_def map_update_same split: list.splits if_splits)

lemma close_slabs_kept: "close_slabs k m = Ok u m' \<Longrightarrow> slabs_kept m m'"
proof (induction k arbitrary: m)
  case (Suc k)
  then show ?case by (auto simp: bind_o_Ok_iff intro: slabs_kept_trans close_oldest_kept)
qed simp

lemma MaxWorkingSlabs_kept: "MaxWorkingSlabs k m = Ok r m' \<Longrightarrow> slabs_kept m m'"
  using close_slabs_kept [of _ "m\<lparr>sm_maxWorkingSlabs := k\<rparr>"]
  by (auto simp: MaxWorkingSlabs_def bind_o_Ok_iff slabs_kept_def sm_listed_def)

lemma FlushWorkingSlabs_kept: "FlushWorkingSlabs m = Ok u m' \<Longrightarrow> slabs_kept m m'"
  by (auto simp: FlushWorkingSlabs_def Let_def bind_o_Ok_iff intro: slabs_kept_trans dest!: MaxWorkingSlabs_kept)

lemma slabs_kept_segs [simp]:
  "slabs_kept m (m'\<lparr>sm_segs := s\<rparr>) = slabs_kept m m'" "slabs_kept m (m'\<lparr>sm_freeSegs := a\<rparr>) = slabs_kept m m'"
  "slabs_kept m (m'\<lparr>sm_busySegs := a\<rparr>) = slabs_kept m m'"
  by (simp_all add: slabs_kept_def sm_listed_def)

lemma sm_AddMsgSegBlock_kept [simp]: "slabs_kept m (sm_AddMsgSegBlock m') = slabs_kept m m'"
  by (simp add: sm_AddMsgSegBlock_def Let_def)

lemma slabs_kept_move_full:
  "i \<in> set (sm_working m) \<Longrightarrow> slabs_kept m (m\<lparr>sm_working := remove1 i (sm_working m), sm_full := sm_full m @ [i]\<rparr>)"
  by (simp add: slabs_kept_def sm_listed_def)

lemma slabs_kept_upd: "(\<And>s. ss_buf (f s) = ss_buf s) \<Longrightarrow> slabs_kept m (upd_send_slab i f m') = slabs_kept m m'"
  by (simp add: slabs_kept_def)

text \<open>The state of \<open>alloc_at\<close> before it may have to close working slabs.\<close>

lemma alloc_at_kept:
  assumes i: "i \<in> set (sm_working m)" and r: "alloc_at i n m = Ok r m'"
  shows "slabs_kept m m'"
proof -
  define m1 where "m1 = (if sm_freeSegs m = [] then sm_AddMsgSegBlock m else m)"
  define m2 where "m2 = upd_send_slab i (\<lambda>s. s\<lparr>ss_blocksUsed := ss_blocksUsed s + n, ss_refcount := ss_refcount s + 1\<rparr>)
      (m1\<lparr>sm_freeSegs := tl (sm_freeSegs m1), sm_busySegs := sm_busySegs m1 @ [hd (sm_freeSegs m1)]\<rparr>)"
  define m3 where "m3 = m2\<lparr>sm_segs := (sm_segs m2)[hd (sm_freeSegs m1) := fill_segment (ss_buf (sm_slabInfoVec m1 ! i)) n
      (sm_slabInfoVec m1 ! i) (sm_blocksPerSlab m2) (sm_blockSize m2)]\<rparr>"
  define m4 where "m4 = (if sm_blocksPerSlab m3 - ss_blocksUsed (sm_slabInfoVec m3 ! i) = 0
      then upd_send_slab i (\<lambda>s. s\<lparr>ss_working := False\<rparr>)
             (m3\<lparr>sm_working := remove1 i (sm_working m3), sm_full := sm_full m3 @ [i]\<rparr>) else m3)"
  have "slabs_kept m m1" "sm_working m1 = sm_working m" by (simp_all add: m1_def sm_AddMsgSegBlock_def Let_def)
  then have k3: "slabs_kept m m3" "i \<in> set (sm_working m3)" using i by (simp_all add: m3_def m2_def slabs_kept_upd)
  have k4: "slabs_kept m m4"
    using slabs_kept_trans [OF k3(1) slabs_kept_move_full [OF k3(2)]] k3(1) by (simp add: m4_def slabs_kept_upd)
  have "alloc_at i n m = (if \<not> ss_working (sm_slabInfoVec m1 ! i) then Crash AssertionFailed
      else if length (sm_working m4) > unat (sm_maxWorkingSlabs m4)
        then bind_o (MaxWorkingSlabs (sm_maxWorkingSlabs m4) m4) (\<lambda>_. Ok (Some (hd (sm_freeSegs m1))))
        else Ok (Some (hd (sm_freeSegs m1))) m4)"
    unfolding alloc_at_def Let_def m1_def [symmetric] by (simp add: m2_def m3_def m4_def)
  with r k4 show ?thesis
    by (auto simp: bind_o_Ok_iff split: if_splits dest!: MaxWorkingSlabs_kept intro: slabs_kept_trans)
qed

lemma slabs_kept_take_free:
  "sm_free m \<noteq> [] \<Longrightarrow> slabs_kept m (m\<lparr>sm_free := tl (sm_free m), sm_working := sm_working m @ [hd (sm_free m)]\<rparr>)"
  by (cases "sm_free m") (simp_all add: slabs_kept_def sm_listed_def)

lemma GetSegment_kept: "GetSegment n f m = Ok r m' \<Longrightarrow> slabs_kept m m'"
proof -
  assume r: "GetSegment n f m = Ok r m'"
  show ?thesis
  proof (cases "if n < sm_blocksPerSlab m then find_room n m else None")
    case (Some i)
    then have "i \<in> set (sm_working m)" by (auto simp: find_room_def find_Some_iff split: if_splits)
    with r Some show ?thesis by (auto simp: GetSegment_def split: if_splits intro: alloc_at_kept)
  next
    case None
    let ?i = "hd (sm_free m)"
    let ?m = "m\<lparr>sm_free := tl (sm_free m), sm_working := sm_working m @ [?i]\<rparr>"
    show ?thesis
    proof (cases "sm_free m = [] \<or> f")
      case True
      then show ?thesis using r None by (auto simp: GetSegment_def split: if_splits)
    next
      case False
      then have "alloc_at ?i n (upd_send_slab ?i (\<lambda>s. s\<lparr>ss_working := True\<rparr>) ?m) = Ok r m'"
        using r None by (auto simp: GetSegment_def Let_def split: if_splits)
      then have "slabs_kept (upd_send_slab ?i (\<lambda>s. s\<lparr>ss_working := True\<rparr>) ?m) m'" by (rule alloc_at_kept [rotated]) simp
      moreover have "slabs_kept m (upd_send_slab ?i (\<lambda>s. s\<lparr>ss_working := True\<rparr>) ?m)"
        using slabs_kept_take_free False by (simp add: slabs_kept_upd)
      ultimately show ?thesis by (rule slabs_kept_trans [rotated])
    qed
  qed
qed

lemma chain_slabs_kept: "chain_slabs k p q m = Ok r m' \<Longrightarrow> slabs_kept m m'"
proof (induction k arbitrary: p q m)
  case (Suc k)
  then obtain nxt m1 where g: "GetSegment (sm_blocksPerSlab m) False m = Ok nxt m1" by (auto simp: bind_o_Ok_iff)
  show ?case using Suc g GetSegment_kept [OF g]
    by (auto simp: Let_def split: if_splits option.splits prod.splits intro: slabs_kept_trans dest!: Suc.IH)
      (metis slabs_kept_segs(1) slabs_kept_trans slabs_kept_def)+
qed simp

lemma GetMessageDescriptor_kept: "GetMessageDescriptor len c m = Ok r m' \<Longrightarrow> slabs_kept m m'"
  by (auto simp: GetMessageDescriptor_def Let_def bind_o_Ok_iff split: if_splits
      intro: slabs_kept_trans dest!: chain_slabs_kept GetSegment_kept)

lemma slabs_kept_retire:
  "i \<in> set (sm_full m) \<Longrightarrow> slabs_kept m (m\<lparr>sm_full := remove1 i (sm_full m), sm_retired := sm_retired m @ [i]\<rparr>)"
  by (simp add: slabs_kept_def sm_listed_def)

lemma ReleaseMessageDescriptor_loop_kept: "ReleaseMessageDescriptor_loop fuel p m = Ok u m' \<Longrightarrow> slabs_kept m m'"
proof (induction fuel arbitrary: p m)
  case 0
  then show ?case by (cases p) simp_all
next
  case (Suc fuel)
  show ?case
  proof (cases p)
    case None
    then show ?thesis using Suc.prems by simp
  next
    case (Some seg)
    let ?i = "unat (seg_blockID (sm_segs m ! seg) div sm_blocksPerSlab m)"
    define m1 where "m1 = upd_send_slab ?i (\<lambda>s. s\<lparr>ss_refcount := ss_refcount s - 1\<rparr>) m"
    define m2 where "m2 = m1\<lparr>sm_busySegs := remove1 seg (sm_busySegs m1), sm_freeSegs := sm_freeSegs m1 @ [seg]\<rparr>"
    define nx where "nx = seg_next (sm_segs m2 ! seg)"
    have k: "slabs_kept m m2" by (simp add: m2_def m1_def slabs_kept_upd)
    from Suc.prems consider "ReleaseMessageDescriptor_loop fuel nx m2 = Ok u m'"
      | "?i \<in> set (sm_full m2)" "ReleaseMessageDescriptor_loop fuel (seg_next (sm_segs m2 ! seg))
           (m2\<lparr>sm_full := remove1 ?i (sm_full m2), sm_retired := sm_retired m2 @ [?i]\<rparr>) = Ok u m'"
      unfolding Some ReleaseMessageDescriptor_loop.simps Let_def m1_def [symmetric] m2_def [symmetric] nx_def
      by (simp split: if_splits)
    then show ?thesis using Suc.IH slabs_kept_trans [OF k] slabs_kept_trans [OF slabs_kept_trans [OF k slabs_kept_retire]]
      by cases metis+
  qed
qed

lemma ReleaseMessageDescriptor_kept: "ReleaseMessageDescriptor p m = Ok u m' \<Longrightarrow> slabs_kept m m'"
  unfolding ReleaseMessageDescriptor_def by (rule ReleaseMessageDescriptor_loop_kept)

end
