(* ===== verification/Recv_Manager.thy ===== *)
theory Recv_Manager
  imports Message_Segment
begin

text \<open>
  \<open>ClientRecvManager\<close> (src/ClientRecvManager.cc): received segments wait in \<open>pendingSegs\<close> until a
  whole message is at the front; its segments are then linked and busy until the client
  releases the message, and retired until they are sent back to the manager.  Segments of
  incomplete messages are retired at once.

  \<^item> A \<open>RecvMsgSegment*\<close> is an index; the intrusive lists are lists of indices.
  \<^item> The specification is \<open>next_message\<close>, on the list of the pending segments' information.
\<close>

section \<open>Model\<close>

record recv_manager =
  rm_free :: "nat list"
  rm_pending :: "nat list"
  rm_busy :: "nat list"
  rm_retired :: "nat list"
  rm_pendingMsg :: "nat option"
  rm_numConsSlabs :: u32
  rm_numSegmentsRcvd :: u64
  rm_segs :: "recv_segment list"

definition RecvMsgSegment :: recv_segment where
  "RecvMsgSegment = \<lparr>seg_buf = 0, seg_size = 0, seg_blockID = 0, seg_next = None,
     seg_blockInfo = \<lparr>bi_messageID = 0, bi_size = 0, bi_crc32c = 0, bi_segmentNumber = 0, bi_numSegments = 0, bi_sendTime = 0\<rparr>,
     seg_refcnt = 1\<rparr>"

definition rm_kNumSegs :: nat where "rm_kNumSegs = 32"

definition rm_AddMsgSegBlock :: "recv_manager \<Rightarrow> recv_manager" where
  "rm_AddMsgSegBlock m =
     (let n = length (rm_segs m)
      in m\<lparr>rm_segs := rm_segs m @ replicate rm_kNumSegs RecvMsgSegment,
           rm_free := rm_free m @ [n..<n + rm_kNumSegs]\<rparr>)"

definition ClientRecvManager :: recv_manager where
  "ClientRecvManager = rm_AddMsgSegBlock
     \<lparr>rm_free = [], rm_pending = [], rm_busy = [], rm_retired = [], rm_pendingMsg = None,
      rm_numConsSlabs = 0, rm_numSegmentsRcvd = 0, rm_segs = []\<rparr>"

definition NumConsSlabs :: "u32 \<Rightarrow> recv_manager \<Rightarrow> recv_manager" where
  "NumConsSlabs n m = m\<lparr>rm_numConsSlabs := n\<rparr>"

definition AddSegment :: "u32 \<times> nat \<times> block_info \<Rightarrow> recv_manager \<Rightarrow> recv_manager" where
  "AddSegment = (\<lambda>(blockID, ptr, info) m.
     let m = (if rm_free m = [] then rm_AddMsgSegBlock m else m); seg = hd (rm_free m)
     in m\<lparr>rm_free := tl (rm_free m), rm_pending := rm_pending m @ [seg],
          rm_segs := (rm_segs m)[seg := \<lparr>seg_buf = ptr, seg_size = bi_size info, seg_blockID = blockID,
            seg_next = None, seg_blockInfo = info, seg_refcnt = 1\<rparr>]\<rparr>)"

definition AddSegments :: "(u32 \<times> nat \<times> block_info) list \<Rightarrow> recv_manager \<Rightarrow> recv_manager" where
  "AddSegments blocks m =
     (let m = fold AddSegment blocks m
      in m\<lparr>rm_numSegmentsRcvd := rm_numSegmentsRcvd m + of_nat (length blocks)\<rparr>)"

abbreviation seg_info :: "recv_manager \<Rightarrow> nat \<Rightarrow> block_info" where
  "seg_info m i \<equiv> seg_blockInfo (rm_segs m ! i)"

text \<open>The inner loop over the segments behind the first; \<open>k\<close> is \<open>numSegMatches\<close>.\<close>

fun count_matches :: "nat \<Rightarrow> u32 \<Rightarrow> nat \<Rightarrow> block_info list \<Rightarrow> nat" where
  "count_matches n mid k [] = k"
| "count_matches n mid k (b # bs) =
     (if k < n \<and> unat (bi_numSegments b) = n \<and> unat (bi_segmentNumber b) = k \<and> bi_messageID b = mid
      then count_matches n mid (Suc k) bs else k)"

fun link_chain :: "nat list \<Rightarrow> recv_segment list \<Rightarrow> recv_segment list" where
  "link_chain [] segs = segs"
| "link_chain [x] segs = segs[x := (segs ! x)\<lparr>seg_next := None\<rparr>]"
| "link_chain (x # y # zs) segs = link_chain (y # zs) (segs[x := (segs ! x)\<lparr>seg_next := Some y\<rparr>])"

definition retire_front :: "recv_manager \<Rightarrow> recv_manager" where
  "retire_front m = m\<lparr>rm_pending := tl (rm_pending m), rm_retired := rm_retired m @ [hd (rm_pending m)]\<rparr>"

definition take_message :: "nat \<Rightarrow> recv_manager \<Rightarrow> recv_manager" where
  "take_message n m =
     m\<lparr>rm_segs := link_chain (take n (rm_pending m)) (rm_segs m),
       rm_busy := rm_busy m @ take n (rm_pending m), rm_pending := drop n (rm_pending m)\<rparr>"

function rm_Get_loop :: "recv_manager \<Rightarrow> nat option \<times> recv_manager" where
  "rm_Get_loop m =
     (case rm_pending m of
        [] \<Rightarrow> (None, m)
      | seg0 # rest \<Rightarrow>
          (let info = seg_info m seg0; n = unat (bi_numSegments info) in
           if bi_segmentNumber info \<noteq> 0 \<or> n = 0 \<or> n > unat (rm_numConsSlabs m) then rm_Get_loop (retire_front m)
           else if n > length (rm_pending m) then (None, m)
           else if count_matches n (bi_messageID info) 1 (map (seg_info m) rest) < n then rm_Get_loop (retire_front m)
           else (Some seg0, take_message n m)))"
  by pat_completeness auto
termination
  by (relation "measure (\<lambda>m. length (rm_pending m))") (auto simp: retire_front_def)

declare rm_Get_loop.simps [simp del]

definition rm_GetMessageDescriptor :: "recv_manager \<Rightarrow> nat option \<times> recv_manager" where
  "rm_GetMessageDescriptor m =
     (case rm_pendingMsg m of
        Some msg \<Rightarrow> (Some msg, m\<lparr>rm_pendingMsg := None\<rparr>)
      | None \<Rightarrow> rm_Get_loop m)"

definition PendingMessage :: "recv_manager \<Rightarrow> bool \<times> recv_manager" where
  "PendingMessage m =
     (if rm_pendingMsg m \<noteq> None then (True, m)
      else let (msg, m) = rm_GetMessageDescriptor m in (msg \<noteq> None, m\<lparr>rm_pendingMsg := msg\<rparr>))"

fun rm_Release_loop :: "nat \<Rightarrow> nat option \<Rightarrow> recv_manager \<Rightarrow> (unit, recv_manager) outcome" where
  "rm_Release_loop fuel None m = Ok () m"
| "rm_Release_loop 0 (Some seg) m = Crash NonTermination"
| "rm_Release_loop (Suc fuel) (Some seg) m =
     (if seg \<notin> set (rm_busy m) then Crash ListCorruption
      else rm_Release_loop fuel (seg_next (rm_segs m ! seg))
             (m\<lparr>rm_busy := remove1 seg (rm_busy m), rm_retired := rm_retired m @ [seg]\<rparr>))"

definition rm_ReleaseMessageDescriptor :: "nat option \<Rightarrow> recv_manager \<Rightarrow> (unit, recv_manager) outcome" where
  "rm_ReleaseMessageDescriptor desc m = rm_Release_loop (length (rm_segs m)) desc m"

definition GetRetiredSegments :: "nat \<Rightarrow> recv_manager \<Rightarrow> u32 list \<times> recv_manager" where
  "GetRetiredSegments maxCount m =
     (let now = take maxCount (rm_retired m)
      in (map (\<lambda>i. seg_blockID (rm_segs m ! i)) now,
          m\<lparr>rm_retired := drop maxCount (rm_retired m), rm_free := rm_free m @ now\<rparr>))"

section \<open>Specification\<close>

text \<open>\<open>message_front cons bs\<close>: the segments at the front are a whole message of that many segments.\<close>

definition message_front :: "u32 \<Rightarrow> block_info list \<Rightarrow> nat \<Rightarrow> bool" where
  "message_front cons bs n \<longleftrightarrow> 0 < n \<and> n \<le> unat cons \<and> n \<le> length bs
     \<and> (\<forall>k < n. unat (bi_numSegments (bs ! k)) = n \<and> unat (bi_segmentNumber (bs ! k)) = k
          \<and> bi_messageID (bs ! k) = bi_messageID (bs ! 0))"

text \<open>A first segment whose message is not complete yet.\<close>

definition waiting :: "u32 \<Rightarrow> block_info list \<Rightarrow> bool" where
  "waiting cons bs \<longleftrightarrow> (case bs of [] \<Rightarrow> True
     | b # _ \<Rightarrow> bi_segmentNumber b = 0 \<and> 0 < bi_numSegments b \<and> unat (bi_numSegments b) \<le> unat cons
         \<and> length bs < unat (bi_numSegments b))"

text \<open>
  The number of segments to drop before a decision can be made, and the number of segments of
  the message found (0 for none yet).
\<close>

function next_message :: "u32 \<Rightarrow> block_info list \<Rightarrow> nat \<times> nat" where
  "next_message cons bs =
     (if waiting cons bs then (0, 0)
      else if message_front cons bs (unat (bi_numSegments (hd bs))) then (0, unat (bi_numSegments (hd bs)))
      else let (d, n) = next_message cons (tl bs) in (Suc d, n))"
  by pat_completeness auto
termination
  by (relation "measure (\<lambda>(c, bs). length bs)") (auto simp: waiting_def split: list.splits)

declare next_message.simps [simp del]

lemma count_matches_le: "k \<le> n \<Longrightarrow> count_matches n mid k bs \<le> n"
  by (induction bs arbitrary: k) auto

lemma count_matches_full:
  "k \<le> n \<Longrightarrow> n - k \<le> length bs \<Longrightarrow> count_matches n mid k bs = n \<longleftrightarrow>
     (\<forall>j < n - k. unat (bi_numSegments (bs ! j)) = n \<and> unat (bi_segmentNumber (bs ! j)) = k + j \<and> bi_messageID (bs ! j) = mid)"
proof (induction bs arbitrary: k)
  case (Cons b bs)
  show ?case
  proof (cases "k < n")
    case True
    have all: "(\<forall>j < n - k. P j) \<longleftrightarrow> P 0 \<and> (\<forall>j < n - Suc k. P (Suc j))" for P
    proof -
      have "n - k = Suc (n - Suc k)" using True by simp
      then show ?thesis by (simp add: All_less_Suc2)
    qed
    have IH: "count_matches n mid (Suc k) bs = n \<longleftrightarrow>
        (\<forall>j < n - Suc k. unat (bi_numSegments (bs ! j)) = n \<and> unat (bi_segmentNumber (bs ! j)) = Suc k + j \<and> bi_messageID (bs ! j) = mid)"
      using Cons True by auto
    show ?thesis
      unfolding all using True IH by auto
  next
    case False
    then show ?thesis using Cons by simp
  qed
qed simp

lemma rm_Get_loop_refines:
  "rm_Get_loop m =
     (let bs = map (seg_info m) (rm_pending m); (d, n) = next_message (rm_numConsSlabs m) bs;
          m' = m\<lparr>rm_pending := drop d (rm_pending m), rm_retired := rm_retired m @ take d (rm_pending m)\<rparr>
      in if n = 0 then (None, m') else (Some (rm_pending m ! d), take_message n m'))"
proof (induction "length (rm_pending m)" arbitrary: m rule: less_induct)
  case less
  show ?case
  proof (cases "rm_pending m")
    case Nil
    have "m\<lparr>rm_pending := [], rm_retired := rm_retired m\<rparr> = m" using Nil by (cases m) simp
    then show ?thesis by (simp add: rm_Get_loop.simps [of m] next_message.simps [of _ "[]"] Nil waiting_def)
  next
    case (Cons seg0 rest)
    let ?info = "seg_info m seg0" and ?c = "rm_numConsSlabs m" and ?bs = "map (seg_info m) (rm_pending m)"
    let ?n = "unat (bi_numSegments ?info)"
    define bad where "bad \<longleftrightarrow> bi_segmentNumber ?info \<noteq> 0 \<or> ?n = 0 \<or> ?n > unat ?c"
    have r: "rm_pending (retire_front m) = rest" "rm_numConsSlabs (retire_front m) = ?c" "rm_segs (retire_front m) = rm_segs m"
        "rm_retired (retire_front m) = rm_retired m @ [seg0]"
      by (simp_all add: retire_front_def Cons)
    have upd: "(retire_front m)\<lparr>rm_pending := xs, rm_retired := ys\<rparr> = m\<lparr>rm_pending := xs, rm_retired := ys\<rparr>" for xs ys
      by (cases m) (simp add: retire_front_def)
    have wait: "waiting ?c ?bs \<longleftrightarrow> \<not> bad \<and> ?n > length (rm_pending m)"
      by (auto simp: waiting_def Cons bad_def not_less unat_eq_zero word_neq_0_conv unat_gt_0)
    have front: "message_front ?c ?bs ?n \<longleftrightarrow> \<not> bad \<and> ?n \<le> length (rm_pending m)
        \<and> count_matches ?n (bi_messageID ?info) 1 (map (seg_info m) rest) = ?n"
    proof (cases "\<not> bad \<and> ?n \<le> length (rm_pending m)")
      case True
      then have n: "0 < ?n" "?n \<le> unat ?c" "?n \<le> Suc (length rest)" "bi_segmentNumber ?info = 0" by (auto simp: bad_def Cons)
      have "(\<forall>k < ?n. P k) \<longleftrightarrow> P 0 \<and> (\<forall>j < ?n - 1. P (Suc j))" for P
        using n(1) by (cases ?n) (auto simp: All_less_Suc2)
      then show ?thesis
        using n count_matches_full [of 1 ?n "map (seg_info m) rest" "bi_messageID ?info"]
        by (auto simp: message_front_def Cons bad_def)
    next
      case False
      have "\<not> message_front ?c ?bs ?n"
      proof
        assume f: "message_front ?c ?bs ?n"
        then have "0 < ?n" by (simp add: message_front_def)
        then have "unat (bi_segmentNumber (?bs ! 0)) = 0" using f unfolding message_front_def by blast
        then show False using f False by (simp add: message_front_def Cons bad_def unat_eq_zero)
      qed
      then show ?thesis using False by blast
    qed
    have same: "m\<lparr>rm_pending := rm_pending m, rm_retired := rm_retired m\<rparr> = m" by simp
    have same': "m\<lparr>rm_pending := seg0 # rest\<rparr> = m" using Cons by (cases m) simp
    show ?thesis
    proof (cases "waiting ?c ?bs")
      case True
      then have "rm_Get_loop m = (None, m)"
        using wait by (simp add: rm_Get_loop.simps [of m] Cons bad_def Let_def)
      then show ?thesis using True same by (simp add: next_message.simps [of _ ?bs])
    next
      case nw: False
      show ?thesis
      proof (cases "message_front ?c ?bs ?n")
        case True
        then have "rm_Get_loop m = (Some seg0, take_message ?n m)" and n0: "?n \<noteq> 0"
          using front by (auto simp: rm_Get_loop.simps [of m] Cons bad_def Let_def message_front_def)
        moreover have "next_message ?c ?bs = (0, ?n)"
          using nw True by (subst next_message.simps) (simp add: Cons)
        ultimately show ?thesis by (simp add: Cons same')
      next
        case False
        then have loop: "rm_Get_loop m = rm_Get_loop (retire_front m)"
          using front nw wait count_matches_le [of 1 ?n "bi_messageID ?info" "map (seg_info m) rest"]
          by (auto simp: rm_Get_loop.simps [of m] Cons bad_def Let_def)
        note IH = less [of "retire_front m", unfolded r Cons, simplified]
        have spec: "next_message ?c ?bs = (let (d, n) = next_message ?c (map (seg_info m) rest) in (Suc d, n))"
          using nw False by (subst next_message.simps) (simp add: Cons)
        show ?thesis unfolding loop IH Let_def r spec upd by (auto simp: Cons upd r split: prod.split)
      qed
    qed
  qed
qed

section \<open>Invariant\<close>

definition seg_fields :: "recv_segment \<Rightarrow> nat \<times> u32 \<times> u32 \<times> block_info" where
  "seg_fields s = (seg_buf s, seg_size s, seg_blockID s, seg_blockInfo s)"

text \<open>Two segment arrays that differ at most in the links of the segments \<open>xs\<close>, and in new segments.\<close>

definition segs_same :: "nat list \<Rightarrow> recv_segment list \<Rightarrow> recv_segment list \<Rightarrow> bool" where
  "segs_same xs segs segs' \<longleftrightarrow> length segs \<le> length segs'
     \<and> (\<forall>i < length segs. seg_fields (segs' ! i) = seg_fields (segs ! i) \<and> (i \<notin> set xs \<longrightarrow> segs' ! i = segs ! i))"

definition rm_all :: "recv_manager \<Rightarrow> nat list" where
  "rm_all m = rm_free m @ rm_pending m @ rm_busy m @ rm_retired m"

text \<open>
  Every segment is in exactly one of the four lists, and the busy ones are those of the
  messages \<open>live\<close> (the clients', and the one \<open>PendingMessage\<close> has put aside), each a chain.
\<close>

definition recv_inv :: "recv_manager \<Rightarrow> nat list list \<Rightarrow> bool" where
  "recv_inv m live \<longleftrightarrow> distinct (rm_all m) \<and> set (rm_all m) = {..<length (rm_segs m)}
     \<and> mset (rm_busy m) = mset (concat live)
     \<and> (\<forall>xs \<in> set live. xs \<noteq> [] \<and> linked (rm_segs m) (Some (hd xs)) xs)"

lemma length_link_chain [simp]: "length (link_chain xs segs) = length segs"
  by (induction xs segs rule: link_chain.induct) simp_all

lemma link_chain_other: "i \<notin> set xs \<Longrightarrow> link_chain xs segs ! i = segs ! i"
  by (induction xs segs rule: link_chain.induct) auto

lemma link_chain_fields: "i < length segs \<Longrightarrow> seg_fields (link_chain xs segs ! i) = seg_fields (segs ! i)"
proof (induction xs segs rule: link_chain.induct)
  case (2 x segs)
  then show ?case by (cases "i = x") (simp_all add: seg_fields_def)
next
  case (3 x y zs segs)
  then show ?case by (cases "i = x") (simp_all add: seg_fields_def)
qed simp

lemma link_chain_linked:
  "distinct xs \<Longrightarrow> xs \<noteq> [] \<Longrightarrow> set xs \<subseteq> {..<length segs} \<Longrightarrow> linked (link_chain xs segs) (Some (hd xs)) xs"
proof (induction xs segs rule: link_chain.induct)
  case (3 x y zs segs)
  have "link_chain (y # zs) (segs[x := (segs ! x)\<lparr>seg_next := Some y\<rparr>]) ! x = (segs ! x)\<lparr>seg_next := Some y\<rparr>"
    using 3 by (subst link_chain_other) auto
  then show ?case using 3 by (auto split: if_splits)
qed auto

lemma linked_segs_same:
  assumes "linked segs p ys" "segs_same xs segs segs'" "set xs \<inter> set ys = {}"
  shows "linked segs' p ys"
  using assms(1)
proof (rule linked_cong)
  show "length segs \<le> length segs'" using assms(2) by (simp add: segs_same_def)
  show "seg_next (segs' ! y) = seg_next (segs ! y)" if "y \<in> set ys" for y
    using that assms linked_bounded [OF assms(1) that] by (auto simp: segs_same_def)
qed

lemma recv_inv_chains:
  assumes "recv_inv m live" "segs_same xs (rm_segs m) segs'" "set xs \<inter> set (rm_busy m) = {}" "ys \<in> set live"
  shows "ys \<noteq> [] \<and> linked segs' (Some (hd ys)) ys"
proof -
  have "mset (rm_busy m) = mset (concat live)" using assms(1) by (simp add: recv_inv_def)
  from mset_eq_setD [OF this] have "set (rm_busy m) = set (concat live)" .
  then have "set xs \<inter> set ys = {}" using assms(3,4) by auto
  moreover have "ys \<noteq> []" "linked (rm_segs m) (Some (hd ys)) ys" using assms(1,4) by (simp_all add: recv_inv_def)
  ultimately show ?thesis using linked_segs_same [OF _ assms(2)] by blast
qed

lemma recv_inv_restate:
  assumes inv: "recv_inv m live" and s: "segs_same xs (rm_segs m) (rm_segs m')" and d: "set xs \<inter> set (rm_busy m) = {}"
    and all: "mset (rm_all m') = mset (rm_all m) + mset [length (rm_segs m)..<length (rm_segs m')]"
    and busy: "mset (rm_busy m') = mset (concat live')"
    and live: "\<And>ys. ys \<in> set live' \<Longrightarrow> ys \<in> set live \<or> (ys \<noteq> [] \<and> linked (rm_segs m') (Some (hd ys)) ys)"
  shows "recv_inv m' live'"
proof -
  let ?n = "length (rm_segs m)" and ?n' = "length (rm_segs m')"
  have e: "mset (rm_all m') = mset (rm_all m @ [?n..<?n'])" using all by simp
  have old: "distinct (rm_all m)" "set (rm_all m) = {..<?n}" using inv by (simp_all add: recv_inv_def)
  have le: "?n \<le> ?n'" using s by (simp add: segs_same_def)
  have "set (rm_all m') = {..<?n} \<union> {?n..<?n'}" using mset_eq_setD [OF e] old by simp
  then have "set (rm_all m') = {..<?n'}" using ivl_disj_un_one(2) [OF le] by simp
  moreover have "distinct (rm_all m')" unfolding mset_eq_imp_distinct_iff [OF e] using old by (simp add: ivl_disj_int_one)
  moreover have "ys \<noteq> [] \<and> linked (rm_segs m') (Some (hd ys)) ys" if "ys \<in> set live'" for ys
    using live [OF that] recv_inv_chains [OF inv s d] by blast
  ultimately show ?thesis using busy by (simp add: recv_inv_def)
qed

lemma segs_same_refl [simp]: "segs_same xs segs segs"
  by (simp add: segs_same_def)

lemma AddMsgSegBlock_recv_inv:
  assumes "recv_inv m live" shows "recv_inv (rm_AddMsgSegBlock m) live"
  using assms
proof (rule recv_inv_restate [where xs = "[]"])
  show "segs_same [] (rm_segs m) (rm_segs (rm_AddMsgSegBlock m))"
    by (simp add: segs_same_def rm_AddMsgSegBlock_def nth_append Let_def)
  show "mset (rm_all (rm_AddMsgSegBlock m)) = mset (rm_all m) + mset [length (rm_segs m)..<length (rm_segs (rm_AddMsgSegBlock m))]"
    by (simp add: rm_all_def rm_AddMsgSegBlock_def Let_def)
  show "mset (rm_busy (rm_AddMsgSegBlock m)) = mset (concat live)"
    using assms by (simp add: rm_AddMsgSegBlock_def recv_inv_def Let_def)
qed auto

lemma upd_fields: "i < length segs \<Longrightarrow> j \<noteq> i \<Longrightarrow> (segs[j := s]) ! i = segs ! i" by simp

lemma AddSegment_step:
  assumes inv: "recv_inv m live" and f: "rm_free m = seg # free"
    and m': "m' = m\<lparr>rm_free := free, rm_pending := rm_pending m @ [seg], rm_segs := (rm_segs m)[seg := s]\<rparr>"
  shows "recv_inv m' live" and "seg < length (rm_segs m)"
    and "i \<in> set (rm_pending m) \<union> set (rm_busy m) \<union> set (rm_retired m) \<Longrightarrow> rm_segs m' ! i = rm_segs m ! i"
proof -
  have dist: "distinct (rm_all m)" and all: "set (rm_all m) = {..<length (rm_segs m)}" using inv by (simp_all add: recv_inv_def)
  have "seg \<in> set (rm_all m)" using f by (simp add: rm_all_def)
  then show seg: "seg < length (rm_segs m)" unfolding all by simp
  have notin: "seg \<notin> set (rm_pending m) \<union> set (rm_busy m) \<union> set (rm_retired m)"
    using dist f by (simp add: rm_all_def)
  then show "rm_segs m' ! i = rm_segs m ! i" if "i \<in> set (rm_pending m) \<union> set (rm_busy m) \<union> set (rm_retired m)" for i
    using that unfolding m' by (cases "i = seg") simp_all
  have e: "mset (rm_all m') = mset (rm_all m)" by (simp add: rm_all_def m' f)
  have "linked (rm_segs m') (Some (hd ys)) ys" if "ys \<in> set live" for ys
  proof -
    have l: "linked (rm_segs m) (Some (hd ys)) ys" using inv that by (simp add: recv_inv_def)
    have "mset (rm_busy m) = mset (concat live)" using inv by (simp add: recv_inv_def)
    from mset_eq_setD [OF this] have "set ys \<subseteq> set (rm_busy m)" using that by auto
    then have "seg \<notin> set ys" using notin by blast
    then have "(rm_segs m)[seg := s] ! x = rm_segs m ! x" if "x \<in> set ys" for x
      using that by (cases "x = seg") simp_all
    then show ?thesis using linked_cong [OF l, of "rm_segs m'"] by (simp add: m')
  qed
  moreover have "set (rm_all m') = {..<length (rm_segs m')}" using mset_eq_setD [OF e] all by (simp add: m')
  moreover have "distinct (rm_all m')" unfolding mset_eq_imp_distinct_iff [OF e] by (rule dist)
  ultimately show "recv_inv m' live" using inv by (simp add: recv_inv_def m')
qed

definition rcvd_ids :: "recv_manager \<Rightarrow> u32 list" where
  "rcvd_ids m = map (\<lambda>i. seg_blockID (rm_segs m ! i)) (rm_pending m @ rm_busy m @ rm_retired m)"

definition seg_data :: "recv_manager \<Rightarrow> nat \<Rightarrow> u32 \<times> nat \<times> block_info" where
  "seg_data m i = (seg_blockID (rm_segs m ! i), seg_buf (rm_segs m ! i), seg_blockInfo (rm_segs m ! i))"

text \<open>What a call of \<open>AddSegment\<close> or \<open>AddSegments\<close> does to the manager.\<close>

definition added :: "(u32 \<times> nat \<times> block_info) list \<Rightarrow> recv_manager \<Rightarrow> recv_manager \<Rightarrow> bool" where
  "added bs m m' \<longleftrightarrow> rm_busy m' = rm_busy m \<and> rm_retired m' = rm_retired m \<and> rm_pendingMsg m' = rm_pendingMsg m
     \<and> rm_numConsSlabs m' = rm_numConsSlabs m \<and> length (rm_segs m) \<le> length (rm_segs m')
     \<and> (\<forall>i \<in> set (rm_pending m) \<union> set (rm_busy m) \<union> set (rm_retired m). rm_segs m' ! i = rm_segs m ! i)
     \<and> (\<exists>xs. rm_pending m' = rm_pending m @ xs \<and> map (seg_data m') xs = bs
          \<and> (\<forall>x \<in> set xs. seg_size (rm_segs m' ! x) = bi_size (seg_info m' x)))"

lemma AddSegment_added:
  assumes "recv_inv m live"
  shows "recv_inv (AddSegment b m) live \<and> added [b] m (AddSegment b m)"
proof -
  obtain bid ptr info where b: "b = (bid, ptr, info)" by (cases b)
  let ?m = "if rm_free m = [] then rm_AddMsgSegBlock m else m"
  let ?s = "\<lparr>seg_buf = ptr, seg_size = bi_size info, seg_blockID = bid, seg_next = None, seg_blockInfo = info, seg_refcnt = 1\<rparr>"
  have inv: "recv_inv ?m live" using assms AddMsgSegBlock_recv_inv by simp
  have "rm_free ?m \<noteq> []" by (simp add: rm_AddMsgSegBlock_def Let_def rm_kNumSegs_def)
  then obtain seg free where f: "rm_free ?m = seg # free" by (cases "rm_free ?m") auto
  let ?m' = "?m\<lparr>rm_free := free, rm_pending := rm_pending ?m @ [seg], rm_segs := (rm_segs ?m)[seg := ?s]\<rparr>"
  have eq: "AddSegment b m = ?m'" unfolding AddSegment_def b Let_def prod.case f by simp
  have same: "rm_pending ?m = rm_pending m" "rm_busy ?m = rm_busy m" "rm_retired ?m = rm_retired m"
      "rm_pendingMsg ?m = rm_pendingMsg m" "rm_numConsSlabs ?m = rm_numConsSlabs m" "length (rm_segs m) \<le> length (rm_segs ?m)"
      "i < length (rm_segs m) \<Longrightarrow> rm_segs ?m ! i = rm_segs m ! i" for i
    by (simp_all add: rm_AddMsgSegBlock_def Let_def nth_append)
  note step = AddSegment_step [where s = ?s, OF inv f refl]
  have old: "rm_segs ?m' ! i = rm_segs m ! i" if "i \<in> set (rm_pending m) \<union> set (rm_busy m) \<union> set (rm_retired m)" for i
  proof -
    have "i \<in> set (rm_all m)" using that by (auto simp: rm_all_def)
    then have "i < length (rm_segs m)" using assms by (simp add: recv_inv_def)
    then show ?thesis using step(3) [of i] same that by simp
  qed
  have len: "length (rm_segs m) \<le> length (rm_segs ?m')" using same(6) by simp
  have "map (seg_data ?m') [seg] = [b]" "seg_size (rm_segs ?m' ! seg) = bi_size (seg_info ?m' seg)"
    using step(2) by (simp_all add: seg_data_def b)
  then show ?thesis unfolding eq added_def using step(1) old len same by fastforce
qed

lemma added_refl: "added [] m m"
  by (simp add: added_def)

lemma added_trans:
  assumes "added bs m m'" "added cs m' m''"
  shows "added (bs @ cs) m m''"
proof -
  obtain xs where xs: "rm_pending m' = rm_pending m @ xs" "map (seg_data m') xs = bs"
      "\<forall>x \<in> set xs. seg_size (rm_segs m' ! x) = bi_size (seg_info m' x)" using assms(1) by (auto simp: added_def)
  obtain ys where ys: "rm_pending m'' = rm_pending m' @ ys" "map (seg_data m'') ys = cs"
      "\<forall>x \<in> set ys. seg_size (rm_segs m'' ! x) = bi_size (seg_info m'' x)" using assms(2) by (auto simp: added_def)
  have old: "rm_segs m'' ! x = rm_segs m' ! x" if "x \<in> set xs" for x
    using assms(2) that xs(1) by (simp add: added_def)
  then have "map (seg_data m'') xs = bs" using xs(2) by (auto simp: seg_data_def)
  then have "map (seg_data m'') (xs @ ys) = bs @ cs" using ys(2) by simp
  moreover have "\<forall>x \<in> set (xs @ ys). seg_size (rm_segs m'' ! x) = bi_size (seg_info m'' x)" using xs(3) ys(3) old by auto
  moreover have "rm_pending m'' = rm_pending m @ (xs @ ys)" using xs(1) ys(1) by simp
  ultimately have "\<exists>zs. rm_pending m'' = rm_pending m @ zs \<and> map (seg_data m'') zs = bs @ cs
      \<and> (\<forall>x \<in> set zs. seg_size (rm_segs m'' ! x) = bi_size (seg_info m'' x))" by blast
  moreover have "rm_segs m'' ! i = rm_segs m ! i" if "i \<in> set (rm_pending m) \<union> set (rm_busy m) \<union> set (rm_retired m)" for i
  proof -
    have "i \<in> set (rm_pending m') \<union> set (rm_busy m') \<union> set (rm_retired m')" using that assms(1) xs(1) by (auto simp: added_def)
    then show ?thesis using that assms by (simp add: added_def)
  qed
  ultimately show ?thesis using assms by (simp add: added_def)
qed

lemma seg_data_fields [simp]: "seg_data (m\<lparr>rm_numSegmentsRcvd := n\<rparr>) = seg_data m"
  by (rule ext) (simp add: seg_data_def)

lemma fold_AddSegment_added:
  "recv_inv m live \<Longrightarrow> recv_inv (fold AddSegment bs m) live \<and> added bs m (fold AddSegment bs m)"
proof (induction bs arbitrary: m)
  case (Cons b bs)
  then show ?case using AddSegment_added [of m live b] added_trans [of "[b]" m "AddSegment b m" bs] by auto
qed (simp add: added_refl)

lemma recv_inv_fields [simp]:
  "recv_inv (m\<lparr>rm_numSegmentsRcvd := n\<rparr>) live = recv_inv m live"
  "recv_inv (m\<lparr>rm_numConsSlabs := c\<rparr>) live = recv_inv m live"
  "recv_inv (m\<lparr>rm_pendingMsg := p\<rparr>) live = recv_inv m live"
  by (simp_all add: recv_inv_def rm_all_def)

lemma AddSegments_added:
  assumes "recv_inv m live"
  shows "recv_inv (AddSegments bs m) live \<and> added bs m (AddSegments bs m)"
  using fold_AddSegment_added [OF assms, of bs] by (simp add: AddSegments_def Let_def added_def)

lemma take_message_inv:
  assumes inv: "recv_inv m live" and n: "0 < n" "n \<le> length (rm_pending m)" and xs: "xs = take n (rm_pending m)"
  shows "recv_inv (take_message n m) (live @ [xs])"
    and "linked (rm_segs (take_message n m)) (Some (hd (rm_pending m))) xs"
    and "segs_same xs (rm_segs m) (rm_segs (take_message n m))"
proof -
  let ?m = "take_message n m"
  have dist: "distinct (rm_all m)" and all: "set (rm_all m) = {..<length (rm_segs m)}" using inv by (simp_all add: recv_inv_def)
  have sub: "set xs \<subseteq> set (rm_pending m)" unfolding xs by (rule set_take_subset)
  have nonempty: "xs \<noteq> []" "hd xs = hd (rm_pending m)" using n by (auto simp: xs)
  have dx: "distinct xs" using dist by (simp add: rm_all_def xs)
  have bound: "set xs \<subseteq> {..<length (rm_segs m)}" using sub unfolding all [symmetric] by (auto simp: rm_all_def)
  have disj: "set xs \<inter> set (rm_busy m) = {}" using dist sub by (auto simp: rm_all_def)
  show l: "linked (rm_segs ?m) (Some (hd (rm_pending m))) xs"
    using link_chain_linked [OF dx nonempty(1) bound] nonempty(2) by (simp add: take_message_def xs)
  show s: "segs_same xs (rm_segs m) (rm_segs ?m)"
    using link_chain_fields link_chain_other by (simp add: segs_same_def take_message_def xs)
  show "recv_inv ?m (live @ [xs])"
  proof (rule recv_inv_restate [OF inv s disj])
    have "rm_pending m = xs @ drop n (rm_pending m)" by (simp add: xs)
    then have "mset (rm_pending m) = mset xs + mset (drop n (rm_pending m))" by (metis mset_append)
    then show "mset (rm_all ?m) = mset (rm_all m) + mset [length (rm_segs m)..<length (rm_segs ?m)]"
      by (simp add: rm_all_def take_message_def flip: xs)
    show "mset (rm_busy ?m) = mset (concat (live @ [xs]))"
      using inv by (simp add: recv_inv_def take_message_def flip: xs)
    show "ys \<in> set live \<or> (ys \<noteq> [] \<and> linked (rm_segs ?m) (Some (hd ys)) ys)" if "ys \<in> set (live @ [xs])" for ys
      using that l nonempty by auto
  qed
qed

definition drop_front :: "nat \<Rightarrow> recv_manager \<Rightarrow> recv_manager" where
  "drop_front d m = m\<lparr>rm_pending := drop d (rm_pending m), rm_retired := rm_retired m @ take d (rm_pending m)\<rparr>"

lemma drop_front_inv:
  assumes "recv_inv m live" shows "recv_inv (drop_front d m) live"
proof -
  have "mset (rm_pending m) = mset (take d (rm_pending m)) + mset (drop d (rm_pending m))"
    by (metis append_take_drop_id mset_append)
  then show ?thesis using assms
    by (intro recv_inv_restate [OF assms, where xs = "[]"]) (simp_all add: rm_all_def drop_front_def recv_inv_def)
qed

lemma next_message_found:
  "next_message c bs = (d, n) \<Longrightarrow> n \<noteq> 0 \<Longrightarrow> message_front c (drop d bs) n"
proof (induction c bs arbitrary: d n rule: next_message.induct)
  case (1 c bs)
  show ?case
  proof (cases "waiting c bs \<or> message_front c bs (unat (bi_numSegments (hd bs)))")
    case True
    then have "next_message c bs = (if waiting c bs then (0, 0) else (0, unat (bi_numSegments (hd bs))))"
      by (subst next_message.simps) auto
    then show ?thesis using "1.prems" True by (auto split: if_splits)
  next
    case False
    obtain d' n' where r: "next_message c (tl bs) = (d', n')" by fastforce
    have "next_message c bs = (Suc d', n')" using False r by (subst next_message.simps) simp
    then have dn: "d = Suc d'" "n = n'" using "1.prems" by simp_all
    then have "message_front c (drop d' (tl bs)) n" using "1.IH" False r "1.prems"(2) by blast
    then show ?thesis by (simp only: dn drop_Suc)
  qed
qed

lemma next_message_whole:
  assumes "message_front c bs n" shows "next_message c bs = (0, n)"
proof -
  have ne: "bs \<noteq> []" using assms by (auto simp: message_front_def)
  then have n: "unat (bi_numSegments (hd bs)) = n" using assms by (simp add: message_front_def hd_conv_nth)
  moreover have "\<not> waiting c bs" using assms n ne by (auto simp: waiting_def message_front_def split: list.splits)
  ultimately show ?thesis using assms by (subst next_message.simps) simp
qed

lemma rm_Get_loop_cases:
  assumes "recv_inv m live" and "rm_Get_loop m = (r, m')"
  obtains (none) d where "r = None" "m' = drop_front d m"
  | (some) d n where "r = Some (rm_pending m ! d)" "0 < n" "d + n \<le> length (rm_pending m)" "m' = take_message n (drop_front d m)"
      "message_front (rm_numConsSlabs m) (drop d (map (seg_info m) (rm_pending m))) n"
proof -
  obtain d n where dn: "next_message (rm_numConsSlabs m) (map (seg_info m) (rm_pending m)) = (d, n)" by fastforce
  have eq: "rm_Get_loop m = (if n = 0 then (None, drop_front d m) else (Some (rm_pending m ! d), take_message n (drop_front d m)))"
    unfolding rm_Get_loop_refines [of m] Let_def dn prod.case drop_front_def ..
  show thesis
  proof (cases "n = 0")
    case True
    then show ?thesis using none eq assms(2) by auto
  next
    case False
    note f = next_message_found [OF dn False]
    then have "n \<le> length (rm_pending m) - d" by (simp add: message_front_def)
    then show ?thesis using some [of d n] f False eq assms(2) by auto
  qed
qed

lemma rcvd_ids_same:
  assumes s: "\<And>i. i < length (rm_segs m) \<Longrightarrow> seg_blockID (rm_segs m' ! i) = seg_blockID (rm_segs m ! i)"
    and inv: "recv_inv m live"
    and e: "mset (rm_pending m' @ rm_busy m' @ rm_retired m') = mset (rm_pending m @ rm_busy m @ rm_retired m)"
  shows "mset (rcvd_ids m') = mset (rcvd_ids m)"
proof -
  have "set (rm_pending m @ rm_busy m @ rm_retired m) \<subseteq> {..<length (rm_segs m)}"
    using inv by (auto simp: recv_inv_def rm_all_def)
  then have *: "map (\<lambda>i. seg_blockID (rm_segs m' ! i)) (rm_pending m @ rm_busy m @ rm_retired m) = rcvd_ids m"
    unfolding rcvd_ids_def using s by (intro map_cong) auto
  show ?thesis unfolding * [symmetric] unfolding rcvd_ids_def mset_map e ..
qed

lemma drop_front_ids:
  assumes "recv_inv m live" shows "mset (rcvd_ids (drop_front d m)) = mset (rcvd_ids m)"
proof -
  have "mset (rm_pending m) = mset (take d (rm_pending m)) + mset (drop d (rm_pending m))"
    by (metis append_take_drop_id mset_append)
  then show ?thesis by (intro rcvd_ids_same [OF _ assms]) (simp_all add: drop_front_def)
qed

lemma take_message_ids:
  assumes "recv_inv m live" "0 < n" "n \<le> length (rm_pending m)" shows "mset (rcvd_ids (take_message n m)) = mset (rcvd_ids m)"
proof -
  have "mset (rm_pending m) = mset (take n (rm_pending m)) + mset (drop n (rm_pending m))"
    by (metis append_take_drop_id mset_append)
  then show ?thesis using take_message_inv(3) [OF assms refl]
    by (intro rcvd_ids_same [OF _ assms(1)]) (simp_all add: segs_same_def seg_fields_def, simp add: take_message_def)
qed

lemma rm_Get_loop_inv:
  assumes "recv_inv m live" and "rm_Get_loop m = (r, m')"
  obtains (none) "r = None" "recv_inv m' live" "mset (rcvd_ids m') = mset (rcvd_ids m)"
  | (some) i xs where "r = Some i" "linked (rm_segs m') (Some i) xs" "xs \<noteq> []" "recv_inv m' (live @ [xs])"
      "mset (rcvd_ids m') = mset (rcvd_ids m)"
  using assms
proof (rule rm_Get_loop_cases)
  fix d assume "r = None" "m' = drop_front d m"
  then show thesis using none drop_front_inv [OF assms(1)] drop_front_ids [OF assms(1)] by blast
next
  fix d n assume r: "r = Some (rm_pending m ! d)" "0 < n" "d + n \<le> length (rm_pending m)" "m' = take_message n (drop_front d m)"
  have n: "n \<le> length (rm_pending (drop_front d m))" using r(3) by (simp add: drop_front_def)
  let ?xs = "take n (rm_pending (drop_front d m))"
  have "hd (rm_pending (drop_front d m)) = rm_pending m ! d" using r(2,3) by (simp add: drop_front_def hd_drop_conv_nth)
  then have "linked (rm_segs m') (Some (rm_pending m ! d)) ?xs" "recv_inv m' (live @ [?xs])"
    using take_message_inv(1,2) [OF drop_front_inv [OF assms(1)] r(2) n refl] r(4) by simp_all
  moreover have "?xs \<noteq> []" using n r(2) by auto
  moreover have "mset (rcvd_ids m') = mset (rcvd_ids m)"
    using take_message_ids [OF drop_front_inv [OF assms(1)] r(2) n] drop_front_ids [OF assms(1)] r(4) by simp
  ultimately show thesis using some r(1) by blast
qed

lemma rm_Release_loop_spec:
  assumes "linked (rm_segs m) p xs" "length xs \<le> fuel" "mset (rm_busy m) = mset xs + W"
  shows "\<exists>b. rm_Release_loop fuel p m = Ok () (m\<lparr>rm_busy := b, rm_retired := rm_retired m @ xs\<rparr>) \<and> mset b = W"
  using assms
proof (induction xs arbitrary: p fuel m)
  case Nil
  have "m\<lparr>rm_busy := rm_busy m, rm_retired := rm_retired m @ []\<rparr> = m" by simp
  then show ?case using Nil by (intro exI [of _ "rm_busy m"]) simp
next
  case (Cons x xs)
  obtain f where f: "fuel = Suc f" using Cons.prems(2) by (cases fuel) auto
  have p: "p = Some x" and l: "linked (rm_segs m) (seg_next (rm_segs m ! x)) xs" using Cons.prems(1) by simp_all
  have "x \<in># mset (rm_busy m)" unfolding Cons.prems(3) by simp
  then have mem: "x \<in> set (rm_busy m)" by simp
  let ?m = "m\<lparr>rm_busy := remove1 x (rm_busy m), rm_retired := rm_retired m @ [x]\<rparr>"
  have "linked (rm_segs ?m) (seg_next (rm_segs m ! x)) xs" "length xs \<le> f" using l Cons.prems(2) f by simp_all
  moreover have "mset (rm_busy ?m) = mset xs + W" by (simp add: Cons.prems(3))
  ultimately have "\<exists>b. rm_Release_loop f (seg_next (rm_segs m ! x)) ?m = Ok () (?m\<lparr>rm_busy := b, rm_retired := rm_retired ?m @ xs\<rparr>) \<and> mset b = W"
    by (rule Cons.IH)
  then show ?case using mem by (simp add: p f)
qed

lemma rm_Release_inv:
  assumes inv: "recv_inv m (ls @ xs # rs)"
  obtains b where "rm_ReleaseMessageDescriptor (Some (hd xs)) m = Ok () (m\<lparr>rm_busy := b, rm_retired := rm_retired m @ xs\<rparr>)"
    "recv_inv (m\<lparr>rm_busy := b, rm_retired := rm_retired m @ xs\<rparr>) (ls @ rs)"
    "mset (rm_busy m) = mset b + mset xs"
proof -
  have l: "linked (rm_segs m) (Some (hd xs)) xs" using inv by (simp add: recv_inv_def)
  have busy: "mset (rm_busy m) = mset xs + mset (concat (ls @ rs))" using inv by (simp add: recv_inv_def)
  obtain b where b: "rm_Release_loop (length (rm_segs m)) (Some (hd xs)) m = Ok () (m\<lparr>rm_busy := b, rm_retired := rm_retired m @ xs\<rparr>)"
      "mset b = mset (concat (ls @ rs))"
    using rm_Release_loop_spec [OF l linked_length [OF l] busy] by blast
  let ?m = "m\<lparr>rm_busy := b, rm_retired := rm_retired m @ xs\<rparr>"
  have "recv_inv ?m (ls @ rs)"
  proof (rule recv_inv_restate [OF inv, where xs = "[]"])
    show "mset (rm_all ?m) = mset (rm_all m) + mset [length (rm_segs m)..<length (rm_segs ?m)]"
      using busy b(2) by (simp add: rm_all_def)
  qed (use b(2) in auto)
  then show thesis using that b busy by (simp add: rm_ReleaseMessageDescriptor_def)
qed

section \<open>Every block comes back\<close>

text \<open>
  The states a client reaches by any sequence of calls.  \<open>live\<close>: the segments of each message
  handed out or put aside and not released; \<open>inn\<close> and \<open>out\<close>: the block IDs received from the
  manager and those given back to it.
\<close>

inductive recv_reach :: "recv_manager \<Rightarrow> nat list list \<Rightarrow> u32 multiset \<Rightarrow> u32 multiset \<Rightarrow> bool" where
  start: "recv_reach ClientRecvManager [] {#} {#}"
| cons: "recv_reach m live inn out \<Longrightarrow> recv_reach (NumConsSlabs n m) live inn out"
| add: "recv_reach m live inn out \<Longrightarrow> recv_reach (AddSegments bs m) live (inn + mset (map fst bs)) out"
| pending: "recv_reach m live inn out \<Longrightarrow> PendingMessage m = (True, m') \<Longrightarrow> rm_pendingMsg m = None \<Longrightarrow>
    rm_pendingMsg m' = Some (hd xs) \<Longrightarrow> linked (rm_segs m') (Some (hd xs)) xs \<Longrightarrow> recv_reach m' (live @ [xs]) inn out"
| pending_again: "recv_reach m live inn out \<Longrightarrow> PendingMessage m = (True, m') \<Longrightarrow> rm_pendingMsg m \<noteq> None \<Longrightarrow>
    recv_reach m' live inn out"
| pending_none: "recv_reach m live inn out \<Longrightarrow> PendingMessage m = (False, m') \<Longrightarrow> recv_reach m' live inn out"
| get: "recv_reach m live inn out \<Longrightarrow> rm_GetMessageDescriptor m = (Some i, m') \<Longrightarrow> rm_pendingMsg m = None \<Longrightarrow>
    linked (rm_segs m') (Some i) xs \<Longrightarrow> recv_reach m' (live @ [xs]) inn out"
| get_pending: "recv_reach m live inn out \<Longrightarrow> rm_GetMessageDescriptor m = (Some i, m') \<Longrightarrow> rm_pendingMsg m \<noteq> None \<Longrightarrow>
    recv_reach m' live inn out"
| get_none: "recv_reach m live inn out \<Longrightarrow> rm_GetMessageDescriptor m = (None, m') \<Longrightarrow> recv_reach m' live inn out"
| release: "recv_reach m (ls @ xs # rs) inn out \<Longrightarrow> rm_ReleaseMessageDescriptor (Some (hd xs)) m = Ok () m' \<Longrightarrow>
    recv_reach m' (ls @ rs) inn out"
| retired: "recv_reach m live inn out \<Longrightarrow> GetRetiredSegments k m = (ids, m') \<Longrightarrow>
    recv_reach m' live inn (out + mset ids)"

lemma rcvd_ids_fields [simp]:
  "rcvd_ids (m\<lparr>rm_pendingMsg := p\<rparr>) = rcvd_ids m"
  "rcvd_ids (m\<lparr>rm_numConsSlabs := c\<rparr>) = rcvd_ids m"
  by (simp_all add: rcvd_ids_def)

lemma added_ids:
  assumes "added bs m m'" "recv_inv m live"
  shows "mset (rcvd_ids m') = mset (rcvd_ids m) + mset (map fst bs)"
proof -
  obtain xs where xs: "rm_pending m' = rm_pending m @ xs" "map (seg_data m') xs = bs" using assms(1) by (auto simp: added_def)
  let ?id = "\<lambda>m i. seg_blockID (rm_segs m ! i)" and ?old = "rm_pending m @ rm_busy m @ rm_retired m"
  have A: "map fst bs = map (?id m') xs" unfolding xs(2) [symmetric] by (simp add: seg_data_def)
  have B: "map (?id m') ?old = map (?id m) ?old" using assms(1) by (intro map_cong) (auto simp: added_def)
  have C: "mset (rcvd_ids m') = mset (map (?id m') ?old) + mset (map (?id m') xs)"
    using assms(1) xs(1) by (simp add: rcvd_ids_def added_def)
  show ?thesis unfolding C B A rcvd_ids_def [of m] ..
qed

lemma ClientRecvManager_inv: "recv_inv ClientRecvManager []" "rcvd_ids ClientRecvManager = []"
  by (simp_all add: ClientRecvManager_def rm_AddMsgSegBlock_def recv_inv_def rm_all_def rcvd_ids_def Let_def atLeast0LessThan)

lemma GetRetiredSegments_spec:
  assumes inv: "recv_inv m live" and "GetRetiredSegments k m = (ids, m')"
  shows "recv_inv m' live" and "mset (rcvd_ids m) = mset ids + mset (rcvd_ids m')"
proof -
  have m': "m' = m\<lparr>rm_retired := drop k (rm_retired m), rm_free := rm_free m @ take k (rm_retired m)\<rparr>"
    and ids: "ids = map (\<lambda>i. seg_blockID (rm_segs m ! i)) (take k (rm_retired m))"
    using assms(2) by (simp_all add: GetRetiredSegments_def Let_def)
  have e: "mset (rm_retired m) = mset (take k (rm_retired m)) + mset (drop k (rm_retired m))"
    by (metis append_take_drop_id mset_append)
  show "recv_inv m' live"
    by (rule recv_inv_restate [OF inv, where xs = "[]"]) (use inv in \<open>simp_all add: m' rm_all_def e recv_inv_def\<close>)
  show "mset (rcvd_ids m) = mset ids + mset (rcvd_ids m')"
    by (simp add: rcvd_ids_def ids m' e)
qed

lemma recv_reach_inv:
  "recv_reach m live inn out \<Longrightarrow> recv_inv m live \<and> inn = out + mset (rcvd_ids m)"
proof (induction rule: recv_reach.induct)
  case start
  then show ?case by (simp add: ClientRecvManager_inv)
next
  case (cons m live inn out n)
  then show ?case by (simp add: NumConsSlabs_def)
next
  case (add m live inn out bs)
  then show ?case using AddSegments_added [of m live bs] added_ids [of bs m "AddSegments bs m" live] by simp
next
  case (pending m live inn out m' xs)
  then obtain i m1 where g: "rm_Get_loop m = (Some i, m1)" "m' = m1\<lparr>rm_pendingMsg := Some i\<rparr>"
    by (auto simp: PendingMessage_def rm_GetMessageDescriptor_def split: prod.splits)
  from pending g have inv: "recv_inv m live" and l: "linked (rm_segs m1) (Some i) xs" by simp_all
  from inv g(1) show ?case
  proof (rule rm_Get_loop_inv)
    fix j ys assume "Some i = Some j" "linked (rm_segs m1) (Some j) ys" "recv_inv m1 (live @ [ys])" "mset (rcvd_ids m1) = mset (rcvd_ids m)"
    then show ?thesis using linked_unique [OF l] pending.IH g(2) by auto
  qed simp
next
  case (pending_again m live inn out m')
  then show ?case by (auto simp: PendingMessage_def)
next
  case (pending_none m live inn out m')
  then obtain m1 where g: "rm_Get_loop m = (None, m1)" "m' = m1\<lparr>rm_pendingMsg := None\<rparr>"
    by (auto simp: PendingMessage_def rm_GetMessageDescriptor_def split: prod.splits if_splits)
  from pending_none have inv: "recv_inv m live" by simp
  from inv g(1) show ?case by (rule rm_Get_loop_inv) (use pending_none g in auto)
next
  case (get m live inn out i m' xs)
  then have g: "rm_Get_loop m = (Some i, m')" and inv: "recv_inv m live" by (simp_all add: rm_GetMessageDescriptor_def)
  from inv g(1) show ?case
  proof (rule rm_Get_loop_inv)
    fix j ys assume "Some i = Some j" "linked (rm_segs m') (Some j) ys" "recv_inv m' (live @ [ys])" "mset (rcvd_ids m') = mset (rcvd_ids m)"
    then show ?thesis using linked_unique [OF get.hyps(4)] get.IH by auto
  qed simp
next
  case (get_pending m live inn out i m')
  then show ?case by (auto simp: rm_GetMessageDescriptor_def)
next
  case (get_none m live inn out m')
  then have g: "rm_Get_loop m = (None, m')" and inv: "recv_inv m live"
    by (simp_all add: rm_GetMessageDescriptor_def split: option.splits)
  from inv g(1) show ?case by (rule rm_Get_loop_inv) (use get_none in auto)
next
  case (release m ls xs rs inn out m')
  then have inv: "recv_inv m (ls @ xs # rs)" by simp
  from inv show ?case
  proof (rule rm_Release_inv)
    fix b assume b: "rm_ReleaseMessageDescriptor (Some (hd xs)) m = Ok () (m\<lparr>rm_busy := b, rm_retired := rm_retired m @ xs\<rparr>)"
      "recv_inv (m\<lparr>rm_busy := b, rm_retired := rm_retired m @ xs\<rparr>) (ls @ rs)" "mset (rm_busy m) = mset b + mset xs"
    then have m': "m' = m\<lparr>rm_busy := b, rm_retired := rm_retired m @ xs\<rparr>" using release by simp
    have "mset (rcvd_ids m') = mset (rcvd_ids m)" by (rule rcvd_ids_same [OF _ inv]) (simp_all add: m' b(3))
    then show ?thesis using b(2) m' release.IH by simp
  qed
next
  case (retired m live inn out k ids m')
  then show ?case using GetRetiredSegments_spec [of m live k ids m'] by (simp add: ac_simps)
qed

section \<open>Properties\<close>

lemma message_front_append:
  assumes "message_front c bs n" shows "message_front c (bs @ cs) n"
proof -
  have n: "0 < n" "n \<le> unat c" "n \<le> length bs" using assms by (simp_all add: message_front_def)
  then have "(bs @ cs) ! k = bs ! k" if "k < n" for k using that by (simp add: nth_append)
  then show ?thesis using assms n unfolding message_front_def by (metis length_append trans_le_add1)
qed

lemma next_message_decides:
  "next_message c bs = (d, n) \<Longrightarrow> (\<forall>e < d. \<not> waiting c (drop e bs) \<and> (\<forall>k. \<not> message_front c (drop e bs) k))
     \<and> (if n = 0 then waiting c (drop d bs) else message_front c (drop d bs) n)"
proof (induction c bs arbitrary: d n rule: next_message.induct)
  case (1 c bs)
  let ?n = "unat (bi_numSegments (hd bs))"
  have whole: "k = ?n" if "message_front c bs k" for k
  proof -
    have "0 < k" "bs \<noteq> []" "\<forall>j < k. unat (bi_numSegments (bs ! j)) = k" using that by (auto simp: message_front_def)
    then show ?thesis by (metis hd_conv_nth)
  qed
  show ?case
  proof (cases "waiting c bs \<or> message_front c bs ?n")
    case True
    then have "next_message c bs = (if waiting c bs then (0, 0) else (0, ?n))"
      by (subst next_message.simps) auto
    then have "(d, n) = (if waiting c bs then (0, 0) else (0, ?n))" using "1.prems" by simp
    moreover have "?n \<noteq> 0" if "message_front c bs ?n" using that by (simp add: message_front_def)
    ultimately show ?thesis using True by (cases "waiting c bs") simp_all
  next
    case False
    obtain d' n' where r: "next_message c (tl bs) = (d', n')" by fastforce
    have "next_message c bs = (Suc d', n')" using False r by (subst next_message.simps) simp
    then have dn: "d = Suc d'" "n = n'" using "1.prems" by simp_all
    have tl: "drop (Suc e) bs = drop e (tl bs)" for e by (simp add: drop_Suc)
    show ?thesis
      using "1.IH" [of d' n'] False r whole unfolding dn All_less_Suc2 tl by auto
  qed
qed

lemma drop_front_0 [simp]: "drop_front 0 m = m"
  by (cases m) (simp add: drop_front_def)

lemma rm_Get_loop_drop:
  "rm_Get_loop m = (let (d, n) = next_message (rm_numConsSlabs m) (map (seg_info m) (rm_pending m))
     in if n = 0 then (None, drop_front d m) else (Some (rm_pending m ! d), take_message n (drop_front d m)))"
  unfolding rm_Get_loop_refines [of m] drop_front_def Let_def ..

text \<open>
  C33: \<open>GetMessageDescriptor\<close> decides at the first place where it can: it drops the segments at
  which no message that fits starts, up to a whole message, which it returns, or to the start of a
  message whose segments have not all arrived, where it returns none and keeps them.
\<close>

theorem recv_first_message:
  assumes "rm_pendingMsg m = None" and "bs = map (seg_info m) (rm_pending m)"
  shows "\<exists>d. (\<forall>e < d. \<not> waiting (rm_numConsSlabs m) (drop e bs) \<and> (\<forall>k. \<not> message_front (rm_numConsSlabs m) (drop e bs) k))
    \<and> (waiting (rm_numConsSlabs m) (drop d bs) \<and> rm_GetMessageDescriptor m = (None, drop_front d m)
       \<or> (\<exists>n. message_front (rm_numConsSlabs m) (drop d bs) n
            \<and> rm_GetMessageDescriptor m = (Some (rm_pending m ! d), take_message n (drop_front d m))))"
proof -
  obtain d n where dn: "next_message (rm_numConsSlabs m) bs = (d, n)" by fastforce
  have "rm_GetMessageDescriptor m = (if n = 0 then (None, drop_front d m) else (Some (rm_pending m ! d), take_message n (drop_front d m)))"
    using assms(1) dn unfolding rm_GetMessageDescriptor_def rm_Get_loop_drop [of m] assms(2)
    by (simp add: Let_def)
  with next_message_decides [OF dn] show ?thesis by (auto split: if_splits)
qed

definition example_info :: "nat \<Rightarrow> nat \<Rightarrow> nat \<Rightarrow> nat \<Rightarrow> block_info" where
  "example_info mid sz k n = \<lparr>bi_messageID = of_nat mid, bi_size = of_nat sz, bi_crc32c = 0,
     bi_segmentNumber = of_nat k, bi_numSegments = of_nat n, bi_sendTime = 0\<rparr>"

definition example_blocks :: "(u32 \<times> nat \<times> block_info) list" where
  "example_blocks = [(4, 400, example_info 7 3 0 2), (9, 900, example_info 7 2 1 2)]"

definition example_recv :: recv_manager where
  "example_recv = AddSegments ((2, 200, example_info 5 8 1 3) # example_blocks) (NumConsSlabs 4 ClientRecvManager)"

lemma example_recv_reach: "recv_reach example_recv [] {#2, 4, 9#} {#}"
  using recv_reach.add [OF recv_reach.cons [OF recv_reach.start, of 4], of "(2, 200, example_info 5 8 1 3) # example_blocks"]
  by (simp add: example_recv_def example_blocks_def)

lemma example_recv_state:
  "rm_pendingMsg example_recv = None" "rm_pending example_recv = [0, 1, 2]" "rm_numConsSlabs example_recv = 4"
  "map (seg_data example_recv) [0, 1, 2] = (2, 200, example_info 5 8 1 3) # example_blocks"
  by (simp_all add: example_recv_def AddSegments_def AddSegment_def NumConsSlabs_def ClientRecvManager_def
      rm_AddMsgSegBlock_def rm_kNumSegs_def Let_def upt_rec seg_data_def example_blocks_def numeral_2_eq_2)

text \<open>The stray segment at the front is dropped; the message behind it is found.\<close>

theorem recv_first_message_witness:
  "\<exists>d. (\<forall>e < d. \<not> waiting 4 (drop e (map (seg_info example_recv) [0, 1, 2]))
         \<and> (\<forall>k. \<not> message_front 4 (drop e (map (seg_info example_recv) [0, 1, 2])) k))
    \<and> (waiting 4 (drop d (map (seg_info example_recv) [0, 1, 2])) \<and> rm_GetMessageDescriptor example_recv = (None, drop_front d example_recv)
       \<or> (\<exists>n. message_front 4 (drop d (map (seg_info example_recv) [0, 1, 2])) n
            \<and> rm_GetMessageDescriptor example_recv = (Some ([0, 1, 2] ! d), take_message n (drop_front d example_recv))))"
  using recv_first_message [OF example_recv_state(1) refl] unfolding example_recv_state(2,3) .

definition example_recv2 :: recv_manager where
  "example_recv2 = take_message 2 (drop_front 1 example_recv)"

lemma example_recv_infos:
  "map (seg_info example_recv) [0, 1, 2] = [example_info 5 8 1 3, example_info 7 3 0 2, example_info 7 2 1 2]"
proof -
  have "map (seg_info example_recv) [0, 1, 2] = map (\<lambda>(_, _, info). info) (map (seg_data example_recv) [0, 1, 2])"
    by (simp add: seg_data_def)
  then show ?thesis unfolding example_recv_state(4) by (simp add: example_blocks_def)
qed

lemma all_less_two: "(\<forall>k < 2. P k) \<longleftrightarrow> P 0 \<and> P (1 :: nat)"
  by (auto simp: less_2_cases_iff)

lemma example_recv_next: "next_message 4 [example_info 5 8 1 3, example_info 7 3 0 2, example_info 7 2 1 2] = (1, 2)"
proof -
  have f: "message_front 4 [example_info 7 3 0 2, example_info 7 2 1 2] 2"
    unfolding message_front_def by (simp add: example_info_def all_less_two)
  have "\<not> message_front 4 [example_info 5 8 1 3, example_info 7 3 0 2, example_info 7 2 1 2] 3"
    by (auto simp: message_front_def example_info_def intro: exI [of _ "0::nat"])
  moreover have "unat (bi_numSegments (example_info 5 8 1 3)) = 3" "bi_segmentNumber (example_info 5 8 1 3) = 1"
    by (simp_all add: example_info_def)
  ultimately show ?thesis
    using next_message_whole [OF f] by (subst next_message.simps) (simp add: waiting_def)
qed

lemma example_recv2_reach: "recv_reach example_recv2 [[1, 2]] {#2, 4, 9#} {#}"
proof -
  have g: "rm_GetMessageDescriptor example_recv = (Some 1, example_recv2)"
    unfolding rm_GetMessageDescriptor_def example_recv_state rm_Get_loop_drop [of example_recv] example_recv_infos example_recv_next
    by (simp add: example_recv2_def)
  have "linked (rm_segs (take_message 2 (drop_front 1 example_recv))) (Some (hd (rm_pending (drop_front 1 example_recv)))) [1, 2]"
    by (rule take_message_inv(2) [OF drop_front_inv, where live = "[]"])
      (use recv_reach_inv [OF example_recv_reach] in \<open>simp_all add: drop_front_def example_recv_state\<close>)
  then have l: "linked (rm_segs example_recv2) (Some 1) [1, 2]"
    by (simp add: example_recv2_def drop_front_def example_recv_state)
  show ?thesis using recv_reach.get [OF example_recv_reach g example_recv_state(1) l] by simp
qed

text \<open>
  C34: No block is lost and none is returned twice.  Whatever the sequence of calls, the block IDs
  received are those given back and those of the segments the manager still has (waiting, with
  the client, or to be given back); no segment is in two of these places; and every message a
  client holds can be released, which makes its segments ready to be given back.
\<close>

theorem recv_blocks_conserved:
  assumes "recv_reach m live inn out"
  shows "inn = out + mset (rcvd_ids m)
    \<and> distinct (rm_pending m @ rm_busy m @ rm_retired m) \<and> mset (rm_busy m) = mset (concat live)
    \<and> (\<forall>xs \<in> set live. \<exists>b. rm_ReleaseMessageDescriptor (Some (hd xs)) m = Ok () (m\<lparr>rm_busy := b, rm_retired := rm_retired m @ xs\<rparr>))"
proof (intro conjI)
  have inv: "recv_inv m live" using recv_reach_inv [OF assms] by simp
  show "inn = out + mset (rcvd_ids m)" using recv_reach_inv [OF assms] by simp
  show "distinct (rm_pending m @ rm_busy m @ rm_retired m)" "mset (rm_busy m) = mset (concat live)"
    using inv by (simp_all add: recv_inv_def rm_all_def)
  show "\<forall>xs \<in> set live. \<exists>b. rm_ReleaseMessageDescriptor (Some (hd xs)) m = Ok () (m\<lparr>rm_busy := b, rm_retired := rm_retired m @ xs\<rparr>)"
  proof
    fix xs assume "xs \<in> set live"
    then obtain ls rs where "live = ls @ xs # rs" by (auto simp: in_set_conv_decomp)
    then show "\<exists>b. rm_ReleaseMessageDescriptor (Some (hd xs)) m = Ok () (m\<lparr>rm_busy := b, rm_retired := rm_retired m @ xs\<rparr>)"
      using rm_Release_inv [of m ls xs rs] inv by blast
  qed
qed

theorem recv_blocks_conserved_witness:
  "{#2, 4, 9#} = {#} + mset (rcvd_ids example_recv2)
    \<and> distinct (rm_pending example_recv2 @ rm_busy example_recv2 @ rm_retired example_recv2)
    \<and> mset (rm_busy example_recv2) = {#1, 2#}
    \<and> (\<exists>b. rm_ReleaseMessageDescriptor (Some 1) example_recv2
         = Ok () (example_recv2\<lparr>rm_busy := b, rm_retired := rm_retired example_recv2 @ [1, 2]\<rparr>))"
  using recv_blocks_conserved [OF example_recv2_reach] by simp

lemma AddSegments_round_trip:
  assumes "recv_reach m live inn out" and "rm_pending m = []" "rm_pendingMsg m = None"
    and front: "message_front (rm_numConsSlabs m) (map (\<lambda>(_, _, info). info) bs) (length bs)"
    and room: "(\<Sum>(_, _, info) \<leftarrow> bs. unat (bi_size info)) \<le> unat maxlen"
  shows "\<exists>i m' xs t. rm_GetMessageDescriptor (AddSegments (bs @ cs) m) = (Some i, m')
    \<and> linked (rm_segs m') (Some i) xs \<and> (\<forall>x \<in> set xs. seg_size (rm_segs m' ! x) = bi_size (seg_info m' x)) \<and> map (seg_data m') xs = bs \<and> map (seg_data m') (rm_pending m') = cs
    \<and> CopyToBuffer mem maxlen (rm_segs m') i =
        Some (concat (map (\<lambda>(_, ptr, info). read_mem mem ptr (unat (bi_size info))) bs), t)
    \<and> unat t = (\<Sum>(_, _, info) \<leftarrow> bs. unat (bi_size info))"
proof -
  let ?a = "AddSegments (bs @ cs) m" and ?n = "length bs"
  have inv: "recv_inv ?a live" and add: "added (bs @ cs) m ?a"
    using AddSegments_added recv_reach_inv [OF assms(1)] by auto
  then obtain ps where ps: "rm_pending ?a = ps" "map (seg_data ?a) ps = bs @ cs"
      "\<forall>x \<in> set ps. seg_size (rm_segs ?a ! x) = bi_size (seg_info ?a x)"
    using assms(2) by (auto simp: added_def)
  have fields: "rm_pendingMsg ?a = None" "rm_numConsSlabs ?a = rm_numConsSlabs m" using add assms(3) by (simp_all add: added_def)
  have n: "0 < ?n" "?n \<le> length (rm_pending ?a)" "bs \<noteq> []"
    using front arg_cong [OF ps(2), of length] ps(1) by (auto simp: message_front_def)
  have data: "map (seg_data ?a) (take ?n ps) = bs" "map (seg_data ?a) (drop ?n ps) = cs"
    using ps(2) by (simp_all flip: take_map drop_map)
  have "map (seg_info ?a) ps = map (\<lambda>(_, _, info). info) (map (seg_data ?a) ps)" by (simp add: seg_data_def)
  then have infos: "map (seg_info ?a) (rm_pending ?a) = map (\<lambda>(_, _, info). info) bs @ map (\<lambda>(_, _, info). info) cs"
    unfolding ps(1) ps(2) by simp
  have "message_front (rm_numConsSlabs ?a) (map (seg_info ?a) (rm_pending ?a)) ?n"
    unfolding infos fields using front by (rule message_front_append)
  from next_message_whole [OF this] have get: "rm_GetMessageDescriptor ?a = (Some (hd ps), take_message ?n ?a)"
    using n ps(1) by (cases ps) (simp_all add: rm_GetMessageDescriptor_def rm_Get_loop_drop [of ?a] fields)
  let ?m = "take_message ?n ?a" and ?xs = "take ?n ps"
  note take = take_message_inv [OF inv n(1,2) refl, unfolded ps(1)]
  have old: "seg_fields (rm_segs ?m ! x) = seg_fields (rm_segs ?a ! x)" if "x \<in> set ps" for x
  proof -
    have "x < length (rm_segs ?a)" using inv that ps(1) by (auto simp: recv_inv_def rm_all_def)
    then show ?thesis using take(3) by (simp add: segs_same_def)
  qed
  then have same: "seg_data ?m x = seg_data ?a x" "seg_size (rm_segs ?m ! x) = seg_size (rm_segs ?a ! x)" if "x \<in> set ps" for x
    using that by (simp_all add: seg_data_def seg_fields_def)
  have "map (seg_data ?m) ?xs = map (seg_data ?a) ?xs" using same(1) by (intro map_cong) (auto dest: in_set_takeD)
  note xs = this [unfolded data(1)]
  have "map (seg_data ?m) (drop ?n ps) = map (seg_data ?a) (drop ?n ps)" using same(1) by (intro map_cong) (auto dest: in_set_dropD)
  moreover have "rm_pending ?m = drop ?n ps" by (simp add: take_message_def ps(1))
  ultimately have rest: "map (seg_data ?m) (rm_pending ?m) = cs" using data(2) by simp
  have size: "seg_size (rm_segs ?m ! x) = bi_size (seg_info ?m x)" if "x \<in> set ?xs" for x
  proof -
    have "x \<in> set ps" using that by (rule in_set_takeD)
    then show ?thesis using same [of x] ps(3) by (simp add: seg_data_def)
  qed
  have "(\<Sum>x \<leftarrow> ?xs. unat (seg_size (rm_segs ?m ! x))) = (\<Sum>(_, _, info) \<leftarrow> map (seg_data ?m) ?xs. unat (bi_size info))"
    by (simp add: size seg_data_def comp_def cong: map_cong)
  then have sizes: "(\<Sum>x \<leftarrow> ?xs. unat (seg_size (rm_segs ?m ! x))) = (\<Sum>(_, _, info) \<leftarrow> bs. unat (bi_size info))"
    unfolding xs .
  have "chain_bytes mem (rm_segs ?m) ?xs = concat (map (\<lambda>(_, ptr, info). read_mem mem ptr (unat (bi_size info))) (map (seg_data ?m) ?xs))"
    by (simp add: chain_bytes_def size seg_data_def comp_def cong: map_cong)
  then have bytes: "chain_bytes mem (rm_segs ?m) ?xs = concat (map (\<lambda>(_, ptr, info). read_mem mem ptr (unat (bi_size info))) bs)"
    unfolding xs .
  obtain t where "CopyToBuffer mem maxlen (rm_segs ?m) (hd ps) = Some (chain_bytes mem (rm_segs ?m) ?xs, t)"
      "unat t = (\<Sum>x \<leftarrow> ?xs. unat (seg_size (rm_segs ?m ! x)))"
    using CopyToBuffer_loop_all [OF take(2) linked_length [OF take(2)], of 0 maxlen mem] room sizes
    by (auto simp: CopyToBuffer_def)
  then show ?thesis unfolding bytes sizes using get take(2) xs rest size by blast
qed

text \<open>
  C35: A message sent as the blocks \<open>bs\<close> is received as it was sent.  When nothing else is pending
  and the blocks carry consistent information, \<open>GetMessageDescriptor\<close> returns a chain of exactly
  these blocks, in order; copying it to a buffer that is large enough gives the concatenation of the
  blocks' bytes; and the blocks behind it stay pending, in order.
\<close>

theorem recv_round_trip:
  assumes "recv_reach m live inn out" and "rm_pending m = []" "rm_pendingMsg m = None"
    and front: "message_front (rm_numConsSlabs m) (map (\<lambda>(_, _, info). info) bs) (length bs)"
    and room: "(\<Sum>(_, _, info) \<leftarrow> bs. unat (bi_size info)) \<le> unat maxlen"
  shows "\<exists>i m' xs t. rm_GetMessageDescriptor (AddSegments (bs @ cs) m) = (Some i, m')
    \<and> linked (rm_segs m') (Some i) xs \<and> map (seg_data m') xs = bs \<and> map (seg_data m') (rm_pending m') = cs
    \<and> CopyToBuffer mem maxlen (rm_segs m') i =
        Some (concat (map (\<lambda>(_, ptr, info). read_mem mem ptr (unat (bi_size info))) bs), t)
    \<and> unat t = (\<Sum>(_, _, info) \<leftarrow> bs. unat (bi_size info))"
  using AddSegments_round_trip [OF assms] by blast

theorem recv_round_trip_witness:
  "\<exists>i m' xs t. rm_GetMessageDescriptor (AddSegments (example_blocks @ []) (NumConsSlabs 4 ClientRecvManager)) = (Some i, m')
    \<and> linked (rm_segs m') (Some i) xs \<and> map (seg_data m') xs = example_blocks \<and> map (seg_data m') (rm_pending m') = []
    \<and> CopyToBuffer (\<lambda>a. of_nat a) 100 (rm_segs m') i = Some ([400, 401, 402, 900, 901], t) \<and> unat t = 5"
proof -
  let ?m = "NumConsSlabs 4 ClientRecvManager"
  have r: "recv_reach ?m [] {#} {#}" by (rule recv_reach.cons [OF recv_reach.start])
  have e: "rm_pending ?m = []" "rm_pendingMsg ?m = None" "rm_numConsSlabs ?m = 4"
    by (simp_all add: NumConsSlabs_def ClientRecvManager_def rm_AddMsgSegBlock_def Let_def)
  have f: "message_front (rm_numConsSlabs ?m) (map (\<lambda>(_, _, info). info) example_blocks) (length example_blocks)"
    by (auto simp: e message_front_def example_blocks_def example_info_def less_Suc_eq)
  have s: "(\<Sum>(_, _, info) \<leftarrow> example_blocks. unat (bi_size info)) \<le> unat (100 :: u64)" by (simp add: example_blocks_def example_info_def)
  show ?thesis
    using recv_round_trip [OF r e(1,2) f s, of "[]" "\<lambda>a. of_nat a"]
    by (simp add: example_blocks_def example_info_def read_mem_def upt_rec)
qed

end
