(* ===== verification/Shm_Client.thy ===== *)
theory Shm_Client
  imports Shm_Mapper
begin

unbundle bit_operations_syntax

text \<open>
  \<open>ShmClient\<close> (src/ShmClient.cc): the client's view of the shared memory the manager made.

  \<^item> A pointer into a mapping is the place in the shared memory it refers to, (buffer, offset); the
    read-only and the writeable mapping of a buffer's blocks are the same places.
  \<^item> The world: \<open>sc_objects name\<close> are the headers of the shared memory objects of that name format
    as the manager wrote them, object \<open>i\<close> at place \<open>i\<close>; \<open>sc_os\<close> answers the \<open>mmap\<close> calls, true
    for success, and they succeed when it is used up.
  \<^item> A header that is not valid stays so during the hundred tries of \<open>GetFirstHeader\<close>.
\<close>

section \<open>Model\<close>

record shm_client =
  sc_nameFormat :: "u8 list"
  sc_blockSize :: u32
  sc_slabSize :: u32
  sc_numBlocks :: u32
  sc_bufSize :: u64
  sc_blksSize :: u64
  sc_blocksPerSlab :: u32
  sc_headerVec :: "nat list"
  sc_infoVec :: "(nat \<times> nat) list"
  sc_blockVec :: "(nat \<times> nat) list"
  sc_blockVecWrt :: "(nat \<times> nat) list"
  sc_pagesize :: u64
  sc_objects :: "u8 list \<Rightarrow> shm_header list"
  sc_os :: "bool list"

definition sc_os_call :: "shm_client \<Rightarrow> bool \<times> shm_client" where
  "sc_os_call m = (case sc_os m of [] \<Rightarrow> (True, m) | b # bs \<Rightarrow> (b, m\<lparr>sc_os := bs\<rparr>))"

text \<open>The object a mapped header refers to, as it is now.\<close>

definition GetShmHeader :: "shm_client \<Rightarrow> nat \<Rightarrow> shm_header" where
  "GetShmHeader m bufNum = sc_objects m (sc_nameFormat m) ! (sc_headerVec m ! bufNum)"

definition sc_OpenShm :: "nat \<Rightarrow> shm_client \<Rightarrow> (nat, shm_client) outcome" where
  "sc_OpenShm bufNum m =
     (if bufNum < length (sc_objects m (sc_nameFormat m)) then Ok bufNum m else Throw ''shm_open'' m)"

definition GetFirstHeader :: "shm_client \<Rightarrow> (shm_header, shm_client) outcome" where
  "GetFirstHeader m =
     bind_o (sc_OpenShm 0 m) (\<lambda>obj m.
       let (ok, m) = sc_os_call m; hdr = sc_objects m (sc_nameFormat m) ! obj in
       if \<not> ok then Throw ''mmap'' m
       else if \<not> ValidHeader hdr then Throw ''shared memory header invalid'' m
       else Ok hdr m)"

definition Map :: "nat \<Rightarrow> shm_header \<Rightarrow> shm_client \<Rightarrow> (unit, shm_client) outcome" where
  "Map bufNum refhdr m =
     bind_o (sc_OpenShm bufNum m) (\<lambda>obj m.
       let (ok, m) = sc_os_call m in
       if \<not> ok then Throw ''mmap RO'' m
       else let (ok, m) = sc_os_call m in
       if \<not> ok then Throw ''mmap RW'' m
       else if bufNum \<noteq> length (sc_headerVec m) \<or> bufNum \<noteq> length (sc_infoVec m)
          \<or> bufNum \<noteq> length (sc_blockVec m) \<or> bufNum \<noteq> length (sc_blockVecWrt m) then Crash AssertionFailed
       else Ok () (m\<lparr>sc_headerVec := sc_headerVec m @ [obj],
                     sc_infoVec := sc_infoVec m @ [(obj, unat (infoOffset refhdr))],
                     sc_blockVec := sc_blockVec m @ [(obj, unat (blockOffset refhdr))],
                     sc_blockVecWrt := sc_blockVecWrt m @ [(obj, unat (blockOffset refhdr))]\<rparr>))"

definition MapBuffers :: "shm_client \<Rightarrow> (u32, shm_client) outcome" where
  "MapBuffers m =
     (let bufsMapped = length (sc_headerVec m) in
      if bufsMapped = 0 then Ok 0 m
      else let bufsAvailable = numBuffers (GetShmHeader m 0) in
        if of_nat bufsMapped = bufsAvailable then Ok bufsAvailable m
        else if of_nat bufsMapped > bufsAvailable then Throw ''ShmClient numBuffers decreased'' m
        else bind_o (for_each (\<lambda>i m. Map i (GetShmHeader m 0) m) [bufsMapped..<unat bufsAvailable] m)
               (\<lambda>_. Ok bufsAvailable))"

definition Initialize :: "shm_client \<Rightarrow> (unit, shm_client) outcome" where
  "Initialize m =
     bind_o (GetFirstHeader m) (\<lambda>hdr m.
     bind_o (Map 0 hdr (m\<lparr>sc_blockSize := blockSize hdr, sc_slabSize := slabSize hdr, sc_numBlocks := numBlocks hdr,
         sc_bufSize := TotalBufferSize (sc_pagesize m) hdr, sc_blksSize := TotalBlocksSize (sc_pagesize m) hdr\<rparr>)) (\<lambda>_ m.
     bind_o (MapBuffers m) (\<lambda>_ m.
       if sc_blockSize m = 0 then Crash DivideByZero
       else Ok () (m\<lparr>sc_blocksPerSlab := sc_slabSize m div sc_blockSize m\<rparr>))))"

definition ShmClient :: "u64 \<Rightarrow> (u8 list \<Rightarrow> shm_header list) \<Rightarrow> bool list \<Rightarrow> u8 list \<Rightarrow> (unit, shm_client) outcome" where
  "ShmClient ps objects os nameFmt =
     (let m = \<lparr>sc_nameFormat = nameFmt, sc_blockSize = 0, sc_slabSize = 0, sc_numBlocks = 0, sc_bufSize = 0,
         sc_blksSize = 0, sc_blocksPerSlab = 0, sc_headerVec = [], sc_infoVec = [], sc_blockVec = [],
         sc_blockVecWrt = [], sc_pagesize = ps, sc_objects = objects, sc_os = os\<rparr>
      in if nameFmt \<noteq> [] then Initialize m else Ok () m)"

text \<open>
  When the name is the one already set, the call \<open>NumBuffers()\<close> only reads the number of mapped
  buffers.
\<close>

definition NameFormat :: "u8 list \<Rightarrow> shm_client \<Rightarrow> (unit, shm_client) outcome" where
  "NameFormat nameFmt m =
     (if sc_nameFormat m \<noteq> [] then
        if sc_nameFormat m = nameFmt then Ok () m else Throw ''ShmClient::NameFormat changed'' m
      else Initialize (m\<lparr>sc_nameFormat := nameFmt\<rparr>))"

definition sc_NumBuffers :: "shm_client \<Rightarrow> nat" where
  "sc_NumBuffers m = length (sc_headerVec m)"

text \<open>\<open>numBlocks*blockSize/slabSize\<close>, a \<open>uint32_t\<close> product.\<close>

definition SlabsPerBuffer :: "shm_client \<Rightarrow> (u32, shm_client) outcome" where
  "SlabsPerBuffer m =
     (if sc_slabSize m = 0 then Crash DivideByZero else Ok (sc_numBlocks m * sc_blockSize m div sc_slabSize m) m)"

text \<open>
  A block in a buffer: the vectors are indexed without a check, and \<open>blockOffset*blockSize\<close> is a
  product of two 32-bit integers.
\<close>

definition place_in :: "(nat \<times> nat) list \<Rightarrow> nat \<Rightarrow> u32 \<Rightarrow> u32 \<Rightarrow> shm_client \<Rightarrow> (nat \<times> nat, shm_client) outcome" where
  "place_in vec bufNum blockOff blockSz m =
     (if bufNum \<ge> length vec then Crash OutOfBounds
      else let (obj, base) = vec ! bufNum in Ok (obj, base + unat (blockOff * blockSz)) m)"

definition GetBlockPtr_at :: "nat \<Rightarrow> u32 \<Rightarrow> shm_client \<Rightarrow> (nat \<times> nat, shm_client) outcome" where
  "GetBlockPtr_at bufNum blockOff m = place_in (sc_blockVec m) bufNum blockOff (sc_blockSize m) m"

definition GetWriteableBlockPtr_at :: "nat \<Rightarrow> u32 \<Rightarrow> shm_client \<Rightarrow> (nat \<times> nat, shm_client) outcome" where
  "GetWriteableBlockPtr_at bufNum blockOff m = place_in (sc_blockVecWrt m) bufNum blockOff (sc_blockSize m) m"

text \<open>A \<open>BlockInfo*\<close> is advanced in units of 24 bytes, in the address space.\<close>

definition GetBlockInfo_at :: "nat \<Rightarrow> u32 \<Rightarrow> shm_client \<Rightarrow> (nat \<times> nat, shm_client) outcome" where
  "GetBlockInfo_at bufNum blockOff m =
     (if bufNum \<ge> length (sc_infoVec m) then Crash OutOfBounds
      else let (obj, base) = sc_infoVec m ! bufNum in Ok (obj, base + 24 * unat blockOff) m)"

definition with_ldiv ::
  "(nat \<Rightarrow> u32 \<Rightarrow> shm_client \<Rightarrow> (nat \<times> nat, shm_client) outcome) \<Rightarrow> u32 \<Rightarrow> shm_client \<Rightarrow> (nat \<times> nat, shm_client) outcome" where
  "with_ldiv f blockID m =
     (if sc_numBlocks m = 0 then Crash DivideByZero
      else f (unat (blockID div sc_numBlocks m)) (blockID mod sc_numBlocks m) m)"

definition sc_GetBlockInfo :: "u32 \<Rightarrow> shm_client \<Rightarrow> (nat \<times> nat, shm_client) outcome" where
  "sc_GetBlockInfo = with_ldiv GetBlockInfo_at"

definition sc_GetBlockPtr :: "u32 \<Rightarrow> shm_client \<Rightarrow> (nat \<times> nat, shm_client) outcome" where
  "sc_GetBlockPtr = with_ldiv GetBlockPtr_at"

definition GetWriteableBlockPtr :: "u32 \<Rightarrow> shm_client \<Rightarrow> (nat \<times> nat, shm_client) outcome" where
  "GetWriteableBlockPtr = with_ldiv GetWriteableBlockPtr_at"

section \<open>The manager's and the client's view\<close>

text \<open>The vectors after \<open>k\<close> buffers of a manager's shared memory have been mapped.\<close>

definition mapped :: "shm_mapper \<Rightarrow> nat \<Rightarrow> shm_client \<Rightarrow> bool" where
  "mapped mm k m \<longleftrightarrow> sc_objects m (sc_nameFormat m) = shm_headerVec mm \<and> sc_pagesize m = shm_pagesize mm
     \<and> k \<le> length (shm_headerVec mm) \<and> sc_headerVec m = [0..<k]
     \<and> sc_infoVec m = map (\<lambda>i. (i, unat (infoOffset (buffer_header mm i)))) [0..<k]
     \<and> sc_blockVec m = map (\<lambda>i. (i, unat (blockOffset (buffer_header mm i)))) [0..<k]
     \<and> sc_blockVecWrt m = sc_blockVec m"

definition sizes_read :: "shm_mapper \<Rightarrow> shm_client \<Rightarrow> bool" where
  "sizes_read mm m \<longleftrightarrow> sc_blockSize m = shm_blockSize mm \<and> sc_slabSize m = shm_slabSize mm \<and> sc_numBlocks m = shm_numBlocks mm
     \<and> sc_bufSize m = TotalBufferSize (shm_pagesize mm) (buffer_header mm 0)
     \<and> sc_blksSize m = TotalBlocksSize (shm_pagesize mm) (buffer_header mm 0)"

definition client_view :: "shm_mapper \<Rightarrow> shm_client \<Rightarrow> bool" where
  "client_view mm m \<longleftrightarrow> mapped mm (length (shm_headerVec mm)) m \<and> sizes_read mm m
     \<and> sc_blocksPerSlab m = shm_slabSize mm div shm_blockSize mm"

lemma mapped_os [simp]: "mapped mm k (m\<lparr>sc_os := os\<rparr>) = mapped mm k m" "sizes_read mm (m\<lparr>sc_os := os\<rparr>) = sizes_read mm m"
  by (simp_all add: mapped_def sizes_read_def)

lemma buffer_header_fields [simp]:
  "infoOffset (buffer_header mm i) = hdr_PaddedSize (shm_pagesize mm)"
  "blockOffset (buffer_header mm i) = hdr_PaddedSize (shm_pagesize mm) + info_PaddedSize (shm_pagesize mm) (shm_numBlocks mm)"
  "blockSize (buffer_header mm i) = shm_blockSize mm" "slabSize (buffer_header mm i) = shm_slabSize mm"
  "numBlocks (buffer_header mm i) = shm_numBlocks mm" "ValidHeader (buffer_header mm i)"
  "numBuffers (buffer_header mm i) = of_nat (length (shm_headerVec mm))"
  by (simp_all add: buffer_header_def ShmHeader_def ValidHeader_def)

lemma sc_os_call_cases:
  obtains os where "sc_os_call m = (True, m\<lparr>sc_os := os\<rparr>)" "set os \<subseteq> set (sc_os m)"
  | os where "sc_os_call m = (False, m\<lparr>sc_os := os\<rparr>)" "False \<in> set (sc_os m)"
proof (cases "sc_os m")
  case Nil
  then have "m\<lparr>sc_os := []\<rparr> = m" by (cases m) simp
  with Nil have "sc_os_call m = (True, m\<lparr>sc_os := []\<rparr>)" by (simp only: sc_os_call_def list.case)
  then show ?thesis by (rule that(1)) simp
next
  case (Cons b bs)
  then have c: "sc_os_call m = (b, m\<lparr>sc_os := bs\<rparr>)" by (simp add: sc_os_call_def)
  show ?thesis
  proof (cases b)
    case True
    show ?thesis by (rule that(1) [of bs]) (use c Cons True in auto)
  next
    case False
    show ?thesis by (rule that(2) [of bs]) (use c Cons False in auto)
  qed
qed

lemma Map_spec:
  assumes m: "mapped mm k m" and k: "k < length (shm_headerVec mm)" and h: "hdr = buffer_header mm i" and os: "set (sc_os m) \<subseteq> S"
  shows "sat (Map k hdr m) (\<lambda>_ m'. mapped mm (Suc k) m' \<and> (sizes_read mm m \<longrightarrow> sizes_read mm m') \<and> set (sc_os m') \<subseteq> S) (\<lambda>_ _. False \<in> S)"
proof -
  have o: "sc_OpenShm k m = Ok k m" using m k by (simp add: sc_OpenShm_def mapped_def)
  show ?thesis
  proof (rule sc_os_call_cases [of m])
    fix os1 assume 1: "sc_os_call m = (True, m\<lparr>sc_os := os1\<rparr>)" "set os1 \<subseteq> set (sc_os m)"
    show ?thesis
    proof (rule sc_os_call_cases [of "m\<lparr>sc_os := os1\<rparr>"])
      fix os2 assume 2: "sc_os_call (m\<lparr>sc_os := os1\<rparr>) = (True, m\<lparr>sc_os := os1\<rparr>\<lparr>sc_os := os2\<rparr>)" "set os2 \<subseteq> set (sc_os (m\<lparr>sc_os := os1\<rparr>))"
      then show ?thesis using 1 m k os unfolding Map_def o by (auto simp: mapped_def sizes_read_def h)
    next
      fix os2 assume "sc_os_call (m\<lparr>sc_os := os1\<rparr>) = (False, m\<lparr>sc_os := os1\<rparr>\<lparr>sc_os := os2\<rparr>)" "False \<in> set (sc_os (m\<lparr>sc_os := os1\<rparr>))"
      then show ?thesis using 1 os unfolding Map_def o by auto
    qed
  next
    fix os1 assume "sc_os_call m = (False, m\<lparr>sc_os := os1\<rparr>)" "False \<in> set (sc_os m)"
    then show ?thesis using os unfolding Map_def o by auto
  qed
qed

lemma GetShmHeader_mapped:
  "shm_ok mm \<Longrightarrow> mapped mm k m \<Longrightarrow> i < k \<Longrightarrow> GetShmHeader m i = buffer_header mm i"
  by (simp add: GetShmHeader_def mapped_def shm_ok_def)

lemma Map_loop_spec:
  assumes "shm_ok mm" "mapped mm k m" "sizes_read mm m" "0 < k" "set (sc_os m) \<subseteq> S"
  shows "sat (for_each (\<lambda>i m. Map i (GetShmHeader m 0) m) [k..<length (shm_headerVec mm)] m)
     (\<lambda>_ m'. mapped mm (length (shm_headerVec mm)) m' \<and> sizes_read mm m' \<and> set (sc_os m') \<subseteq> S) (\<lambda>_ _. False \<in> S)"
  using assms
proof (induction "length (shm_headerVec mm) - k" arbitrary: k m)
  case 0
  then have "k = length (shm_headerVec mm)" by (auto simp: mapped_def)
  with 0 show ?case by simp
next
  case (Suc d)
  then have lt: "k < length (shm_headerVec mm)" by simp
  have eq: "[k..<length (shm_headerVec mm)] = k # [Suc k..<length (shm_headerVec mm)]" using lt by (rule upt_conv_Cons)
  show ?case
    unfolding eq for_each.simps
  proof (rule sat_bind [OF sat_mono [OF Map_spec [OF Suc.prems(2) lt GetShmHeader_mapped Suc.prems(5)]]])
    fix a m' assume "mapped mm (Suc k) m' \<and> (sizes_read mm m \<longrightarrow> sizes_read mm m') \<and> set (sc_os m') \<subseteq> S"
    then show "sat (for_each (\<lambda>i m. Map i (GetShmHeader m 0) m) [Suc k..<length (shm_headerVec mm)] m')
     (\<lambda>_ m'. mapped mm (length (shm_headerVec mm)) m' \<and> sizes_read mm m' \<and> set (sc_os m') \<subseteq> S) (\<lambda>_ _. False \<in> S)"
      using Suc lt by (intro Suc.hyps(1)) auto
  qed (use Suc in auto)
qed

lemma MapBuffers_spec:
  assumes ok: "shm_ok mm" and m: "mapped mm k m" "sizes_read mm m" "0 < k" and os: "set (sc_os m) \<subseteq> S"
  shows "sat (MapBuffers m) (\<lambda>n m'. n = of_nat (length (shm_headerVec mm)) \<and> mapped mm (length (shm_headerVec mm)) m' \<and> sizes_read mm m'
     \<and> set (sc_os m') \<subseteq> S) (\<lambda>_ _. False \<in> S)"
proof -
  let ?n = "length (shm_headerVec mm)"
  have "unat (shm_maxNumBuffers mm) < 2 ^ 32" using unsigned_less [of "shm_maxNumBuffers mm", where ?'a = nat] by simp
  then have n: "unat (of_nat ?n :: u32) = ?n" "?n < 2 ^ 32" using ok by (auto simp: shm_ok_def intro: unat_of_nat_u32)
  have k: "length (sc_headerVec m) = k" "k \<le> ?n" using m(1) by (simp_all add: mapped_def)
  then have uk: "unat (of_nat k :: u32) = k" using n(2) by (simp add: unat_of_nat_u32)
  have h: "numBuffers (GetShmHeader m 0) = of_nat ?n" using GetShmHeader_mapped [OF ok m(1,3)] by simp
  have eq: "(of_nat k :: u32) = of_nat ?n \<longleftrightarrow> k = ?n" and less: "\<not> (of_nat ?n :: u32) < of_nat k"
    using k uk n by (metis, simp add: word_less_nat_alt)
  show ?thesis
  proof (cases "k = ?n")
    case True
    then show ?thesis using m os by (simp add: MapBuffers_def Let_def k h)
  next
    case False
    have "MapBuffers m = bind_o (for_each (\<lambda>i m. Map i (GetShmHeader m 0) m) [k..<?n] m) (\<lambda>_. Ok (of_nat ?n))"
      using False m(3) less by (simp add: MapBuffers_def Let_def k h eq n)
    then show ?thesis by (simp only:) (rule sat_bind [OF Map_loop_spec [OF ok m os]], simp)
  qed
qed

lemma Initialize_spec:
  assumes ok: "shm_ok mm" and some: "shm_headerVec mm \<noteq> []" and bs: "shm_blockSize mm \<noteq> 0"
    and m: "mapped mm 0 m" and os: "set (sc_os m) \<subseteq> S"
  shows "sat (Initialize m) (\<lambda>_. client_view mm) (\<lambda>_ _. False \<in> S)"
proof -
  have o: "sc_OpenShm 0 m = Ok 0 m" using m some by (simp add: sc_OpenShm_def mapped_def)
  have h: "sc_objects m (sc_nameFormat m) ! 0 = buffer_header mm 0" using m some ok by (simp add: mapped_def shm_ok_def)
  show ?thesis
  proof (rule sc_os_call_cases [of m])
    fix os1 assume 1: "sc_os_call m = (False, m\<lparr>sc_os := os1\<rparr>)" "False \<in> set (sc_os m)"
    then show ?thesis using os by (auto simp: Initialize_def GetFirstHeader_def o)
  next
    fix os1 assume 1: "sc_os_call m = (True, m\<lparr>sc_os := os1\<rparr>)" "set os1 \<subseteq> set (sc_os m)"
    let ?h = "buffer_header mm 0"
    let ?m = "m\<lparr>sc_os := os1, sc_blockSize := blockSize ?h, sc_slabSize := slabSize ?h, sc_numBlocks := numBlocks ?h,
         sc_bufSize := TotalBufferSize (sc_pagesize m) ?h, sc_blksSize := TotalBlocksSize (sc_pagesize m) ?h\<rparr>"
    have f: "GetFirstHeader m = Ok ?h (m\<lparr>sc_os := os1\<rparr>)" by (simp add: GetFirstHeader_def o 1 h Let_def)
    have init: "mapped mm 0 ?m" "sizes_read mm ?m" "set (sc_os ?m) \<subseteq> S"
      using m 1 os by (simp_all add: mapped_def sizes_read_def)
    show ?thesis
      unfolding Initialize_def f bind_o.simps
    proof (rule sat_bind [OF sat_mono [OF Map_spec [of mm 0]]])
      fix a m1 assume m1: "mapped mm (Suc 0) m1 \<and> (sizes_read mm ?m \<longrightarrow> sizes_read mm m1) \<and> set (sc_os m1) \<subseteq> S"
      show "sat (bind_o (MapBuffers m1) (\<lambda>_ m. if sc_blockSize m = 0 then Crash DivideByZero
       else Ok () (m\<lparr>sc_blocksPerSlab := sc_slabSize m div sc_blockSize m\<rparr>))) (\<lambda>_. client_view mm) (\<lambda>_ _. False \<in> S)"
      proof (rule sat_bind [OF sat_mono [OF MapBuffers_spec [OF ok]]])
        fix n m2 assume m2: "n = of_nat (length (shm_headerVec mm)) \<and> mapped mm (length (shm_headerVec mm)) m2 \<and> sizes_read mm m2
     \<and> set (sc_os m2) \<subseteq> S"
        then show "sat (if sc_blockSize m2 = 0 then Crash DivideByZero
       else Ok () (m2\<lparr>sc_blocksPerSlab := sc_slabSize m2 div sc_blockSize m2\<rparr>)) (\<lambda>_. client_view mm) (\<lambda>_ _. False \<in> S)"
          using bs by (simp add: client_view_def mapped_def sizes_read_def)
      qed (use m1 init in auto)
    qed (use init some in auto)
  qed
qed

lemma ShmClient_spec:
  assumes "shm_ok mm" "shm_headerVec mm \<noteq> []" "shm_blockSize mm \<noteq> 0" "nm \<noteq> []" "objects nm = shm_headerVec mm"
  shows "sat (ShmClient (shm_pagesize mm) objects os nm) (\<lambda>_. client_view mm) (\<lambda>_ _. False \<in> set os)"
  unfolding ShmClient_def Let_def using assms by (auto intro!: Initialize_spec simp: mapped_def)

lemma client_place:
  assumes v: "client_view mm m" and g: "GetBlockPtr b mm = Ok (q, off) mm'"
  shows "sc_GetBlockPtr b m = Ok (q, unat (blockOffset (buffer_header mm q)) + off mod 2 ^ 32) m"
    and "GetWriteableBlockPtr b m = Ok (q, unat (blockOffset (buffer_header mm q)) + off mod 2 ^ 32) m"
proof -
  have nb: "shm_numBlocks mm \<noteq> 0" and q: "q = unat (b div shm_numBlocks mm)" "q < length (shm_headerVec mm)"
    and off: "off = unat (b mod shm_numBlocks mm) * unat (shm_blockSize mm)"
    using g by (auto simp: GetBlockPtr_def Let_def split: if_splits)
  have w: "unat ((b mod shm_numBlocks mm) * shm_blockSize mm) = off mod 2 ^ 32" by (simp add: off unat_word_ariths)
  show "sc_GetBlockPtr b m = Ok (q, unat (blockOffset (buffer_header mm q)) + off mod 2 ^ 32) m"
    "GetWriteableBlockPtr b m = Ok (q, unat (blockOffset (buffer_header mm q)) + off mod 2 ^ 32) m"
    using v nb q w
    by (simp_all add: client_view_def mapped_def sizes_read_def sc_GetBlockPtr_def GetWriteableBlockPtr_def with_ldiv_def
        GetBlockPtr_at_def GetWriteableBlockPtr_at_def place_in_def del: buffer_header_fields)
qed

text \<open>
  C40: The client and the manager agree on the shared memory.  A client that opens the objects
  of the manager's name maps all the buffers the header announces, with the sizes of the manager;
  where the manager finds block \<open>b\<close> at offset \<open>off\<close> from the first block of buffer \<open>q\<close>, the client
  finds it in the same buffer at the same offset modulo \<open>2^32\<close>.  So the places are the same for
  buffers of up to 4 GB, and in larger buffers the client's 32-bit product makes it use another block.
\<close>

theorem shm_views_agree:
  assumes "shm_ok mm" "shm_headerVec mm \<noteq> []" "shm_blockSize mm \<noteq> 0" "nm \<noteq> []" "objects nm = shm_headerVec mm"
    and "GetBlockPtr b mm = Ok (q, off) mm'"
  shows "\<exists>m. ShmClient (shm_pagesize mm) objects [] nm = Ok () m \<and> sc_NumBuffers m = length (shm_headerVec mm)
    \<and> sc_blocksPerSlab m = BlocksPerSlab mm
    \<and> sc_GetBlockPtr b m = Ok (q, unat (blockOffset (buffer_header mm q)) + off mod 2 ^ 32) m
    \<and> GetWriteableBlockPtr b m = Ok (q, unat (blockOffset (buffer_header mm q)) + off mod 2 ^ 32) m"
proof -
  have "sat (ShmClient (shm_pagesize mm) objects [] nm) (\<lambda>_. client_view mm) (\<lambda>_ _. False)"
    using ShmClient_spec [of mm nm objects "[]"] assms(1-5) by simp
  then obtain m where m: "ShmClient (shm_pagesize mm) objects [] nm = Ok () m" "client_view mm m"
    by (cases "ShmClient (shm_pagesize mm) objects [] nm") auto
  moreover have "sc_NumBuffers m = length (shm_headerVec mm)" "sc_blocksPerSlab m = BlocksPerSlab mm"
    using m(2) by (simp_all add: client_view_def mapped_def sc_NumBuffers_def BlocksPerSlab_def)
  ultimately show ?thesis using client_place [OF m(2) assms(6)] by blast
qed

theorem shm_views_agree_witness:
  "\<exists>m. ShmClient (2 ^ 12) (\<lambda>_. shm_headerVec example_mapper) [] [109] = Ok () m \<and> sc_NumBuffers m = 1
    \<and> GetWriteableBlockPtr 3 m = Ok (0, 8192 + 3072) m"
proof -
  have a: "GetBlockPtr 3 example_mapper = Ok (0, 3072) example_mapper"
    by (simp add: GetBlockPtr_def example_mapper_def ShmMapper_def div_mod_u32_unat)
  have "unat (blockOffset (buffer_header example_mapper 0)) = 8192"
    by (simp add: example_mapper_def ShmMapper_def hdr_PaddedSize_def info_PaddedSize_def round_page_def
        sizeof_ShmHeader_def sizeof_BlockInfo_def)
  moreover have "shm_pagesize example_mapper = 2 ^ 12" "length (shm_headerVec example_mapper) = 1"
    "shm_headerVec example_mapper \<noteq> []" "shm_blockSize example_mapper \<noteq> 0"
    by (simp_all add: example_mapper_def ShmMapper_def)
  ultimately show ?thesis
    using shm_views_agree [of example_mapper "[109]" "\<lambda>_. shm_headerVec example_mapper" 3 0 3072 example_mapper]
      example_mapper_ok a by auto
qed

end
