(* ===== verification/Endpoint_Frame.thy ===== *)
theory Endpoint_Frame
  imports Socket_Endpoint
begin

unbundle bit_operations_syntax

text \<open>
  The constructor of an endpoint, the constants of the control messages that clients and manager
  share, and frames.

  Sending changes only the socket's part of an endpoint: \<open>keeps f st r\<close> says that \<open>f\<close> has the same
  value after \<open>r\<close>, returned or thrown, as in \<open>st\<close>, and every \<open>Send\<close> function keeps what a
  client or a proxy adds to the record and the flags the socket was set up with.
\<close>

section \<open>Constructor and constants\<close>

text \<open>
  The socket is a new one; \<open>SetSocketOptions\<close> are system calls.  While the constructor runs
  \<open>HandleSendWouldBlock\<close> is that of \<open>SocketEndpoint\<close>, which a client keeps.
\<close>

definition SocketEndpoint :: "'a endpoint_scheme \<Rightarrow> (nat, 'a endpoint_scheme) outcome" where
  "SocketEndpoint st =
     SendValidatePeer (st\<lparr>sendFailed := False, validPeer := False, throwOnPeerDisconnect := True, groupID := 0,
        blockRetry := True\<rparr>)"

definition kCtrlString_ShmName :: u32 where "kCtrlString_ShmName = 1"
definition kCtrlString_ClientName :: u32 where "kCtrlString_ClientName = 2"
definition kCtrlString_GroupID :: u32 where "kCtrlString_GroupID = 3"
definition kRegType_RegisterList :: u32 where "kRegType_RegisterList = 0"
definition kRegType_DeregisterList :: u32 where "kRegType_DeregisterList = 1"
definition kCCIMessageID :: u32 where "kCCIMessageID = 0xFFFFFFFF"
definition kCCIBcastID :: u32 where "kCCIBcastID = 0xFFFFFFFF"

text \<open>A place (buffer, offset) in the shared memory as an address.\<close>

definition addr :: "nat \<times> nat \<Rightarrow> nat" where
  "addr p = fst p * 2 ^ 64 + snd p"

section \<open>Frames\<close>

fun keeps :: "('s \<Rightarrow> 'b) \<Rightarrow> 's \<Rightarrow> ('a, 's) outcome \<Rightarrow> bool" where
  "keeps f st (Ok a s) \<longleftrightarrow> f s = f st"
| "keeps f st (Throw e s) \<longleftrightarrow> f s = f st"
| "keeps f st (Crash c) \<longleftrightarrow> True"

lemma keeps_bind: "keeps f st r \<Longrightarrow> (\<And>a s. f s = f st \<Longrightarrow> keeps f s (g a s)) \<Longrightarrow> keeps f st (bind_o r g)"
proof (cases r)
  case (Ok a s)
  assume "keeps f st r" "\<And>a s. f s = f st \<Longrightarrow> keeps f s (g a s)"
  then have "f s = f st" "keeps f s (g a s)" using Ok by simp_all
  then show ?thesis unfolding Ok by (cases "g a s") auto
qed simp_all

lemma keeps_trans: "keeps f s r \<Longrightarrow> f s = f st \<Longrightarrow> keeps f st r"
  by (cases r) auto

definition unsocket :: "'a endpoint_scheme \<Rightarrow> bool \<times> bool \<times> u16 \<times> bool \<times> 'a" where
  "unsocket st = (validPeer st, throwOnPeerDisconnect st, groupID st, blockRetry st, endpoint.more st)"

lemma kernel_send_keeps: "keeps unsocket st (kernel_send err bs st)"
  by (auto simp: kernel_send_def unsocket_def Let_def split: list.splits send_result.splits)

lemma SendBlockIDs_loop_keeps: "keeps unsocket st (SendBlockIDs_loop fuel t len pay st)"
proof (induction fuel arbitrary: t len pay st)
  case (Suc fuel)
  show ?case by (auto intro!: keeps_bind kernel_send_keeps Suc.IH split: option.splits)
qed simp

lemma SendCtrlMsg_loop_keeps: "keeps unsocket st (SendCtrlMsg_loop fuel t len iov st)"
proof (induction fuel arbitrary: t iov st)
  case (Suc fuel)
  show ?case by (auto intro!: keeps_bind kernel_send_keeps Suc.IH split: option.splits)
qed simp

lemma SendBlockIDs_keeps: "keeps unsocket st (SendBlockIDs ids st)"
  by (simp add: SendBlockIDs_def SendBlockIDs_loop_keeps del: SendBlockIDs_loop.simps)

lemma SendCtrlMsg_keeps: "keeps unsocket st (SendCtrlMsg m parts st)"
  by (simp add: SendCtrlMsg_def Let_def SendCtrlMsg_loop_keeps del: SendCtrlMsg_loop.simps)

lemma SendBlocksAndInfo_loop_keeps: "keeps unsocket st (SendBlocksAndInfo_loop t bs st)"
proof (induction t bs st rule: SendBlocksAndInfo_loop.induct)
  case (2 t b bs st)
  show ?case
    unfolding SendBlocksAndInfo_loop.simps Let_def
  proof (rule keeps_bind [OF SendCtrlMsg_keeps])
    fix sent s assume "unsocket s = unsocket st"
    show "keeps unsocket s (if t + sent = length (b # bs) then Ok (t + sent) s
      else SendBlocksAndInfo_loop (t + sent) (drop maxPerSend (b # bs)) s)"
      using 2 by simp
  qed
qed simp

lemma SendRegistration_loop_keeps: "keeps unsocket st (SendRegistration_loop type cid gid t ms st)"
proof (induction type cid gid t ms st rule: SendRegistration_loop.induct)
  case (2 type cid gid t m ms st)
  show ?case unfolding SendRegistration_loop.simps by (rule keeps_bind [OF SendCtrlMsg_keeps]) (rule 2)
qed simp

lemmas sends_keep = SendBlockIDs_keeps SendCtrlMsg_keeps

lemma more_sends_keep:
  "keeps unsocket st (SendSlabIDs ids st)" "keeps unsocket st (SendCtrlString which str st)"
  "keeps unsocket st (SendBlocksAndInfo ids infos st)" "keeps unsocket st (SendDropReport s b st)"
  "keeps unsocket st (SendDropReportAck st)" "keeps unsocket st (SendNumSlabs p c st)"
  "keeps unsocket st (SendSequenceToken t st)" "keeps unsocket st (SendClientID i st)"
  "keeps unsocket st (SendRegistration type cid gid msgIDs st)"
  "keeps unsocket st (SendGroupID gid False st)"
  by (simp_all add: SendSlabIDs_def SendCtrlString_def SendBlocksAndInfo_def SendBlocksAndInfo_loop_keeps SendDropReport_def
    SendDropReportAck_def SendNumSlabs_def SendSequenceToken_def SendClientID_def SendGroupID_def SendRegistration_def SendRegistration_loop_keeps sends_keep Let_def
    del: SendRegistration_loop.simps SendBlocksAndInfo_loop.simps)

lemma keeps_endpoint_more: "keeps unsocket s r \<Longrightarrow> endpoint.more s = endpoint.more st \<Longrightarrow> keeps endpoint.more st r"
  by (cases r) (auto simp: unsocket_def)

lemma SendGroupID_keeps: "keeps endpoint.more st (SendGroupID gid b st)"
  unfolding SendGroupID_def Let_def by (rule keeps_endpoint_more [OF SendCtrlMsg_keeps]) simp

end
