(* ===== verification/Client_Impl.thy ===== *)
theory Client_Impl
  imports Shm_Client Send_Manager Recv_Manager Endpoint_Frame
begin

unbundle bit_operations_syntax

text \<open>
  \<open>ClientImpl\<close> (src/ClientImpl.cc): a client connected to a manager.  It is a \<open>SocketEndpoint\<close>
  that owns the mapped memory, the pool of producer slabs and the received segments.

  \<^item> The shared memory: \<open>c_mem\<close> are its bytes by address, \<open>addr\<close> turns a place (buffer, offset) into
    an address; \<open>c_infos\<close> are the \<open>BlockInfo\<close> records by place, as the manager wrote them.
  \<^item> What arrives: a call that may wait in \<open>Poll\<close> takes the list of what the coming \<open>recv\<close> calls
    return and gives back the rest of it.  When the list is used up while the call still waits,
    nothing more arrives and the call does not end.
  \<^item> The functions the user installed are notified in \<open>c_calls\<close>; they are outside of the program.
  \<^item> The member \<open>blockInfo\<close> is scratch space of \<open>SendMessage\<close>; \<open>printf\<close>, the socket buffer sizes and
    \<open>PrintState\<close> are left out.
\<close>

section \<open>State\<close>

record client_options =
  minProducerBytes :: u64
  minConsumerBytes :: u64
  minProducerSlabs :: u32
  minConsumerSlabs :: u32
  clientName :: "u8 list"
  producerNiceLevel :: u8
  crcPolicy :: u32

datatype client_event =
    DropReported u32 u32
  | ConnectionPoll
  | Registered bool u16 u16 "u32 list"

record client = endpoint +
  c_recvBuf :: "u8 list"
  c_opts :: client_options
  c_shm :: shm_client
  c_sendMgr :: send_manager
  c_recvMgr :: recv_manager
  c_clientID :: u16
  c_numProdSlabs :: u32
  c_numProdSlabsRqstd :: u32
  c_numConsSlabs :: u32
  c_numConsSlabsRqstd :: u32
  c_sequenceTokenSent :: u32
  c_sequenceTokenRcvd :: u32
  c_dropReportHandler :: bool
  c_connectionEventHandler :: bool
  c_registrationHandler :: bool
  c_crcErrors :: u64
  c_sendCallingPoll :: u64
  c_calls :: "client_event list"
  c_mem :: memory
  c_infos :: "nat \<times> nat \<Rightarrow> block_info"

definition eSetCrcs :: u32 where "eSetCrcs = 1"
definition eVerifyCrcs :: u32 where "eVerifyCrcs = 2"

text \<open>The operations of the parts, run inside the client.\<close>

definition on_send :: "(send_manager \<Rightarrow> ('a, send_manager) outcome) \<Rightarrow> client \<Rightarrow> ('a, client) outcome" where
  "on_send f st = lift_o (\<lambda>m. st\<lparr>c_sendMgr := m\<rparr>) (f (c_sendMgr st))"

definition on_recv :: "(recv_manager \<Rightarrow> ('a, recv_manager) outcome) \<Rightarrow> client \<Rightarrow> ('a, client) outcome" where
  "on_recv f st = lift_o (\<lambda>m. st\<lparr>c_recvMgr := m\<rparr>) (f (c_recvMgr st))"

definition on_shm :: "(shm_client \<Rightarrow> ('a, shm_client) outcome) \<Rightarrow> client \<Rightarrow> ('a, client) outcome" where
  "on_shm f st = lift_o (\<lambda>m. st\<lparr>c_shm := m\<rparr>) (f (c_shm st))"

section \<open>Returning slabs and segments\<close>

definition SendRetiredSlabs :: "client \<Rightarrow> (nat, client) outcome" where
  "SendRetiredSlabs st =
     (let n = length (sm_retired (c_sendMgr st)) in
      if n \<noteq> 0 then let (ids, m) = GetRetiredSlabs n (c_sendMgr st) in SendSlabIDs ids (st\<lparr>c_sendMgr := m\<rparr>)
      else Ok 0 st)"

definition SendRetiredSegments :: "client \<Rightarrow> (nat, client) outcome" where
  "SendRetiredSegments st =
     (let n = length (rm_retired (c_recvMgr st)) in
      if n \<noteq> 0 then let (ids, m) = GetRetiredSegments n (c_recvMgr st) in SendBlockIDs ids (st\<lparr>c_recvMgr := m\<rparr>)
      else Ok 0 st)"

section \<open>Handlers\<close>

text \<open>\<open>shm.NumBuffers()*shm.SlabsPerBuffer()\<close> in 32 bits.\<close>

definition set_total_slabs :: "client \<Rightarrow> (unit, client) outcome" where
  "set_total_slabs st =
     bind_o (on_shm SlabsPerBuffer st) (\<lambda>spb st.
       Ok () (st\<lparr>c_sendMgr := SetNumTotalSlabs (of_nat (sc_NumBuffers (c_shm st)) * spb) (c_sendMgr st)\<rparr>))"

text \<open>The number of slabs for a number of bytes, and at least the minimum and one.\<close>

definition slabs_for :: "u64 \<Rightarrow> u32 \<Rightarrow> u32 \<Rightarrow> u32" where
  "slabs_for bytes minSlabs slabSz =
     (let n = ucast ((bytes + ucast slabSz - 1) div ucast slabSz) :: u32;
          n = (if n < minSlabs then minSlabs else n)
      in if n < 1 then 1 else n)"

definition ComputeAndSendNumSlabs :: "client \<Rightarrow> (nat, client) outcome" where
  "ComputeAndSendNumSlabs st =
     (let blockSz = sc_blockSize (c_shm st); slabSz = sc_slabSize (c_shm st); opts = c_opts st in
      if slabSz = 0 then Crash DivideByZero
      else
        let prod = slabs_for (minProducerBytes opts) (minProducerSlabs opts) slabSz;
            cons = slabs_for (minConsumerBytes opts) (minConsumerSlabs opts) slabSz
        in bind_o (on_send (SetSizeParams blockSz slabSz) st) (\<lambda>_ st.
           bind_o (set_total_slabs st) (\<lambda>_ st.
             if prod = c_numProdSlabs st \<and> cons = c_numConsSlabs st then Ok 0 st
             else SendNumSlabs prod cons (st\<lparr>c_numProdSlabsRqstd := prod, c_numConsSlabsRqstd := cons\<rparr>))))"

definition c_HandleCtrlString :: "u32 \<Rightarrow> u8 list \<Rightarrow> client \<Rightarrow> (unit, client) outcome" where
  "c_HandleCtrlString which str st =
     (if which = kCtrlString_ShmName then
        bind_o (on_shm (NameFormat str) st) (\<lambda>_ st.
        bind_o (on_shm MapBuffers st) (\<lambda>_ st.
        bind_o (ComputeAndSendNumSlabs st) (\<lambda>_. Ok ())))
      else Ok () st)"

definition c_HandleNumSlabs :: "u32 \<Rightarrow> u32 \<Rightarrow> client \<Rightarrow> (unit, client) outcome" where
  "c_HandleNumSlabs prodSlabs consSlabs st =
     bind_o (set_total_slabs (st\<lparr>c_numProdSlabs := prodSlabs, c_numConsSlabs := consSlabs\<rparr>)) (\<lambda>_ st.
       let st = st\<lparr>c_recvMgr := NumConsSlabs (c_numConsSlabs st) (c_recvMgr st)\<rparr> in
       if c_numProdSlabsRqstd st \<noteq> c_numProdSlabs st \<or> c_numConsSlabsRqstd st \<noteq> c_numConsSlabs st
       then Throw ''Manager denied request for numProdSlabs'' st
       else Ok () st)"

definition c_HandleDropReport :: "u32 \<Rightarrow> u32 \<Rightarrow> client \<Rightarrow> (unit, client) outcome" where
  "c_HandleDropReport segs bytes st =
     (let st = (if c_dropReportHandler st then st\<lparr>c_calls := c_calls st @ [DropReported segs bytes]\<rparr> else st)
      in bind_o (SendDropReportAck st) (\<lambda>_. Ok ()))"

fun slab_ptrs :: "u32 list \<Rightarrow> shm_client \<Rightarrow> ((u32 \<times> nat) list, shm_client) outcome" where
  "slab_ptrs [] m = Ok [] m"
| "slab_ptrs (i # ids) m =
     bind_o (GetWriteableBlockPtr (i * sc_blocksPerSlab m) m) (\<lambda>p m.
     bind_o (slab_ptrs ids m) (\<lambda>ps. Ok ((i, addr p) # ps)))"

definition c_HandleSlabIDs :: "u32 list \<Rightarrow> client \<Rightarrow> (unit, client) outcome" where
  "c_HandleSlabIDs slabIDs st =
     bind_o (on_shm (slab_ptrs slabIDs) st) (\<lambda>slabs st.
     bind_o (on_send (AddFreeSlabs slabs) st) (\<lambda>_ st.
     bind_o (SendRetiredSlabs st) (\<lambda>_. Ok ())))"

fun block_ptrs :: "(nat \<times> nat \<Rightarrow> block_info) \<Rightarrow> u32 list \<Rightarrow> shm_client \<Rightarrow> ((u32 \<times> nat \<times> block_info) list, shm_client) outcome" where
  "block_ptrs infos [] m = Ok [] m"
| "block_ptrs infos (i # ids) m =
     (if sc_numBlocks m = 0 then Crash DivideByZero
      else
        let quot = unat (i div sc_numBlocks m); rem = i mod sc_numBlocks m in
        if quot \<ge> sc_NumBuffers m then Crash AssertionFailed
        else bind_o (GetBlockPtr_at quot rem m) (\<lambda>p m.
             bind_o (GetBlockInfo_at quot rem m) (\<lambda>q m.
             bind_o (block_ptrs infos ids m) (\<lambda>bs. Ok ((i, addr p, infos q) # bs)))))"

definition c_HandleBlockIDs :: "u32 list \<Rightarrow> client \<Rightarrow> (unit, client) outcome" where
  "c_HandleBlockIDs blockIDs st =
     bind_o (on_shm (block_ptrs (c_infos st) blockIDs) st) (\<lambda>blocks st.
       Ok () (st\<lparr>c_recvMgr := AddSegments blocks (c_recvMgr st)\<rparr>))"

definition c_HandleRegistration :: "u32 \<Rightarrow> u16 \<Rightarrow> u16 \<Rightarrow> u32 list \<Rightarrow> client \<Rightarrow> (unit, client) outcome" where
  "c_HandleRegistration type cid gid msgIDs st =
     (if c_registrationHandler st \<and> (type = kRegType_RegisterList \<or> type = kRegType_DeregisterList)
      then Ok () (st\<lparr>c_calls := c_calls st @ [Registered (type = kRegType_RegisterList) cid gid msgIDs]\<rparr>)
      else Ok () st)"

definition client_handler :: "client call_handler" where
  "client_handler c st =
     (case c of
        HandleClientID i \<Rightarrow> Ok () (st\<lparr>c_clientID := i\<rparr>)
      | HandleCtrlString which str \<Rightarrow> c_HandleCtrlString which str st
      | HandleNumSlabs p n \<Rightarrow> c_HandleNumSlabs p n st
      | HandleDropReport s b \<Rightarrow> c_HandleDropReport s b st
      | HandleSlabIDs ids \<Rightarrow> c_HandleSlabIDs ids st
      | HandleBlockIDs ids \<Rightarrow> c_HandleBlockIDs ids st
      | HandleManagerEcho bs \<Rightarrow> Ok () st
      | HandleRegistration type cid gid ids \<Rightarrow> c_HandleRegistration type cid gid ids st
      | HandleSequenceToken t \<Rightarrow> Ok () (st\<lparr>c_sequenceTokenRcvd := t\<rparr>)
      | _ \<Rightarrow> base_handler c st)"

definition c_Poll :: "recv_result \<Rightarrow> client \<Rightarrow> (nat, client) outcome" where
  "c_Poll r st = lift_o (\<lambda>(buf, st). st\<lparr>c_recvBuf := buf\<rparr>) (Poll client_handler r (c_recvBuf st, st))"

definition ClientImpl ::
  "client_options \<Rightarrow> u32 \<Rightarrow> shm_client \<Rightarrow> client \<Rightarrow> (unit, client) outcome" where
  "ClientImpl opts pid shm st =
     bind_o (SocketEndpoint st) (\<lambda>_ st.
      let st = st\<lparr>c_opts := opts, c_shm := shm, c_sendMgr := ClientSendManager, c_recvMgr := ClientRecvManager,
            c_clientID := - 1, c_numProdSlabs := 0, c_numProdSlabsRqstd := 0, c_numConsSlabs := 0, c_numConsSlabsRqstd := 0,
            c_sequenceTokenSent := 0, c_sequenceTokenRcvd := 0, c_dropReportHandler := False,
            c_connectionEventHandler := False, c_registrationHandler := False,
            c_crcErrors := 0, c_sendCallingPoll := 0\<rparr>
      in bind_o (SendClientPID pid st) (\<lambda>_ st.
         bind_o (SendCtrlString kCtrlString_ClientName (clientName opts) st) (\<lambda>_ st.
           if producerNiceLevel opts \<noteq> 0
           then bind_o (SendProdNiceLevel (scast (producerNiceLevel opts)) st) (\<lambda>_. Ok ())
           else Ok () st)))"

section \<open>Waiting for the manager\<close>

text \<open>The call of the connection event handler before a call that waits.\<close>

definition notify_poll :: "client \<Rightarrow> client" where
  "notify_poll st = (if c_connectionEventHandler st then st\<lparr>c_calls := c_calls st @ [ConnectionPoll]\<rparr> else st)"

fun wait_clientID :: "recv_result list \<Rightarrow> client \<Rightarrow> (recv_result list, client) outcome" where
  "wait_clientID [] st = (if c_clientID st <s 0 then Crash NonTermination else Ok [] st)"
| "wait_clientID (r # rs) st =
     (if c_clientID st <s 0 then bind_o (c_Poll r st) (\<lambda>_. wait_clientID rs) else Ok (r # rs) st)"

definition c_SendRegistration :: "recv_result list \<Rightarrow> u32 \<Rightarrow> u32 list \<Rightarrow> client \<Rightarrow> (nat \<times> recv_result list, client) outcome" where
  "c_SendRegistration inbox type msgIDs st =
     bind_o (wait_clientID inbox st) (\<lambda>inbox st.
     bind_o (SendRegistration type (c_clientID st) (groupID st) msgIDs st) (\<lambda>n. Ok (n, inbox)))"

definition RegisterMsgIDs :: "recv_result list \<Rightarrow> u32 list \<Rightarrow> client \<Rightarrow> (nat \<times> recv_result list, client) outcome" where
  "RegisterMsgIDs inbox = c_SendRegistration inbox kRegType_RegisterList"

definition DeregisterMsgIDs :: "recv_result list \<Rightarrow> u32 list \<Rightarrow> client \<Rightarrow> (nat \<times> recv_result list, client) outcome" where
  "DeregisterMsgIDs inbox = c_SendRegistration inbox kRegType_DeregisterList"

definition SetRegistrationHandler :: "bool \<Rightarrow> client \<Rightarrow> (unit, client) outcome" where
  "SetRegistrationHandler func st =
     bind_o (SendRegistrationsWanted func (st\<lparr>c_registrationHandler := func\<rparr>)) (\<lambda>_. Ok ())"

text \<open>\<open>RequestGroupID\<close>: \<open>inbox\<close> is what arrives within the five seconds.\<close>

fun wait_groupID :: "recv_result list \<Rightarrow> client \<Rightarrow> (u16 \<times> recv_result list, client) outcome" where
  "wait_groupID [] st = Throw ''error: timed out waiting for groupID from manager'' st"
| "wait_groupID (r # rs) st =
     bind_o (c_Poll r (notify_poll st)) (\<lambda>_ st. if 0 \<le>s groupID st then Ok (groupID st, rs) st else wait_groupID rs st)"

definition RequestGroupID :: "recv_result list \<Rightarrow> u8 list \<Rightarrow> bool \<Rightarrow> client \<Rightarrow> (u16 \<times> recv_result list, client) outcome" where
  "RequestGroupID inbox groupStr wait st =
     bind_o (SendCtrlString kCtrlString_GroupID groupStr (st\<lparr>groupID := - 1\<rparr>)) (\<lambda>_ st.
       if \<not> wait then Ok (groupID st, inbox) st else wait_groupID inbox st)"

definition c_SendSequenceToken :: "client \<Rightarrow> (nat, client) outcome" where
  "c_SendSequenceToken st =
     (let st = st\<lparr>c_sequenceTokenSent := c_sequenceTokenSent st + 1\<rparr> in SendSequenceToken (c_sequenceTokenSent st) st)"

definition PendingSequenceTokens :: "client \<Rightarrow> u32" where
  "PendingSequenceTokens st =
     (if c_sequenceTokenSent st \<ge> c_sequenceTokenRcvd st then c_sequenceTokenSent st - c_sequenceTokenRcvd st
      else 0xffffffff - c_sequenceTokenRcvd st + c_sequenceTokenSent st + 1)"

section \<open>Sending\<close>

text \<open>\<open>GetMessageDescriptor\<close> returns null without touching the pool.\<close>

lemma alloc_at_not_None: "alloc_at i n m \<noteq> Ok None m'"
  by (auto simp: alloc_at_def Let_def bind_o_Ok_iff)

lemma GetSegment_None: "GetSegment n f m = Ok None m' \<Longrightarrow> m' = m"
  by (auto simp: GetSegment_def Let_def alloc_at_not_None split: if_splits option.splits)

lemma chain_slabs_not_None: "chain_slabs k (Some i) q m \<noteq> Ok None m'"
proof (induction k arbitrary: q m)
  case (Suc k)
  then show ?case by (auto simp: bind_o_Ok_iff split: option.splits)
qed simp

lemma chain_slabs_None: "chain_slabs k None None m = Ok None m' \<Longrightarrow> m' = m"
proof (induction k arbitrary: m)
  case (Suc k)
  then obtain nxt m1 where "GetSegment (sm_blocksPerSlab m) False m = Ok nxt m1" by (auto simp: bind_o_Ok_iff)
  with Suc.prems show ?case by (cases nxt) (auto simp: chain_slabs_not_None)
qed simp

lemma chain_slabs_null: "chain_slabs k p p m = Ok None m' \<Longrightarrow> p = None \<and> m' = m"
  by (cases p) (auto simp: chain_slabs_not_None dest: chain_slabs_None)

lemma GetMessageDescriptor_null: "GetMessageDescriptor len c m = Ok None m' \<Longrightarrow> m' = m"
  by (auto simp: GetMessageDescriptor_def Let_def bind_o_Ok_iff dest!: chain_slabs_null dest: GetSegment_None split: if_splits)

lemma FlushWorkingSlabs_listed: "FlushWorkingSlabs m = Ok () m' \<Longrightarrow> length (sm_listed m') = length (sm_listed m)"
  by (metis FlushWorkingSlabs_kept size_mset slabs_kept_def)

lemma kernel_send_frame:
  "kernel_send err bs st = Ok r st' \<Longrightarrow> c_sendMgr st' = c_sendMgr st \<and> c_recvMgr st' = c_recvMgr st"
  by (auto simp: kernel_send_def Let_def split: list.splits send_result.splits if_splits)

lemma SendBlockIDs_loop_frame:
  "SendBlockIDs_loop fuel t len pay st = Ok r st' \<Longrightarrow> c_sendMgr st' = c_sendMgr st \<and> c_recvMgr st' = c_recvMgr st"
proof (induction fuel arbitrary: t len pay st)
  case (Suc fuel)
  show ?case
  proof (cases "t < len")
    case True
    with Suc.prems obtain x s1 where k: "kernel_send ''send error: '' (take len pay) st = Ok x s1"
      and r: "(case x of None \<Rightarrow> SendBlockIDs_loop fuel t len pay s1
        | Some sent \<Rightarrow> SendBlockIDs_loop fuel (t + sent) (len - sent) (drop sent pay) s1) = Ok r st'"
      by (auto simp: bind_o_Ok_iff)
    from r Suc.IH have "c_sendMgr st' = c_sendMgr s1 \<and> c_recvMgr st' = c_recvMgr s1" by (cases x) auto
    then show ?thesis using kernel_send_frame [OF k] by simp
  next
    case False
    then show ?thesis using Suc.prems by simp
  qed
qed simp

lemma SendBlockIDs_frame:
  "SendBlockIDs ids st = Ok r st' \<Longrightarrow> c_sendMgr st' = c_sendMgr st \<and> c_recvMgr st' = c_recvMgr st"
  by (auto simp: SendBlockIDs_def simp del: SendBlockIDs_loop.simps split: if_splits dest: SendBlockIDs_loop_frame)

lemma SendRetiredSlabs_listed:
  assumes "SendRetiredSlabs st = Ok r st'" and "sm_retired (c_sendMgr st) \<noteq> []"
  shows "length (sm_listed (c_sendMgr st')) < length (sm_listed (c_sendMgr st))"
  using assms by (auto simp: SendRetiredSlabs_def Let_def GetRetiredSlabs_def SendSlabIDs_def sm_listed_def dest!: SendBlockIDs_frame)

lemma on_send_Ok: "on_send f st = Ok a st' \<longleftrightarrow> (\<exists>m. f (c_sendMgr st) = Ok a m \<and> st' = st\<lparr>c_sendMgr := m\<rparr>)"
  by (cases "f (c_sendMgr st)") (auto simp: on_send_def)

lemma squeeze_listed:
  assumes "on_send (GetMessageDescriptor len c) st = Ok None s1"
    and "(if sm_retired (c_sendMgr s1) = [] then on_send FlushWorkingSlabs s1 else Ok () s1) = Ok () s2"
    and "sm_retired (c_sendMgr s2) \<noteq> []" and "SendRetiredSlabs s2 = Ok n s3"
  shows "length (sm_listed (c_sendMgr s3)) < length (sm_listed (c_sendMgr st))"
proof -
  have 1: "c_sendMgr s1 = c_sendMgr st" using assms(1) by (auto simp: on_send_Ok dest: GetMessageDescriptor_null)
  have "length (sm_listed (c_sendMgr s2)) = length (sm_listed (c_sendMgr s1))"
    using assms(2) by (auto simp: on_send_Ok dest: FlushWorkingSlabs_listed split: if_splits)
  then show ?thesis using SendRetiredSlabs_listed [OF assms(4,3)] 1 by simp
qed

text \<open>
  \<open>GetSendMsgDesc\<close>.  Each turn of the loop either waits for something to arrive or returns a slab
  to the manager, so it ends with what arrives.
\<close>

function GetSendMsgDesc_loop ::
  "u32 \<Rightarrow> bool \<Rightarrow> bool \<Rightarrow> recv_result list \<Rightarrow> client \<Rightarrow> (nat option \<times> recv_result list, client) outcome" where
  "GetSendMsgDesc_loop len contiguous poll inbox st =
     (case on_send (GetMessageDescriptor len contiguous) st of
        Throw e st \<Rightarrow> Throw e st
      | Crash c \<Rightarrow> Crash c
      | Ok (Some seg) st \<Rightarrow> Ok (Some seg, inbox) st
      | Ok None st \<Rightarrow>
          if c_clientID st <s 0 \<or> c_numProdSlabs st < 1 \<or> c_numProdSlabs st > sm_slabsHeld (c_sendMgr st) then
            if \<not> poll then Ok (None, inbox) st
            else
              let st = notify_poll (st\<lparr>c_sendCallingPoll := c_sendCallingPoll st + 1\<rparr>) in
              (case inbox of
                 [] \<Rightarrow> Crash NonTermination
               | r # rs \<Rightarrow> bind_o (c_Poll r st) (\<lambda>_. GetSendMsgDesc_loop len contiguous poll rs))
          else
            (case (if sm_retired (c_sendMgr st) = [] then on_send FlushWorkingSlabs st else Ok () st) of
               Throw e st \<Rightarrow> Throw e st
             | Crash c \<Rightarrow> Crash c
             | Ok _ st \<Rightarrow>
                 if sm_retired (c_sendMgr st) \<noteq> [] then
                   (case SendRetiredSlabs st of
                      Throw e st \<Rightarrow> Throw e st
                    | Crash c \<Rightarrow> Crash c
                    | Ok _ st \<Rightarrow> GetSendMsgDesc_loop len contiguous poll inbox st)
                 else Throw ''ClientImpl::GetSendMsgDesc failed'' st))"
  by pat_completeness auto
termination
  by (relation "measures [\<lambda>(len, c, p, inbox, st). length inbox, \<lambda>(len, c, p, inbox, st). length (sm_listed (c_sendMgr st))]")
    (simp_all, rule squeeze_listed)

declare GetSendMsgDesc_loop.simps [simp del]

definition GetSendMsgDesc ::
  "u32 \<Rightarrow> bool \<Rightarrow> bool \<Rightarrow> recv_result list \<Rightarrow> client \<Rightarrow> (nat option \<times> recv_result list, client) outcome" where
  "GetSendMsgDesc len contiguous poll inbox st =
     (if sendFailed st then Throw ''GetSendMsgDesc after sendFailed'' st
      else GetSendMsgDesc_loop len contiguous poll inbox st)"

text \<open>
  The zero-copy \<open>SendMessage\<close>: the loop that describes the segments used, then one message with
  all of them.  A \<open>DescriptorReleaser\<close> releases the descriptor on every way out.
\<close>

fun describe_segments ::
  "nat \<Rightarrow> memory \<Rightarrow> bool \<Rightarrow> u32 \<Rightarrow> msg_segment list \<Rightarrow> nat option \<Rightarrow> u32 \<Rightarrow> nat \<Rightarrow> ((u32 \<times> block_info) list \<times> u32) option" where
  "describe_segments fuel mem crc msgID segs None left k = Some ([], left)"
| "describe_segments 0 mem crc msgID segs (Some i) left k = None"
| "describe_segments (Suc fuel) mem crc msgID segs (Some i) left k =
     (if i < length segs then
        let s = segs ! i; segBytes = (if left \<le> seg_size s then left else seg_size s);
            info = \<lparr>bi_messageID = msgID, bi_size = segBytes,
                    bi_crc32c = (if crc then crc_value (read_mem mem (seg_buf s) (unat segBytes)) else 0),
                    bi_segmentNumber = of_nat k, bi_numSegments = 0, bi_sendTime = 0\<rparr>
        in if left - segBytes = 0 then Some ([(seg_blockID s, info)], 0)
           else map_option (\<lambda>(bs, l). ((seg_blockID s, info) # bs, l))
                  (describe_segments fuel mem crc msgID segs (seg_next s) (left - segBytes) (Suc k))
      else None)"

definition send_described :: "u32 \<Rightarrow> nat option \<Rightarrow> u32 \<Rightarrow> client \<Rightarrow> (u32, client) outcome" where
  "send_described msgID desc len st =
     (case desc of
        None \<Rightarrow> Throw ''null descriptor passed to SendMessage'' st
      | Some i \<Rightarrow>
          let segs = sm_segs (c_sendMgr st) in
          case describe_segments (length segs) (c_mem st) (crcPolicy (c_opts st) AND eSetCrcs \<noteq> 0) msgID segs desc len 0 of
            None \<Rightarrow> Crash NonTermination
          | Some (bs, left) \<Rightarrow>
              if left \<noteq> 0 then Throw ''ClientImpl::SendMessage len > descriptor len'' st
              else bind_o (SendBlocksAndInfo (map fst bs)
                     (map (\<lambda>(_, info). info\<lparr>bi_numSegments := of_nat (length bs)\<rparr>) bs) st) (\<lambda>result st.
                   bind_o (SendRetiredSlabs st) (\<lambda>_. Ok (if result > 0 then len else of_nat result))))"

fun finally_o :: "('a, 's) outcome \<Rightarrow> ('s \<Rightarrow> (unit, 's) outcome) \<Rightarrow> ('a, 's) outcome" where
  "finally_o (Ok a s) f = bind_o (f s) (\<lambda>_. Ok a)"
| "finally_o (Throw e s) f = bind_o (f s) (\<lambda>_. Throw e)"
| "finally_o (Crash c) f = Crash c"

definition SendMessage_desc :: "u32 \<Rightarrow> nat option \<Rightarrow> u32 \<Rightarrow> client \<Rightarrow> (u32, client) outcome" where
  "SendMessage_desc msgID desc len st =
     finally_o (send_described msgID desc len st) (on_send (ReleaseMessageDescriptor desc))"

text \<open>The copying \<open>SendMessage\<close>; \<open>msg\<close> are the bytes at \<open>msg\<close>, as many as \<open>len\<close>.\<close>

fun copy_loop :: "nat \<Rightarrow> msg_segment list \<Rightarrow> nat option \<Rightarrow> u8 list \<Rightarrow> client \<Rightarrow> (unit, client) outcome" where
  "copy_loop fuel segs seg [] st = Ok () st"
| "copy_loop fuel segs None (b # bs) st = Crash NullDereference"
| "copy_loop 0 segs (Some i) (b # bs) st = Crash NonTermination"
| "copy_loop (Suc fuel) segs (Some i) (b # bs) st =
     (if i < length segs then
        let s = segs ! i; n = min (length (b # bs)) (unat (seg_size s))
        in copy_loop fuel segs (seg_next s) (drop n (b # bs)) (st\<lparr>c_mem := write_mem (seg_buf s) (take n (b # bs)) (c_mem st)\<rparr>)
      else Crash OutOfBounds)"

definition SendMessage :: "recv_result list \<Rightarrow> u32 \<Rightarrow> u8 list \<Rightarrow> client \<Rightarrow> (u32 \<times> recv_result list, client) outcome" where
  "SendMessage inbox msgID msg st =
     (let len = of_nat (length msg) in
      bind_o (GetSendMsgDesc len False True inbox st) (\<lambda>(desc, inbox) st.
      bind_o (let segs = sm_segs (c_sendMgr st) in copy_loop (length segs) segs desc msg st) (\<lambda>_ st.
      bind_o (SendMessage_desc msgID desc len st) (\<lambda>n. Ok (n, inbox)))))"

text \<open>
  The \<open>iovec\<close> version: \<open>src\<close> and \<open>room\<close> are the rest of the current vector and of the current
  segment (\<open>dst\<close> its address), \<open>left\<close> is \<open>bytesLeft\<close>.  A turn of the loop takes a vector, takes a
  segment or copies at least one byte.
\<close>

fun iov_loop ::
  "nat \<Rightarrow> msg_segment list \<Rightarrow> nat \<Rightarrow> u8 list \<Rightarrow> u8 list list \<Rightarrow> nat option \<Rightarrow> nat \<Rightarrow> nat \<Rightarrow> client \<Rightarrow> (unit, client) outcome" where
  "iov_loop fuel segs 0 src iov seg dst room st = Ok () st"
| "iov_loop 0 segs (Suc n) src iov seg dst room st = Crash NonTermination"
| "iov_loop (Suc fuel) segs (Suc n) src iov seg dst room st =
     (if src = [] then
        (case iov of [] \<Rightarrow> Crash OutOfBounds | v # iov \<Rightarrow> iov_loop fuel segs (Suc n) v iov seg dst room st)
      else if room = 0 then
        (case seg of
           None \<Rightarrow> Crash NullDereference
         | Some i \<Rightarrow> if i < length segs
             then iov_loop fuel segs (Suc n) src iov (seg_next (segs ! i)) (seg_buf (segs ! i)) (unat (seg_size (segs ! i))) st
             else Crash OutOfBounds)
      else
        let k = min (Suc n) (min (length src) room)
        in iov_loop fuel segs (Suc n - k) (drop k src) iov seg (dst + k) (room - k)
             (st\<lparr>c_mem := write_mem dst (take k src) (c_mem st)\<rparr>))"

definition SendMessage_iov :: "recv_result list \<Rightarrow> u32 \<Rightarrow> u8 list list \<Rightarrow> client \<Rightarrow> (u32 \<times> recv_result list, client) outcome" where
  "SendMessage_iov inbox msgID iov st =
     (let total = (\<Sum>v \<leftarrow> iov. length v); len = of_nat total :: u32 in
      bind_o (GetSendMsgDesc len False True inbox st) (\<lambda>(desc, inbox) st.
      bind_o (let segs = sm_segs (c_sendMgr st)
              in iov_loop (unat len + length iov + length segs) segs (unat len) [] iov desc 0 0 st) (\<lambda>_ st.
      bind_o (SendMessage_desc msgID desc len st) (\<lambda>n. Ok (n, inbox)))))"

text \<open>
  \<open>SendCCI\<close> passes \<open>&iov\<close>, a pointer to the array: the call is to the copying \<open>SendMessage\<close> with a
  length of 2, which sends the first two bytes of the array, the low bytes of the address of the
  header on the stack.
\<close>

definition SendCCI :: "recv_result list \<Rightarrow> u64 \<Rightarrow> u32 \<Rightarrow> u8 list \<Rightarrow> client \<Rightarrow> (u32 \<times> recv_result list, client) outcome" where
  "SendCCI inbox hdr cciMsgID msg st =
     (let iov = bytes32 (ucast hdr) @ bytes32 (ucast (drop_bit 32 hdr))
      in SendMessage inbox kCCIMessageID (take 2 iov) st)"

definition ReleaseSendMsgDesc :: "nat option \<Rightarrow> client \<Rightarrow> (unit, client) outcome" where
  "ReleaseSendMsgDesc desc st =
     bind_o (on_send (ReleaseMessageDescriptor desc) st) (\<lambda>_ st. bind_o (SendRetiredSlabs st) (\<lambda>_. Ok ()))"

section \<open>Receiving\<close>

definition PendingRecvMessage :: "client \<Rightarrow> (bool, client) outcome" where
  "PendingRecvMessage st =
     (let (result, m) = PendingMessage (c_recvMgr st)
      in bind_o (SendRetiredSegments (st\<lparr>c_recvMgr := m\<rparr>)) (\<lambda>_. Ok result))"

definition ReleaseRecvMsgDesc :: "nat option \<Rightarrow> client \<Rightarrow> (unit, client) outcome" where
  "ReleaseRecvMsgDesc desc st =
     bind_o (on_recv (rm_ReleaseMessageDescriptor desc) st) (\<lambda>_ st. bind_o (SendRetiredSegments st) (\<lambda>_. Ok ()))"

text \<open>\<open>GetRecvMsgDesc\<close> skips messages whose CRC does not match; each turn uses up pending segments.\<close>

definition rm_backlog :: "recv_manager \<Rightarrow> nat" where
  "rm_backlog m = length (rm_pending m) + (if rm_pendingMsg m = None then 0 else 1)"

lemma rm_Get_loop_pending:
  "rm_Get_loop m = (r, m') \<Longrightarrow> rm_pendingMsg m' = rm_pendingMsg m \<and> length (rm_pending m') \<le> length (rm_pending m)
     \<and> (r \<noteq> None \<longrightarrow> length (rm_pending m') < length (rm_pending m))"
proof -
  assume r: "rm_Get_loop m = (r, m')"
  obtain d n where dn: "next_message (rm_numConsSlabs m) (map (seg_info m) (rm_pending m)) = (d, n)" by fastforce
  have "rm_Get_loop m = (if n = 0 then (None, drop_front d m) else (Some (rm_pending m ! d), take_message n (drop_front d m)))"
    unfolding rm_Get_loop_drop [of m] dn by simp
  moreover have "d < length (rm_pending m)" if "n \<noteq> 0"
    using next_message_found [OF dn that] by (auto simp: message_front_def)
  ultimately show ?thesis using r by (cases "n = 0") (auto simp: drop_front_def take_message_def)
qed

lemma rm_GetMessageDescriptor_backlog:
  "rm_GetMessageDescriptor m = (Some i, m') \<Longrightarrow> rm_backlog m' < rm_backlog m"
  using rm_Get_loop_pending [of m "Some i" m']
  by (auto simp: rm_GetMessageDescriptor_def rm_backlog_def split: option.splits)

lemma rm_Release_loop_backlog:
  "rm_Release_loop fuel p m = Ok u m' \<Longrightarrow> rm_backlog m' = rm_backlog m"
proof (induction fuel p m rule: rm_Release_loop.induct)
  case (3 fuel seg m)
  then show ?case by (auto simp: rm_backlog_def split: if_splits)
qed (auto simp: rm_backlog_def)

lemma on_recv_Ok: "on_recv f st = Ok a st' \<longleftrightarrow> (\<exists>m. f (c_recvMgr st) = Ok a m \<and> st' = st\<lparr>c_recvMgr := m\<rparr>)"
  by (cases "f (c_recvMgr st)") (auto simp: on_recv_def)

lemma SendRetiredSegments_backlog:
  "SendRetiredSegments st = Ok n st' \<Longrightarrow> rm_backlog (c_recvMgr st') = rm_backlog (c_recvMgr st)"
  by (auto simp: SendRetiredSegments_def Let_def GetRetiredSegments_def rm_backlog_def split: if_splits dest!: SendBlockIDs_frame)

lemma ReleaseRecvMsgDesc_backlog:
  "ReleaseRecvMsgDesc desc st = Ok u st' \<Longrightarrow> rm_backlog (c_recvMgr st') = rm_backlog (c_recvMgr st)"
  by (auto simp: ReleaseRecvMsgDesc_def bind_o_Ok_iff on_recv_Ok rm_ReleaseMessageDescriptor_def
      dest!: SendRetiredSegments_backlog rm_Release_loop_backlog)

function GetRecvMsgDesc_loop :: "client \<Rightarrow> (nat option, client) outcome" where
  "GetRecvMsgDesc_loop st =
     (case rm_GetMessageDescriptor (c_recvMgr st) of
        (None, m) \<Rightarrow> Ok None (st\<lparr>c_recvMgr := m\<rparr>)
      | (Some i, m) \<Rightarrow>
          let st = st\<lparr>c_recvMgr := m\<rparr> in
          if crcPolicy (c_opts st) AND eVerifyCrcs \<noteq> 0 then
            (case ValidCRC (c_mem st) True True (rm_segs m) i of
               None \<Rightarrow> Crash NonTermination
             | Some True \<Rightarrow> Ok (Some i) st
             | Some False \<Rightarrow>
                 (case ReleaseRecvMsgDesc (Some i) (st\<lparr>c_crcErrors := c_crcErrors st + 1\<rparr>) of
                    Throw e st \<Rightarrow> Throw e st
                  | Crash c \<Rightarrow> Crash c
                  | Ok _ st \<Rightarrow> GetRecvMsgDesc_loop st))
          else Ok (Some i) st)"
  by pat_completeness auto
termination
  by (relation "measure (\<lambda>st. rm_backlog (c_recvMgr st))")
    (auto dest!: ReleaseRecvMsgDesc_backlog dest: rm_GetMessageDescriptor_backlog [OF sym])

declare GetRecvMsgDesc_loop.simps [simp del]

definition GetRecvMsgDesc :: "client \<Rightarrow> (nat option, client) outcome" where
  "GetRecvMsgDesc st =
     bind_o (GetRecvMsgDesc_loop st) (\<lambda>desc st.
       if rm_retired (c_recvMgr st) \<noteq> [] then bind_o (SendRetiredSegments st) (\<lambda>_. Ok desc) else Ok desc st)"

end
