(* ===== verification/Client_Messages.thy ===== *)
theory Client_Messages
  imports Client_Impl
begin

text \<open>
  What a client sends and receives (src/ClientImpl.cc): the bytes of a message in the blocks it is
  copied to, the information the client sends about them, and the message a receiving client gets
  from them.
\<close>

section \<open>From the message to the blocks\<close>

text \<open>The pieces of a message in segments of the given sizes, as the loops cut it.\<close>

fun chunks :: "nat list \<Rightarrow> u8 list \<Rightarrow> u8 list list" where
  "chunks [] bs = []"
| "chunks (n # ns) bs = (if length bs \<le> n then [bs] else take n bs # chunks ns (drop n bs))"

lemma chunks_concat: "ns \<noteq> [] \<Longrightarrow> length bs \<le> sum_list ns \<Longrightarrow> concat (chunks ns bs) = bs"
proof (induction ns bs rule: chunks.induct)
  case (2 n ns bs)
  then show ?case by (cases "ns = []") auto
qed simp

lemma chunks_length: "length (chunks ns bs) \<le> length ns"
  by (induction ns bs rule: chunks.induct) auto

lemma chunks_nonempty: "ns \<noteq> [] \<Longrightarrow> chunks ns bs \<noteq> []"
  by (cases ns) auto

lemma chunks_fit: "(n, c) \<in> set (zip ns (chunks ns bs)) \<Longrightarrow> length c \<le> n"
  by (induction ns bs rule: chunks.induct) (auto split: if_splits)

abbreviation sizes :: "msg_segment list \<Rightarrow> nat list \<Rightarrow> nat list" where
  "sizes segs xs \<equiv> map (\<lambda>x. unat (seg_size (segs ! x))) xs"

text \<open>The memory of the segments \<open>xs\<close> does not overlap.\<close>

definition apart :: "msg_segment list \<Rightarrow> nat list \<Rightarrow> bool" where
  "apart segs xs \<longleftrightarrow> (\<forall>x \<in> set xs. \<forall>y \<in> set xs. x \<noteq> y \<longrightarrow>
     seg_buf (segs ! x) + unat (seg_size (segs ! x)) \<le> seg_buf (segs ! y)
     \<or> seg_buf (segs ! y) + unat (seg_size (segs ! y)) \<le> seg_buf (segs ! x))"

definition outside :: "msg_segment list \<Rightarrow> nat list \<Rightarrow> nat \<Rightarrow> bool" where
  "outside segs xs a \<longleftrightarrow> (\<forall>x \<in> set xs. a < seg_buf (segs ! x) \<or> seg_buf (segs ! x) + unat (seg_size (segs ! x)) \<le> a)"

text \<open>The memory after the copy: the pieces in the segments.\<close>

fun put_chunks :: "msg_segment list \<Rightarrow> nat list \<Rightarrow> u8 list list \<Rightarrow> memory \<Rightarrow> memory" where
  "put_chunks segs (x # xs) (c # cs) mem = put_chunks segs xs cs (write_mem (seg_buf (segs ! x)) c mem)"
| "put_chunks segs _ _ mem = mem"

lemma write_mem_outside: "a < p \<or> p + length bs \<le> a \<Longrightarrow> write_mem p bs mem a = mem a"
  by (auto simp: write_mem_def)

lemma read_write_mem: "read_mem (write_mem p bs mem) p (length bs) = bs"
  by (auto simp: read_mem_def write_mem_def intro: nth_equalityI)

lemma read_mem_cong: "(\<And>a. p \<le> a \<Longrightarrow> a < p + n \<Longrightarrow> mem a = mem' a) \<Longrightarrow> read_mem mem p n = read_mem mem' p n"
  by (auto simp: read_mem_def)

lemma put_chunks_outside:
  "outside segs xs a \<Longrightarrow> (\<forall>(n, c) \<in> set (zip (sizes segs xs) cs). length c \<le> n) \<Longrightarrow> put_chunks segs xs cs mem a = mem a"
proof (induction segs xs cs mem rule: put_chunks.induct)
  case (1 segs x xs c cs mem)
  then have "length c \<le> unat (seg_size (segs ! x))" "a < seg_buf (segs ! x) \<or> seg_buf (segs ! x) + unat (seg_size (segs ! x)) \<le> a"
    by (auto simp: outside_def)
  then have "write_mem (seg_buf (segs ! x)) c mem a = mem a" by (intro write_mem_outside) auto
  with 1 show ?case by (auto simp: outside_def)
qed auto

lemma put_chunks_read:
  assumes "distinct xs" "apart segs xs" "\<forall>(n, c) \<in> set (zip (sizes segs xs) cs). length c \<le> n" "(x, c) \<in> set (zip xs cs)"
  shows "read_mem (put_chunks segs xs cs mem) (seg_buf (segs ! x)) (length c) = c"
  using assms
proof (induction segs xs cs mem rule: put_chunks.induct)
  case (1 segs y xs d cs mem)
  show ?case
  proof (cases "(x, c) = (y, d)")
    case True
    have "read_mem (put_chunks segs xs cs (write_mem (seg_buf (segs ! x)) c mem)) (seg_buf (segs ! x)) (length c)
        = read_mem (write_mem (seg_buf (segs ! x)) c mem) (seg_buf (segs ! x)) (length c)"
    proof (rule read_mem_cong)
      fix a assume a: "seg_buf (segs ! x) \<le> a" "a < seg_buf (segs ! x) + length c"
      have "length c \<le> unat (seg_size (segs ! x))" using "1.prems"(3) True by simp
      then have "outside segs xs a" using a "1.prems"(1,2) True by (fastforce simp: outside_def apart_def)
      then show "put_chunks segs xs cs (write_mem (seg_buf (segs ! x)) c mem) a = write_mem (seg_buf (segs ! x)) c mem a"
        using "1.prems"(3) by (intro put_chunks_outside) auto
    qed
    then show ?thesis using True by (simp add: read_write_mem)
  next
    case False
    then show ?thesis using 1 by (auto simp: apart_def)
  qed
qed auto

lemma copy_loop_spec:
  assumes "linked segs p xs" "length xs \<le> fuel" "length msg \<le> sum_list (sizes segs xs)" "xs \<noteq> [] \<or> msg = []"
  shows "copy_loop fuel segs p msg st = Ok () (st\<lparr>c_mem := put_chunks segs xs (chunks (sizes segs xs) msg) (c_mem st)\<rparr>)"
  using assms
proof (induction xs arbitrary: p fuel msg st)
  case Nil
  then show ?case by simp
next
  case (Cons x xs)
  then obtain f where f: "fuel = Suc f" by (cases fuel) auto
  have p: "p = Some x" "x < length segs" and l: "linked segs (seg_next (segs ! x)) xs" using Cons.prems(1) by simp_all
  show ?case
  proof (cases msg)
    case Nil
    have "write_mem a [] mem = mem" for a mem by (auto simp: write_mem_def fun_eq_iff)
    then show ?thesis by (simp add: Nil)
  next
    case (Cons b bs)
    let ?n = "unat (seg_size (segs ! x))"
    let ?st = "st\<lparr>c_mem := write_mem (seg_buf (segs ! x)) (take ?n msg) (c_mem st)\<rparr>"
    have step: "copy_loop fuel segs p msg st = copy_loop f segs (seg_next (segs ! x)) (drop ?n msg) ?st"
    proof (cases "length msg \<le> ?n")
      case True
      then show ?thesis using Cons p by (simp add: f Let_def min_def)
    next
      case False
      then show ?thesis using Cons p by (simp add: f Let_def min_def)
    qed
    show ?thesis
    proof (cases "length msg \<le> ?n")
      case True
      then show ?thesis unfolding step by simp
    next
      case False
      have "copy_loop f segs (seg_next (segs ! x)) (drop ?n msg) ?st
          = Ok () (?st\<lparr>c_mem := put_chunks segs xs (chunks (sizes segs xs) (drop ?n msg)) (c_mem ?st)\<rparr>)"
        by (rule Cons.IH) (use l Cons.prems f False in auto)
      then show ?thesis unfolding step using False by simp
    qed
  qed
qed

text \<open>What \<open>SendMessage\<close> says about the pieces.\<close>

definition piece_info :: "bool \<Rightarrow> u32 \<Rightarrow> nat \<Rightarrow> u8 list \<Rightarrow> block_info" where
  "piece_info crc msgID k c = \<lparr>bi_messageID = msgID, bi_size = of_nat (length c), bi_crc32c = (if crc then crc_value c else 0),
     bi_segmentNumber = of_nat k, bi_numSegments = 0, bi_sendTime = 0\<rparr>"

fun described :: "bool \<Rightarrow> u32 \<Rightarrow> msg_segment list \<Rightarrow> nat \<Rightarrow> nat list \<Rightarrow> u8 list list \<Rightarrow> (u32 \<times> block_info) list" where
  "described crc msgID segs k (x # xs) (c # cs) = (seg_blockID (segs ! x), piece_info crc msgID k c) # described crc msgID segs (Suc k) xs cs"
| "described crc msgID segs k _ _ = []"

lemma describe_segments_spec:
  assumes "linked segs p xs" "length xs \<le> fuel" "length msg \<le> sum_list (sizes segs xs)" "xs \<noteq> []" "length msg < 2 ^ 32"
    and "\<forall>(x, c) \<in> set (zip xs (chunks (sizes segs xs) msg)). read_mem mem (seg_buf (segs ! x)) (length c) = c"
  shows "describe_segments fuel mem crc msgID segs p (of_nat (length msg)) k
    = Some (described crc msgID segs k xs (chunks (sizes segs xs) msg), 0)"
  using assms
proof (induction xs arbitrary: p fuel msg k)
  case Nil
  then show ?case by simp
next
  case (Cons x xs)
  then obtain f where f: "fuel = Suc f" by (cases fuel) auto
  have p: "p = Some x" "x < length segs" and l: "linked segs (seg_next (segs ! x)) xs" using Cons.prems(1) by simp_all
  let ?s = "seg_size (segs ! x)" and ?left = "of_nat (length msg) :: u32"
  have u: "unat ?left = length msg" using Cons.prems(5) by (rule unat_of_nat_u32)
  then have le: "?left \<le> ?s \<longleftrightarrow> length msg \<le> unat ?s" by (simp add: word_le_nat_alt)
  show ?case
  proof (cases "length msg \<le> unat ?s")
    case True
    then show ?thesis using Cons.prems(6) p le u by (simp add: f Let_def piece_info_def)
  next
    case False
    have sub: "?left - ?s = of_nat (length (drop (unat ?s) msg))"
      using False by (simp add: word_unat_eq_iff unat_sub word_le_nat_alt u unat_of_nat_u32 Cons.prems(5))
    have nz: "length (drop (unat ?s) msg) < 2 ^ 32" "length (drop (unat ?s) msg) \<noteq> 0" using False Cons.prems(5) by auto
    then have "?left - ?s \<noteq> 0" unfolding sub by (metis unat_of_nat_u32 unat_eq_zero)
    then have nz': "?left \<noteq> ?s" by simp
    have "describe_segments f mem crc msgID segs (seg_next (segs ! x)) (of_nat (length (drop (unat ?s) msg))) (Suc k)
        = Some (described crc msgID segs (Suc k) xs (chunks (sizes segs xs) (drop (unat ?s) msg)), 0)"
      by (rule Cons.IH) (use l Cons.prems f False nz in auto)
    moreover have "read_mem mem (seg_buf (segs ! x)) (unat ?s) = take (unat ?s) msg"
      using Cons.prems(6) False by (simp add: min_def split: if_splits)
    moreover have "?s = of_nat (length (take (unat ?s) msg))" using False by (simp add: min_def)
    ultimately show ?thesis
      using False le p nz' by (simp add: f Let_def sub piece_info_def min_def del: length_drop)
  qed
qed


section \<open>The addresses of the blocks\<close>

definition block_addr :: "shm_mapper \<Rightarrow> u32 \<Rightarrow> nat" where
  "block_addr mm b = addr (unat (b div shm_numBlocks mm),
     unat (blockOffset (buffer_header mm 0)) + unat (b mod shm_numBlocks mm) * unat (shm_blockSize mm))"

text \<open>Slabs do not cross buffers, and a buffer is small enough for the client's 32-bit offsets.\<close>

definition good_layout :: "shm_mapper \<Rightarrow> bool" where
  "good_layout mm \<longleftrightarrow> shm_numBlocks mm \<noteq> 0 \<and> unat (BlocksPerSlab mm) dvd unat (shm_numBlocks mm)
     \<and> unat (shm_numBlocks mm) * unat (shm_blockSize mm) \<le> 2 ^ 32"

lemma block_addr_nat:
  "block_addr mm b = unat b div unat (shm_numBlocks mm) * 2 ^ 64 + (unat (blockOffset (buffer_header mm 0))
     + unat b mod unat (shm_numBlocks mm) * unat (shm_blockSize mm))"
  by (simp only: block_addr_def addr_def fst_conv snd_conv div_mod_u32_unat)

lemma zero_or_less: "x = 0 \<or> x < y \<Longrightarrow> y \<le> z \<Longrightarrow> 0 < z \<Longrightarrow> x < (z :: nat)"
  by linarith

lemma client_ptr_addr:
  assumes "good_layout mm" and v: "client_view mm m" and b: "unat b div unat (shm_numBlocks mm) < length (shm_headerVec mm)"
  shows "\<exists>p. GetWriteableBlockPtr b m = Ok p m \<and> addr p = block_addr mm b"
    and "\<exists>p. GetBlockPtr_at (unat (b div shm_numBlocks mm)) (b mod shm_numBlocks mm) m = Ok p m \<and> addr p = block_addr mm b"
proof -
  let ?nb = "shm_numBlocks mm" and ?bs = "shm_blockSize mm"
  have nb: "?nb \<noteq> 0" using assms(1) by (simp add: good_layout_def)
  let ?off = "unat (b mod ?nb) * unat ?bs"
  have "unat (b mod ?nb) < unat ?nb" using nb by (simp add: div_mod_u32_unat unat_gt_0)
  then have "?off = 0 \<or> ?off < unat ?nb * unat ?bs" by (cases "unat ?bs = 0") simp_all
  moreover have "unat ?nb * unat ?bs \<le> 2 ^ 32" using assms(1) by (simp add: good_layout_def)
  moreover have "(0 :: nat) < 2 ^ 32" by simp
  ultimately have "?off < 2 ^ 32" by (rule zero_or_less)
  then have off: "?off mod 2 ^ 32 = ?off" by simp
  have g: "GetBlockPtr b mm = Ok (unat (b div ?nb), ?off) mm"
    using nb b by (simp add: GetBlockPtr_def Let_def div_mod_u32_unat)
  have eq: "blockOffset (buffer_header mm (unat (b div ?nb))) = blockOffset (buffer_header mm 0)" by simp
  note client_place [OF v g, unfolded off eq]
  then show "\<exists>p. GetWriteableBlockPtr b m = Ok p m \<and> addr p = block_addr mm b"
    "\<exists>p. GetBlockPtr_at (unat (b div ?nb)) (b mod ?nb) m = Ok p m \<and> addr p = block_addr mm b"
    using v nb unfolding block_addr_def sc_GetBlockPtr_def with_ldiv_def client_view_def sizes_read_def by auto
qed

text \<open>Consecutive blocks of a slab are consecutive in memory, and disjoint runs of blocks have disjoint memory.\<close>

lemma run_in_buffer:
  assumes "d dvd nb" "0 < nb" "r < (d :: nat)"
  shows "(i * d + r) mod nb = i * d mod nb + r" and "(i * d + r) div nb = i * d div nb" and "i * d mod nb + d \<le> nb"
proof -
  obtain c where c: "nb = d * c" using assms(1) by blast
  then have c0: "0 < c" using assms(2) by (cases c) auto
  have "i * d mod nb = d * (i mod c)" unfolding c mult.commute [of i d] by (rule mult_mod_right [symmetric])
  moreover have "d * Suc (i mod c) \<le> d * c" using c0 by (intro mult_le_mono2) (simp add: Suc_le_eq)
  ultimately show le: "i * d mod nb + d \<le> nb" by (simp add: c)
  have "(i * d + r) mod nb = (i * d mod nb + r) mod nb" by (simp add: mod_add_left_eq)
  also have "\<dots> = i * d mod nb + r" using le assms(3) by simp
  finally show m: "(i * d + r) mod nb = i * d mod nb + r" .
  have "(i * d + r) div nb * nb = i * d div nb * nb"
    using div_mult_mod_eq [of "i * d + r" nb] div_mult_mod_eq [of "i * d" nb] unfolding m by linarith
  then show "(i * d + r) div nb = i * d div nb" using assms(2) by simp
qed

definition sender_ok :: "shm_mapper \<Rightarrow> send_manager \<Rightarrow> bool" where
  "sender_ok mm m \<longleftrightarrow> send_inv m \<and> good_layout mm \<and> sm_blockSize m = shm_blockSize mm \<and> sm_blocksPerSlab m = BlocksPerSlab mm
     \<and> (\<forall>i \<in> set (sm_listed m). ss_buf (send_slab_at m i) = block_addr mm (of_nat i * sm_blocksPerSlab m))"

lemma sender_ok_kept:
  assumes "sender_ok mm m" "send_inv m'" "slabs_kept m m'" "sm_blockSize m' = sm_blockSize m" "sm_blocksPerSlab m' = sm_blocksPerSlab m"
  shows "sender_ok mm m'"
proof -
  have s: "set (sm_listed m') = set (sm_listed m)" using assms(3) by (metis mset_eq_setD slabs_kept_def)
  have l: "length (sm_slabInfoVec m') = length (sm_slabInfoVec m)" using assms(3) by (metis length_map slabs_kept_def)
  have b: "map ss_buf (sm_slabInfoVec m') ! i = map ss_buf (sm_slabInfoVec m) ! i" for i
    using assms(3) by (simp only: slabs_kept_def)
  have "ss_buf (send_slab_at m' i) = ss_buf (send_slab_at m i)" if "i \<in> set (sm_listed m)" for i
  proof -
    have "i < length (sm_slabInfoVec m)" using assms(1) that by (simp add: sender_ok_def send_inv_def)
    then show ?thesis using b [of i] l by simp
  qed
  then show ?thesis using assms s by (simp add: sender_ok_def)
qed

lemma busy_block:
  assumes ok: "sender_ok mm m" and x: "x \<in> set (sm_busySegs m)"
  defines "bps \<equiv> unat (sm_blocksPerSlab m)" and "nb \<equiv> unat (shm_numBlocks mm)"
  shows "unat (seg_blockID (sm_segs m ! x)) = seg_slab m x * bps + fst (seg_run m x)"
    and "fst (seg_run m x) + snd (seg_run m x) \<le> bps" and "0 < snd (seg_run m x)"
    and "seg_buf (sm_segs m ! x) = block_addr mm (seg_blockID (sm_segs m ! x))"
    and "unat (seg_blockID (sm_segs m ! x)) mod nb + snd (seg_run m x) \<le> nb"
    and "unat (seg_size (sm_segs m ! x)) = snd (seg_run m x) * unat (shm_blockSize mm)"
proof -
  have inv: "send_inv m" and lay: "good_layout mm" and bs: "sm_blockSize m = shm_blockSize mm"
    and bp: "sm_blocksPerSlab m = BlocksPerSlab mm" using ok by (simp_all add: sender_ok_def)
  let ?i = "seg_slab m x" and ?r = "fst (seg_run m x)" and ?b = "seg_blockID (sm_segs m ! x)"
  note run = busy_run_bounds [OF inv x, folded bps_def]
  show b: "unat ?b = ?i * bps + ?r" by (simp add: seg_slab_def seg_run_def bps_def)
  show "?r + snd (seg_run m x) \<le> bps" "0 < snd (seg_run m x)" by (rule run)+
  have r: "?r < bps" using run by linarith
  have d: "bps dvd nb" "0 < nb" using lay by (simp_all add: good_layout_def nb_def bps_def bp unat_gt_0)
  note rb = run_in_buffer [OF d r, of ?i]
  show "unat ?b mod nb + snd (seg_run m x) \<le> nb" unfolding b rb(1) using rb(3) run(1,2) by linarith
  show "unat (seg_size (sm_segs m ! x)) = snd (seg_run m x) * unat (shm_blockSize mm)"
    using send_invD(5) [OF inv x] by (simp add: busy_ok_def bs)
  have i: "?i < length (sm_slabInfoVec m)" by (rule busy_slab(1) [OF inv x])
  have "?i * bps < 2 ^ 32"
  proof -
    have "?i * bps \<le> length (sm_slabInfoVec m) * bps" using i by (intro mult_le_mono1) simp
    moreover have "length (sm_slabInfoVec m) * bps < 2 ^ 32" using inv by (simp add: send_inv_def sizes_ok_def bps_def)
    ultimately show ?thesis by linarith
  qed
  then have first: "unat (of_nat ?i * sm_blocksPerSlab m :: u32) = ?i * bps"
    by (simp add: bps_def unat_word_ariths unsigned_of_nat take_bit_nat_eq_self mod_mult_left_eq take_bit_eq_mod)
  have "?i \<in> set (sm_listed m)"
    using busy_slab(3,4) [OF inv x] by (cases "ss_working (send_slab_at m ?i)") (auto simp: sm_listed_def)
  then have buf: "ss_buf (send_slab_at m ?i) = block_addr mm (of_nat ?i * sm_blocksPerSlab m)" using ok by (simp add: sender_ok_def)
  have "seg_buf (sm_segs m ! x) = ss_buf (send_slab_at m ?i) + ?r * unat (shm_blockSize mm)"
    using send_invD(5) [OF inv x] by (simp add: busy_ok_def bs)
  then show "seg_buf (sm_segs m ! x) = block_addr mm ?b"
    unfolding buf block_addr_nat first b nb_def [symmetric] rb(1,2) by (simp add: add_mult_distrib)
qed

lemma busy_apart:
  assumes ok: "sender_ok mm m" and "set xs \<subseteq> set (sm_busySegs m)"
  shows "apart (sm_segs m) xs"
  unfolding apart_def
proof (intro ballI impI)
  fix x y assume "x \<in> set xs" "y \<in> set xs" and xy: "x \<noteq> y"
  then have x: "x \<in> set (sm_busySegs m)" and y: "y \<in> set (sm_busySegs m)" using assms(2) by auto
  let ?bps = "unat (sm_blocksPerSlab m)" and ?nb = "unat (shm_numBlocks mm)" and ?bs = "unat (shm_blockSize mm)"
  let ?base = "unat (blockOffset (buffer_header mm 0))"
  note bx = busy_block [OF ok x] and by' = busy_block [OF ok y]
  define u v n k where "u = unat (seg_blockID (sm_segs m ! x))" and "v = unat (seg_blockID (sm_segs m ! y))"
    and "n = snd (seg_run m x)" and "k = snd (seg_run m y)"
  have inv: "send_inv m" and lay: "good_layout mm" using ok by (simp_all add: sender_ok_def)
  have nb: "0 < ?nb" "?nb * ?bs \<le> 2 ^ 32" using lay by (simp_all add: good_layout_def unat_gt_0)
  have "u + n \<le> v \<or> v + k \<le> u"
  proof (cases "seg_slab m x = seg_slab m y")
    case True
    from busy_runs_disjoint [OF inv x y xy True] show ?thesis
      unfolding u_def v_def n_def k_def bx(1) by'(1) True by linarith
  next
    case False
    have step: "i * ?bps + r + l \<le> j * ?bps + r'" if "i < j" "r + l \<le> ?bps" for i j r l r' :: nat
    proof -
      have "Suc i * ?bps \<le> j * ?bps" using that(1) by (intro mult_le_mono1) simp
      then show ?thesis using that(2) by simp
    qed
    from False consider "seg_slab m x < seg_slab m y" | "seg_slab m y < seg_slab m x" by linarith
    then show ?thesis
      unfolding u_def v_def n_def k_def bx(1) by'(1) using step bx(2) by'(2) by cases blast+
  qed
  have ux: "seg_buf (sm_segs m ! x) = u div ?nb * 2 ^ 64 + (?base + u mod ?nb * ?bs)" "unat (seg_size (sm_segs m ! x)) = n * ?bs"
      "u mod ?nb + n \<le> ?nb"
    and vy: "seg_buf (sm_segs m ! y) = v div ?nb * 2 ^ 64 + (?base + v mod ?nb * ?bs)" "unat (seg_size (sm_segs m ! y)) = k * ?bs"
      "v mod ?nb + k \<le> ?nb"
    using bx(4-6) by'(4-6) by (simp_all add: block_addr_nat u_def v_def n_def k_def)
  have base: "?base < 2 ^ 32" using unsigned_less [of "blockOffset (buffer_header mm 0)", where ?'a = nat] by simp
  have far: "p * 2 ^ 64 + (?base + s * ?bs) + l * ?bs \<le> q * 2 ^ 64 + z" if "p < q" "s + l \<le> ?nb" for p q s l z
  proof -
    have "(s + l) * ?bs \<le> ?nb * ?bs" using that(2) by (rule mult_le_mono1)
    then have "?base + s * ?bs + l * ?bs \<le> 2 ^ 64" using nb(2) base by (simp add: add_mult_distrib)
    moreover have "Suc p * 2 ^ 64 \<le> q * 2 ^ 64" using that(1) by (intro mult_le_mono1) simp
    ultimately show ?thesis by simp
  qed
  have near: "Q + (?base + s * ?bs) + l * ?bs \<le> Q + (?base + z * ?bs)" if "s + l \<le> z" for Q s l z
    using mult_le_mono1 [OF that, of ?bs] by (simp add: add_mult_distrib)
  consider "u div ?nb < v div ?nb" | "v div ?nb < u div ?nb" | "u div ?nb = v div ?nb" by linarith
  then show "seg_buf (sm_segs m ! x) + unat (seg_size (sm_segs m ! x)) \<le> seg_buf (sm_segs m ! y)
     \<or> seg_buf (sm_segs m ! y) + unat (seg_size (sm_segs m ! y)) \<le> seg_buf (sm_segs m ! x)"
  proof cases
    case 1
    show ?thesis unfolding ux(1,2) vy(1,2) using far [OF 1 ux(3)] by blast
  next
    case 2
    show ?thesis unfolding ux(1,2) vy(1,2) using far [OF 2 vy(3)] by blast
  next
    case 3
    have e: "u = v div ?nb * ?nb + u mod ?nb" "v = v div ?nb * ?nb + v mod ?nb"
      using div_mult_mod_eq [of u ?nb] div_mult_mod_eq [of v ?nb] unfolding 3 by simp_all
    from \<open>u + n \<le> v \<or> v + k \<le> u\<close> have "u mod ?nb + n \<le> v mod ?nb \<or> v mod ?nb + k \<le> u mod ?nb"
    proof
      assume "u + n \<le> v"
      with e have "v div ?nb * ?nb + u mod ?nb + n \<le> v div ?nb * ?nb + v mod ?nb" by presburger
      then have "u mod ?nb + n \<le> v mod ?nb" by (simp only: add.assoc add_le_cancel_left)
      then show ?thesis ..
    next
      assume "v + k \<le> u"
      with e have "v div ?nb * ?nb + v mod ?nb + k \<le> v div ?nb * ?nb + u mod ?nb" by presburger
      then have "v mod ?nb + k \<le> u mod ?nb" by (simp only: add.assoc add_le_cancel_left)
      then show ?thesis ..
    qed
    then show ?thesis unfolding ux(1,2) vy(1,2) 3 by (blast intro: near)
  qed
qed

section \<open>Sending\<close>

lemma SendBlockIDs_whole:
  assumes "\<not> sendFailed st" "kernel st = []"
  shows "SendBlockIDs ids st = Ok (4 * length ids) (st\<lparr>sock_out := sock_out st @ bytes_of ids\<rparr>)"
proof (cases "ids = []")
  case True
  then have "st\<lparr>sock_out := sock_out st @ bytes_of ids\<rparr> = st" by simp
  then show ?thesis using assms True by (simp add: SendBlockIDs_def)
next
  case False
  then show ?thesis using assms by (simp add: SendBlockIDs_def kernel_send_def)
qed

lemma SendRetiredSlabs_whole:
  assumes "\<not> sendFailed st" "kernel st = []"
  shows "\<exists>n. SendRetiredSlabs st = Ok n (st\<lparr>c_sendMgr := snd (GetRetiredSlabs (length (sm_retired (c_sendMgr st))) (c_sendMgr st)),
      sock_out := sock_out st @ bytes_of (map (\<lambda>i. i OR kSlabMask) (fst (GetRetiredSlabs (length (sm_retired (c_sendMgr st))) (c_sendMgr st))))\<rparr>)"
proof (cases "sm_retired (c_sendMgr st) = []")
  case True
  have "c_sendMgr st\<lparr>sm_retired := [], sm_slabsHeld := sm_slabsHeld (c_sendMgr st)\<rparr> = c_sendMgr st" using True by (cases "c_sendMgr st") simp
  then have "st\<lparr>c_sendMgr := c_sendMgr st\<lparr>sm_retired := [], sm_slabsHeld := sm_slabsHeld (c_sendMgr st)\<rparr>, sock_out := sock_out st\<rparr> = st" by simp
  then show ?thesis using True by (simp add: SendRetiredSlabs_def GetRetiredSlabs_def)
next
  case False
  obtain ids m where g: "GetRetiredSlabs (length (sm_retired (c_sendMgr st))) (c_sendMgr st) = (ids, m)" by fastforce
  then show ?thesis using assms False by (simp add: SendRetiredSlabs_def SendSlabIDs_def SendBlockIDs_whole)
qed

lemma chunk_le: "c \<in> set (chunks ns bs) \<Longrightarrow> length c \<le> length bs"
  by (induction ns bs rule: chunks.induct) (auto split: if_splits)

text \<open>The blocks a message is sent as.\<close>

definition sent_blocks :: "bool \<Rightarrow> u32 \<Rightarrow> msg_segment list \<Rightarrow> nat list \<Rightarrow> u8 list \<Rightarrow> (u32 \<times> block_info) list" where
  "sent_blocks crc msgID segs xs msg =
     (let bs = described crc msgID segs 0 xs (chunks (sizes segs xs) msg)
      in map (\<lambda>(b, info). (b, info\<lparr>bi_numSegments := of_nat (length bs)\<rparr>)) bs)"

lemma length_described: "length (described crc mid segs k xs cs) = min (length xs) (length cs)"
  by (induction crc mid segs k xs cs rule: described.induct) auto

lemma described_nth:
  "j < length (described crc mid segs k xs cs) \<Longrightarrow>
     described crc mid segs k xs cs ! j = (seg_blockID (segs ! (xs ! j)), piece_info crc mid (k + j) (cs ! j))"
proof (induction crc mid segs k xs cs arbitrary: j rule: described.induct)
  case (1 crc mid segs k x xs c cs)
  then show ?case by (cases j) auto
qed auto

lemma length_sent_blocks: "length (sent_blocks crc mid segs xs msg) = length (chunks (sizes segs xs) msg)"
  using chunks_length [of "sizes segs xs" msg] by (simp add: sent_blocks_def Let_def length_described)

lemma sent_blocks_nth:
  assumes "j < length (sent_blocks crc mid segs xs msg)"
  shows "sent_blocks crc mid segs xs msg ! j = (seg_blockID (segs ! (xs ! j)),
     (piece_info crc mid j (chunks (sizes segs xs) msg ! j))\<lparr>bi_numSegments := of_nat (length (sent_blocks crc mid segs xs msg))\<rparr>)"
  using assms described_nth [of j crc mid segs 0 xs "chunks (sizes segs xs) msg"]
  by (simp add: sent_blocks_def Let_def split: prod.split)

lemma sent_blocks_front:
  assumes "xs \<noteq> []" "length (sent_blocks crc mid segs xs msg) < 2 ^ 16" "length (sent_blocks crc mid segs xs msg) \<le> unat cons"
  shows "message_front cons (map snd (sent_blocks crc mid segs xs msg)) (length (sent_blocks crc mid segs xs msg))"
proof -
  let ?bs = "sent_blocks crc mid segs xs msg"
  have "?bs \<noteq> []" using assms(1) chunks_nonempty [of "sizes segs xs" msg] length_sent_blocks [of crc mid segs xs msg] by auto
  then have "0 < length ?bs" by simp
  moreover have "unat (of_nat j :: u16) = j" if "j \<le> length ?bs" for j
    using that assms(2) by (simp add: unsigned_of_nat take_bit_nat_eq_self)
  ultimately show ?thesis using assms(3) by (simp add: message_front_def sent_blocks_nth piece_info_def)
qed

lemma sent_blocks_bytes:
  assumes "xs \<noteq> []" "length msg \<le> sum_list (sizes segs xs)" "length msg < 2 ^ 32"
    and "\<forall>(x, c) \<in> set (zip xs (chunks (sizes segs xs) msg)). read_mem mem (seg_buf (segs ! x)) (length c) = c"
    and "\<forall>x \<in> set xs. seg_buf (segs ! x) = f (seg_blockID (segs ! x))"
  shows "concat (map (\<lambda>(b, info). read_mem mem (f b) (unat (bi_size info))) (sent_blocks crc mid segs xs msg)) = msg"
    and "\<forall>(b, info) \<in> set (sent_blocks crc mid segs xs msg). bi_messageID info = mid
      \<and> bi_crc32c info = (if crc then crc_value (read_mem mem (f b) (unat (bi_size info))) else 0)"
proof -
  let ?bs = "sent_blocks crc mid segs xs msg" and ?cs = "chunks (sizes segs xs) msg"
  have small: "length c < 2 ^ 32" if "c \<in> set ?cs" for c
  proof -
    have "length c \<le> length msg" using that by (rule chunk_le)
    then show ?thesis using assms(3) by linarith
  qed
  have piece: "read_mem mem (f (fst (?bs ! j))) (unat (bi_size (snd (?bs ! j)))) = ?cs ! j
      \<and> bi_messageID (snd (?bs ! j)) = mid \<and> bi_crc32c (snd (?bs ! j)) = (if crc then crc_value (?cs ! j) else 0)"
    if j: "j < length ?bs" for j
  proof -
    have jc: "j < length ?cs" "j < length xs" using j chunks_length [of "sizes segs xs" msg] by (simp_all add: length_sent_blocks)
    then have "(xs ! j, ?cs ! j) \<in> set (zip xs ?cs)" by (auto simp: in_set_zip)
    moreover have "unat (of_nat (length (?cs ! j)) :: u32) = length (?cs ! j)" using small jc by (intro unat_of_nat_u32) simp
    ultimately show ?thesis using assms(4,5) jc by (auto simp: sent_blocks_nth [OF j] piece_info_def)
  qed
  have "map (\<lambda>(b, info). read_mem mem (f b) (unat (bi_size info))) ?bs = ?cs"
    by (rule nth_equalityI) (use piece in \<open>simp_all add: length_sent_blocks case_prod_beta\<close>)
  then show "concat (map (\<lambda>(b, info). read_mem mem (f b) (unat (bi_size info))) ?bs) = msg"
    using chunks_concat [of "sizes segs xs" msg] assms(1,2) by simp
  show "\<forall>(b, info) \<in> set ?bs. bi_messageID info = mid
      \<and> bi_crc32c info = (if crc then crc_value (read_mem mem (f b) (unat (bi_size info))) else 0)"
    using piece by (auto simp: in_set_conv_nth) (metis fst_conv snd_conv)+
qed

text \<open>A descriptor of a sender whose slabs are where the shared memory has them.\<close>

lemma descriptor_sender_ok:
  assumes "sender_ok mm m" "descriptor m m' xs n" "slabs_kept m m'"
  shows "sender_ok mm m'" "apart (sm_segs m') xs" "\<forall>x \<in> set xs. seg_buf (sm_segs m' ! x) = block_addr mm (seg_blockID (sm_segs m' ! x))"
    "distinct xs"
proof -
  have d: "send_inv m'" "sm_busySegs m' = sm_busySegs m @ xs" "segs_kept m m'" using assms(2) by (simp_all add: descriptor_def chain_state_def)
  show ok: "sender_ok mm m'" using sender_ok_kept [OF assms(1) d(1) assms(3)] d(3) by (simp add: segs_kept_def)
  show "apart (sm_segs m') xs" by (rule busy_apart [OF ok]) (simp add: d(2))
  show "\<forall>x \<in> set xs. seg_buf (sm_segs m' ! x) = block_addr mm (seg_blockID (sm_segs m' ! x))"
    using busy_block(4) [OF ok] d(2) by simp
  show "distinct xs" using pool_distinct [OF send_invD(6) [OF d(1)]] d(2) by simp
qed

text \<open>Memory of a segment in use is not touched by the copy to a new descriptor.\<close>

lemma copy_keeps_others:
  assumes ok: "sender_ok mm m'" and busy: "sm_busySegs m' = ys @ xs" "y \<in> set ys" and a: "seg_buf (sm_segs m' ! y) \<le> a"
      "a < seg_buf (sm_segs m' ! y) + unat (seg_size (sm_segs m' ! y))"
  shows "outside (sm_segs m') xs a"
proof -
  have inv: "send_inv m'" using ok by (simp add: sender_ok_def)
  have "distinct (ys @ xs)" using pool_distinct [OF send_invD(6) [OF inv]] busy(1) by simp
  then have "y \<notin> set xs" using busy(2) by auto
  moreover have "apart (sm_segs m') (y # xs)" by (rule busy_apart [OF ok]) (use busy in auto)
  ultimately have "seg_buf (sm_segs m' ! x) + unat (seg_size (sm_segs m' ! x)) \<le> seg_buf (sm_segs m' ! y)
      \<or> seg_buf (sm_segs m' ! y) + unat (seg_size (sm_segs m' ! y)) \<le> seg_buf (sm_segs m' ! x)" if "x \<in> set xs" for x
    using that by (auto simp: apart_def)
  then show ?thesis using a unfolding outside_def by fastforce
qed

definition wire_blocks :: "u8 list \<Rightarrow> (u32 \<times> block_info) list \<Rightarrow> bool" where
  "wire_blocks out bs \<longleftrightarrow> (\<exists>m p. atom_ok (ACtrl m p) \<and> out = encode (ACtrl m p)
     \<and> (\<forall>(vh :: endpoint call_handler) rt. validPeer rt \<longrightarrow> LocalHandleCtrlMsg vh m p rt = vh (HandleBlocksAndInfo (map fst bs) (map snd bs)) rt))"

lemma finally_Ok: "r = Ok a s \<Longrightarrow> f s = Ok () s' \<Longrightarrow> finally_o r f = Ok a s'"
  by simp

definition message_in :: "shm_mapper \<Rightarrow> memory \<Rightarrow> bool \<Rightarrow> u32 \<Rightarrow> u8 list \<Rightarrow> (u32 \<times> block_info) list \<Rightarrow> bool" where
  "message_in mm mem crc msgID msg bs \<longleftrightarrow>
     (\<forall>cons. length bs \<le> unat cons \<longrightarrow> message_front cons (map snd bs) (length bs))
     \<and> concat (map (\<lambda>(b, info). read_mem mem (block_addr mm b) (unat (bi_size info))) bs) = msg
     \<and> (\<forall>(b, info) \<in> set bs. bi_messageID info = msgID \<and> bi_crc32c info =
          (if crc then crc_value (read_mem mem (block_addr mm b) (unat (bi_size info))) else 0))"

definition busy_bytes_kept :: "send_manager \<Rightarrow> memory \<Rightarrow> memory \<Rightarrow> bool" where
  "busy_bytes_kept m mem mem' \<longleftrightarrow> (\<forall>y \<in> set (sm_busySegs m). \<forall>a. seg_buf (sm_segs m ! y) \<le> a
     \<and> a < seg_buf (sm_segs m ! y) + unat (seg_size (sm_segs m ! y)) \<longrightarrow> mem' a = mem a)"

lemma slabs_kept_length: "slabs_kept m m' \<Longrightarrow> length (sm_slabInfoVec m') = length (sm_slabInfoVec m)"
  by (metis length_map slabs_kept_def)

lemma sent_blocks_in_slabs:
  assumes ok: "sender_ok mm m1" and busy: "sm_busySegs m1 = ys @ xs"
    and same: "length (sm_slabInfoVec m1) = n" "sm_blocksPerSlab m1 = k"
  shows "\<forall>b \<in> fst ` set (sent_blocks crc mid (sm_segs m1) xs msg). unat b < n * unat k"
proof
  fix b assume "b \<in> fst ` set (sent_blocks crc mid (sm_segs m1) xs msg)"
  then obtain j where j: "j < length (sent_blocks crc mid (sm_segs m1) xs msg)" "b = fst (sent_blocks crc mid (sm_segs m1) xs msg ! j)"
    by (auto simp: in_set_conv_nth)
  then have b: "b = seg_blockID (sm_segs m1 ! (xs ! j))" "j < length xs"
    using sent_blocks_nth [OF j(1)] chunks_length [of "sizes (sm_segs m1) xs" msg] by (simp_all add: length_sent_blocks)
  then have x: "xs ! j \<in> set (sm_busySegs m1)" by (simp add: busy)
  note bb = busy_block [OF ok x]
  have "seg_slab m1 (xs ! j) < length (sm_slabInfoVec m1)" using ok busy_slab(1) [OF _ x] by (simp add: sender_ok_def)
  then have "Suc (seg_slab m1 (xs ! j)) * unat k \<le> n * unat k" unfolding same(1) by (intro mult_le_mono1) simp
  moreover have "unat b = seg_slab m1 (xs ! j) * unat k + fst (seg_run m1 (xs ! j))" "fst (seg_run m1 (xs ! j)) < unat k"
    using bb(1-3) unfolding b(1) same(2) by linarith+
  ultimately show "unat b < n * unat k" by simp
qed

lemma SendMessage_spec:
  assumes ok: "sender_ok mm (c_sendMgr st)" and sock: "\<not> sendFailed st" "kernel st = []"
    and len: "length msg + unat (shm_blockSize mm) \<le> 2 ^ 32"
    and get: "GetMessageDescriptor (of_nat (length msg)) False (c_sendMgr st) = Ok (Some i) m1"
    and l: "linked (sm_segs m1) (Some i) xs" and few: "length xs \<le> maxPerSend"
  shows "\<exists>bs out st'. SendMessage inbox msgID msg st = Ok (of_nat (length msg), inbox) st'
    \<and> sock_out st' = sock_out st @ out @ bytes_of (map (\<lambda>s. of_nat s OR kSlabMask) (sm_retired m1)) \<and> wire_blocks out bs
    \<and> message_in mm (c_mem st') (crcPolicy (c_opts st) AND eSetCrcs \<noteq> 0) msgID msg bs \<and> length bs \<le> length xs
    \<and> (\<forall>b \<in> fst ` set bs. unat b < length (sm_slabInfoVec (c_sendMgr st)) * unat (sm_blocksPerSlab (c_sendMgr st)))
    \<and> busy_bytes_kept (c_sendMgr st) (c_mem st) (c_mem st') \<and> sender_ok mm (c_sendMgr st')"
proof -
  let ?m = "c_sendMgr st" and ?len = "of_nat (length msg) :: u32" and ?segs = "sm_segs m1"
  let ?crc = "crcPolicy (c_opts st) AND eSetCrcs \<noteq> 0"
  have inv: "send_inv ?m" and bsz: "sm_blockSize ?m = shm_blockSize mm" using ok by (simp_all add: sender_ok_def)
  have bs0: "sm_blockSize ?m \<noteq> 0" using send_invD(1) [OF inv] by (simp add: sizes_ok_def)
  have "0 < unat (shm_blockSize mm)" using bs0 by (simp add: bsz unat_gt_0)
  then have short: "length msg < 2 ^ 32" using len by linarith
  then have ul: "unat ?len = length msg" by (rule unat_of_nat_u32)
  from inv get obtain ys where ys: "i = hd ys" and d: "descriptor ?m m1 ys (unat (blocks_needed ?len (sm_blockSize ?m)))"
    by (rule GetMessageDescriptor_Some)
  have "linked ?segs (Some i) ys" using d ys by (simp add: descriptor_def)
  with l have "xs = ys" by (rule linked_unique)
  note d = d [folded this]
  have kept: "slabs_kept ?m m1" using get by (rule GetMessageDescriptor_kept)
  note snd = descriptor_sender_ok [OF ok d kept]
  have ne: "xs \<noteq> []" and busy: "sm_busySegs m1 = sm_busySegs ?m @ xs" and sk: "segs_kept ?m m1"
    using d by (simp_all add: descriptor_def chain_state_def)
  have i: "i = hd xs" using ys \<open>xs = ys\<close> by simp
  have room: "length msg \<le> sum_list (sizes ?segs xs)"
    using d blocks_needed_enough(1) [OF bs0, of ?len] len by (simp add: descriptor_def ul bsz)
  let ?cs = "chunks (sizes ?segs xs) msg"
  define mem where "mem = put_chunks ?segs xs ?cs (c_mem st)"
  let ?bs = "sent_blocks ?crc msgID ?segs xs msg"
  have fit: "\<forall>(n, c) \<in> set (zip (sizes ?segs xs) ?cs). length c \<le> n" using chunks_fit by blast
  then have reads: "\<forall>(x, c) \<in> set (zip xs ?cs). read_mem mem (seg_buf (?segs ! x)) (length c) = c"
    using put_chunks_read [OF snd(4,2)] by (auto simp: mem_def)
  define st1 where "st1 = st\<lparr>c_sendMgr := m1\<rparr>"
  define st2 where "st2 = st1\<lparr>c_mem := mem\<rparr>"
  have desc: "GetSendMsgDesc ?len False True inbox st = Ok (Some i, inbox) st1"
    using sock(1) by (simp add: GetSendMsgDesc_def GetSendMsgDesc_loop.simps on_send_def get st1_def)
  have copy: "copy_loop (length ?segs) ?segs (Some i) msg st1 = Ok () st2"
    using copy_loop_spec [OF l linked_length [OF l] room] ne by (simp add: st2_def mem_def st1_def)
  have dsc: "describe_segments (length ?segs) mem ?crc msgID ?segs (Some i) ?len 0 = Some (described ?crc msgID ?segs 0 xs ?cs, 0)"
    by (rule describe_segments_spec [OF l linked_length [OF l] room ne short reads])
  have nbs: "length ?bs \<le> length xs" "?bs \<noteq> []"
    using chunks_length [of "sizes ?segs xs" msg] chunks_nonempty [of "sizes ?segs xs" msg] ne length_sent_blocks [of ?crc msgID ?segs xs msg]
    by auto
  have sock2: "\<not> sendFailed st2" "kernel st2 = []" "sock_out st2 = sock_out st" "c_sendMgr st2 = m1" "c_mem st2 = mem" "c_opts st2 = c_opts st"
    using sock by (simp_all add: st2_def st1_def)
  have "delivers st2 (SendBlocksAndInfo (map fst ?bs) (map snd ?bs) st2) (HandleBlocksAndInfo (map fst ?bs) (map snd ?bs))"
    by (rule delivers_blocks [OF sock2(1,2)]) (use nbs few in auto)
  then obtain m p where mp: "atom_ok (ACtrl m p)"
      "SendBlocksAndInfo (map fst ?bs) (map snd ?bs) st2 = Ok (8 + length p) (st2\<lparr>sock_out := sock_out st2 @ encode (ACtrl m p)\<rparr>)"
      "\<forall>(vh :: endpoint call_handler) rt. validPeer rt \<longrightarrow> LocalHandleCtrlMsg vh m p rt = vh (HandleBlocksAndInfo (map fst ?bs) (map snd ?bs)) rt"
    unfolding delivers_def by blast
  define st3 where "st3 = st2\<lparr>sock_out := sock_out st2 @ encode (ACtrl m p)\<rparr>"
  let ?n = "length (sm_retired m1)"
  define m2 where "m2 = snd (GetRetiredSlabs ?n m1)"
  define st4 where "st4 = st3\<lparr>c_sendMgr := m2, sock_out := sock_out st3 @ bytes_of (map (\<lambda>i. i OR kSlabMask) (fst (GetRetiredSlabs ?n m1)))\<rparr>"
  have "\<not> sendFailed st3" "kernel st3 = []" "c_sendMgr st3 = m1" using sock2 by (simp_all add: st3_def)
  from SendRetiredSlabs_whole [OF this(1,2)] this(3) obtain r where ret: "SendRetiredSlabs st3 = Ok r st4"
    by (auto simp: st4_def m2_def)
  have inv1: "send_inv m1" using snd(1) by (simp add: sender_ok_def)
  have ret2: "send_inv m2" "fst (GetRetiredSlabs ?n m1) = map of_nat (sm_retired m1)"
    using GetRetiredSlabs_spec [OF inv1, of ?n] by (simp_all add: m2_def)
  have m2: "sm_segs m2 = sm_segs m1" "sm_busySegs m2 = sm_busySegs m1" "sm_blockSize m2 = sm_blockSize m1"
      "sm_blocksPerSlab m2 = sm_blocksPerSlab m1" "sm_slabInfoVec m2 = sm_slabInfoVec m1" "set (sm_listed m2) \<subseteq> set (sm_listed m1)"
    by (auto simp: m2_def GetRetiredSlabs_def Let_def sm_listed_def)
  then have ok2: "sender_ok mm m2" using snd(1) ret2(1) by (auto simp: sender_ok_def)
  have "linked (sm_segs m2) (Some i) xs" "set xs \<subseteq> set (sm_busySegs m2)" using l busy by (simp_all add: m2)
  from ReleaseMessageDescriptor_spec [OF ret2(1) this] obtain m3 where m3: "ReleaseMessageDescriptor (Some i) m2 = Ok () m3" "send_inv m3"
      "sm_blockSize m3 = sm_blockSize m2" "sm_blocksPerSlab m3 = sm_blocksPerSlab m2" by blast
  then have ok3: "sender_ok mm m3" using sender_ok_kept [OF ok2 m3(2) ReleaseMessageDescriptor_kept [OF m3(1)]] by simp
  define st5 where "st5 = st4\<lparr>c_sendMgr := m3\<rparr>"
  have "map (\<lambda>(_, info). info\<lparr>bi_numSegments := of_nat (length (described ?crc msgID ?segs 0 xs ?cs))\<rparr>) (described ?crc msgID ?segs 0 xs ?cs) = map snd ?bs"
      "map fst (described ?crc msgID ?segs 0 xs ?cs) = map fst ?bs"
    by (simp_all add: sent_blocks_def Let_def case_prod_beta comp_def)
  then have "send_described msgID (Some i) ?len st2 = Ok ?len st4"
    unfolding send_described_def option.case Let_def sock2 dsc by (simp add: mp(2) [folded st3_def] ret)
  moreover have "on_send (ReleaseMessageDescriptor (Some i)) st4 = Ok () st5"
    by (simp add: on_send_def st4_def st5_def m3(1))
  ultimately have fin: "SendMessage_desc msgID (Some i) ?len st2 = Ok ?len st5"
    unfolding SendMessage_desc_def by (rule finally_Ok)
  have sent: "SendMessage inbox msgID msg st = Ok (?len, inbox) st5"
    using fin copy by (simp add: SendMessage_def Let_def desc st1_def)
  have out: "sock_out st5 = sock_out st @ encode (ACtrl m p) @ bytes_of (map (\<lambda>s. of_nat s OR kSlabMask) (sm_retired m1))"
    by (simp add: st5_def st4_def st3_def sock2 ret2(2) comp_def)
  have wire: "wire_blocks (encode (ACtrl m p)) ?bs" using mp(1,3) unfolding wire_blocks_def by blast
  have mem5: "c_mem st5 = mem" "c_sendMgr st5 = m3" by (simp_all add: st5_def st4_def st3_def sock2)
  have "\<forall>cons. length ?bs \<le> unat cons \<longrightarrow> message_front cons (map snd ?bs) (length ?bs)"
    using sent_blocks_front [OF ne] nbs few by (auto simp: maxPerSend_def kMaxPayloadSize_def)
  then have inm: "message_in mm mem ?crc msgID msg ?bs"
    unfolding message_in_def using sent_blocks_bytes [OF ne room short reads snd(3), of ?crc msgID] by blast
  have slabs: "\<forall>b \<in> fst ` set ?bs. unat b < length (sm_slabInfoVec ?m) * unat (sm_blocksPerSlab ?m)"
    by (rule sent_blocks_in_slabs [OF snd(1) busy]) (use d kept in \<open>simp_all add: descriptor_def chain_state_def slabs_kept_length segs_kept_def\<close>)
  have "mem a = c_mem st a" if y: "y \<in> set (sm_busySegs ?m)" and a: "seg_buf (sm_segs ?m ! y) \<le> a"
      "a < seg_buf (sm_segs ?m ! y) + unat (seg_size (sm_segs ?m ! y))" for y a
  proof -
    have "sm_segs m1 ! y = sm_segs ?m ! y" using sk y by (simp add: segs_kept_def)
    then have "outside ?segs xs a" using copy_keeps_others [OF snd(1) busy y] a by simp
    then show ?thesis using put_chunks_outside fit by (simp add: mem_def)
  qed
  then have others: "busy_bytes_kept ?m (c_mem st) mem" unfolding busy_bytes_kept_def by blast
  show ?thesis
    by (rule exI [of _ ?bs], rule exI [of _ "encode (ACtrl m p)"], rule exI [of _ st5], unfold mem5)
      (intro conjI sent out wire inm nbs(1) slabs others ok3)
qed

text \<open>
  C37: \<open>SendMessage\<close> does what it is for.  Let the pool have room for the message in at most
  \<open>maxPerSend\<close> segments and the socket take what it is given.  Then the call returns the length; what
  it writes to the socket is one \<open>BlocksAndInfo\<close> message, which the peer's handler gets as it is,
  and the IDs of the slabs the pool retired; the bytes at the addresses of the blocks, in order, are
  the message, and the \<open>BlockInfo\<close> records carry its ID, its sizes, the segment numbers that the
  receiver takes for one message and the CRCs asked for.  No byte of a descriptor in use changes,
  and the pool is as good as before.
\<close>

theorem SendMessage_delivers:
  assumes ok: "sender_ok mm (c_sendMgr st)" and sock: "\<not> sendFailed st" "kernel st = []"
    and len: "length msg + unat (shm_blockSize mm) \<le> 2 ^ 32"
    and get: "GetMessageDescriptor (of_nat (length msg)) False (c_sendMgr st) = Ok (Some i) m1"
    and l: "linked (sm_segs m1) (Some i) xs" and few: "length xs \<le> maxPerSend"
  shows "\<exists>bs out st'. SendMessage inbox msgID msg st = Ok (of_nat (length msg), inbox) st'
    \<and> sock_out st' = sock_out st @ out @ bytes_of (map (\<lambda>s. of_nat s OR kSlabMask) (sm_retired m1)) \<and> wire_blocks out bs
    \<and> message_in mm (c_mem st') (crcPolicy (c_opts st) AND eSetCrcs \<noteq> 0) msgID msg bs \<and> length bs \<le> length xs
    \<and> (\<forall>b \<in> fst ` set bs. unat b < length (sm_slabInfoVec (c_sendMgr st)) * unat (sm_blocksPerSlab (c_sendMgr st)))
    \<and> busy_bytes_kept (c_sendMgr st) (c_mem st) (c_mem st') \<and> sender_ok mm (c_sendMgr st')"
  using SendMessage_spec [OF assms] .

definition example_memory :: shm_mapper where
  "example_memory = example_mapper\<lparr>shm_blockSize := 4, shm_slabSize := 16,
     shm_headerVec := [(ShmHeader (2 ^ 12) 4 16 8 0 3)\<lparr>numBuffers := 1\<rparr>]\<rparr>"

definition example_pool :: send_manager where
  "example_pool = example_send0\<lparr>sm_slabsHeld := 2, sm_free := [0, 1],
     sm_slabInfoVec := [(SendSlab 0)\<lparr>ss_buf := block_addr example_memory 0\<rparr>, (SendSlab 1)\<lparr>ss_buf := block_addr example_memory 4\<rparr>]\<rparr>"

lemma example_pool_inv: "send_inv example_pool"
proof -
  let ?slabs = "[(0, block_addr example_memory 0), (1, block_addr example_memory 4)]"
  have "send_reach example_pool []"
  proof (rule send_reach.add [where slabs = ?slabs])
    show "send_reach example_send0 []"
      by (rule send_reach.init [of 4 16]) (simp_all add: SetSizeParams_def example_send0_def)
    show "slabs_new ?slabs example_send0"
      by (simp add: slabs_new_def example_send0_def sm_listed_def ClientSendManager_def sm_AddMsgSegBlock_def Let_def)
    show "AddFreeSlabs ?slabs example_send0 = Ok () example_pool"
      by (simp add: AddFreeSlabs_def AddFreeSlab_def example_send0_def example_pool_def ClientSendManager_def
          sm_AddMsgSegBlock_def SetNumTotalSlabs_def sm_listed_def upd_send_slab_def SI_Reset_def SendSlab_def Let_def upt_rec)
  qed
  then show ?thesis using send_reach_live_ok by (force simp: live_ok_def)
qed

lemma example_pool_ok: "sender_ok example_memory example_pool"
proof -
  have lay: "good_layout example_memory" "shm_blockSize example_memory = 4" "BlocksPerSlab example_memory = 4"
    by (simp_all add: good_layout_def BlocksPerSlab_def example_memory_def example_mapper_def ShmMapper_def)
  have "sm_blockSize example_pool = 4" "sm_blocksPerSlab example_pool = 4" "set (sm_listed example_pool) = {0, 1}"
    "ss_buf (send_slab_at example_pool 0) = block_addr example_memory 0" "ss_buf (send_slab_at example_pool 1) = block_addr example_memory 4"
    by (simp_all add: example_pool_def example_send0_def ClientSendManager_def sm_AddMsgSegBlock_def sm_listed_def Let_def)
  then show ?thesis using example_pool_inv lay by (simp add: sender_ok_def)
qed

definition example_client :: client where
  "example_client = \<lparr>sendFailed = False, validPeer = True, throwOnPeerDisconnect = True, groupID = 0, blockRetry = True,
     sock_out = [], kernel = [], c_recvBuf = [],
     c_opts = \<lparr>minProducerBytes = 32, minConsumerBytes = 32, minProducerSlabs = 2, minConsumerSlabs = 2, clientName = [],
       producerNiceLevel = 0, crcPolicy = eSetCrcs\<rparr>,
     c_shm = \<lparr>sc_nameFormat = [], sc_blockSize = 4, sc_slabSize = 16, sc_numBlocks = 8, sc_bufSize = 0, sc_blksSize = 0,
       sc_blocksPerSlab = 4, sc_headerVec = [], sc_infoVec = [], sc_blockVec = [], sc_blockVecWrt = [], sc_pagesize = 4096, sc_objects = (\<lambda>_. []), sc_os = []\<rparr>,
     c_sendMgr = example_pool, c_recvMgr = ClientRecvManager, c_clientID = 1, c_numProdSlabs = 2, c_numProdSlabsRqstd = 2,
     c_numConsSlabs = 2, c_numConsSlabsRqstd = 2, c_sequenceTokenSent = 0, c_sequenceTokenRcvd = 0, c_dropReportHandler = False, c_connectionEventHandler = False,
     c_registrationHandler = False, c_crcErrors = 0, c_sendCallingPoll = 0, c_calls = [], c_mem = (\<lambda>_. 0), c_infos = (\<lambda>_. BlockInfo)\<rparr>"

lemma example_pool_get:
  "\<exists>m. GetMessageDescriptor 5 False example_pool = Ok (Some 0) m \<and> linked (sm_segs m) (Some 0) [0] \<and> sm_retired m = []"
  by (simp add: GetMessageDescriptor_def blocks_needed_def GetSegment_def find_room_def alloc_at_def
    example_pool_def example_send0_def ClientSendManager_def sm_AddMsgSegBlock_def sm_kNumSegs_def upd_send_slab_def
    fill_segment_def SendSlab_def Let_def example_segs)

theorem SendMessage_delivers_witness:
  "\<exists>bs st'. SendMessage [] 7 [1, 2, 3, 4, 5] example_client = Ok (5, []) st' \<and> wire_blocks (sock_out st') bs
    \<and> concat (map (\<lambda>(b, info). read_mem (c_mem st') (block_addr example_memory b) (unat (bi_size info))) bs) = [1, 2, 3, 4, 5]"
proof -
  obtain m where m: "GetMessageDescriptor 5 False example_pool = Ok (Some 0) m" "linked (sm_segs m) (Some 0) [0]" "sm_retired m = []"
    using example_pool_get by blast
  have c: "c_sendMgr example_client = example_pool" "\<not> sendFailed example_client" "kernel example_client = []" "sock_out example_client = []"
    by (simp_all add: example_client_def)
  have s: "shm_blockSize example_memory = 4" by (simp add: example_memory_def)
  show ?thesis
    using SendMessage_delivers [of example_memory example_client "[1, 2, 3, 4, 5]" 0 m "[0]" "[]" 7] m
    by (auto simp: c s example_pool_ok maxPerSend_def kMaxPayloadSize_def message_in_def)
qed

end
