(* ===== verification/Client_Delivery.thy ===== *)
theory Client_Delivery
  imports Client_Messages Endpoint_Frame
begin

unbundle bit_operations_syntax

text \<open>
  What the other calls of a client promise: the \<open>iovec\<close> version of \<open>SendMessage\<close>, the sequence tokens,
  the sizes asked of the manager, and the receiving side of the way from a sender's \<open>SendMessage\<close> to
  a receiver's \<open>GetRecvMsgDesc\<close>.
\<close>

section \<open>Gathering\<close>

lemma write_mem_append: "write_mem (a + length bs) cs (write_mem a bs mem) = write_mem a (bs @ cs) mem"
  by (rule ext) (auto simp: write_mem_def nth_append)

lemma write_mem_Nil [simp]: "write_mem a [] mem = mem"
  by (rule ext) (auto simp: write_mem_def)

lemma client_mem_same [simp]: "st\<lparr>c_mem := c_mem st\<rparr> = (st :: client)"
  by (cases st) simp

lemma copy_loop_some:
  assumes "d \<noteq> []" "x < length segs"
  shows "copy_loop (Suc f) segs (Some x) d st = copy_loop f segs (seg_next (segs ! x)) (drop (unat (seg_size (segs ! x))) d)
    (st\<lparr>c_mem := write_mem (seg_buf (segs ! x)) (take (unat (seg_size (segs ! x))) d) (c_mem st)\<rparr>)"
proof -
  have m: "drop (min (length d) k) d = drop k d" "take (min (length d) k) d = take k d" for k
    by (simp_all add: min_def)
  obtain b bs where d: "d = b # bs" using assms(1) by (cases d) auto
  show ?thesis using assms(2) m unfolding d copy_loop.simps Let_def by simp
qed

lemma iov_loop_eq:
  assumes "linked segs seg xs" "length xs \<le> fuel'" "n = length (src @ concat iov)" "n + length iov + length xs \<le> fuel"
  shows "iov_loop fuel segs n src iov seg dst room st
    = copy_loop fuel' segs seg (drop room (src @ concat iov)) (st\<lparr>c_mem := write_mem dst (take room (src @ concat iov)) (c_mem st)\<rparr>)"
  using assms
proof (induction fuel segs n src iov seg dst room st arbitrary: xs fuel' rule: iov_loop.induct)
  case (1 fuel segs src iov seg dst room st)
  then have "src @ concat iov = []" by (metis length_0_conv)
  then show ?case by (simp only: iov_loop.simps take_Nil drop_Nil copy_loop.simps write_mem_Nil client_mem_same)
next
  case (2 segs n src iov seg dst room st)
  then show ?case by simp
next
  case (3 fuel segs n src iov seg dst room st)
  consider (vec) v vs where "src = []" "iov = v # vs" | (seg) "src \<noteq> []" "room = 0" | (copy) "src \<noteq> []" "room \<noteq> 0"
    using 3(6) by (cases "src = []"; cases iov) auto
  then show ?case
  proof cases
    case vec
    have "iov_loop (Suc fuel) segs (Suc n) src iov seg dst room st = iov_loop fuel segs (Suc n) v vs seg dst room st" using vec by simp
    also have "\<dots> = copy_loop fuel' segs seg (drop room (v @ concat vs))
        (st\<lparr>c_mem := write_mem dst (take room (v @ concat vs)) (c_mem st)\<rparr>)"
      by (rule 3(1) [OF vec 3(4,5)]) (use 3(6,7) vec in auto)
    finally show ?thesis using vec by simp
  next
    case seg
    then obtain b bs where src: "src = b # bs" by (cases src) auto
    show ?thesis
    proof (cases xs)
      case Nil
      then show ?thesis using seg 3(4) by (simp add: src)
    next
      case (Cons x ys)
      then have x: "x < length segs" and s: "seg = Some x" and l: "linked segs (seg_next (segs ! x)) ys" using 3(4) by simp_all
      obtain f where f: "fuel' = Suc f" using 3(5) Cons by (cases fuel') auto
      have ih: "iov_loop fuel segs (Suc n) src iov (seg_next (segs ! x)) (seg_buf (segs ! x)) (unat (seg_size (segs ! x))) st
        = copy_loop f segs (seg_next (segs ! x)) (drop (unat (seg_size (segs ! x))) (src @ concat iov))
            (st\<lparr>c_mem := write_mem (seg_buf (segs ! x)) (take (unat (seg_size (segs ! x))) (src @ concat iov)) (c_mem st)\<rparr>)"
        by (rule 3(2) [OF seg s x l]) (use 3(5-) Cons f in auto)
      have "src @ concat iov \<noteq> []" by (simp add: src)
      from copy_loop_some [OF this x, of f] show ?thesis using ih seg x by (simp add: s f)
    qed
  next
    case copy
    define k where "k = min (Suc n) (min (length src) room)"
    have k: "k \<le> length src" "k \<le> room" "0 < k" "k \<le> Suc n" using copy by (auto simp: k_def)
    have "0 < length src" "0 < room" using copy by simp_all
    then have fl: "Suc n - min (Suc n) (min (length src) room) + length iov + length xs \<le> fuel" using 3(7) by linarith
    have ih: "iov_loop fuel segs (Suc n - k) (drop k src) iov seg (dst + k) (room - k)
          (st\<lparr>c_mem := write_mem dst (take k src) (c_mem st)\<rparr>)
        = copy_loop fuel' segs seg (drop (room - k) (drop k src @ concat iov))
            (st\<lparr>c_mem := write_mem dst (take k src) (c_mem st)\<rparr>
               \<lparr>c_mem := write_mem (dst + k) (take (room - k) (drop k src @ concat iov)) (c_mem (st\<lparr>c_mem := write_mem dst (take k src) (c_mem st)\<rparr>))\<rparr>)"
      unfolding k_def by (rule 3(3) [OF copy k_def [symmetric, unfolded k_def] 3(4,5)]) (use 3(6) k fl in \<open>auto simp: k_def\<close>)
    have "drop (room - k) (drop k src @ concat iov) = drop room (src @ concat iov)" using k by simp
    moreover have split: "src @ concat iov = take k src @ (drop k src @ concat iov)" by (metis append_assoc append_take_drop_id)
    have "take k src @ take (room - k) (drop k src @ concat iov) = take room (src @ concat iov)"
      unfolding split take_append using k by simp
    moreover have "write_mem (dst + k) cs (write_mem dst (take k src) m) = write_mem dst (take k src @ cs) m" for cs m
      using write_mem_append [of dst "take k src"] k by simp
    ultimately have "iov_loop fuel segs (Suc n - k) (drop k src) iov seg (dst + k) (room - k)
          (st\<lparr>c_mem := write_mem dst (take k src) (c_mem st)\<rparr>)
       = copy_loop fuel' segs seg (drop room (src @ concat iov)) (st\<lparr>c_mem := write_mem dst (take room (src @ concat iov)) (c_mem st)\<rparr>)"
      unfolding ih by simp
    then show ?thesis using copy by (simp add: Let_def k_def)
  qed
qed

text \<open>
  C38: The \<open>iovec\<close> version of \<open>SendMessage\<close> is the copying one on the concatenation of the vectors,
  in every outcome, as long as a descriptor is a chain of segments without a cycle: its loop, which
  walks vectors and segments side by side, copies the same bytes to the same places.
\<close>

theorem SendMessage_iov_gathers:
  assumes len: "length (concat iov) < 2 ^ 32"
    and chain: "\<And>desc inbox' st'. GetSendMsgDesc (of_nat (length (concat iov))) False True inbox st = Ok (desc, inbox') st'
      \<Longrightarrow> \<exists>xs. linked (sm_segs (c_sendMgr st')) desc xs"
  shows "SendMessage_iov inbox msgID iov st = SendMessage inbox msgID (concat iov) st"
proof (cases "GetSendMsgDesc (of_nat (length (concat iov))) False True inbox st")
  case (Ok r st')
  obtain desc inbox' where r: "r = (desc, inbox')" by fastforce
  from chain Ok r obtain xs where l: "linked (sm_segs (c_sendMgr st')) desc xs" by blast
  have u: "unat (of_nat (length (concat iov)) :: u32) = length (concat iov)" using len by (rule unat_of_nat_u32)
  have tot: "(\<Sum>v \<leftarrow> iov. length v) = length (concat iov)" by (simp add: length_concat)
  have "iov_loop (length (concat iov) + length iov + length (sm_segs (c_sendMgr st'))) (sm_segs (c_sendMgr st')) (length (concat iov)) [] iov desc 0 0 st'
    = copy_loop (length (sm_segs (c_sendMgr st'))) (sm_segs (c_sendMgr st')) desc (concat iov) st'"
    using iov_loop_eq [OF l linked_length [OF l], of "length (concat iov)" "[]" iov _ 0 0] linked_length [OF l] by simp
  then show ?thesis using Ok r by (simp only: SendMessage_iov_def SendMessage_def Let_def tot u bind_o.simps prod.case)
qed (simp_all add: SendMessage_iov_def SendMessage_def Let_def length_concat [symmetric])

theorem SendMessage_iov_gathers_witness:
  "SendMessage_iov [] 7 [[1, 2], [], [3, 4, 5]] example_client = SendMessage [] 7 [1, 2, 3, 4, 5] example_client"
proof -
  obtain m where m: "GetMessageDescriptor 5 False example_pool = Ok (Some 0) m" "linked (sm_segs m) (Some 0) [0]" "sm_retired m = []"
    using example_pool_get by blast
  have "GetSendMsgDesc 5 False True [] example_client = Ok (Some 0, []) (example_client\<lparr>c_sendMgr := m\<rparr>)"
    using m by (simp add: GetSendMsgDesc_def GetSendMsgDesc_loop.simps on_send_def example_client_def)
  then have "\<exists>xs. linked (sm_segs (c_sendMgr st')) desc xs"
    if "GetSendMsgDesc 5 False True [] example_client = Ok (desc, inbox') st'" for desc inbox' st'
    using that m(2) by (auto simp del: linked.simps)
  then show ?thesis using SendMessage_iov_gathers [of "[[1, 2], [], [3, 4, 5]]" "[]" example_client 7] by simp
qed


section \<open>Sequence tokens\<close>

lemma PendingSequenceTokens_diff: "PendingSequenceTokens st = c_sequenceTokenSent st - c_sequenceTokenRcvd st"
proof -
  have "0xffffffff = (- 1 :: u32)" by simp
  then have "0xffffffff - r + s + 1 = s - r" for r s :: u32 by (simp only:) simp
  then show ?thesis by (simp add: PendingSequenceTokens_def)
qed


lemma client_same_more:
  "endpoint.more st = endpoint.more (st' :: client) \<Longrightarrow> c_sequenceTokenSent st = c_sequenceTokenSent st'
     \<and> c_sequenceTokenRcvd st = c_sequenceTokenRcvd st' \<and> c_recvMgr st = c_recvMgr st' \<and> c_mem st = c_mem st'"
  by (cases st, cases st') simp

text \<open>
  \<open>PendingSequenceTokens\<close> is the number of tokens sent and not yet returned, also where the
  32-bit counters have wrapped: it is the difference modulo \<open>2^32\<close>, every \<open>SendSequenceToken\<close>, even
  one that throws, adds one, and when the manager returns the last token sent none is pending.
\<close>

theorem PendingSequenceTokens_counts:
  "PendingSequenceTokens st = c_sequenceTokenSent st - c_sequenceTokenRcvd st
    \<and> keeps PendingSequenceTokens (st\<lparr>c_sequenceTokenSent := c_sequenceTokenSent st + 1\<rparr>) (c_SendSequenceToken st)
    \<and> PendingSequenceTokens (st\<lparr>c_sequenceTokenSent := c_sequenceTokenSent st + 1\<rparr>) = PendingSequenceTokens st + 1
    \<and> client_handler (HandleSequenceToken t) st = Ok () (st\<lparr>c_sequenceTokenRcvd := t\<rparr>)
    \<and> PendingSequenceTokens (st\<lparr>c_sequenceTokenRcvd := c_sequenceTokenSent st\<rparr>) = 0"
proof -
  have "keeps PendingSequenceTokens s r" if "keeps unsocket s r" for s :: client and r :: "(nat, client) outcome"
  proof -
    have eq: "PendingSequenceTokens s' = PendingSequenceTokens s" if "unsocket s' = unsocket s" for s'
    proof -
      have "endpoint.more s' = endpoint.more s" using that by (simp add: unsocket_def)
      from client_same_more [OF this] show ?thesis by (simp add: PendingSequenceTokens_diff)
    qed
    show ?thesis using that by (cases r) (auto intro: eq)
  qed
  note k = this [OF more_sends_keep(7)]
  show ?thesis
    by (intro conjI PendingSequenceTokens_diff) (simp_all only: c_SendSequenceToken_def Let_def k, simp_all add: PendingSequenceTokens_diff client_handler_def)
qed

section \<open>How many slabs to ask for\<close>

lemma one_le_u32: "x \<noteq> 0 \<Longrightarrow> 1 \<le> (x :: u32)"
  by (simp add: word_le_nat_alt unat_gt_0 Suc_le_eq)

lemma div_up: "0 < n \<Longrightarrow> (b :: nat) \<le> (b + n - 1) div n * n"
proof -
  assume n: "0 < n"
  then show ?thesis using div_mult_mod_eq [of "b + n - 1" n] mod_less_divisor [OF n, of "b + n - 1"] by linarith
qed

text \<open>
  The number of slabs a client asks for is enough: at least one, at least the minimum of the
  options, and the bytes of the options fit in them, as long as the 64-bit sum and the 32-bit
  number do not wrap.
\<close>

theorem slabs_for_enough:
  assumes "slabSz \<noteq> 0" "unat bytes + unat slabSz < 2 ^ 64" "(unat bytes + unat slabSz - 1) div unat slabSz < 2 ^ 32"
  shows "1 \<le> slabs_for bytes minSlabs slabSz \<and> minSlabs \<le> slabs_for bytes minSlabs slabSz
    \<and> unat bytes \<le> unat (slabs_for bytes minSlabs slabSz) * unat slabSz"
proof -
  have pos: "0 < unat slabSz" using assms(1) by (simp add: unat_gt_0)
  have c: "unat (ucast slabSz :: u64) = unat slabSz" by (simp add: unsigned_ucast_eq take_bit_nat_eq_self less_trans [OF unsigned_less])
  have "unat (bytes + ucast slabSz - 1) = unat bytes + unat slabSz - 1"
    using pos assms(2) c by (simp add: unat_word_ariths unat_sub_if_size word_le_nat_alt)
  then have d: "unat ((bytes + ucast slabSz - 1) div ucast slabSz) = (unat bytes + unat slabSz - 1) div unat slabSz"
    by (simp add: unat_div c)
  let ?n = "ucast ((bytes + ucast slabSz - 1) div ucast slabSz) :: u32"
  have n: "unat ?n = (unat bytes + unat slabSz - 1) div unat slabSz"
    using assms(3) by (simp add: unsigned_ucast_eq d take_bit_nat_eq_self)
  have le: "?n \<le> slabs_for bytes minSlabs slabSz" "1 \<le> slabs_for bytes minSlabs slabSz" "minSlabs \<le> slabs_for bytes minSlabs slabSz"
    by (auto simp: slabs_for_def Let_def not_less one_le_u32 simp del: word_not_simps)
  have "unat bytes \<le> unat ?n * unat slabSz" unfolding n by (rule div_up [OF pos])
  also have "\<dots> \<le> unat (slabs_for bytes minSlabs slabSz) * unat slabSz" using le(1) by (intro mult_le_mono1) (simp add: word_le_nat_alt)
  finally show ?thesis using le by blast
qed

theorem slabs_for_enough_witness: "slabs_for 100 2 16 = 7 \<and> unat (100 :: u64) \<le> unat (slabs_for 100 2 16) * unat (16 :: u32)"
  using slabs_for_enough [of 16 100 2] by (simp add: slabs_for_def Let_def)

section \<open>From a sender to a receiver\<close>

definition info_place :: "shm_mapper \<Rightarrow> u32 \<Rightarrow> nat \<times> nat" where
  "info_place mm b = (unat (b div shm_numBlocks mm),
     unat (infoOffset (buffer_header mm 0)) + 24 * unat (b mod shm_numBlocks mm))"

lemma block_ptrs_view:
  assumes lay: "good_layout mm" and v: "client_view mm m"
    and ids: "\<forall>b \<in> set ids. unat b div unat (shm_numBlocks mm) < length (shm_headerVec mm)"
  shows "block_ptrs infos ids m = Ok (map (\<lambda>b. (b, block_addr mm b, infos (info_place mm b))) ids) m"
  using ids
proof (induction ids)
  case (Cons b ids)
  have nb: "shm_numBlocks mm \<noteq> 0" using lay by (simp add: good_layout_def)
  have sz: "sc_numBlocks m = shm_numBlocks mm" "sc_NumBuffers m = length (shm_headerVec mm)"
    using v by (simp_all add: client_view_def sizes_read_def mapped_def sc_NumBuffers_def)
  have q: "unat (b div shm_numBlocks mm) < length (shm_headerVec mm)" using Cons.prems by (simp add: div_mod_u32_unat)
  obtain p where p: "GetBlockPtr_at (unat (b div shm_numBlocks mm)) (b mod shm_numBlocks mm) m = Ok p m" "addr p = block_addr mm b"
    using client_ptr_addr(2) [OF lay v, of b] Cons.prems by auto
  have i: "GetBlockInfo_at (unat (b div shm_numBlocks mm)) (b mod shm_numBlocks mm) m = Ok (info_place mm b) m"
    using v q by (simp add: GetBlockInfo_at_def client_view_def mapped_def info_place_def)
  show ?case using Cons q by (simp add: sz nb Let_def p i)
qed simp

lemma GetRecvMsgDesc_whole:
  assumes get: "rm_GetMessageDescriptor (c_recvMgr st) = (Some i, m')" and l: "linked (rm_segs m') (Some i) xs"
    and crc: "\<forall>x \<in> set xs. bi_crc32c (seg_info m' x) = 0
      \<or> crc_value (read_mem (c_mem st) (seg_buf (rm_segs m' ! x)) (unat (seg_size (rm_segs m' ! x)))) = bi_crc32c (seg_info m' x)"
    and sock: "\<not> sendFailed st" "kernel st = []"
  shows "\<exists>st'. GetRecvMsgDesc st = Ok (Some i) st' \<and> rm_segs (c_recvMgr st') = rm_segs m' \<and> c_mem st' = c_mem st"
proof -
  have "ValidCRC (c_mem st) True True (rm_segs m') i = Some True"
    using crc ValidCRC_loop_eq [OF l linked_length [OF l], of "c_mem st" True] by (simp add: ValidCRC_def)
  then have "GetRecvMsgDesc_loop st = Ok (Some i) (st\<lparr>c_recvMgr := m'\<rparr>)"
    using get by (simp add: GetRecvMsgDesc_loop.simps [of st] Let_def)
  then show ?thesis
    using sock by (simp add: GetRecvMsgDesc_def SendRetiredSegments_def Let_def GetRetiredSegments_def SendBlockIDs_whole)
qed

definition receiver_ready :: "shm_mapper \<Rightarrow> client \<Rightarrow> bool" where
  "receiver_ready mm st \<longleftrightarrow> client_view mm (c_shm st) \<and> \<not> sendFailed st \<and> kernel st = []
     \<and> rm_pending (c_recvMgr st) = [] \<and> rm_pendingMsg (c_recvMgr st) = None
     \<and> (\<exists>live inn out. recv_reach (c_recvMgr st) live inn out)"

lemma message_received:
  assumes lay: "good_layout mm" and r: "receiver_ready mm st" and inm: "message_in mm (c_mem st) crc msgID msg bs"
    and cons: "length bs \<le> unat (rm_numConsSlabs (c_recvMgr st))" and ne: "bs \<noteq> []"
    and ids: "\<forall>b \<in> fst ` set bs. unat b div unat (shm_numBlocks mm) < length (shm_headerVec mm)"
    and infos: "\<forall>(b, info) \<in> set bs. c_infos st (info_place mm b) = info" and room: "length msg \<le> unat maxlen"
  shows "\<exists>i st1 st2 t. client_handler (HandleBlockIDs (map fst bs)) st = Ok () st1 \<and> GetRecvMsgDesc st1 = Ok (Some i) st2
    \<and> CopyToBuffer (c_mem st2) maxlen (rm_segs (c_recvMgr st2)) i = Some (msg, t) \<and> unat t = length msg"
proof -
  let ?bs = "map (\<lambda>(b, info). (b, block_addr mm b, info)) bs"
  have v: "client_view mm (c_shm st)" and sock: "\<not> sendFailed st" "kernel st = []" using r by (simp_all add: receiver_ready_def)
  obtain live inn out where reach: "recv_reach (c_recvMgr st) live inn out" using r by (auto simp: receiver_ready_def)
  have "block_ptrs (c_infos st) (map fst bs) (c_shm st) = Ok (map (\<lambda>b. (b, block_addr mm b, c_infos st (info_place mm b))) (map fst bs)) (c_shm st)"
    by (rule block_ptrs_view [OF lay v]) (use ids in auto)
  moreover have "map (\<lambda>b. (b, block_addr mm b, c_infos st (info_place mm b))) (map fst bs) = ?bs" using infos by auto
  ultimately have h: "client_handler (HandleBlockIDs (map fst bs)) st = Ok () (st\<lparr>c_recvMgr := AddSegments ?bs (c_recvMgr st)\<rparr>)"
    by (simp only: client_handler_def endpoint_call.case c_HandleBlockIDs_def on_shm_def lift_o.simps bind_o.simps) simp
  let ?st1 = "st\<lparr>c_recvMgr := AddSegments ?bs (c_recvMgr st)\<rparr>"
  have parts: "map (\<lambda>(_, _, info). info) ?bs = map snd bs"
    "map (\<lambda>(_, ptr, info). read_mem (c_mem st) ptr (unat (bi_size info))) ?bs = map (\<lambda>(b, info). read_mem (c_mem st) (block_addr mm b) (unat (bi_size info))) bs"
    "(\<Sum>(_, _, info) \<leftarrow> ?bs. unat (bi_size info)) = (\<Sum>(b, info) \<leftarrow> bs. unat (bi_size info))"
    by (simp_all add: case_prod_beta' comp_def)
  have msg: "concat (map (\<lambda>(b, info). read_mem (c_mem st) (block_addr mm b) (unat (bi_size info))) bs) = msg"
    using inm by (simp add: message_in_def)
  then have len: "(\<Sum>(b, info) \<leftarrow> bs. unat (bi_size info)) = length msg"
    by (auto simp: length_concat comp_def case_prod_beta' read_mem_def)
  have front: "message_front (rm_numConsSlabs (c_recvMgr st)) (map (\<lambda>(_, _, info). info) ?bs) (length ?bs)"
    using inm cons unfolding parts(1) by (simp add: message_in_def)
  have pend: "rm_pending (c_recvMgr st) = []" "rm_pendingMsg (c_recvMgr st) = None" using r by (simp_all add: receiver_ready_def)
  have fits: "(\<Sum>(_, _, info) \<leftarrow> ?bs. unat (bi_size info)) \<le> unat maxlen" unfolding parts(3) len by (rule room)
  from AddSegments_round_trip [OF reach pend front fits, of "[]" "c_mem st", unfolded append_Nil2 parts(2,3) msg len]
  obtain i m' xs t where get: "rm_GetMessageDescriptor (AddSegments ?bs (c_recvMgr st)) = (Some i, m')"
      and l: "linked (rm_segs m') (Some i) xs" and sz: "\<forall>x \<in> set xs. seg_size (rm_segs m' ! x) = bi_size (seg_info m' x)"
      and data: "map (seg_data m') xs = ?bs" and copy: "CopyToBuffer (c_mem st) maxlen (rm_segs m') i = Some (msg, t)" "unat t = length msg"
    by blast
  have "bi_crc32c (seg_info m' x) = 0
      \<or> crc_value (read_mem (c_mem st) (seg_buf (rm_segs m' ! x)) (unat (seg_size (rm_segs m' ! x)))) = bi_crc32c (seg_info m' x)"
    if x: "x \<in> set xs" for x
  proof -
    have "seg_data m' x \<in> set (map (seg_data m') xs)" using x by simp
    then have "seg_data m' x \<in> set ?bs" unfolding data .
    then obtain b info where b: "(b, info) \<in> set bs" "seg_data m' x = (b, block_addr mm b, info)" by auto
    then show ?thesis using inm sz x by (auto simp: message_in_def seg_data_def split: if_splits)
  qed
  then obtain st2 where "GetRecvMsgDesc ?st1 = Ok (Some i) st2" "rm_segs (c_recvMgr st2) = rm_segs m'" "c_mem st2 = c_mem st"
    using GetRecvMsgDesc_whole [of ?st1 i m' xs] get l sock by auto
  then show ?thesis using h copy by (intro exI [of _ i] exI [of _ ?st1] exI [of _ st2] exI [of _ t]) simp
qed



end
