(* ===== verification/Manager_Slabs.thy ===== *)
theory Manager_Slabs
  imports Endpoint_Frame Message_Segment Drop_Reporter Group_Manager Slab_Request_Manager Slab_Tracker Slab_Manager Shm_Mapper
begin

unbundle bit_operations_syntax

text \<open>
  The manager (apps/MCSBManager/Manager.cc) and its client proxies (apps/MCSBManager/ClientProxy.cc):
  their state and the way of the slabs, from a request over the free list to a producer and from a
  wanted queue back to the free list.

  \<^item> A \<open>Manager::ClientProxy\<close> is a \<open>SocketEndpoint\<close>; the record \<open>proxy\<close> adds its members.  \<open>px_addr\<close> is
    the address of the object, which a pending slab request keeps.
  \<^item> The \<open>Manager\<close> is the state of its \<open>SlabManager\<close> with its other members added, so the state change
    handler of the \<open>SlabManager\<close> is a function on the manager.  \<open>mg_clients\<close> is the map of the
    \<open>SocketDaemon\<close>, \<open>mg_mem\<close> the bytes of the shared memory.
  \<^item> A call on a proxy is a function on the manager with the client ID of the proxy, because it may
    come back to the manager and from there to other proxies.
\<close>

section \<open>State\<close>

record proxy_stats =
  ps_clientID :: u16
  ps_sentSegs :: u64
  ps_sentBytes :: u64
  ps_rcvdSegs :: u64
  ps_rcvdBytes :: u64
  ps_wantedSegsIn :: u64
  ps_wantedBytesIn :: u64
  ps_wantedSegsOut :: u64
  ps_wantedBytesOut :: u64
  ps_wantedSegsDropped :: u64
  ps_wantedBytesDropped :: u64
  ps_wantedSegsOverage :: u64
  ps_wantedBytesOverage :: u64

definition ProxyStats :: proxy_stats where
  "ProxyStats = \<lparr>ps_clientID = 0, ps_sentSegs = 0, ps_sentBytes = 0, ps_rcvdSegs = 0, ps_rcvdBytes = 0,
     ps_wantedSegsIn = 0, ps_wantedBytesIn = 0, ps_wantedSegsOut = 0, ps_wantedBytesOut = 0,
     ps_wantedSegsDropped = 0, ps_wantedBytesDropped = 0, ps_wantedSegsOverage = 0, ps_wantedBytesOverage = 0\<rparr>"

record manager_stats =
  ms_numClients :: u32
  ms_numBuffers :: u32
  ms_numSlabs :: u32
  ms_numSlabsReserved :: u32
  ms_numSlabsNonreservable :: u32
  ms_numFreeSlabs :: u32
  ms_numHeldSlabs :: u32
  ms_numWantedSlabs :: u32
  ms_rcvdSegs :: u64
  ms_rcvdBytes :: u64
  ms_sentSegs :: u64
  ms_sentBytes :: u64
  ms_droppedSegs :: u64
  ms_droppedBytes :: u64

definition ManagerStats :: manager_stats where
  "ManagerStats = \<lparr>ms_numClients = 0, ms_numBuffers = 0, ms_numSlabs = 0, ms_numSlabsReserved = 0,
     ms_numSlabsNonreservable = 0, ms_numFreeSlabs = 0, ms_numHeldSlabs = 0, ms_numWantedSlabs = 0,
     ms_rcvdSegs = 0, ms_rcvdBytes = 0, ms_sentSegs = 0, ms_sentBytes = 0, ms_droppedSegs = 0, ms_droppedBytes = 0\<rparr>"

record proxy = endpoint +
  px_addr :: nat
  px_recvBuf :: "u8 list"
  px_clientID :: u16
  px_clientPID :: u32
  px_clientName :: "u8 list"
  px_slabs :: slab_tracker
  px_registered :: "u32 list"
  px_wantRegistrations :: bool
  px_blocksPerSlab :: u32
  px_prodNiceLevel :: u8
  px_pendingRqsts :: u32
  px_stats :: proxy_stats
  px_drops :: drop_reporter
  px_wantedQueue :: "nat list"
  px_maxWantedQueueSize :: u32

record manager = slab_manager +
  mg_shm :: shm_mapper
  mg_groups :: group_manager
  mg_requests :: slab_request_manager
  mg_clients :: "(u16, proxy) omap"
  mg_nextNewClientID :: u16
  mg_maxNumClients :: u32
  mg_allowUnlockedMemory :: bool
  mg_playbackMode :: bool
  mg_blocksPerSlab :: u32
  mg_stats :: manager_stats
  mg_statsIter :: "u16 option"
  mg_verbosity :: int
  mg_mem :: memory

section \<open>Reaching the parts\<close>

definition on_slabs :: "(slab_tracker \<Rightarrow> ('a, slab_tracker) outcome) \<Rightarrow> proxy \<Rightarrow> ('a, proxy) outcome" where
  "on_slabs f p = lift_o (\<lambda>t. p\<lparr>px_slabs := t\<rparr>) (f (px_slabs p))"

definition put_proxy :: "u16 \<Rightarrow> proxy \<Rightarrow> manager \<Rightarrow> manager" where
  "put_proxy cid p m = m\<lparr>mg_clients := om_assign cid p (mg_clients m)\<rparr>"

definition on_proxy :: "u16 \<Rightarrow> (proxy \<Rightarrow> ('a, proxy) outcome) \<Rightarrow> manager \<Rightarrow> ('a, manager) outcome" where
  "on_proxy cid f m =
     (case map_of (mg_clients m) cid of
        None \<Rightarrow> Crash NullDereference
      | Some p \<Rightarrow> lift_o (\<lambda>p. put_proxy cid p m) (f p))"

definition with_shm :: "(shm_mapper \<Rightarrow> ('a, shm_mapper) outcome) \<Rightarrow> manager \<Rightarrow> ('a, manager) outcome" where
  "with_shm f m = lift_o (\<lambda>s. m\<lparr>mg_shm := s\<rparr>) (f (mg_shm m))"

text \<open>\<open>try { ... } catch (std::runtime_error)\<close> with a message and the value \<open>d\<close>.\<close>

definition caught :: "'a \<Rightarrow> ('a, 's) outcome \<Rightarrow> ('a, 's) outcome" where
  "caught d r = catch_o r (\<lambda>e. Ok d)"

section \<open>A proxy and its client\<close>

definition px_SendSlabIDs :: "u32 list \<Rightarrow> proxy \<Rightarrow> (int, proxy) outcome" where
  "px_SendSlabIDs ids p = caught (- 1) (bind_o (SendSlabIDs ids p) (\<lambda>n. Ok (int n)))"

definition TakeFreeSlabs :: "u32 list \<Rightarrow> proxy \<Rightarrow> (unit, proxy) outcome" where
  "TakeFreeSlabs ids p =
     bind_o (on_slabs (InsertProdSlabs ids) p) (\<lambda>_ p.
     bind_o (px_SendSlabIDs ids p) (\<lambda>_ p.
       let count = of_nat (length ids) in
       Ok () (p\<lparr>px_pendingRqsts := (if count > px_pendingRqsts p then 0 else px_pendingRqsts p - count)\<rparr>)))"

definition px_SendRegistration :: "u32 \<Rightarrow> u16 \<Rightarrow> u16 \<Rightarrow> u32 list \<Rightarrow> proxy \<Rightarrow> (int, proxy) outcome" where
  "px_SendRegistration type cid gid msgIDs p =
     caught 0 (bind_o (SendRegistration type cid gid msgIDs p) (\<lambda>n. Ok (int n)))"

definition CheckBufferParams :: "u32 \<Rightarrow> u32 \<Rightarrow> u8 list \<Rightarrow> proxy \<Rightarrow> (unit, proxy) outcome" where
  "CheckBufferParams totalNumSlabs blocksPerSlab shmNameFormat p =
     (let p = p\<lparr>px_slabs := TotalNumSlabs totalNumSlabs (px_slabs p), px_blocksPerSlab := blocksPerSlab\<rparr>
      in bind_o (caught 0 (SendCtrlString kCtrlString_ShmName shmNameFormat p)) (\<lambda>_. Ok ()))"

section \<open>Serving slab requests\<close>

lemma GetFreeSlabs_one:
  assumes "GetFreeSlabs None 1 c a m = Ok ids m'" "freeSlabs m \<noteq> []"
  shows "length (freeSlabs m') < length (freeSlabs m)"
proof -
  have "freeSlabs (upd_slab i f (m :: 'a slab_manager_scheme)) = freeSlabs m" for i f m by (simp add: upd_slab_def Let_def)
  then show ?thesis
    using assms by (auto simp: GetFreeSlabs_def numeral_eq_Suc One_nat_def GetFreeSlabs_step_def Let_def bind_o_Ok_iff
        SI_GetFreeSlab_def push_slab_def CallStateChangeHandler_def SI_SetProducerParams_def split: if_splits)
qed

lemma TakeLowestRequest_less:
  assumes "TakeLowestRequest q = Ok req q'" "numRequests q \<noteq> 0"
  shows "unat (numRequests q') < unat (numRequests q)"
  using assms unat_dec [of "numRequests q"] unat_gt_0 [of "numRequests q"]
  by (auto simp: TakeLowestRequest_def Let_def bind_o_Ok_iff PopFrontRequest_def FrontRequest_def split: if_splits list.splits)

lemma on_proxy_Ok: "on_proxy cid f m = Ok a m' \<longleftrightarrow>
    (\<exists>p p'. map_of (mg_clients m) cid = Some p \<and> f p = Ok a p' \<and> m' = put_proxy cid p' m)"
proof (cases "map_of (mg_clients m) cid")
  case (Some p)
  then show ?thesis by (cases "f p") (auto simp: on_proxy_def)
qed (simp add: on_proxy_def)

lemma put_proxy_fields [simp]:
  "freeSlabs (put_proxy cid p m) = freeSlabs m" "mg_requests (put_proxy cid p m) = mg_requests m"
  by (simp_all add: put_proxy_def)

text \<open>
  \<open>GetFreeSlabs\<close> is called here without the handler, which the manager installs for the changes to
  the free list only.  A request of a client that is gone, or whose proxy is another object now,
  is dropped.
\<close>

function ServiceSlabRequests :: "manager \<Rightarrow> (unit, manager) outcome" where
  "ServiceSlabRequests m =
     (if numRequests (mg_requests m) = 0 \<or> freeSlabs m = [] then Ok () m
      else
        (let level = LowestLevelPending (mg_requests m) in
         case TakeLowestRequest (mg_requests m) of
           Throw e q \<Rightarrow> Throw e (m\<lparr>mg_requests := q\<rparr>)
         | Crash c \<Rightarrow> Crash c
         | Ok req q \<Rightarrow>
             (let m = m\<lparr>mg_requests := q\<rparr>; cid = ucast (rq_id req) in
              case map_of (mg_clients m) cid of
                None \<Rightarrow> ServiceSlabRequests m
              | Some p \<Rightarrow>
                  if px_addr p \<noteq> rq_arg req then ServiceSlabRequests m
                  else
                    (case GetFreeSlabs None 1 (- 1) 0 m of
                       Throw e m \<Rightarrow> Throw e m
                     | Crash c \<Rightarrow> Crash c
                     | Ok ids m \<Rightarrow>
                         (case on_proxy cid (TakeFreeSlabs ids) m of
                            Throw e m \<Rightarrow> Throw e m
                          | Crash c \<Rightarrow> Crash c
                          | Ok _ m \<Rightarrow>
                              (let slabsPending = rq_numSlabs req - 1 in
                               ServiceSlabRequests
                                 (if slabsPending \<noteq> 0
                                  then m\<lparr>mg_requests := AddRequest level slabsPending (rq_id req) (rq_arg req) (mg_requests m)\<rparr>
                                  else m)))))))"
  by pat_completeness auto
termination
proof (relation "measures [\<lambda>m. length (freeSlabs m), \<lambda>m. unat (numRequests (mg_requests m))]", goal_cases)
  case 1
  show ?case by simp
next
  case (2 m level req q m1 cid)
  then show ?case using TakeLowestRequest_less by auto
next
  case (3 m level req q m1 cid p)
  then show ?case using TakeLowestRequest_less by auto
next
  case (4 m level req q m1 cid p ids m2 u m3 k)
  then have "length (freeSlabs m2) < length (freeSlabs m1)" using GetFreeSlabs_one [of "- 1" 0 m1 ids m2] by simp
  then show ?case using 4 by (auto simp: on_proxy_Ok)
qed

declare ServiceSlabRequests.simps [simp del]

definition HandleSlabStateChange :: "u32 \<Rightarrow> nat \<Rightarrow> manager \<Rightarrow> (unit, manager) outcome" where
  "HandleSlabStateChange which slab m =
     (if which = kHeldToFree \<or> which = kWantedToFree then ServiceSlabRequests m else Ok () m)"

section \<open>Slabs held and wanted\<close>

definition mg_GetFreeSlabs :: "u32 \<Rightarrow> manager \<Rightarrow> (u32 list, manager) outcome" where
  "mg_GetFreeSlabs n m = GetFreeSlabs (Some HandleSlabStateChange) n (- 1) 0 m"

definition mg_IncrementHeldRefcnt :: "u32 list \<Rightarrow> manager \<Rightarrow> (unit, manager) outcome" where
  "mg_IncrementHeldRefcnt slabIDs m = IncrementHeldRefcnt (Some HandleSlabStateChange) slabIDs m"

definition mg_DecrementHeldRefcnt :: "(u32 \<times> u32) list \<Rightarrow> manager \<Rightarrow> (unit, manager) outcome" where
  "mg_DecrementHeldRefcnt idsAmounts m = DecrementHeldRefcnt (Some HandleSlabStateChange) idsAmounts m"

definition mg_GetWantedSegment :: "u16 \<Rightarrow> u32 \<Rightarrow> manager \<Rightarrow> (nat, manager) outcome" where
  "mg_GetWantedSegment cid blockID m =
     (if mg_blocksPerSlab m = 0 then Crash DivideByZero
      else GetWantedSegment cid blockID (blockID div mg_blocksPerSlab m) m)"

definition mg_ReleaseWantedSegment :: "nat \<Rightarrow> manager \<Rightarrow> (unit, manager) outcome" where
  "mg_ReleaseWantedSegment seg m =
     (if mg_blocksPerSlab m = 0 then Crash DivideByZero
      else ReleaseWantedSegment (Some HandleSlabStateChange) seg
             (ws_blockID (wantedSegmentBlocks m ! seg) div mg_blocksPerSlab m) m)"

definition SentStats :: "u64 \<Rightarrow> u64 \<Rightarrow> manager \<Rightarrow> manager" where
  "SentStats segs bytes m =
     m\<lparr>mg_stats := (mg_stats m)\<lparr>ms_sentSegs := ms_sentSegs (mg_stats m) + segs,
                                ms_sentBytes := ms_sentBytes (mg_stats m) + bytes\<rparr>\<rparr>"

definition DroppedStats :: "u64 \<Rightarrow> u64 \<Rightarrow> manager \<Rightarrow> manager" where
  "DroppedStats segs bytes m =
     m\<lparr>mg_stats := (mg_stats m)\<lparr>ms_droppedSegs := ms_droppedSegs (mg_stats m) + segs,
                                ms_droppedBytes := ms_droppedBytes (mg_stats m) + bytes\<rparr>\<rparr>"

text \<open>\<open>ClientProxy::SendDropReport\<close>.\<close>

definition report_drop :: "u32 \<Rightarrow> u32 \<Rightarrow> proxy \<Rightarrow> (int, proxy) outcome" where
  "report_drop segs bytes p =
     (let (report, d) = dr_GetReport (dr_Dropped segs bytes (px_drops p)); p = p\<lparr>px_drops := d\<rparr> in
      case report of
        None \<Rightarrow> Ok (- 1) p
      | Some (s, b) \<Rightarrow> caught (- 1) (bind_o (SendDropReport s b p) (\<lambda>n. Ok (int n))))"

definition px_SendDropReport :: "u16 \<Rightarrow> u32 \<Rightarrow> u32 \<Rightarrow> manager \<Rightarrow> (int, manager) outcome" where
  "px_SendDropReport cid segs bytes m =
     bind_o (on_proxy cid (report_drop segs bytes) m) (\<lambda>result m.
       Ok result (if segs \<noteq> 0 \<or> bytes \<noteq> 0 then DroppedStats (ucast segs) (ucast bytes) m else m))"

text \<open>
  \<open>ClientProxy::EraseWantedSegment\<close>.  A segment that is in the queue of another proxy would be
  unlinked from that one and break the count.
\<close>

definition dequeue_dropped :: "nat \<Rightarrow> u32 \<Rightarrow> proxy \<Rightarrow> (unit, proxy) outcome" where
  "dequeue_dropped seg segSize p =
     (if seg \<notin> set (px_wantedQueue p) then Crash ListCorruption
      else Ok () (p\<lparr>px_stats := (px_stats p)\<lparr>ps_wantedSegsDropped := ps_wantedSegsDropped (px_stats p) + 1,
                       ps_wantedBytesDropped := ps_wantedBytesDropped (px_stats p) + ucast segSize\<rparr>,
                     px_wantedQueue := remove1 seg (px_wantedQueue p)\<rparr>))"

definition EraseWantedSegment :: "u16 \<Rightarrow> nat \<Rightarrow> manager \<Rightarrow> (unit, manager) outcome" where
  "EraseWantedSegment cid seg m =
     bind_o (with_shm (GetBlockInfo (ws_blockID (wantedSegmentBlocks m ! seg))) m) (\<lambda>info m.
       case map_of (mg_clients m) cid of
         None \<Rightarrow> Crash NullDereference
       | Some p \<Rightarrow>
           if px_wantedQueue p = [] then Ok () m
           else bind_o (on_proxy cid (dequeue_dropped seg (bi_size info)) m) (\<lambda>_ m.
                bind_o (mg_ReleaseWantedSegment seg m) (\<lambda>_ m.
                bind_o (px_SendDropReport cid 1 (bi_size info) m) (\<lambda>_. Ok ()))))"

text \<open>
  \<open>HarvestWantedSlabs\<close>.  A turn of the loop that releases a segment makes fewer of them, and without
  one \<open>FrontWantedSegment\<close> throws, so the fuel ends only where a turn does nothing: then the same
  turn repeats for ever.
\<close>

fun HarvestWantedSlabs_loop :: "nat \<Rightarrow> u32 \<Rightarrow> u32 \<Rightarrow> manager \<Rightarrow> (unit, manager) outcome" where
  "HarvestWantedSlabs_loop 0 origNumFreeSlabs cnt m = Crash NonTermination"
| "HarvestWantedSlabs_loop (Suc fuel) origNumFreeSlabs cnt m =
     (if (of_nat (length (freeSlabs m)) :: u64) - ucast origNumFreeSlabs < ucast cnt then
        bind_o (FrontWantedSegment m) (\<lambda>seg m.
          let cid = ws_clientID (wantedSegmentBlocks m ! seg) in
          bind_o (case map_of (mg_clients m) cid of
              None \<Rightarrow> mg_ReleaseWantedSegment seg m
            | Some _ \<Rightarrow> EraseWantedSegment cid seg m) (\<lambda>_.
          HarvestWantedSlabs_loop fuel origNumFreeSlabs cnt))
      else Ok () m)"

definition HarvestWantedSlabs :: "u32 \<Rightarrow> manager \<Rightarrow> (u32, manager) outcome" where
  "HarvestWantedSlabs cnt m =
     (let cnt = (if unat cnt > length (wantedSlabs m) then of_nat (length (wantedSlabs m)) else cnt) in
      bind_o (HarvestWantedSlabs_loop (Suc (Suc (length (queued_segs m)))) (of_nat (length (freeSlabs m))) cnt m)
        (\<lambda>_. Ok cnt))"

definition RequestFreeSlabs :: "u32 \<Rightarrow> u16 \<Rightarrow> int \<Rightarrow> manager \<Rightarrow> (unit, manager) outcome" where
  "RequestFreeSlabs numSlabs cid niceLevel m =
     (let niceLevel = niceLevel + (if mg_playbackMode m then 1 else 0) in
      if niceLevel \<noteq> 0 then
        (case map_of (mg_clients m) cid of
           None \<Rightarrow> Crash NullDereference
         | Some p \<Rightarrow> ServiceSlabRequests
             (m\<lparr>mg_requests := AddRequest niceLevel numSlabs (ucast (px_clientID p)) (px_addr p) (mg_requests m)\<rparr>))
      else
        (let cnt = (if unat numSlabs > length (freeSlabs m) then numSlabs - of_nat (length (freeSlabs m)) else 0) in
         bind_o (HarvestWantedSlabs cnt m) (\<lambda>_ m.
         bind_o (mg_GetFreeSlabs numSlabs m) (\<lambda>ids m.
         on_proxy cid (TakeFreeSlabs ids) m))))"

definition FillProducerSlabs :: "u16 \<Rightarrow> manager \<Rightarrow> (unit, manager) outcome" where
  "FillProducerSlabs cid m =
     (case map_of (mg_clients m) cid of
        None \<Rightarrow> Crash NullDereference
      | Some p \<Rightarrow>
          if ProdSlabsNeeded (px_slabs p) \<le> px_pendingRqsts p then Ok () m
          else let n = ProdSlabsNeeded (px_slabs p) - px_pendingRqsts p
               in RequestFreeSlabs n cid (sint (px_prodNiceLevel p))
                    (put_proxy cid (p\<lparr>px_pendingRqsts := px_pendingRqsts p + n\<rparr>) m))"

section \<open>More memory\<close>

definition tell_buffers :: "manager \<Rightarrow> (unit, manager) outcome" where
  "tell_buffers m =
     for_each (\<lambda>cid m. on_proxy cid
         (CheckBufferParams (shm_TotalNumSlabs (mg_shm m)) (mg_blocksPerSlab m) (shm_nameFormat (mg_shm m))) m)
       (map fst (mg_clients m)) m"

definition IncreaseNumBuffers :: "u32 \<Rightarrow> manager \<Rightarrow> (int, manager) outcome" where
  "IncreaseNumBuffers newNumBuffers m =
     (if newNumBuffers = of_nat (length (shm_headerVec (mg_shm m))) then Ok 0 m
      else
        let n = (if newNumBuffers = 0 then of_nat (length (shm_headerVec (mg_shm m))) + 1 else newNumBuffers) in
        bind_o (with_shm (shm_NumBuffers n) m) (\<lambda>_ m.
          if of_nat (length (shm_headerVec (mg_shm m))) \<noteq> n then Ok (- 1) m
          else if shm_lockErrors (mg_shm m) \<noteq> 0 \<and> \<not> mg_allowUnlockedMemory m
          then Throw ''failed to lock MCSB buffer memory'' m
          else bind_o (tell_buffers (NumBuffers (unat n) m)) (\<lambda>_. Ok 0)))"

text \<open>
  A turn of the loop of \<open>GetSlabReservation\<close> that does not end it adds a buffer, and there are at most
  \<open>maxNumBuffers\<close>; without any buffer \<open>IncreaseNumBuffers\<close> has nothing to do, and the loop never ends.
\<close>

fun reserve_loop :: "nat \<Rightarrow> u32 \<Rightarrow> manager \<Rightarrow> (int, manager) outcome" where
  "reserve_loop 0 numSlabs m = Crash NonTermination"
| "reserve_loop (Suc fuel) numSlabs m =
     (let (failed, m) = GetSlabReservation numSlabs m in
      if failed = 0 then Ok 0 m
      else bind_o (IncreaseNumBuffers 0 m) (\<lambda>r m.
             if r = 0 then reserve_loop fuel numSlabs m else Ok failed m))"

definition mg_GetSlabReservation :: "u32 \<Rightarrow> manager \<Rightarrow> (int, manager) outcome" where
  "mg_GetSlabReservation numSlabs m =
     reserve_loop (Suc (unat (shm_maxNumBuffers (mg_shm m)) - length (shm_headerVec (mg_shm m)))) numSlabs m"

end
