(* ===== verification/Manager_Proxies.thy ===== *)
theory Manager_Proxies
  imports Manager_Slabs
begin

unbundle bit_operations_syntax

text \<open>
  The messages between the clients: what the handlers of a \<open>ClientProxy\<close>
  (apps/MCSBManager/ClientProxy.cc) and the \<open>Manager\<close> (apps/MCSBManager/Manager.cc) do with what a
  client sends, the wanted queue, the registrations, and the coming and going of clients
  (apps/MCSBManager/SocketDaemon.cc).
\<close>

section \<open>Sending blocks to a client\<close>

definition px_SendBlockIDs :: "u16 \<Rightarrow> (u32 \<times> u32) list \<Rightarrow> manager \<Rightarrow> (int, manager) outcome" where
  "px_SendBlockIDs cid blocks m =
     (let segs = of_nat (length blocks); bytes = (\<Sum>(b, size) \<leftarrow> blocks. ucast size) in
      bind_o (on_proxy cid (\<lambda>p. caught None (bind_o (SendBlockIDs (map fst blocks) p) (\<lambda>n p.
          Ok (Some n) (p\<lparr>px_stats := (px_stats p)\<lparr>ps_sentSegs := ps_sentSegs (px_stats p) + segs,
                                               ps_sentBytes := ps_sentBytes (px_stats p) + bytes\<rparr>\<rparr>)))) m) (\<lambda>r m.
        case r of
          None \<Rightarrow> Ok (- 1) m
        | Some n \<Rightarrow> Ok (int n) (SentStats segs bytes m)))"

definition mg_GetBlockPtr :: "u32 \<Rightarrow> manager \<Rightarrow> (nat, manager) outcome" where
  "mg_GetBlockPtr blockID m =
     bind_o (with_shm (GetBlockPtr blockID) m) (\<lambda>(q, off) m.
       Ok (addr (q, unat (blockOffset (shm_headerVec (mg_shm m) ! q)) + off)) m)"

text \<open>The fields of the \<open>CCIHeader\<close> at an address.\<close>

definition srcClientID :: "memory \<Rightarrow> nat \<Rightarrow> u16" where
  "srcClientID mem a = le_half (mem (a + 4)) (mem (a + 5))"

definition dstClientID :: "memory \<Rightarrow> nat \<Rightarrow> u16" where
  "dstClientID mem a = le_half (mem (a + 6)) (mem (a + 7))"

section \<open>The wanted queue\<close>

definition drop_overage :: "u32 \<Rightarrow> proxy \<Rightarrow> (unit, proxy) outcome" where
  "drop_overage segSize p =
     Ok () (p\<lparr>px_stats := (px_stats p)\<lparr>ps_wantedSegsOverage := ps_wantedSegsOverage (px_stats p) + 1,
                                      ps_wantedBytesOverage := ps_wantedBytesOverage (px_stats p) + ucast segSize\<rparr>\<rparr>)"

definition pop_wanted :: "u32 \<Rightarrow> proxy \<Rightarrow> (unit, proxy) outcome" where
  "pop_wanted segSize p =
     Ok () (p\<lparr>px_stats := (px_stats p)\<lparr>ps_wantedSegsOut := ps_wantedSegsOut (px_stats p) + 1,
                                      ps_wantedBytesOut := ps_wantedBytesOut (px_stats p) + ucast segSize\<rparr>,
             px_wantedQueue := tl (px_wantedQueue p)\<rparr>)"

text \<open>What a turn does with the segment at the front; false is the \<open>break\<close>.\<close>

definition front_wanted :: "u16 \<Rightarrow> proxy \<Rightarrow> u32 \<Rightarrow> block_info \<Rightarrow> manager \<Rightarrow> (bool, manager) outcome" where
  "front_wanted cid p blockID info m =
     (if bi_messageID info \<in> set (px_registered p) then
        let slabID = blockID div px_blocksPerSlab p in
        bind_o (on_proxy cid (on_slabs (TakeConsSlab slabID)) m) (\<lambda>taken m.
          if taken then
            bind_o (mg_IncrementHeldRefcnt [slabID] m) (\<lambda>_ m.
            bind_o (px_SendBlockIDs cid [(blockID, bi_size info)] m) (\<lambda>_. Ok True))
          else if length (px_wantedQueue p) \<le> unat (px_maxWantedQueueSize p) \<or> mg_playbackMode m then Ok False m
          else bind_o (on_proxy cid (drop_overage (bi_size info)) m) (\<lambda>_ m.
               bind_o (px_SendDropReport cid 1 (bi_size info) m) (\<lambda>_. Ok True)))
      else Ok True m)"

text \<open>Every turn takes the front of the queue, so the length of the queue is fuel enough.\<close>

fun PopWantedQueue_loop :: "nat \<Rightarrow> u16 \<Rightarrow> manager \<Rightarrow> (unit, manager) outcome" where
  "PopWantedQueue_loop fuel cid m =
     (case map_of (mg_clients m) cid of
        None \<Rightarrow> Crash NullDereference
      | Some p \<Rightarrow>
          (case px_wantedQueue p of
             [] \<Rightarrow> Ok () m
           | seg # _ \<Rightarrow>
               if fuel = 0 then Crash NonTermination
               else if px_blocksPerSlab p = 0 then Crash DivideByZero
               else
                 let blockID = ws_blockID (wantedSegmentBlocks m ! seg) in
                 bind_o (with_shm (GetBlockInfo blockID) m) (\<lambda>info m.
                 bind_o (front_wanted cid p blockID info m) (\<lambda>go m.
                   if \<not> go then Ok () m
                   else bind_o (on_proxy cid (pop_wanted (bi_size info)) m) (\<lambda>_ m.
                        bind_o (mg_ReleaseWantedSegment seg m) (\<lambda>_ m.
                        PopWantedQueue_loop (fuel - 1) cid m))))))"

declare PopWantedQueue_loop.simps [simp del]

definition PopWantedQueue :: "u16 \<Rightarrow> manager \<Rightarrow> (unit, manager) outcome" where
  "PopWantedQueue cid m =
     (case map_of (mg_clients m) cid of
        None \<Rightarrow> Crash NullDereference
      | Some p \<Rightarrow> PopWantedQueue_loop (length (px_wantedQueue p)) cid m)"

section \<open>Segments for a client\<close>

text \<open>
  The loop of \<open>SendSegments\<close> that sorts the segments into those to send and those to queue; \<open>blocked\<close>
  is true when a segment is queued already.
\<close>

fun sort_segments ::
  "u16 \<Rightarrow> bool \<Rightarrow> (u32 \<times> block_info) list \<Rightarrow> manager \<Rightarrow> ((u32 \<times> u32) list \<times> (u32 \<times> u32) list, manager) outcome" where
  "sort_segments cid blocked [] m = Ok ([], []) m"
| "sort_segments cid blocked ((b, info) # bs) m =
     (case map_of (mg_clients m) cid of
        None \<Rightarrow> Crash NullDereference
      | Some p \<Rightarrow>
          bind_o (if bi_messageID info = kCCIMessageID then
                    bind_o (mg_GetBlockPtr b m) (\<lambda>a m.
                      let dst = dstClientID (mg_mem m) a in Ok (dst = cid \<or> ucast dst = kCCIBcastID) m)
                  else Ok (bi_messageID info \<in> set (px_registered p)) m) (\<lambda>wantMsg m.
          if \<not> wantMsg then sort_segments cid blocked bs m
          else
            bind_o (if blocked then Ok False m
                    else if mg_blocksPerSlab m = 0 then Crash DivideByZero
                    else on_proxy cid (on_slabs (TakeConsSlab (b div mg_blocksPerSlab m))) m) (\<lambda>tookSlab m.
            bind_o (sort_segments cid (\<not> tookSlab) bs m) (\<lambda>(send, want).
              Ok (if tookSlab then ((b, bi_size info) # send, want) else (send, (b, bi_size info) # want))))))"

definition enqueue_wanted :: "nat \<Rightarrow> u32 \<Rightarrow> proxy \<Rightarrow> (unit, proxy) outcome" where
  "enqueue_wanted seg segSize p =
     Ok () (p\<lparr>px_wantedQueue := px_wantedQueue p @ [seg],
             px_stats := (px_stats p)\<lparr>ps_wantedBytesIn := ps_wantedBytesIn (px_stats p) + ucast segSize\<rparr>\<rparr>)"

definition SendSegments :: "u16 \<Rightarrow> (u32 \<times> block_info) list \<Rightarrow> manager \<Rightarrow> (unit, manager) outcome" where
  "SendSegments cid bs m =
     (case map_of (mg_clients m) cid of
        None \<Rightarrow> Crash NullDereference
      | Some p \<Rightarrow>
          bind_o (sort_segments cid (px_wantedQueue p \<noteq> []) bs m) (\<lambda>(send, want) m.
          bind_o (if send \<noteq> [] then
                    bind_o (mg_IncrementHeldRefcnt (map (\<lambda>(b, _). b div mg_blocksPerSlab m) send) m) (\<lambda>_ m.
                    bind_o (px_SendBlockIDs cid send m) (\<lambda>_. Ok ()))
                  else Ok () m) (\<lambda>_ m.
          bind_o (for_each (\<lambda>(b, size) m.
                    bind_o (mg_GetWantedSegment cid b m) (\<lambda>seg m.
                    on_proxy cid (enqueue_wanted seg size) m)) want m) (\<lambda>_ m.
          bind_o (on_proxy cid (\<lambda>p. Ok () (p\<lparr>px_stats := (px_stats p)\<lparr>ps_wantedSegsIn :=
                    ps_wantedSegsIn (px_stats p) + of_nat (length want)\<rparr>\<rparr>)) m) (\<lambda>_.
          PopWantedQueue cid)))))"

definition store_info :: "u32 \<Rightarrow> u32 \<times> block_info \<Rightarrow> manager \<Rightarrow> (unit, manager) outcome" where
  "store_info totalNumBlocks = (\<lambda>(b, info) m.
     if b \<ge> totalNumBlocks then Throw ''client sent blockID>=totalNumBlocks'' m
     else if mg_blocksPerSlab m = 0 then Crash DivideByZero
     else bind_o (with_shm (SetBlockInfo b info) m) (\<lambda>_ m.
       Ok () (m\<lparr>mg_stats := (mg_stats m)\<lparr>ms_rcvdBytes := ms_rcvdBytes (mg_stats m) + ucast (bi_size info)\<rparr>\<rparr>)))"

definition TakeBlocksAndInfo :: "(u32 \<times> block_info) list \<Rightarrow> u16 \<Rightarrow> manager \<Rightarrow> (unit, manager) outcome" where
  "TakeBlocksAndInfo bs srcGroupID m =
     bind_o (for_each (store_info (TotalNumBlocks (mg_shm m))) bs m) (\<lambda>_ m.
       for_each (\<lambda>cid m.
           case map_of (mg_clients m) cid of
             None \<Rightarrow> Crash NullDereference
           | Some p \<Rightarrow>
               if sendFailed p \<or> srcGroupID \<noteq> 0 \<and> srcGroupID = groupID p then Ok () m
               else SendSegments cid bs m)
         (map fst (mg_clients m))
         (m\<lparr>mg_stats := (mg_stats m)\<lparr>ms_rcvdSegs := ms_rcvdSegs (mg_stats m) + of_nat (length bs)\<rparr>\<rparr>))"

section \<open>Registrations\<close>

fun mg_SendRegistration_loop ::
  "u32 \<Rightarrow> u16 \<Rightarrow> u16 \<Rightarrow> u32 list \<Rightarrow> u16 list \<Rightarrow> manager \<Rightarrow> (int, manager) outcome" where
  "mg_SendRegistration_loop type cid gid msgIDs [] m = Ok 0 m"
| "mg_SendRegistration_loop type cid gid msgIDs (c # cs) m =
     (case map_of (mg_clients m) c of
        None \<Rightarrow> Crash NullDereference
      | Some p \<Rightarrow>
          if \<not> px_wantRegistrations p then mg_SendRegistration_loop type cid gid msgIDs cs m
          else bind_o (on_proxy c (px_SendRegistration type cid gid msgIDs) m) (\<lambda>r m.
               bind_o (mg_SendRegistration_loop type cid gid msgIDs cs m) (\<lambda>s. Ok (r + s))))"

definition mg_SendRegistration :: "u32 \<Rightarrow> u16 \<Rightarrow> u16 \<Rightarrow> u32 list \<Rightarrow> manager \<Rightarrow> (int, manager) outcome" where
  "mg_SendRegistration type cid gid msgIDs m = mg_SendRegistration_loop type cid gid msgIDs (map fst (mg_clients m)) m"

text \<open>
  \<open>SendRegistrationsToFD\<close> of the proxy \<open>q\<close> with the socket of the proxy \<open>r\<close>: the bytes go to the
  socket of \<open>r\<close>, the flags are those of \<open>q\<close>.
\<close>

function send_registered :: "u32 list \<Rightarrow> proxy \<Rightarrow> (unit, proxy) outcome" where
  "send_registered ids q =
     (if ids = [] then Ok () q
      else bind_o (caught 0 (SendRegistration kRegType_RegisterList (px_clientID q) (groupID q) (take kMaxMsgIDs ids) q))
             (\<lambda>_ q. send_registered (drop kMaxMsgIDs ids) q))"
  by pat_completeness auto
termination
  by (relation "measure (\<lambda>(ids, q). length ids)") (auto simp: kMaxMsgIDs_def kMaxPayloadSize_def)

declare send_registered.simps [simp del]

definition px_SendRegistrationsToFD :: "u16 \<Rightarrow> u16 \<Rightarrow> manager \<Rightarrow> (unit, manager) outcome" where
  "px_SendRegistrationsToFD q r m =
     (if q = r then on_proxy q (\<lambda>p. send_registered (px_registered p) p) m
      else case (map_of (mg_clients m) q, map_of (mg_clients m) r) of
        (Some pq, Some pr) \<Rightarrow>
          lift_o (\<lambda>p. put_proxy r (pr\<lparr>sock_out := sock_out p, kernel := kernel p\<rparr>)
                      (put_proxy q (p\<lparr>sock_out := sock_out pq, kernel := kernel pq\<rparr>) m))
            (send_registered (px_registered pq) (pq\<lparr>sock_out := sock_out pr, kernel := kernel pr\<rparr>))
      | _ \<Rightarrow> Crash NullDereference)"

definition mg_SendRegistrationsToFD :: "u16 \<Rightarrow> manager \<Rightarrow> (unit, manager) outcome" where
  "mg_SendRegistrationsToFD r m = for_each (\<lambda>q. px_SendRegistrationsToFD q r) (map fst (mg_clients m)) m"

section \<open>Handlers\<close>

definition px_HandleGroupIDStr :: "u16 \<Rightarrow> u8 list \<Rightarrow> manager \<Rightarrow> (unit, manager) outcome" where
  "px_HandleGroupIDStr cid str m =
     (case map_of (mg_clients m) cid of
        None \<Rightarrow> Crash NullDereference
      | Some p \<Rightarrow>
          if px_registered p \<noteq> [] then Throw ''error: changing groupID while registered for messages'' m
          else if groupID p \<noteq> 0 then Throw ''error: changing groupID after already set'' m
          else case GetGroupID (map (\<lambda>b. char_of (unat b)) str) True True (mg_groups m) of
            None \<Rightarrow> Crash NonTermination
          | Some (gid, g) \<Rightarrow> bind_o (on_proxy cid (SendGroupID (of_int gid) True) (m\<lparr>mg_groups := g\<rparr>)) (\<lambda>_. Ok ()))"

definition px_HandleCtrlString :: "u16 \<Rightarrow> u32 \<Rightarrow> u8 list \<Rightarrow> manager \<Rightarrow> (unit, manager) outcome" where
  "px_HandleCtrlString cid which str m =
     (if which = kCtrlString_ClientName then on_proxy cid (\<lambda>p. Ok () (p\<lparr>px_clientName := str\<rparr>)) m
      else if which = kCtrlString_GroupID then px_HandleGroupIDStr cid str m
      else Ok () m)"

text \<open>\<open>HandleNumSlabs\<close>: the differences are taken as \<open>int\<close>.\<close>

definition growth :: "u32 \<Rightarrow> u32 \<Rightarrow> u32" where
  "growth new old = (if new - old <s 0 then 0 else new - old)"

definition px_HandleNumSlabs :: "u16 \<Rightarrow> u32 \<Rightarrow> u32 \<Rightarrow> manager \<Rightarrow> (unit, manager) outcome" where
  "px_HandleNumSlabs cid prodSlbs consSlbs m =
     (case map_of (mg_clients m) cid of
        None \<Rightarrow> Crash NullDereference
      | Some p \<Rightarrow>
          let prod = numProdSlabs (px_slabs p); cons = numConsSlabs (px_slabs p);
              dProd = growth prodSlbs prod; dCons = growth consSlbs cons in
          bind_o (mg_GetSlabReservation (dProd + dCons) m) (\<lambda>failed m.
            let prod = (if failed = 0 then prod + dProd else prod); cons = (if failed = 0 then cons + dCons else cons) in
            bind_o (on_proxy cid (\<lambda>p. SendNumSlabs prod cons
                (if failed = 0 then p\<lparr>px_slabs := (px_slabs p)\<lparr>numProdSlabs := prod, numConsSlabs := cons\<rparr>\<rparr> else p)) m) (\<lambda>_ m.
            if failed \<noteq> 0 then Throw ''Manager::ReserveSlabs was denied'' m
            else FillProducerSlabs cid m)))"

definition px_HandleDropReportAck :: "u16 \<Rightarrow> manager \<Rightarrow> (unit, manager) outcome" where
  "px_HandleDropReportAck cid m =
     bind_o (on_proxy cid (\<lambda>p. Ok () (p\<lparr>px_drops := dr_Ack (px_drops p)\<rparr>)) m) (\<lambda>_ m.
     bind_o (px_SendDropReport cid 0 0 m) (\<lambda>_. Ok ()))"

definition px_HandleBlockIDs :: "u16 \<Rightarrow> u32 list \<Rightarrow> manager \<Rightarrow> (unit, manager) outcome" where
  "px_HandleBlockIDs cid blockIDs m =
     (case map_of (mg_clients m) cid of
        None \<Rightarrow> Crash NullDereference
      | Some p \<Rightarrow>
          if px_blocksPerSlab p = 0 \<and> blockIDs \<noteq> [] then Crash DivideByZero
          else let slabIDs = map (\<lambda>b. b div px_blocksPerSlab p) blockIDs in
            bind_o (on_proxy cid (on_slabs (DecrementConsSlabs slabIDs)) m) (\<lambda>_ m.
            bind_o (mg_DecrementHeldRefcnt (map (\<lambda>i. (i, 1)) slabIDs) m) (\<lambda>_.
            PopWantedQueue cid)))"

definition px_HandleSlabIDs :: "u16 \<Rightarrow> u32 list \<Rightarrow> manager \<Rightarrow> (unit, manager) outcome" where
  "px_HandleSlabIDs cid slabIDs m =
     bind_o (on_proxy cid (on_slabs (EraseProdSlabs slabIDs)) m) (\<lambda>_ m.
     bind_o (mg_DecrementHeldRefcnt (map (\<lambda>i. (i, 1)) slabIDs) m) (\<lambda>_.
     FillProducerSlabs cid))"

fun register_ids :: "u32 list \<Rightarrow> proxy \<Rightarrow> (u32 list, proxy) outcome" where
  "register_ids [] p = Ok [] p"
| "register_ids (i # ids) p =
     (if i = kCCIMessageID then Throw ''Cannot register for reserved msgID (kCCIMessageID)'' p
      else if i \<in> set (px_registered p) then register_ids ids p
      else bind_o (register_ids ids (p\<lparr>px_registered := oset_insert i (px_registered p)\<rparr>)) (\<lambda>ns. Ok (i # ns)))"

fun deregister_ids :: "u32 list \<Rightarrow> proxy \<Rightarrow> (u32 list, proxy) outcome" where
  "deregister_ids [] p = Ok [] p"
| "deregister_ids (i # ids) p =
     (if i \<in> set (px_registered p)
      then bind_o (deregister_ids ids (p\<lparr>px_registered := remove1 i (px_registered p)\<rparr>)) (\<lambda>ns. Ok (i # ns))
      else deregister_ids ids p)"

definition px_HandleRegistration :: "u16 \<Rightarrow> u32 \<Rightarrow> u16 \<Rightarrow> u16 \<Rightarrow> u32 list \<Rightarrow> manager \<Rightarrow> (unit, manager) outcome" where
  "px_HandleRegistration me type cid gid msgIDs m =
     (case map_of (mg_clients m) me of
        None \<Rightarrow> Crash NullDereference
      | Some p \<Rightarrow>
          if cid \<noteq> me then Throw ''error: clientID mismatch in registration message'' m
          else if gid \<noteq> groupID p then Throw ''error: groupID mismatch in registration message'' m
          else if type = kRegType_RegisterList \<or> type = kRegType_DeregisterList then
            bind_o (on_proxy me (if type = kRegType_RegisterList then register_ids msgIDs else deregister_ids msgIDs) m) (\<lambda>ns m.
              if ns = [] then Ok () m else bind_o (mg_SendRegistration type cid gid ns m) (\<lambda>_. Ok ()))
          else Ok () m)"

definition px_HandleRegistrationsWanted :: "u16 \<Rightarrow> bool \<Rightarrow> bool \<Rightarrow> manager \<Rightarrow> (unit, manager) outcome" where
  "px_HandleRegistrationsWanted cid wantNew wantCurrent m =
     bind_o (on_proxy cid (\<lambda>p. Ok () (p\<lparr>px_wantRegistrations := wantNew\<rparr>)) m) (\<lambda>_ m.
       if wantCurrent then mg_SendRegistrationsToFD cid m else Ok () m)"

fun check_cci :: "u16 \<Rightarrow> (u32 \<times> block_info) list \<Rightarrow> manager \<Rightarrow> (unit, manager) outcome" where
  "check_cci cid [] m = Ok () m"
| "check_cci cid ((b, info) # bs) m =
     (if bi_messageID info \<noteq> kCCIMessageID then check_cci cid bs m
      else bind_o (mg_GetBlockPtr b m) (\<lambda>a m.
        if srcClientID (mg_mem m) a \<noteq> cid then Throw ''clientID mismatch for CCI message'' m
        else if cid \<noteq> 0 \<and> dstClientID (mg_mem m) a = 0 then Throw ''sending CCI message to 0'' m
        else check_cci cid bs m))"

definition px_HandleBlocksAndInfo :: "u16 \<Rightarrow> (u32 \<times> block_info) list \<Rightarrow> manager \<Rightarrow> (unit, manager) outcome" where
  "px_HandleBlocksAndInfo cid bs m =
     bind_o (check_cci cid bs m) (\<lambda>_ m.
       case map_of (mg_clients m) cid of
         None \<Rightarrow> Crash NullDereference
       | Some p \<Rightarrow>
           bind_o (TakeBlocksAndInfo bs (groupID p) m) (\<lambda>_.
           on_proxy cid (\<lambda>p. Ok () (p\<lparr>px_stats := (px_stats p)\<lparr>ps_rcvdSegs := ps_rcvdSegs (px_stats p) + of_nat (length bs),
             ps_rcvdBytes := ps_rcvdBytes (px_stats p) + (\<Sum>(b, info) \<leftarrow> bs. ucast (bi_size info))\<rparr>\<rparr>))))"

text \<open>\<open>HandleProdNiceLevel\<close> stores the \<open>int32_t\<close> in a \<open>char\<close>.\<close>

definition proxy_call :: "u16 \<Rightarrow> endpoint_call \<Rightarrow> manager \<Rightarrow> (unit, manager) outcome" where
  "proxy_call cid c m =
     (case c of
        HandleBlockIDs ids \<Rightarrow> px_HandleBlockIDs cid ids m
      | HandleSlabIDs ids \<Rightarrow> px_HandleSlabIDs cid ids m
      | HandleBlocksAndInfo ids infos \<Rightarrow> px_HandleBlocksAndInfo cid (zip ids infos) m
      | HandleManagerEcho bs \<Rightarrow> bind_o (on_proxy cid (SendManagerEcho bs) m) (\<lambda>_. Ok ())
      | HandleSequenceToken t \<Rightarrow> bind_o (on_proxy cid (SendSequenceToken t) m) (\<lambda>_. Ok ())
      | HandleRegistration type i g ids \<Rightarrow> px_HandleRegistration cid type i g ids m
      | HandleDropReportAck \<Rightarrow> px_HandleDropReportAck cid m
      | HandleCtrlString which str \<Rightarrow> px_HandleCtrlString cid which str m
      | HandleNumSlabs p n \<Rightarrow> px_HandleNumSlabs cid p n m
      | HandleClientPID pid \<Rightarrow> on_proxy cid (\<lambda>p. Ok () (p\<lparr>px_clientPID := pid\<rparr>)) m
      | HandleRegistrationsWanted a b \<Rightarrow> px_HandleRegistrationsWanted cid a b m
      | HandleProdNiceLevel level \<Rightarrow> on_proxy cid (\<lambda>p. Ok () (p\<lparr>px_prodNiceLevel := ucast level\<rparr>)) m
      | _ \<Rightarrow> base_handler c m)"

text \<open>
  Inside \<open>Poll\<close> of a proxy the state is the proxy with the manager around it; a handler puts the proxy
  back among the clients, runs, and takes it out again.
\<close>

record polled = proxy +
  pl_manager :: manager

definition leave_proxy :: "polled \<Rightarrow> manager" where
  "leave_proxy s = put_proxy (px_clientID s) (proxy.truncate s) (pl_manager s)"

definition enter_proxy :: "u16 \<Rightarrow> polled \<Rightarrow> manager \<Rightarrow> polled" where
  "enter_proxy cid s m =
     (case map_of (mg_clients m) cid of
        None \<Rightarrow> s\<lparr>pl_manager := m\<rparr>
      | Some p \<Rightarrow> proxy.extend p (polled.fields m))"

definition proxy_handler :: "polled call_handler" where
  "proxy_handler c s = lift_o (enter_proxy (px_clientID s) s) (proxy_call (px_clientID s) c (leave_proxy s))"

section \<open>Clients come and go\<close>

definition ClientProxy :: "nat \<Rightarrow> send_result list \<Rightarrow> u16 \<Rightarrow> manager \<Rightarrow> (unit, proxy) outcome" where
  "ClientProxy adr answers cid m =
     (let p = \<lparr>sendFailed = False, validPeer = False, throwOnPeerDisconnect = True, groupID = 0, blockRetry = True,
           sock_out = [], kernel = answers, px_addr = adr, px_recvBuf = [], px_clientID = cid, px_clientPID = - 1,
           px_clientName = [], px_slabs = SlabTracker, px_registered = [], px_wantRegistrations = False,
           px_blocksPerSlab = 0, px_prodNiceLevel = 0, px_pendingRqsts = 0,
           px_stats = ProxyStats\<lparr>ps_clientID := cid\<rparr>, px_drops = dr_Reset, px_wantedQueue = [],
           px_maxWantedQueueSize = 1024\<rparr>
      in bind_o (SocketEndpoint p) (\<lambda>_ p.
         bind_o (SendClientID cid (p\<lparr>throwOnPeerDisconnect := False, blockRetry := False\<rparr>)) (\<lambda>_ p.
         CheckBufferParams (shm_TotalNumSlabs (mg_shm m)) (mg_blocksPerSlab m) (shm_nameFormat (mg_shm m)) p)))"

function DeregisterAllMsgIDs :: "u32 list \<Rightarrow> proxy \<Rightarrow> manager \<Rightarrow> (unit, manager) outcome" where
  "DeregisterAllMsgIDs ids p m =
     (if ids = [] then Ok () m
      else bind_o (mg_SendRegistration kRegType_DeregisterList (px_clientID p) (groupID p) (take kMaxMsgIDs ids) m)
             (\<lambda>_ m. DeregisterAllMsgIDs (drop kMaxMsgIDs ids) p m))"
  by pat_completeness auto
termination
  by (relation "measure (\<lambda>(ids, p, m). length ids)") (auto simp: kMaxMsgIDs_def kMaxPayloadSize_def)

declare DeregisterAllMsgIDs.simps [simp del]

text \<open>The destructor; the proxy is no longer among the clients.\<close>

definition ClientProxy_destroy :: "proxy \<Rightarrow> manager \<Rightarrow> (unit, manager) outcome" where
  "ClientProxy_destroy p m =
     bind_o (for_each mg_ReleaseWantedSegment (px_wantedQueue p) m) (\<lambda>_ m.
       let t = px_slabs p; (_, m) = ReleaseSlabReservation (numProdSlabs t + numConsSlabs t) m;
           (prods, t) = GetAndEraseProdSlabs (unat (prodSlabsHeld t)) t in
       bind_o (if prodSlabsHeld t \<noteq> 0 then caught () (mg_DecrementHeldRefcnt (map (\<lambda>i. (i, 1)) prods) m) else Ok () m) (\<lambda>_ m.
       let (conss, t) = GetAndEraseConsSlabs (unat (consSlabsHeld t)) t in
       bind_o (if consSlabsHeld t \<noteq> 0 then caught () (mg_DecrementHeldRefcnt conss m) else Ok () m) (\<lambda>_ m.
       bind_o (if groupID p \<noteq> 0
               then bind_o (lift_o (\<lambda>g. m\<lparr>mg_groups := g\<rparr>) (DecGroupID (sint (groupID p)) (mg_groups m))) (\<lambda>_. Ok ())
               else Ok () m) (\<lambda>_ m.
       caught () (DeregisterAllMsgIDs (px_registered p) p m)))))"

definition kMaxClientID :: u16 where "kMaxClientID = 9999"

definition advance_clientID :: "manager \<Rightarrow> manager" where
  "advance_clientID m =
     m\<lparr>mg_nextNewClientID := (if mg_nextNewClientID m \<ge> kMaxClientID then 0 else mg_nextNewClientID m + 1)\<rparr>"

partial_function (option) GetNewClientID :: "manager \<Rightarrow> (u16 \<times> manager) option" where
  "GetNewClientID m =
     (let newID = mg_nextNewClientID m; m = advance_clientID m in
      if map_of (mg_clients m) newID = None then Some (newID, m) else GetNewClientID m)"

definition AddConnectedClient :: "nat \<Rightarrow> send_result list \<Rightarrow> manager \<Rightarrow> (unit, manager) outcome" where
  "AddConnectedClient adr answers m =
     (if length (mg_clients m) \<ge> unat (mg_maxNumClients m) then Ok () m
      else case GetNewClientID m of
        None \<Rightarrow> Crash NonTermination
      | Some (cid, m) \<Rightarrow>
          (case ClientProxy adr answers cid m of
             Crash c \<Rightarrow> Crash c
           | Throw e p \<Rightarrow> Ok () m
           | Ok _ p \<Rightarrow> Ok () (m\<lparr>mg_clients := om_insert cid p (mg_clients m)\<rparr>)))"

text \<open>The iterator \<open>statsIter\<close> as the client ID it is at, none at the end of the map.\<close>

definition next_client :: "u16 \<Rightarrow> (u16, proxy) omap \<Rightarrow> u16 option" where
  "next_client cid cs = (case filter (\<lambda>c. cid < c) (map fst cs) of [] \<Rightarrow> None | c # _ \<Rightarrow> Some c)"

definition ErasingClientHook :: "u16 \<Rightarrow> manager \<Rightarrow> manager" where
  "ErasingClientHook cid m =
     (if mg_statsIter m = Some cid then m\<lparr>mg_statsIter := next_client cid (mg_clients m)\<rparr> else m)"

definition kNotice :: int where "kNotice = 3"

definition HandleTimer :: "manager \<Rightarrow> manager" where
  "HandleTimer m =
     (if mg_verbosity m \<le> kNotice then m
      else m\<lparr>mg_stats := (mg_stats m)\<lparr>ms_numClients := of_nat (length (mg_clients m)),
               ms_numBuffers := of_nat (length (shm_headerVec (mg_shm m))), ms_numSlabs := NumSlabs m,
               ms_numSlabsReserved := numSlabsReserved m, ms_numSlabsNonreservable := numSlabsNonreservable m,
               ms_numFreeSlabs := of_nat (length (freeSlabs m)), ms_numHeldSlabs := of_nat (length (heldSlabs m)),
               ms_numWantedSlabs := of_nat (length (wantedSlabs m))\<rparr>,
             mg_statsIter := (case mg_clients m of [] \<Rightarrow> None | (c, _) # _ \<Rightarrow> Some c)\<rparr>)"

definition HandleIdle :: "manager \<Rightarrow> manager" where
  "HandleIdle m =
     (case mg_statsIter m of
        None \<Rightarrow> m
      | Some c \<Rightarrow> m\<lparr>mg_statsIter := next_client c (mg_clients m)\<rparr>)"

definition DeleteClient :: "u16 \<Rightarrow> manager \<Rightarrow> (unit, manager) outcome" where
  "DeleteClient cid m =
     (case map_of (mg_clients m) cid of
        None \<Rightarrow> Crash NullDereference
      | Some p \<Rightarrow>
          let m = ErasingClientHook cid m in
          ClientProxy_destroy p (m\<lparr>mg_clients := om_erase cid (mg_clients m)\<rparr>))"

text \<open>
  \<open>Readable\<close>: one \<open>recv\<close> and the handlers it leads to.  The result 0, also of an interrupted call, and
  an exception delete the client.
\<close>

definition px_Read :: "u16 \<Rightarrow> recv_result \<Rightarrow> manager \<Rightarrow> (nat, manager) outcome" where
  "px_Read cid r m =
     (case map_of (mg_clients m) cid of
        None \<Rightarrow> Crash NullDereference
      | Some p \<Rightarrow>
          lift_o (\<lambda>(buf, s). leave_proxy (s\<lparr>px_recvBuf := buf\<rparr>))
            (Poll proxy_handler r (px_recvBuf p, proxy.extend p (polled.fields m))))"

definition Readable :: "u16 \<Rightarrow> recv_result \<Rightarrow> manager \<Rightarrow> (unit, manager) outcome" where
  "Readable cid r m =
     bind_o (caught 0 (px_Read cid r m)) (\<lambda>readResult m.
       if readResult = 0 then DeleteClient cid m else Ok () m)"

definition Manager ::
  "shm_mapper \<Rightarrow> u32 \<Rightarrow> u32 \<Rightarrow> (u32 \<Rightarrow> u32) \<Rightarrow> slab_request_manager \<Rightarrow> u32 \<Rightarrow> bool \<Rightarrow> bool \<Rightarrow> int \<Rightarrow> memory
     \<Rightarrow> (unit, manager) outcome" where
  "Manager shm slabsPerBuffer nBuffers pct requests mxNumClients allowUnlocked playback verbosity mem =
     (let m = slab_manager.extend (SlabManager slabsPerBuffer (unat nBuffers) pct)
         (manager.fields shm GroupManager requests [] 0 mxNumClients allowUnlocked playback (BlocksPerSlab shm)
            ManagerStats None verbosity mem)
      in bind_o (IncreaseNumBuffers nBuffers (m\<lparr>whichStateChange := kHeldToFree OR kWantedToFree\<rparr>)) (\<lambda>_. Ok ()))"

end
