(* ===== verification/Endpoint_Calm.thy ===== *)
theory Endpoint_Calm
  imports Endpoint_Frame
begin

text \<open>
  Sends that end.  A socket whose answers are whole messages, retries or errors is \<open>calm\<close>: on it no
  \<open>Send\<close> function crashes, whatever it sends, and the socket stays calm.  (A send of a control
  message that takes part of the bytes runs past its vectors, \<open>SendCtrlMsg_partial_overrun\<close>.)
\<close>

definition whole_answer :: "send_result \<Rightarrow> bool" where
  "whole_answer r \<longleftrightarrow> (case r of Sent n \<Rightarrow> kMaxCtrlMsgSize \<le> n | _ \<Rightarrow> True)"

definition calm :: "'a endpoint_scheme \<Rightarrow> bool" where
  "calm st \<longleftrightarrow> (\<forall>r \<in> set (kernel st). whole_answer r)"

abbreviation stays_calm :: "('a, 'b endpoint_scheme) outcome \<Rightarrow> bool" where
  "stays_calm r \<equiv> sat r (\<lambda>_. calm) (\<lambda>_. calm)"

lemma kernel_send_calm:
  assumes "calm st"
  shows "sat (kernel_send err bs st) (\<lambda>r s. calm s
      \<and> (kernel st = [] \<longrightarrow> r = Some (length bs)) \<and> length (kernel s) = length (kernel st) - 1
      \<and> (\<forall>k. r = Some k \<longrightarrow> k \<le> length bs \<and> (length bs \<le> kMaxCtrlMsgSize \<longrightarrow> k = length bs))) (\<lambda>_. calm)"
  using assms by (auto simp: kernel_send_def calm_def whole_answer_def Let_def min_def split: list.splits send_result.splits)

lemma SendBlockIDs_loop_calm:
  assumes "calm st" "length (kernel st) + 1 < fuel \<or> len \<le> t \<and> 0 < fuel" "len \<le> length pay"
  shows "stays_calm (SendBlockIDs_loop fuel t len pay st)"
  using assms
proof (induction fuel arbitrary: t len pay st)
  case (Suc fuel)
  show ?case
  proof (cases "t < len")
    case True
    have "sat (bind_o (kernel_send ''send error: '' (take len pay) st) (\<lambda>r st. case r of
            None \<Rightarrow> SendBlockIDs_loop fuel t len pay st
          | Some sent \<Rightarrow> SendBlockIDs_loop fuel (t + sent) (len - sent) (drop sent pay) st)) (\<lambda>_. calm) (\<lambda>_. calm)"
    proof (rule sat_bind [OF kernel_send_calm [OF Suc.prems(1)]], goal_cases)
      case (1 r s)
      show ?case
      proof (cases "kernel st")
        case Nil
        then have "r = Some len" using 1 Suc.prems(3) by simp
        then show ?thesis using 1 Suc True Nil by simp
      next
        case (Cons a list)
        then show ?thesis using 1 Suc True by (auto split: option.splits)
      qed
    qed
    then show ?thesis using True by simp
  qed (use Suc.prems in auto)
qed simp

lemma SendBlockIDs_calm: "calm st \<Longrightarrow> stays_calm (SendBlockIDs ids st)"
  by (simp add: SendBlockIDs_def SendBlockIDs_loop_calm del: SendBlockIDs_loop.simps)

lemma SendCtrlMsg_loop_calm:
  assumes "calm st" "length (kernel st) + 1 < fuel" "length (concat iov) = len" "len \<le> kMaxCtrlMsgSize"
  shows "stays_calm (SendCtrlMsg_loop fuel 0 len iov st)"
  using assms
proof (induction fuel arbitrary: st)
  case (Suc fuel)
  have "sat (bind_o (kernel_send ''sendmsg error: '' (concat iov) st) (\<lambda>r st. case r of
            None \<Rightarrow> SendCtrlMsg_loop fuel 0 len iov st
          | Some sent \<Rightarrow>
              if 0 + sent = len then Ok (0 + sent) st
              else case advance_iov (int sent) iov of
                None \<Rightarrow> Crash OutOfBounds
              | Some iov' \<Rightarrow> SendCtrlMsg_loop fuel (0 + sent) len iov' st)) (\<lambda>_. calm) (\<lambda>_. calm)"
  proof (rule sat_bind [OF kernel_send_calm [OF Suc.prems(1)]], goal_cases)
    case (1 r s)
    show ?case
    proof (cases r)
      case None
      then have "kernel st \<noteq> []" using 1 by auto
      then have "length (kernel s) + 1 < fuel" using 1 Suc.prems(2) by (cases "kernel st") auto
      then show ?thesis using Suc.IH [of s] 1 None Suc.prems(3,4) by simp
    next
      case (Some k)
      then have "k = len" using 1 Suc.prems(3,4) by auto
      then show ?thesis using Some 1 by simp
    qed
  qed
  then show ?case using Suc.prems by simp
qed simp

lemma SendCtrlMsg_calm: "calm st \<Longrightarrow> stays_calm (SendCtrlMsg m parts st)"
  by (simp add: SendCtrlMsg_def Let_def SendCtrlMsg_loop_calm CtrlMsgHdr_def kMaxCtrlMsgSize_def del: SendCtrlMsg_loop.simps)

lemma SendBlocksAndInfo_loop_calm: "calm st \<Longrightarrow> stays_calm (SendBlocksAndInfo_loop t bs st)"
proof (induction t bs st rule: SendBlocksAndInfo_loop.induct)
  case (2 t b bs st)
  show ?case
    unfolding SendBlocksAndInfo_loop.simps Let_def
    by (rule sat_bind [OF SendCtrlMsg_calm [OF 2(2)]]) (use 2(1) in simp)
qed simp

lemma SendRegistration_loop_calm: "calm st \<Longrightarrow> stays_calm (SendRegistration_loop type cid gid t ms st)"
proof (induction type cid gid t ms st rule: SendRegistration_loop.induct)
  case (2 type cid gid t m ms st)
  show ?case unfolding SendRegistration_loop.simps by (rule sat_bind [OF SendCtrlMsg_calm [OF 2(2)]]) (rule 2)
qed simp

lemma sends_calm:
  assumes "calm st"
  shows "stays_calm (SendSlabIDs ids st)" "stays_calm (SendBlockIDs ids st)" "stays_calm (SendCtrlString which str st)"
    "stays_calm (SendDropReport s n st)" "stays_calm (SendNumSlabs p c st)"
    "stays_calm (SendSequenceToken t st)" "stays_calm (SendClientID i st)" "stays_calm (SendManagerEcho bs st)"
    "stays_calm (SendRegistration type cid gid msgIDs st)" "stays_calm (SendGroupID gid loc st)"
    "stays_calm (SendValidatePeer st)"
  using assms
proof -
  have "calm (st\<lparr>groupID := gid\<rparr>)" using assms by (simp add: calm_def)
  then show "stays_calm (SendGroupID gid loc st)" using assms by (simp add: SendGroupID_def Let_def SendCtrlMsg_calm)
qed (use assms in \<open>simp_all add: SendSlabIDs_def SendCtrlString_def SendDropReport_def SendBlockIDs_calm SendCtrlMsg_calm
    SendNumSlabs_def SendSequenceToken_def SendClientID_def SendRegistration_def SendRegistration_loop_calm
    SendManagerEcho_def SendValidatePeer_def Let_def del: SendRegistration_loop.simps SendBlocksAndInfo_loop.simps\<close>)

text \<open>On a calm socket a send leaves everything but the socket alone, and neither crashes.\<close>

definition sends :: "'b endpoint_scheme \<Rightarrow> ('a, 'b endpoint_scheme) outcome \<Rightarrow> bool" where
  "sends st r \<longleftrightarrow> sat r (\<lambda>_ s. calm s \<and> unsocket s = unsocket st) (\<lambda>_ s. calm s \<and> unsocket s = unsocket st)"

lemma sendsI: "stays_calm r \<Longrightarrow> keeps unsocket st r \<Longrightarrow> sends st r"
  by (cases r) (auto simp: sends_def)

lemma calm_sends:
  assumes "calm st"
  shows "sends st (SendSlabIDs ids st)" "sends st (SendBlockIDs ids st)" "sends st (SendCtrlString which str st)"
    "sends st (SendDropReport s n st)" "sends st (SendNumSlabs p c st)" "sends st (SendSequenceToken t st)"
    "sends st (SendClientID i st)" "sends st (SendManagerEcho bs st)" "sends st (SendValidatePeer st)"
    "sends st (SendRegistration type cid gid msgIDs st)" "sends st (SendGroupID gid False st)"
  by (rule sendsI sends_calm [OF assms] more_sends_keep sends_keep |
      simp add: SendManagerEcho_def SendValidatePeer_def sends_keep)+

end
