(* ===== verification/Manager_Books.thy ===== *)
theory Manager_Books
  imports Endpoint_Calm Manager_Proxies
begin

unbundle bit_operations_syntax

text \<open>
  The books of the manager: what ties the \<open>SlabManager\<close>, the trackers and the wanted queues of the
  clients and the shared memory together, and what each operation does to them.

  \<open>books B d e S W m\<close> says that the parts of \<open>m\<close> keep their own invariants, that the queues of the
  clients are \<open>W\<close>, that the reference count of slab \<open>i\<close> is what the clients hold of it plus \<open>d i\<close>,
  that the segments queued at the slabs are those of the queues plus \<open>e\<close>, that the slabs \<open>S\<close> are held,
  and that the client \<open>c\<close> has at most \<open>B c\<close> references to a slab, wanted ones included.  Between the
  calls of the handlers \<open>d\<close> and \<open>e\<close> are empty; inside, they are what a handler has taken from one
  book and not yet entered in the other.
\<close>

section \<open>The books\<close>

definition px_holds :: "proxy \<Rightarrow> nat \<Rightarrow> nat" where
  "px_holds p i = prod_held (px_slabs p) i + cons_refs (px_slabs p) i"

definition clients_hold :: "manager \<Rightarrow> nat \<Rightarrow> nat" where
  "clients_hold m i = (\<Sum>(c, p) \<leftarrow> mg_clients m. px_holds p i)"

definition queues :: "manager \<Rightarrow> (u16, nat list) omap" where
  "queues m = map (\<lambda>(c, p). (c, px_wantedQueue p)) (mg_clients m)"

definition proxy_ok :: "nat \<Rightarrow> u32 \<Rightarrow> u16 \<Rightarrow> proxy \<Rightarrow> bool" where
  "proxy_ok n bps c p \<longleftrightarrow> c \<le> kMaxClientID \<and> px_clientID p = c \<and> calm p \<and> tracker_inv n (px_slabs p) \<and> px_blocksPerSlab p = bps"

definition parts_ok :: "manager \<Rightarrow> bool" where
  "parts_ok m \<longleftrightarrow> shm_ok (mg_shm m) \<and> mg_blocksPerSlab m = BlocksPerSlab (mg_shm m) \<and> mg_blocksPerSlab m \<noteq> 0
     \<and> unat (shm_numBlocks (mg_shm m)) = unat (slabsPerBuf m) * unat (mg_blocksPerSlab m)
     \<and> length (shm_headerVec (mg_shm m)) = length (infoVec m) \<and> infoVec m \<noteq> []
     \<and> unat (slabsPerBuf m) * unat (mg_blocksPerSlab m) * unat (shm_maxNumBuffers (mg_shm m)) < 2 ^ 32
     \<and> mg_nextNewClientID m \<le> kMaxClientID"

definition segment_slab :: "manager \<Rightarrow> nat \<Rightarrow> nat" where
  "segment_slab m seg = unat (ws_blockID (wantedSegmentBlocks m ! seg) div mg_blocksPerSlab m)"

definition books ::
  "(u16 \<Rightarrow> nat) \<Rightarrow> (nat \<Rightarrow> int) \<Rightarrow> nat multiset \<Rightarrow> nat set \<Rightarrow> (u16, nat list) omap \<Rightarrow> manager \<Rightarrow> bool" where
  "books B d e S W m \<longleftrightarrow>
     slab_inv m \<and> whichStateChange m = kHeldToFree OR kWantedToFree
     \<and> srm_inv (mg_requests m) \<and> group_inv (mg_groups m) \<and> parts_ok m \<and> om_ok (mg_clients m)
     \<and> (\<forall>(c, p) \<in> set (mg_clients m). proxy_ok (num_slabs m) (mg_blocksPerSlab m) c p
          \<and> (\<forall>i. cons_refs (px_slabs p) i + length (px_wantedQueue p) \<le> B c))
     \<and> queues m = W
     \<and> (\<forall>i < num_slabs m. int (held m i) = int (clients_hold m i) + d i)
     \<and> mset (queued_segs m) = (\<Sum>(c, q) \<leftarrow> W. mset q) + e
     \<and> (\<forall>(c, q) \<in> set W. \<forall>seg \<in> set q. ws_clientID (wantedSegmentBlocks m ! seg) = c)
     \<and> (\<forall>i < num_slabs m. \<forall>seg \<in> set (wantedSegs (slab_at m i)). segment_slab m seg = i)
     \<and> (\<forall>i \<in> S. held m i \<noteq> 0)"

lemma booksI:
  assumes "slab_inv m" "whichStateChange m = kHeldToFree OR kWantedToFree" "srm_inv (mg_requests m)"
    "group_inv (mg_groups m)" "parts_ok m" "om_ok (mg_clients m)"
    "\<And>c p. (c, p) \<in> set (mg_clients m) \<Longrightarrow> proxy_ok (num_slabs m) (mg_blocksPerSlab m) c p"
    "\<And>c p i. (c, p) \<in> set (mg_clients m) \<Longrightarrow> cons_refs (px_slabs p) i + length (px_wantedQueue p) \<le> B c"
    "queues m = W" "\<And>i. i < num_slabs m \<Longrightarrow> int (held m i) = int (clients_hold m i) + d i"
    "mset (queued_segs m) = (\<Sum>(c, q) \<leftarrow> W. mset q) + e"
    "\<And>c q seg. (c, q) \<in> set W \<Longrightarrow> seg \<in> set q \<Longrightarrow> ws_clientID (wantedSegmentBlocks m ! seg) = c"
    "\<And>i seg. i < num_slabs m \<Longrightarrow> seg \<in> set (wantedSegs (slab_at m i)) \<Longrightarrow> segment_slab m seg = i"
    "\<And>i. i \<in> S \<Longrightarrow> held m i \<noteq> 0"
  shows "books B d e S W m"
  using assms unfolding books_def by blast

lemma booksD:
  assumes "books B d e S W m"
  shows "slab_inv m" "whichStateChange m = kHeldToFree OR kWantedToFree" "srm_inv (mg_requests m)"
    "group_inv (mg_groups m)" "parts_ok m" "om_ok (mg_clients m)" "queues m = W"
    "mset (queued_segs m) = (\<Sum>(c, q) \<leftarrow> W. mset q) + e"
  using assms by (auto simp: books_def)

lemma books_held: "books B d e S W m \<Longrightarrow> i < num_slabs m \<Longrightarrow> int (held m i) = int (clients_hold m i) + d i"
  by (simp add: books_def)

lemma books_pinned: "books B d e S W m \<Longrightarrow> i \<in> S \<Longrightarrow> held m i \<noteq> 0"
  by (simp add: books_def)

lemma books_seg_slab:
  "books B d e S W m \<Longrightarrow> i < num_slabs m \<Longrightarrow> seg \<in> set (wantedSegs (slab_at m i)) \<Longrightarrow> segment_slab m seg = i"
  by (simp add: books_def)

lemma books_entry:
  assumes "books B d e S W m" "(c, p) \<in> set (mg_clients m)"
  shows "proxy_ok (num_slabs m) (mg_blocksPerSlab m) c p" "cons_refs (px_slabs p) i + length (px_wantedQueue p) \<le> B c"
  using assms unfolding books_def by blast+

lemma books_client:
  assumes "books B d e S W m" "map_of (mg_clients m) c = Some p"
  shows "proxy_ok (num_slabs m) (mg_blocksPerSlab m) c p" "cons_refs (px_slabs p) i + length (px_wantedQueue p) \<le> B c"
  using books_entry [OF assms(1) map_of_SomeD [OF assms(2)]] by blast+

lemma books_queued:
  assumes "books B d e S W m" "seg \<in> set (queued_segs m)"
  shows "segment_slab m seg < num_slabs m" "seg \<in> set (wantedSegs (slab_at m (segment_slab m seg)))"
proof -
  obtain i where "i < num_slabs m" "seg \<in> set (wantedSegs (slab_at m i))"
    using assms(2) by (auto simp: queued_segs_def)
  moreover from this have "segment_slab m seg = i" using assms(1) by (auto simp: books_def)
  ultimately show "segment_slab m seg < num_slabs m" "seg \<in> set (wantedSegs (slab_at m (segment_slab m seg)))" by auto
qed

lemma map_of_queues: "map_of (queues m) c = map_option px_wantedQueue (map_of (mg_clients m) c)"
  by (simp add: queues_def map_of_map)

lemma keys_queues: "map fst (queues m) = map fst (mg_clients m)"
  by (simp add: queues_def case_prod_beta comp_def)

lemma books_key: "books B d e S W m \<Longrightarrow> c \<in> set (map fst W) \<Longrightarrow> \<exists>p. map_of (mg_clients m) c = Some p"
  using booksD(7) keys_queues [of m] by (metis map_of_eq_None_iff not_None_eq list.set_map)

text \<open>What the operations do not look at.\<close>

lemma slab_inv_more:
  assumes "slab_manager.truncate m' = slab_manager.truncate m"
  shows "slab_inv m' = slab_inv m" "held m' = held m" "num_slabs m' = num_slabs m" "queued_segs m' = queued_segs m"
    "slab_at m' = slab_at m"
proof -
  have f: "slabsPerBuf m' = slabsPerBuf m" "infoVec m' = infoVec m" "freeSlabs m' = freeSlabs m" "heldSlabs m' = heldSlabs m"
    "wantedSlabs m' = wantedSlabs m" "freeWantedSegs m' = freeWantedSegs m" "wantedSegmentBlocks m' = wantedSegmentBlocks m"
    using assms by (simp_all add: slab_manager.truncate_def)
  show at: "slab_at m' = slab_at m" by (simp add: fun_eq_iff slab_at_def f)
  show n: "num_slabs m' = num_slabs m" by (simp add: num_slabs_def f)
  show q: "queued_segs m' = queued_segs m" by (simp add: queued_segs_def at n)
  show "slab_inv m' = slab_inv m" by (simp add: slab_inv_def slab_shape_def slab_lists_def seg_pool_def at n q f)
  show "held m' = held m" by (simp add: fun_eq_iff held_def at)
qed

section \<open>Sums over the clients\<close>

lemma sum_om_assign:
  fixes f :: "'k \<Rightarrow> 'v \<Rightarrow> 'b :: comm_monoid_add"
  assumes "map_of xs c = Some v"
  shows "(\<Sum>(k, v) \<leftarrow> om_assign c v' xs. f k v) + f c v = (\<Sum>(k, v) \<leftarrow> xs. f k v) + f c v'"
  using assms
proof (induction xs)
  case (Cons x xs)
  obtain k w where x: "x = (k, w)" by (cases x)
  show ?case
  proof (cases "k = c")
    case True
    then show ?thesis using Cons.prems x by (simp add: ac_simps)
  next
    case False
    then have "(\<Sum>(k, v) \<leftarrow> om_assign c v' xs. f k v) + f c v = (\<Sum>(k, v) \<leftarrow> xs. f k v) + f c v'"
      using Cons x by simp
    then show ?thesis using False x by (simp add: add.assoc)
  qed
qed simp

lemma sum_om_insert:
  fixes f :: "'k :: linorder \<Rightarrow> 'v \<Rightarrow> 'b :: comm_monoid_add"
  assumes "map_of xs c = None"
  shows "(\<Sum>(k, v) \<leftarrow> om_insert c v xs. f k v) = f c v + (\<Sum>(k, v) \<leftarrow> xs. f k v)"
  using assms
proof (induction xs)
  case (Cons x xs)
  obtain k w where x: "x = (k, w)" by (cases x)
  then have "k \<noteq> c" "map_of xs c = None" using Cons.prems by (auto split: if_splits)
  then show ?case using Cons.IH x by (simp add: add.left_commute)
qed simp

lemma sum_om_erase:
  fixes f :: "'k \<Rightarrow> 'v \<Rightarrow> 'b :: comm_monoid_add"
  assumes "map_of xs c = Some v"
  shows "f c v + (\<Sum>(k, v) \<leftarrow> om_erase c xs. f k v) = (\<Sum>(k, v) \<leftarrow> xs. f k v)"
  using assms
proof (induction xs)
  case (Cons x xs)
  obtain k w where x: "x = (k, w)" by (cases x)
  show ?case
  proof (cases "k = c")
    case False
    then have "f c v + (\<Sum>(k, v) \<leftarrow> om_erase c xs. f k v) = (\<Sum>(k, v) \<leftarrow> xs. f k v)" using Cons x by simp
    then have "f k w + (f c v + (\<Sum>(k, v) \<leftarrow> om_erase c xs. f k v)) = f k w + (\<Sum>(k, v) \<leftarrow> xs. f k v)" by simp
    then show ?thesis using False x by (simp add: add.left_commute [of "f c v"])
  qed (use Cons.prems x in simp)
qed simp

lemma map_of_le_sum:
  fixes f :: "'k \<Rightarrow> 'v \<Rightarrow> nat"
  shows "map_of xs c = Some v \<Longrightarrow> f c v \<le> (\<Sum>(k, v) \<leftarrow> xs. f k v)"
  using sum_om_erase [of xs c v f] by simp

lemma client_hold_le: "map_of (mg_clients m) c = Some p \<Longrightarrow> px_holds p i \<le> clients_hold m i"
  using map_of_le_sum [of "mg_clients m" c p "\<lambda>_ p. px_holds p i"] by (simp add: clients_hold_def)

lemma px_holds_bound: "px_holds p i \<le> 2 ^ 16"
proof -
  have "cons_refs (px_slabs p) i < 2 ^ 16"
    using unsigned_less [of "consSlabRefcnt (px_slabs p) ! i", where ?'a = nat] by (simp add: cons_refs_def)
  moreover have "prod_held (px_slabs p) i \<le> 1" by (simp add: prod_held_def)
  ultimately show ?thesis by (simp add: px_holds_def)
qed

lemma few_clients:
  assumes "books B d e S W m"
  shows "length (mg_clients m) \<le> 10000"
proof -
  have d: "distinct (map fst (mg_clients m))" using booksD(6) [OF assms] by (rule om_ok_distinct)
  have "fst ` set (mg_clients m) \<subseteq> {0..kMaxClientID}" using assms by (auto simp: books_def proxy_ok_def)
  then have "unat ` fst ` set (mg_clients m) \<subseteq> {0..9999}" by (auto simp: kMaxClientID_def word_le_nat_alt)
  then have "card (unat ` fst ` set (mg_clients m)) \<le> 10000" using card_mono [of "{0..9999::nat}"] by fastforce
  then have "card (fst ` set (mg_clients m)) \<le> 10000" by (subst (asm) card_image) (auto intro!: inj_onI intro: unsigned_word_eqI)
  then show ?thesis using distinct_card [OF d] by simp
qed

lemma clients_hold_bound:
  assumes "books B d e S W m"
  shows "clients_hold m i < 2 ^ 32 - 1"
proof -
  have "(\<Sum>(c, p) \<leftarrow> xs. px_holds p i) \<le> length xs * 2 ^ 16" for xs :: "(u16 \<times> proxy) list"
  proof (induction xs)
    case (Cons x xs)
    then show ?case using px_holds_bound [of "snd x" i] by (simp add: case_prod_beta)
  qed simp
  then have "clients_hold m i \<le> length (mg_clients m) * 2 ^ 16" unfolding clients_hold_def .
  also have "\<dots> \<le> 10000 * 2 ^ 16" using few_clients [OF assms] by (rule mult_right_mono) simp
  finally show ?thesis by simp
qed

section \<open>Changing the parts\<close>

lemma queues_put_proxy: "queues (put_proxy c p m) = om_assign c (px_wantedQueue p) (queues m)"
proof -
  have "map (\<lambda>(c, p). (c, px_wantedQueue p)) (om_assign c p xs)
    = om_assign c (px_wantedQueue p) (map (\<lambda>(c, p). (c, px_wantedQueue p)) xs)" for xs
    by (induction xs) auto
  then show ?thesis by (simp add: queues_def put_proxy_def)
qed

lemma put_proxy_parts [simp]:
  "mg_shm (put_proxy c p m) = mg_shm m" "mg_groups (put_proxy c p m) = mg_groups m"
  "mg_blocksPerSlab (put_proxy c p m) = mg_blocksPerSlab m" "mg_clients (put_proxy c p m) = om_assign c p (mg_clients m)"
  "slab_manager.truncate (put_proxy c p m) = slab_manager.truncate m"
  "mg_nextNewClientID (put_proxy c p m) = mg_nextNewClientID m"
  "mg_playbackMode (put_proxy c p m) = mg_playbackMode m" "mg_mem (put_proxy c p m) = mg_mem m"
  by (simp_all add: put_proxy_def slab_manager.truncate_def)

lemma put_proxy_slabs [simp]:
  "slab_inv (put_proxy c p m) = slab_inv m" "held (put_proxy c p m) = held m" "num_slabs (put_proxy c p m) = num_slabs m"
  "queued_segs (put_proxy c p m) = queued_segs m" "slab_at (put_proxy c p m) = slab_at m"
  "parts_ok (put_proxy c p m) = parts_ok m" "segment_slab (put_proxy c p m) = segment_slab m"
  "whichStateChange (put_proxy c p m) = whichStateChange m" "wantedSegmentBlocks (put_proxy c p m) = wantedSegmentBlocks m"
  by (simp_all add: slab_inv_more [OF put_proxy_parts(5)] fun_eq_iff segment_slab_def parts_ok_def)
    (simp_all add: put_proxy_def)

lemma clients_hold_put:
  assumes "map_of (mg_clients m) c = Some p"
  shows "clients_hold (put_proxy c p' m) i + px_holds p i = clients_hold m i + px_holds p' i"
  using sum_om_assign [OF assms, of "\<lambda>_ p. px_holds p i" p'] by (simp add: clients_hold_def)

lemma om_assign_mem:
  assumes "(k, q) \<in> set (om_assign c v xs)" "om_ok xs" "map_of xs c \<noteq> None"
  shows "k = c \<and> q = v \<or> k \<noteq> c \<and> (k, q) \<in> set xs"
proof -
  have "distinct (map fst (om_assign c v xs))" using om_ok_distinct [OF assms(2)] by simp
  then have "map_of (om_assign c v xs) k = Some q" using assms(1) by (rule map_of_is_SomeI)
  then show ?thesis using map_of_om_assign [OF assms(3)] by (auto split: if_splits dest: map_of_SomeD)
qed

lemma mset_exchange:
  fixes X Y e e' q q' :: "'a multiset"
  assumes "X + q = Y + q'" "q' + e' = q + e"
  shows "X + e' = Y + e"
proof -
  have "X + e' + q = Y + (q' + e')" using assms(1) by (metis add.assoc add.commute)
  also have "\<dots> = Y + e + q" unfolding assms(2) by (simp add: ac_simps)
  finally show ?thesis by simp
qed

lemma books_put_proxy:
  assumes b: "books B d e S W m" and c: "map_of (mg_clients m) c = Some p"
    and p': "proxy_ok (num_slabs m) (mg_blocksPerSlab m) c p'" "\<And>i. cons_refs (px_slabs p') i + length (px_wantedQueue p') \<le> B' c"
    and B': "\<And>c'. c' \<noteq> c \<Longrightarrow> B c' \<le> B' c'"
    and d': "\<And>i. i < num_slabs m \<Longrightarrow> d' i = d i + int (px_holds p i) - int (px_holds p' i)"
    and e': "mset (px_wantedQueue p') + e' = mset (px_wantedQueue p) + e"
    and seg: "\<And>seg. seg \<in> set (px_wantedQueue p') \<Longrightarrow> ws_clientID (wantedSegmentBlocks m ! seg) = c"
  shows "books B' d' e' S (om_assign c (px_wantedQueue p') W) (put_proxy c p' m)"
proof -
  have W: "map_of W c = Some (px_wantedQueue p)" using booksD(7) [OF b] c by (metis map_of_queues option.simps(9))
  have sumq: "(\<Sum>(c, q) \<leftarrow> om_assign c (px_wantedQueue p') W. mset q) + e' = (\<Sum>(c, q) \<leftarrow> W. mset q) + e"
  proof -
    have "(\<Sum>(c, q) \<leftarrow> om_assign c (px_wantedQueue p') W. mset q) + mset (px_wantedQueue p)
      = (\<Sum>(c, q) \<leftarrow> W. mset q) + mset (px_wantedQueue p')"
      using sum_om_assign [OF W, of "\<lambda>_ q. mset q" "px_wantedQueue p'"] .
    then show ?thesis using e' by (rule mset_exchange)
  qed
  have hold: "int (held m i) = int (clients_hold (put_proxy c p' m) i) + d' i" if "i < num_slabs m" for i
    using books_held [OF b that] d' [OF that] clients_hold_put [OF c, of p' i] by linarith
  have ok: "proxy_ok (num_slabs m) (mg_blocksPerSlab m) k q \<and> (\<forall>i. cons_refs (px_slabs q) i + length (px_wantedQueue q) \<le> B' k)"
    if kq: "(k, q) \<in> set (om_assign c p' (mg_clients m))" for k q
  proof (cases "k = c")
    case True
    then have "q = p'" using om_assign_mem [OF kq booksD(6) [OF b]] c by simp
    then show ?thesis using True p' by simp
  next
    case False
    then have kq: "(k, q) \<in> set (mg_clients m)" using om_assign_mem [OF kq booksD(6) [OF b]] c by simp
    have "cons_refs (px_slabs q) i + length (px_wantedQueue q) \<le> B' k" for i
      using books_entry(2) [OF b kq, of i] B' [OF False] by (rule order_trans)
    then show ?thesis using kq b by (auto simp: books_def)
  qed
  have qs: "ws_clientID (wantedSegmentBlocks m ! seg) = k"
    if kq: "(k, q) \<in> set (om_assign c (px_wantedQueue p') W)" "seg \<in> set q" for k q seg
  proof -
    have "om_ok W" using booksD(6,7) [OF b] keys_queues [of m] by (auto simp: om_ok_def)
    then have "k = c \<and> q = px_wantedQueue p' \<or> (k, q) \<in> set W" using om_assign_mem [OF kq(1)] W by auto
    then show ?thesis using seg kq(2) b by (auto simp: books_def)
  qed
  have "mset (queued_segs m) = (\<Sum>(c, q) \<leftarrow> om_assign c (px_wantedQueue p') W. mset q) + e'"
    using booksD(8) [OF b] sumq by simp
  then show ?thesis
    by (intro booksI) (use booksD [OF b] hold ok qs books_pinned [OF b] books_seg_slab [OF b] in \<open>simp_all add: queues_put_proxy\<close>)
qed

text \<open>The number of slabs and of blocks in one.\<close>

definition geometry :: "manager \<Rightarrow> nat \<times> u32" where
  "geometry m = (num_slabs m, mg_blocksPerSlab m)"

lemma geometryD: "geometry m' = geometry m \<Longrightarrow> num_slabs m' = num_slabs m \<and> mg_blocksPerSlab m' = mg_blocksPerSlab m"
  by (simp add: geometry_def)

lemma geometry_put_proxy [simp]: "geometry (put_proxy c p m) = geometry m"
  by (simp add: geometry_def)

lemma geometry_fields [simp]:
  "geometry (m\<lparr>mg_stats := a\<rparr>) = geometry m" "geometry (m\<lparr>mg_requests := q\<rparr>) = geometry m"
  "geometry (m\<lparr>mg_groups := g\<rparr>) = geometry m" "geometry (m\<lparr>mg_statsIter := i\<rparr>) = geometry m"
  "geometry (m\<lparr>mg_nextNewClientID := c\<rparr>) = geometry m"
  by (simp_all add: geometry_def num_slabs_def)

text \<open>Sends and statistics change nothing the books look at.\<close>

definition same_books :: "proxy \<Rightarrow> proxy \<Rightarrow> bool" where
  "same_books p p' \<longleftrightarrow> calm p' \<and> px_slabs p' = px_slabs p \<and> px_wantedQueue p' = px_wantedQueue p
     \<and> px_clientID p' = px_clientID p \<and> px_blocksPerSlab p' = px_blocksPerSlab p"

lemma om_assign_same: "map_of xs c = Some v \<Longrightarrow> om_assign c v xs = xs"
  by (induction xs) auto

lemma books_same_proxy:
  assumes b: "books B d e S W m" and c: "map_of (mg_clients m) c = Some p" and s: "same_books p p'"
  shows "books B d e S W (put_proxy c p' m)"
proof -
  have ok: "proxy_ok (num_slabs m) (mg_blocksPerSlab m) c p'" using books_client(1) [OF b c] s by (simp add: proxy_ok_def same_books_def)
  have q: "px_wantedQueue p' = px_wantedQueue p" "px_slabs p' = px_slabs p" using s by (simp_all add: same_books_def)
  have mem: "ws_clientID (wantedSegmentBlocks m ! seg) = c" if "seg \<in> set (px_wantedQueue p')" for seg
  proof -
    have "(c, px_wantedQueue p) \<in> set W"
      using booksD(7) [OF b] map_of_SomeD [OF c] by (force simp: queues_def)
    then show ?thesis using b that q(1) by (auto simp: books_def)
  qed
  have "om_assign c (px_wantedQueue p') W = W"
    using booksD(7) [OF b] map_of_queues [of m c] c q(1) by (intro om_assign_same) simp
  moreover have "books B d e S (om_assign c (px_wantedQueue p') W) (put_proxy c p' m)"
    by (rule books_put_proxy [OF b c ok _ _ _ _ mem]) (use q books_client(2) [OF b c] in \<open>simp_all add: px_holds_def\<close>)
  ultimately show ?thesis by simp
qed

lemma on_proxy_same:
  assumes b: "books B d e S W m" and c: "map_of (mg_clients m) c = Some p"
    and f: "sat (f p) (\<lambda>a p'. same_books p p' \<and> Q a) (\<lambda>_ p'. same_books p p')"
  shows "sat (on_proxy c f m) (\<lambda>a m'. books B d e S W m' \<and> Q a \<and> geometry m' = geometry m)
    (\<lambda>_ m'. books B d e S W m' \<and> geometry m' = geometry m)"
  using f by (cases "f p") (auto simp: on_proxy_def c books_same_proxy [OF b c])

lemma px_more:
  assumes "endpoint.more p' = endpoint.more (p :: proxy)"
  shows "px_slabs p' = px_slabs p" "px_wantedQueue p' = px_wantedQueue p" "px_clientID p' = px_clientID p"
    "px_blocksPerSlab p' = px_blocksPerSlab p" "px_registered p' = px_registered p" "px_drops p' = px_drops p"
    "px_pendingRqsts p' = px_pendingRqsts p"
  using assms by (cases p; cases p'; simp)+

lemma sends_same:
  fixes p :: proxy
  assumes "sends p r"
  shows "sat r (\<lambda>_. same_books p) (\<lambda>_. same_books p)"
proof -
  have "same_books p s" if "calm s" "unsocket s = unsocket p" for s
    using that px_more [of s p] by (simp add: same_books_def unsocket_def)
  then show ?thesis using assms by (cases r) (auto simp: sends_def)
qed

lemma sat_caught: "sat r (\<lambda>_. Q) (\<lambda>_. Q) \<Longrightarrow> sat (caught d r) (\<lambda>_. Q) (\<lambda>_ _. False)"
  by (cases r) (auto simp: caught_def)

lemma books_frame:
  assumes b: "books B d e S W m"
    and m': "slab_manager.truncate m' = slab_manager.truncate m" "mg_shm m' = mg_shm m" "mg_clients m' = mg_clients m"
      "mg_blocksPerSlab m' = mg_blocksPerSlab m" "mg_nextNewClientID m' \<le> kMaxClientID" "srm_inv (mg_requests m')" "group_inv (mg_groups m')"
  shows "books B d e S W m'"
proof -
  have t: "slabsPerBuf m' = slabsPerBuf m" "infoVec m' = infoVec m" "wantedSegmentBlocks m' = wantedSegmentBlocks m"
    "whichStateChange m' = whichStateChange m"
    using m'(1) by (simp_all add: slab_manager.truncate_def)
  have p: "parts_ok m'" using booksD(5) [OF b] m'(5) unfolding parts_ok_def t m'(2,4) by blast
  have e: "queues m' = queues m" "clients_hold m' = clients_hold m" "segment_slab m' = segment_slab m"
    by (simp_all add: queues_def clients_hold_def segment_slab_def fun_eq_iff t m')
  show ?thesis
    using b p m'(6,7) unfolding books_def slab_inv_more [OF m'(1)] m'(3,4) t e by (elim conjE) (intro conjI; assumption)
qed

lemma books_fields [simp]:
  "books B d e S W (m\<lparr>mg_stats := a\<rparr>) = books B d e S W m"
  "books B d e S W (m\<lparr>mg_statsIter := b\<rparr>) = books B d e S W m"
proof -
  have half: "books B d e S W m'"
    if b: "books B d e S W m" and "slab_manager.truncate m' = slab_manager.truncate m" "mg_shm m' = mg_shm m" "mg_clients m' = mg_clients m"
      "mg_blocksPerSlab m' = mg_blocksPerSlab m" "mg_requests m' = mg_requests m" "mg_groups m' = mg_groups m"
      "mg_nextNewClientID m' = mg_nextNewClientID m" for m' m
    by (rule books_frame [OF b]) (use booksD(3,4,5) [OF b] that in \<open>simp_all add: parts_ok_def\<close>)
  have iff: "books B d e S W m' = books B d e S W m"
    if "slab_manager.truncate m' = slab_manager.truncate m" "mg_shm m' = mg_shm m" "mg_clients m' = mg_clients m"
      "mg_blocksPerSlab m' = mg_blocksPerSlab m" "mg_requests m' = mg_requests m" "mg_groups m' = mg_groups m"
      "mg_nextNewClientID m' = mg_nextNewClientID m" for m' m
    using half [OF _ that] half [OF _ that [symmetric]] by blast
  show "books B d e S W (m\<lparr>mg_stats := a\<rparr>) = books B d e S W m"
    "books B d e S W (m\<lparr>mg_statsIter := b\<rparr>) = books B d e S W m"
    by (rule iff; simp add: slab_manager.truncate_def)+
qed

lemma books_next_id: "books B d e S W m \<Longrightarrow> mg_nextNewClientID m \<le> kMaxClientID"
  using booksD(5) unfolding parts_ok_def by blast

lemma books_requests: "books B d e S W m \<Longrightarrow> srm_inv q \<Longrightarrow> books B d e S W (m\<lparr>mg_requests := q\<rparr>)"
  by (rule books_frame) (simp_all add: slab_manager.truncate_def booksD(4) books_next_id)

lemma books_groups: "books B d e S W m \<Longrightarrow> group_inv g \<Longrightarrow> books B d e S W (m\<lparr>mg_groups := g\<rparr>)"
  by (rule books_frame) (simp_all add: slab_manager.truncate_def booksD(3) books_next_id)

lemma books_clientID: "books B d e S W m \<Longrightarrow> c \<le> kMaxClientID \<Longrightarrow> books B d e S W (m\<lparr>mg_nextNewClientID := c\<rparr>)"
  by (rule books_frame) (simp_all add: slab_manager.truncate_def booksD(3,4))

section \<open>What an operation of the \<open>SlabManager\<close> does to the books\<close>

lemma mg_more:
  assumes "slab_manager.more m' = slab_manager.more (m :: manager)"
  shows "mg_shm m' = mg_shm m" "mg_clients m' = mg_clients m" "mg_requests m' = mg_requests m" "mg_groups m' = mg_groups m"
    "mg_blocksPerSlab m' = mg_blocksPerSlab m" "mg_playbackMode m' = mg_playbackMode m" "mg_nextNewClientID m' = mg_nextNewClientID m"
  using assms by (cases m; cases m'; simp)+

lemma books_slabs:
  assumes b: "books B d e S W m" and inv: "slab_inv m'" and fr: "slab_frame m m'"
    and held: "\<And>i. i < num_slabs m \<Longrightarrow> int (held m' i) - int (held m i) = d' i - d i"
    and q: "mset (queued_segs m') + e = mset (queued_segs m) + e'"
    and ws: "\<And>c q seg. (c, q) \<in> set W \<Longrightarrow> seg \<in> set q \<Longrightarrow> wantedSegmentBlocks m' ! seg = wantedSegmentBlocks m ! seg"
    and seg: "\<And>i seg. i < num_slabs m \<Longrightarrow> seg \<in> set (wantedSegs (slab_at m' i)) \<Longrightarrow> segment_slab m' seg = i"
    and S: "\<And>i. i \<in> S' \<Longrightarrow> held m' i \<noteq> 0"
  shows "books B d' e' S' W m'"
proof -
  have f: "slabsPerBuf m' = slabsPerBuf m" "length (infoVec m') = length (infoVec m)" "whichStateChange m' = whichStateChange m"
    "slab_manager.more m' = slab_manager.more m" using fr by (simp_all add: slab_frame_def)
  note g = mg_more [OF f(4)]
  have n: "num_slabs m' = num_slabs m" by (rule slab_frame_num_slabs [OF fr])
  have "infoVec m' \<noteq> [] \<longleftrightarrow> infoVec m \<noteq> []" using f(2) by (metis length_0_conv)
  then have e: "parts_ok m' = parts_ok m" "queues m' = queues m" "clients_hold m' = clients_hold m"
    by (simp_all add: parts_ok_def queues_def clients_hold_def fun_eq_iff f g)
  have hold: "int (held m' i) = int (clients_hold m i) + d' i" if "i < num_slabs m" for i
    using books_held [OF b that] held [OF that] by linarith
  have "mset (queued_segs m') + e = ((\<Sum>(c, q) \<leftarrow> W. mset q) + e') + e"
    unfolding q booksD(8) [OF b] by (simp add: ac_simps)
  then have qs: "mset (queued_segs m') = (\<Sum>(c, q) \<leftarrow> W. mset q) + e'" by simp
  have "ws_clientID (wantedSegmentBlocks m' ! seg) = c" if "(c, q) \<in> set W" "seg \<in> set q" for c q seg
    unfolding ws [OF that] using b that by (auto simp: books_def)
  then show ?thesis
    by (intro booksI) (use inv booksD [OF b] books_entry [OF b] hold qs seg S in \<open>simp_all add: f g n e\<close>)
qed

lemma geometry_frame: "slab_frame m m' \<Longrightarrow> geometry m' = geometry m"
  using mg_more(5) [of m' m] slab_frame_num_slabs [of m m'] by (simp add: geometry_def slab_frame_def)

lemma segment_slab_cong:
  assumes "slab_frame m m'" "wantedSegmentBlocks m' ! seg = wantedSegmentBlocks m ! seg"
  shows "segment_slab m' seg = segment_slab m seg"
proof -
  have "slab_manager.more m' = slab_manager.more m" using assms(1) by (simp add: slab_frame_def)
  from mg_more(5) [OF this] show ?thesis by (simp add: segment_slab_def assms(2))
qed

lemma queued_mem: "seg \<in> set (wantedSegs (slab_at m i)) \<Longrightarrow> i < num_slabs m \<Longrightarrow> seg \<in> set (queued_segs m)"
  by (auto simp: queued_segs_def)

lemma books_queue_queued:
  assumes "books B d e S W m" "(c, q) \<in> set W" "seg \<in> set q"
  shows "seg \<in> set (queued_segs m)"
proof -
  have "seg \<in># (\<Sum>(c, q) \<leftarrow> W. mset q)"
    using assms(2,3) by (induction W) auto
  then have "seg \<in># mset (queued_segs m)" unfolding booksD(8) [OF assms(1)] by simp
  then show ?thesis by simp
qed

lemma masked:
  "whichStateChange m = kHeldToFree OR kWantedToFree \<Longrightarrow> whichStateChange m AND kFreeToHeld = 0"
  "whichStateChange m = kHeldToFree OR kWantedToFree \<Longrightarrow> whichStateChange m AND kWantedToHeld = 0"
  "whichStateChange m = kHeldToFree OR kWantedToFree \<Longrightarrow> whichStateChange m AND kHeldToWanted = 0"
  by (simp_all add: kHeldToFree_def kWantedToFree_def kFreeToHeld_def kWantedToHeld_def kHeldToWanted_def)

lemma count_list_distinct: "distinct xs \<Longrightarrow> count_list xs i = (if i \<in> set xs then 1 else 0)"
  by (induction xs) auto

text \<open>Taking free slabs: whoever gets them does not have them yet.\<close>

lemma GetFreeSlabs_books:
  assumes b: "books B d e S W m" and h: "h = None \<or> h = Some HandleSlabStateChange"
  shows "sat (GetFreeSlabs h k client arg m) (\<lambda>ids m'. books B (\<lambda>i. d i + int (count_list (map unat ids) i)) e S W m'
      \<and> ids = map of_nat (take (unat k) (freeSlabs m)) \<and> map unat ids = take (unat k) (freeSlabs m) \<and> distinct ids
      \<and> geometry m' = geometry m
      \<and> (\<forall>i \<in> set ids. unat i < num_slabs m \<and> int (clients_hold m' (unat i)) = - d (unat i))
      \<and> freeSlabs m' = drop (unat k) (freeSlabs m) \<and> mg_clients m' = mg_clients m \<and> mg_requests m' = mg_requests m) (\<lambda>_ _. False)"
proof -
  let ?F = "take (unat k) (freeSlabs m)"
  have mask: "h = None \<or> whichStateChange m AND kFreeToHeld = 0" using masked(1) [OF booksD(2) [OF b]] by simp
  obtain m' where m': "GetFreeSlabs_loop h client arg (unat k) m = Ok (map of_nat ?F) m'"
    "slab_inv m'" "slab_frame m m'"
    "\<And>j. slab_at m' j = (if j \<in> set ?F
        then (slab_at m j)\<lparr>heldRefcnt := 1, prodClientID := client, prodArg := arg\<rparr> else slab_at m j)"
    "freeSlabs m' = drop (unat k) (freeSlabs m)" "wantedSegmentBlocks m' = wantedSegmentBlocks m"
    by (rule GetFreeSlabs_loop_spec [OF booksD(1) [OF b] mask]) (rule that)
  have n: "num_slabs m' = num_slabs m" by (rule slab_frame_num_slabs [OF m'(3)])
  have ls: "slab_lists m" "slab_shape m" using booksD(1) [OF b] by (simp_all add: slab_inv_def)
  have F: "j < num_slabs m" "held m j = 0" if "j \<in> set ?F" for j
  proof -
    have "j \<in> set (freeSlabs m)" using that by (rule in_set_takeD)
    then show "j < num_slabs m" "held m j = 0"
      using ls slab_lists_mem(1) [OF ls(1)] by (auto simp: slab_lists_def slab_is_free_def held_def)
  qed
  have "num_slabs m < 2 ^ 32" using ls(2) by (simp add: slab_shape_def)
  then have u: "unat (of_nat j :: u32) = j" if "j \<in> set ?F" for j
    using F(1) [OF that] by (intro unat_of_nat_u32) simp
  then have un: "map unat (map of_nat ?F :: u32 list) = ?F" by (simp add: map_idI)
  have df: "distinct ?F" using slab_lists_distinct [OF ls(1)] by simp
  have c: "count_list ?F i = (if i \<in> set ?F then 1 else 0)" for i
    using count_list_distinct [OF df] .
  have "held m' i = (if i \<in> set ?F then 1 else held m i)" for i by (simp add: held_def m'(4))
  then have hb: "int (held m' i) - int (held m i) = int (count_list (map unat (map of_nat ?F :: u32 list)) i)" for i
    unfolding un c using F(2) [of i] by simp
  have ws: "wantedSegs (slab_at m' j) = wantedSegs (slab_at m j)" for j by (simp add: m'(4))
  have "books B (\<lambda>i. d i + int (count_list (map unat (map of_nat ?F :: u32 list)) i)) e S W m'"
  proof (rule books_slabs [OF b m'(2,3)])
    show "mset (queued_segs m') + e = mset (queued_segs m) + e" by (simp add: queued_segs_cong [OF n ws])
    show "segment_slab m' seg = i" if "i < num_slabs m" "seg \<in> set (wantedSegs (slab_at m' i))" for i seg
      using that books_seg_slab [OF b] segment_slab_cong [OF m'(3)] by (simp add: ws m'(6))
    show "held m' i \<noteq> 0" if "i \<in> S" for i
      using books_pinned [OF b that] hb [of i] by simp
  qed (use hb m'(6) in simp_all)
  moreover have more: "slab_manager.more m' = slab_manager.more m" using m'(3) by (simp add: slab_frame_def)
  have "mg_clients m' = mg_clients m" "mg_requests m' = mg_requests m" using mg_more [OF more] by simp_all
  moreover have "int (clients_hold m' j) = - d j" if "j \<in> set ?F" for j
    using books_held [OF b F(1) [OF that]] F(2) [OF that] mg_more(2) [OF more] by (simp add: clients_hold_def)
  moreover have "distinct (map of_nat ?F :: u32 list)" using df u by (metis distinct_map un)
  ultimately show ?thesis
    using m'(1,5) F(1) u un geometry_frame [OF m'(3)] by (simp add: GetFreeSlabs_def)
qed

section \<open>Serving slab requests\<close>

lemma caught_send:
  fixes p :: proxy
  assumes "sends p r"
  shows "sat (caught d (bind_o r (\<lambda>n. Ok (f n)))) (\<lambda>_. same_books p) (\<lambda>_ _. False)"
  using sends_same [OF assms] by (intro sat_caught) (cases r; simp)

lemma TakeFreeSlabs_books:
  assumes b: "books B (\<lambda>i. d i + int (count_list (map unat ids) i)) e S W m" and c: "map_of (mg_clients m) c = Some p"
    and ids: "distinct ids" "\<And>i. i \<in> set ids \<Longrightarrow> unat i < num_slabs m \<and> prod_held (px_slabs p) (unat i) = 0"
  shows "sat (on_proxy c (TakeFreeSlabs ids) m) (\<lambda>_ m'. books B d e S W m' \<and> geometry m' = geometry m) (\<lambda>_ _. False)"
proof -
  let ?n = "num_slabs m"
  have ok: "proxy_ok ?n (mg_blocksPerSlab m) c p" by (rule books_client(1) [OF b c])
  have n: "?n < 2 ^ 32" using booksD(1) [OF b] by (simp add: slab_inv_def slab_shape_def)
  have t: "tracker_inv ?n (px_slabs p)" using ok by (simp add: proxy_ok_def)
  have "\<forall>i \<in> set ids. unat i < ?n \<and> \<not> prodSlabRefcnt (px_slabs p) ! unat i"
    using ids(2) tracker_invD(1) [OF t] by (fastforce simp: prod_held_def)
  note ins = InsertProdSlabs_spec [OF t n ids(1) this]
  have take: "sat (TakeFreeSlabs ids p) (\<lambda>_ p'. calm p' \<and> tracker_inv ?n (px_slabs p') \<and> px_wantedQueue p' = px_wantedQueue p
      \<and> px_clientID p' = px_clientID p \<and> px_blocksPerSlab p' = px_blocksPerSlab p
      \<and> (\<forall>j. prod_held (px_slabs p') j = prod_held (px_slabs p) j + count_list (map unat ids) j)
      \<and> consSlabRefcnt (px_slabs p') = consSlabRefcnt (px_slabs p)) (\<lambda>_ _. False)"
    unfolding TakeFreeSlabs_def on_slabs_def
  proof (rule sat_bind [where R = "\<lambda>_ p'. calm p' \<and> tracker_inv ?n (px_slabs p') \<and> px_wantedQueue p' = px_wantedQueue p
      \<and> px_clientID p' = px_clientID p \<and> px_blocksPerSlab p' = px_blocksPerSlab p
      \<and> (\<forall>j. prod_held (px_slabs p') j = prod_held (px_slabs p) j + count_list (map unat ids) j)
      \<and> consSlabRefcnt (px_slabs p') = consSlabRefcnt (px_slabs p)"], goal_cases)
    case 1
    have "calm (p\<lparr>px_slabs := x\<rparr>)" for x using ok by (simp add: proxy_ok_def calm_def)
    with ins show ?case unfolding sat_lift by (auto elim!: sat_mono)
  next
    case (2 a p1)
    then have "sat (px_SendSlabIDs ids p1) (\<lambda>_. same_books p1) (\<lambda>_ _. False)"
      unfolding px_SendSlabIDs_def by (intro caught_send calm_sends) simp
    then show ?case by (rule sat_bind) (use 2 in \<open>simp add: same_books_def calm_def Let_def\<close>)
  qed
  have refs: "cons_refs t' = cons_refs t" if "consSlabRefcnt t' = consSlabRefcnt t" for t t'
    by (simp add: fun_eq_iff cons_refs_def that)
  have W: "om_assign c (px_wantedQueue p) W = W"
    using booksD(7) [OF b] map_of_queues [of m c] c by (intro om_assign_same) simp
  have mem: "ws_clientID (wantedSegmentBlocks m ! seg) = c" if "seg \<in> set (px_wantedQueue p)" for seg
    using booksD(7) [OF b] map_of_SomeD [OF c] b that by (force simp: queues_def books_def)
  show ?thesis
    unfolding on_proxy_def c option.case sat_lift
  proof (rule sat_mono [OF take], goal_cases)
    case (1 a p')
    have r: "cons_refs (px_slabs p') = cons_refs (px_slabs p)" by (rule refs) (use 1 in simp)
    have "books B d e S (om_assign c (px_wantedQueue p') W) (put_proxy c p' m)"
      by (rule books_put_proxy [OF b c]) (use 1 ok books_client(2) [OF b c] mem in \<open>simp_all add: proxy_ok_def px_holds_def r\<close>)
    then show ?case using 1 W by simp
  qed
qed

definition requests :: "manager \<Rightarrow> nat" where
  "requests m = unat (numRequests (mg_requests m))"

lemma AddRequest_count: "unat (numRequests (AddRequest level ns ident arg q)) \<le> Suc (unat (numRequests q))"
proof -
  have "numRequests (AddRequest level ns ident arg q) = numRequests q + 1"
    by (simp add: AddRequest_def AddSlabRequestBlock_def Let_def)
  then show ?thesis by (simp add: unat_word_ariths)
qed

lemma ServiceSlabRequests_requests:
  assumes "books B d e S W m" "\<And>i. 0 \<le> d i" "geometry m = n" "requests m \<le> R"
  shows "sat (ServiceSlabRequests m) (\<lambda>_ m'. books B d e S W m' \<and> geometry m' = n \<and> requests m' \<le> R) (\<lambda>_ _. False)"
  using assms
proof (induction m rule: ServiceSlabRequests.induct)
  case (1 m)
  show ?case
  proof (cases "numRequests (mg_requests m) = 0 \<or> freeSlabs m = []")
    case True
    then show ?thesis using 1 by (simp add: ServiceSlabRequests.simps)
  next
    case False
    let ?q = "mg_requests m"
    have inv: "srm_inv ?q" using booksD(3) [OF 1(4)] .
    obtain req q where take: "TakeLowestRequest ?q = Ok req q" "srm_inv q"
      using srm.take_front_order [OF inv] False by auto
    have count: "unat (numRequests ?q) = Suc (unat (numRequests q))"
      using TakeLowestRequest_count(1) [OF inv _ take(1)] False by simp
    then have few: "unat (numRequests q) < 2 ^ 32 - 1" using unsigned_less [of "numRequests ?q", where ?'a = nat] by simp
    let ?m = "m\<lparr>mg_requests := q\<rparr>" and ?cid = "ucast (rq_id req) :: u16"
    have b: "books B d e S W ?m" by (rule books_requests [OF 1(4) take(2)])
    have n: "geometry ?m = n" using 1(6) by simp
    have R: "Suc (unat (numRequests q)) \<le> R" using 1(7) count by (simp add: requests_def)
    show ?thesis
    proof (cases "map_of (mg_clients m) ?cid")
      case None
      then show ?thesis
        using 1(1) [OF False refl take(1) refl refl] b 1(5) n R False take(1)
        by (subst ServiceSlabRequests.simps) (simp add: Let_def requests_def)
    next
      case (Some p)
      show ?thesis
      proof (cases "px_addr p = rq_arg req")
        case False
        then show ?thesis
          using 1(2) [OF _ refl take(1) refl refl] b 1(5) n R Some take(1) \<open>\<not> (numRequests ?q = 0 \<or> freeSlabs m = [])\<close>
          by (subst ServiceSlabRequests.simps) (simp add: Let_def requests_def)
      next
        case True
        let ?k = "LowestLevelPending ?q"
        have free: "numRequests ?q \<noteq> 0" "freeSlabs m \<noteq> []" using \<open>\<not> (numRequests ?q = 0 \<or> freeSlabs m = [])\<close> by simp_all
        obtain ids m2 where get: "GetFreeSlabs None 1 (- 1) 0 ?m = Ok ids m2"
            "books B (\<lambda>i. d i + int (count_list (map unat ids) i)) e S W m2" "distinct ids" "geometry m2 = geometry ?m"
            "\<forall>i \<in> set ids. unat i < num_slabs ?m \<and> int (clients_hold m2 (unat i)) = - d (unat i)"
            "mg_clients m2 = mg_clients ?m" "mg_requests m2 = q"
          using GetFreeSlabs_books [OF b, of None 1 "- 1" 0] by (cases "GetFreeSlabs None 1 (- 1) 0 ?m") auto
        have c: "map_of (mg_clients m2) ?cid = Some p" using get(6) Some by simp
        have none: "unat i < num_slabs m2 \<and> prod_held (px_slabs p) (unat i) = 0" if "i \<in> set ids" for i
        proof -
          have "clients_hold m2 (unat i) = 0" using get(5) that 1(5) [of "unat i"] by force
          then show ?thesis using client_hold_le [OF c, of "unat i"] geometryD [OF get(4)] get(5) that by (simp add: px_holds_def)
        qed
        obtain u m3 where give: "on_proxy ?cid (TakeFreeSlabs ids) m2 = Ok u m3" "books B d e S W m3" "geometry m3 = geometry m2"
          using TakeFreeSlabs_books [OF get(2) c get(3) none] by (cases "on_proxy ?cid (TakeFreeSlabs ids) m2") auto
        have req3: "mg_requests m3 = q" using give(1) get(7) by (auto simp: on_proxy_Ok)
        let ?n = "rq_numSlabs req - 1"
        let ?m4 = "if ?n \<noteq> 0 then m3\<lparr>mg_requests := AddRequest ?k ?n (rq_id req) (rq_arg req) (mg_requests m3)\<rparr> else m3"
        have b4: "books B d e S W ?m4"
          using give(2) books_requests [OF give(2)] AddRequest_spec(1) [OF take(2) few] req3 by simp
        have n4: "geometry ?m4 = n" using give(3) get(4) n by simp
        have R4: "requests ?m4 \<le> R" using R AddRequest_count [of ?k ?n "rq_id req" "rq_arg req" q] req3 by (simp add: requests_def)
        have "sat (ServiceSlabRequests ?m4) (\<lambda>_ m'. books B d e S W m' \<and> geometry m' = n \<and> requests m' \<le> R) (\<lambda>_ _. False)"
          by (rule 1(3) [of ?k req q ?m ?cid p ids m2 u m3 ?n]) (use free True take(1) Some get(1) give(1) b4 n4 R4 1(5) in simp_all)
        then show ?thesis
          using free Some True take(1) get(1) give(1)
          by (subst ServiceSlabRequests.simps) (simp add: Let_def)
      qed
    qed
  qed
qed


lemma ServiceSlabRequests_books:
  assumes "books B d e S W m" "\<And>i. 0 \<le> d i" "geometry m = n"
  shows "sat (ServiceSlabRequests m) (\<lambda>_ m'. books B d e S W m' \<and> geometry m' = n) (\<lambda>_ _. False)"
  by (rule sat_mono [OF ServiceSlabRequests_requests [OF assms le_refl]]) simp_all

end
