(* ===== verification/Manager_Flow.thy ===== *)
theory Manager_Flow
  imports Manager_Books
begin

unbundle bit_operations_syntax

text \<open>
  The way of slabs and segments through the books: the counting of references and the wanted
  segments with the service they trigger, the wanted queue of a client, and the harvest.
\<close>

lemma books_blocks: "books B d e S W m \<Longrightarrow> mg_blocksPerSlab m \<noteq> 0"
  using booksD(5) unfolding parts_ok_def by blast

section \<open>References\<close>

lemma HandleSlabStateChange_books:
  assumes "books B d e S W m" "\<And>i. 0 \<le> d i"
  shows "sat (HandleSlabStateChange w i m) (\<lambda>_ m'. books B d e S W m' \<and> geometry m' = geometry m \<and> requests m' \<le> requests m)
    (\<lambda>_ _. False)"
  using ServiceSlabRequests_requests [OF assms refl le_refl] assms(1) by (simp add: HandleSlabStateChange_def)

lemma Call_books:
  assumes "books B d e S W m" "\<And>i. 0 \<le> d i"
  shows "sat (CallStateChangeHandler (Some HandleSlabStateChange) w i m)
    (\<lambda>_ m'. books B d e S W m' \<and> geometry m' = geometry m \<and> requests m' \<le> requests m) (\<lambda>_ _. False)"
  using HandleSlabStateChange_books [OF assms] assms(1) by (simp add: CallStateChangeHandler_def)

lemma mg_DecrementHeldRefcnt_books:
  assumes "books B d e {} W m" "\<forall>(sid, a) \<in> set xs. unat sid < num_slabs m \<and> a \<noteq> 0" "\<And>i. int (released xs i) \<le> d i"
  shows "sat (mg_DecrementHeldRefcnt xs m) (\<lambda>_ m'. books B (\<lambda>i. d i - int (released xs i)) e {} W m' \<and> geometry m' = geometry m \<and> requests m' \<le> requests m)
    (\<lambda>_ _. False)"
  using assms unfolding mg_DecrementHeldRefcnt_def DecrementHeldRefcnt_def
proof (induction xs arbitrary: d m)
  case (Cons x xs)
  obtain sid a where x: "x = (sid, a)" by (cases x)
  let ?i = "unat sid" and ?d = "\<lambda>i. d i - (if unat sid = i then int (unat a) else 0)"
  have b: "books B d e {} W m" by (rule Cons.prems(1))
  have i: "?i < num_slabs m" "a \<noteq> 0" using Cons.prems(2) x by auto
  have "int (unat a) \<le> d ?i" using Cons.prems(3) [of ?i] x by simp
  then have "unat a \<le> held m ?i" using books_held [OF b i(1)] by linarith
  then have le: "a \<le> heldRefcnt (slab_at m ?i)" by (simp add: held_def word_le_nat_alt)
  obtain ev m1 where m1: "DecrementHeld_step sid a m = Ok ev m1" "slab_inv m1" "slab_frame m m1"
    "\<And>j. heldRefcnt (slab_at m1 j) = (if j = ?i then heldRefcnt (slab_at m j) - a else heldRefcnt (slab_at m j))"
    "\<And>j. wantedSegs (slab_at m1 j) = wantedSegs (slab_at m j)" "wantedSegmentBlocks m1 = wantedSegmentBlocks m"
    by (rule DecrementHeld_step_spec [OF booksD(1) [OF b] i(1) le i(2)]) (rule that)
  have n1: "num_slabs m1 = num_slabs m" by (rule slab_frame_num_slabs [OF m1(3)])
  have "held m j = held m1 j + (if ?i = j then unat a else 0)" for j
    using le by (auto simp: held_def m1(4) unat_sub word_le_nat_alt)
  then have "int (held m j) = int (held m1 j) + (if ?i = j then int (unat a) else 0)" for j
    by (simp only: of_nat_add split: if_split) simp
  then have h1: "int (held m1 j) - int (held m j) = ?d j - d j" for j by simp
  have b1: "books B ?d e {} W m1"
  proof (rule books_slabs [OF b m1(2,3)])
    show "mset (queued_segs m1) + e = mset (queued_segs m) + e" by (simp add: queued_segs_cong [OF n1 m1(5)])
    show "segment_slab m1 seg = j" if "j < num_slabs m" "seg \<in> set (wantedSegs (slab_at m1 j))" for j seg
      using that books_seg_slab [OF b] segment_slab_cong [OF m1(3)] by (simp add: m1(5,6))
  qed (use h1 m1(6) in simp_all)
  have pos: "int (released xs j) \<le> ?d j" for j using Cons.prems(3) [of j] x by (cases "?i = j") simp_all
  then have nn: "0 \<le> ?d j" for j by (rule order_trans [rotated]) simp
  have req: "requests m1 = requests m" using m1(3) mg_more(3) [of m1 m] by (simp add: requests_def slab_frame_def)
  have step: "sat (if ev = 0 then Ok () m1 else CallStateChangeHandler (Some HandleSlabStateChange) ev ?i m1)
    (\<lambda>_ m'. books B ?d e {} W m' \<and> geometry m' = geometry m \<and> requests m' \<le> requests m) (\<lambda>_ _. False)"
    using Call_books [OF b1 nn] b1 geometry_frame [OF m1(3)] req by simp
  have "sat (bind_o (if ev = 0 then Ok () m1 else CallStateChangeHandler (Some HandleSlabStateChange) ev ?i m1)
      (\<lambda>_. for_each (\<lambda>(sid, amount) m.
       bind_o (DecrementHeld_step sid amount m) (\<lambda>ev m.
         if ev = 0 then Ok () m else CallStateChangeHandler (Some HandleSlabStateChange) ev (unat sid) m)) xs))
    (\<lambda>_ m'. books B (\<lambda>i. d i - int (released (x # xs) i)) e {} W m' \<and> geometry m' = geometry m \<and> requests m' \<le> requests m) (\<lambda>_ _. False)"
  proof (rule sat_bind [OF step], goal_cases)
    case (1 u m2)
    have "(\<lambda>i. d i - int (released (x # xs) i)) = (\<lambda>i. ?d i - int (released xs i))" by (auto simp: fun_eq_iff x)
    then have "sat (for_each (\<lambda>(sid, amount) m.
       bind_o (DecrementHeld_step sid amount m) (\<lambda>ev m.
         if ev = 0 then Ok () m else CallStateChangeHandler (Some HandleSlabStateChange) ev (unat sid) m)) xs m2)
      (\<lambda>_ m'. books B (\<lambda>i. d i - int (released (x # xs) i)) e {} W m' \<and> geometry m' = geometry m2 \<and> requests m' \<le> requests m2)
      (\<lambda>_ _. False)"
      using Cons.IH [of ?d m2] pos Cons.prems(2) x 1 geometryD [of m2 m] by simp
    then show ?case by (rule sat_mono) (use 1 in auto)
  qed
  then show ?case using m1(1) x by simp
qed simp

lemma mg_IncrementHeldRefcnt_books:
  assumes "books B d e S W m"
    and "\<And>sid. sid \<in> set ids \<Longrightarrow> unat sid < num_slabs m \<and> (unat sid \<in> S \<or> wantedSegs (slab_at m (unat sid)) \<noteq> [])"
    and "\<And>i. d i + int (count_list (map unat ids) i) \<le> 0"
  shows "sat (mg_IncrementHeldRefcnt ids m) (\<lambda>_ m'. books B (\<lambda>i. d i + int (count_list (map unat ids) i)) e S W m'
    \<and> geometry m' = geometry m) (\<lambda>_ _. False)"
  using assms unfolding mg_IncrementHeldRefcnt_def IncrementHeldRefcnt_def
proof (induction ids arbitrary: d m)
  case (Cons sid ids)
  let ?i = "unat sid" and ?d = "\<lambda>i. d i + (if unat sid = i then 1 else 0)"
  have b: "books B d e S W m" by (rule Cons.prems(1))
  have i: "?i < num_slabs m" "heldRefcnt (slab_at m ?i) \<noteq> 0 \<or> wantedSegs (slab_at m ?i) \<noteq> []"
    using Cons.prems(2) [of sid] books_pinned [OF b, of ?i] by (auto simp: held_def simp flip: unat_gt_0_iff)
  have "d ?i \<le> 0" using Cons.prems(3) [of ?i] by simp
  then have "held m ?i < 2 ^ 32 - 1" using books_held [OF b i(1)] clients_hold_bound [OF b, of ?i] by linarith
  then have nw: "heldRefcnt (slab_at m ?i) \<noteq> - 1" by (auto simp: held_def unat_minus_1_u32)
  have mask: "Some HandleSlabStateChange = None \<or> whichStateChange m AND kWantedToHeld = 0"
    using masked(2) [OF booksD(2) [OF b]] by simp
  obtain m1 where m1: "IncrementHeld_step (Some HandleSlabStateChange) sid m = Ok () m1" "slab_inv m1" "slab_frame m m1"
    "\<And>j. slab_at m1 j = (if j = ?i then (slab_at m j)\<lparr>heldRefcnt := heldRefcnt (slab_at m j) + 1\<rparr> else slab_at m j)"
    "wantedSegmentBlocks m1 = wantedSegmentBlocks m"
    by (rule IncrementHeld_step_spec [OF booksD(1) [OF b] i mask nw]) (rule that)
  have n1: "num_slabs m1 = num_slabs m" by (rule slab_frame_num_slabs [OF m1(3)])
  have ws: "wantedSegs (slab_at m1 j) = wantedSegs (slab_at m j)" for j by (simp add: m1(4))
  have "held m1 j = held m j + (if ?i = j then 1 else 0)" for j
    using unat_inc [OF nw] by (auto simp: held_def m1(4))
  then have h1: "int (held m1 j) - int (held m j) = ?d j - d j" for j by simp
  have b1: "books B ?d e S W m1"
  proof (rule books_slabs [OF b m1(2,3)])
    show "mset (queued_segs m1) + e = mset (queued_segs m) + e" by (simp add: queued_segs_cong [OF n1 ws])
    show "segment_slab m1 seg = j" if "j < num_slabs m" "seg \<in> set (wantedSegs (slab_at m1 j))" for j seg
      using that books_seg_slab [OF b] segment_slab_cong [OF m1(3)] by (simp add: ws m1(5))
    show "held m1 j \<noteq> 0" if "j \<in> S" for j using h1 [of j] books_pinned [OF b that] by (auto split: if_splits)
  qed (use h1 m1(5) in simp_all)
  have le: "?d j + int (count_list (map unat ids) j) \<le> 0" for j using Cons.prems(3) [of j] by (simp split: if_splits)
  have "sat (for_each (IncrementHeld_step (Some HandleSlabStateChange)) ids m1)
     (\<lambda>_ m'. books B (\<lambda>i. ?d i + int (count_list (map unat ids) i)) e S W m' \<and> geometry m' = geometry m1) (\<lambda>_ _. False)"
    by (rule Cons.IH [OF b1 _ le]) (use Cons.prems(2) n1 ws in auto)
  moreover have "(\<lambda>i. ?d i + int (count_list (map unat ids) i)) = (\<lambda>i. d i + int (count_list (map unat (sid # ids)) i))"
    by (auto simp: fun_eq_iff)
  ultimately show ?case using m1(1) geometry_frame [OF m1(3)] by simp
qed simp

section \<open>Wanted segments\<close>

lemma mg_GetWantedSegment_books:
  assumes b: "books B d e S W m" and i: "unat (blockID div mg_blocksPerSlab m) < num_slabs m"
    and S: "unat (blockID div mg_blocksPerSlab m) \<in> S"
  shows "sat (mg_GetWantedSegment cid blockID m) (\<lambda>seg m'. books B d (add_mset seg e) S W m'
    \<and> ws_clientID (wantedSegmentBlocks m' ! seg) = cid \<and> geometry m' = geometry m) (\<lambda>_ _. False)"
proof -
  let ?sid = "blockID div mg_blocksPerSlab m"
  let ?i = "unat ?sid"
  have nz: "mg_blocksPerSlab m \<noteq> 0" by (rule books_blocks [OF b])
  have nf: "heldRefcnt (slab_at m ?i) \<noteq> 0 \<or> wantedSegs (slab_at m ?i) \<noteq> []"
    using books_pinned [OF b S] by (auto simp: held_def)
  obtain seg m' where m': "GetWantedSegment cid blockID ?sid m = Ok seg m'" "slab_inv m'" "slab_frame m m'"
    "seg \<notin> set (queued_segs m)" "wantedSegmentBlocks m' ! seg = \<lparr>ws_clientID = cid, ws_blockID = blockID\<rparr>"
    "\<And>s. s \<in> set (queued_segs m) \<Longrightarrow> wantedSegmentBlocks m' ! s = wantedSegmentBlocks m ! s"
    "\<And>j. slab_at m' j = (if j = ?i then (slab_at m j)\<lparr>wantedSegs := wantedSegs (slab_at m j) @ [seg]\<rparr> else slab_at m j)"
    by (rule GetWantedSegment_spec [OF booksD(1) [OF b] i nf]) (rule that)
  have n: "num_slabs m' = num_slabs m" by (rule slab_frame_num_slabs [OF m'(3)])
  have more: "slab_manager.more m' = slab_manager.more m" using m'(3) by (simp add: slab_frame_def)
  have h: "held m' j = held m j" for j by (simp add: held_def m'(7))
  have sh: "slab_shape m" using booksD(1) [OF b] by (simp add: slab_inv_def)
  have "queued_segs m' = queued_segs (upd_slab ?i (\<lambda>s. s\<lparr>wantedSegs := wantedSegs s @ [seg]\<rparr>) m)"
    by (rule queued_segs_cong) (simp_all add: n m'(7) slab_at_upd_slab [OF sh i])
  then have "mset (queued_segs m') + mset (wantedSegs (slab_at m ?i)) = mset (queued_segs m) + mset (wantedSegs (slab_at m ?i) @ [seg])"
    using queued_segs_upd_slab [OF sh i, of "\<lambda>s. s\<lparr>wantedSegs := wantedSegs s @ [seg]\<rparr>"] by simp
  then have q: "mset (queued_segs m') = add_mset seg (mset (queued_segs m))" by simp
  have "books B d (add_mset seg e) S W m'"
  proof (rule books_slabs [OF b m'(2,3)])
    show "mset (queued_segs m') + e = mset (queued_segs m) + add_mset seg e" by (simp add: q)
    show "wantedSegmentBlocks m' ! s = wantedSegmentBlocks m ! s" if "(c, xs) \<in> set W" "s \<in> set xs" for c xs s
      using m'(6) books_queue_queued [OF b that] .
    show "segment_slab m' s = j" if j: "j < num_slabs m" "s \<in> set (wantedSegs (slab_at m' j))" for j s
    proof (cases "s = seg")
      case True
      then have "j = ?i" using j m'(4) queued_mem [of s m j] by (auto simp: m'(7) split: if_splits)
      then show ?thesis using True m'(5) mg_more(5) [OF more] by (simp add: segment_slab_def)
    next
      case False
      then have s: "s \<in> set (wantedSegs (slab_at m j))" using j by (auto simp: m'(7) split: if_splits)
      show ?thesis
        using books_seg_slab [OF b j(1) s] segment_slab_cong [OF m'(3) m'(6) [OF queued_mem [OF s j(1)]]] by simp
    qed
    show "held m' j \<noteq> 0" if "j \<in> S" for j using books_pinned [OF b that] h by simp
  qed (simp add: h)
  then show ?thesis using m'(1,5) nz geometry_frame [OF m'(3)] by (simp add: mg_GetWantedSegment_def)
qed

lemma mg_ReleaseWantedSegment_books:
  assumes b: "books B d (add_mset seg e) S W m" and nn: "\<And>i. 0 \<le> d i"
  shows "sat (mg_ReleaseWantedSegment seg m) (\<lambda>_ m'. books B d e S W m' \<and> geometry m' = geometry m) (\<lambda>_ _. False)"
proof -
  let ?sid = "ws_blockID (wantedSegmentBlocks m ! seg) div mg_blocksPerSlab m"
  let ?i = "unat ?sid"
  have nz: "mg_blocksPerSlab m \<noteq> 0" by (rule books_blocks [OF b])
  have "seg \<in># mset (queued_segs m)" unfolding booksD(8) [OF b] by simp
  then have "seg \<in> set (queued_segs m)" by simp
  from books_queued [OF b this] have i: "?i < num_slabs m" "seg \<in> set (wantedSegs (slab_at m ?i))"
    by (simp_all add: segment_slab_def)
  obtain ev m1 where m1: "ReleaseWanted_step seg ?sid m = Ok ev m1" "slab_inv m1" "slab_frame m m1"
    "\<And>j. wantedSegs (slab_at m1 j) = (if j = ?i then remove1 seg (wantedSegs (slab_at m j)) else wantedSegs (slab_at m j))"
    "\<And>j. heldRefcnt (slab_at m1 j) = heldRefcnt (slab_at m j)" "wantedSegmentBlocks m1 = wantedSegmentBlocks m"
    by (rule ReleaseWanted_step_spec [OF booksD(1) [OF b] i]) (rule that)
  have n: "num_slabs m1 = num_slabs m" by (rule slab_frame_num_slabs [OF m1(3)])
  have h: "held m1 j = held m j" for j by (simp add: held_def m1(5))
  have sh: "slab_shape m" using booksD(1) [OF b] by (simp add: slab_inv_def)
  let ?del = "\<lambda>s :: slab_info. s\<lparr>wantedSegs := remove1 seg (wantedSegs s)\<rparr>"
  have "queued_segs m1 = queued_segs (upd_slab ?i ?del m)"
    by (rule queued_segs_cong) (simp_all add: n m1(4) slab_at_upd_slab [OF sh i(1)])
  then have x: "mset (queued_segs m1) + mset (wantedSegs (slab_at m ?i)) = mset (queued_segs m) + (mset (wantedSegs (slab_at m ?i)) - {#seg#})"
    using queued_segs_upd_slab [OF sh i(1), of ?del] by simp
  obtain A where A: "mset (wantedSegs (slab_at m ?i)) = add_mset seg A" using i(2) by (metis mset_add set_mset_mset)
  have q: "add_mset seg (mset (queued_segs m1)) = mset (queued_segs m)" using x unfolding A by simp
  have b1: "books B d e S W m1"
  proof (rule books_slabs [OF b m1(2,3)])
    show "mset (queued_segs m1) + add_mset seg e = mset (queued_segs m) + e" using q by simp
    show "segment_slab m1 s = j" if j: "j < num_slabs m" "s \<in> set (wantedSegs (slab_at m1 j))" for j s
    proof -
      have "s \<in> set (wantedSegs (slab_at m j))" using j(2) by (auto simp: m1(4) split: if_splits dest: set_remove1_subset [THEN subsetD])
      then show ?thesis using books_seg_slab [OF b j(1)] segment_slab_cong [OF m1(3)] by (simp add: m1(6))
    qed
    show "held m1 j \<noteq> 0" if "j \<in> S" for j using books_pinned [OF b that] h by simp
  qed (simp_all add: h m1(6))
  have call: "sat (if ev = 0 then Ok () m1 else CallStateChangeHandler (Some HandleSlabStateChange) ev ?i m1)
    (\<lambda>_ m'. books B d e S W m' \<and> geometry m' = geometry m \<and> requests m' \<le> requests m1) (\<lambda>_ _. False)"
    using Call_books [OF b1 nn] b1 geometry_frame [OF m1(3)] by simp
  have "sat (if ev = 0 then Ok () m1 else CallStateChangeHandler (Some HandleSlabStateChange) ev ?i m1)
    (\<lambda>_ m'. books B d e S W m' \<and> geometry m' = geometry m) (\<lambda>_ _. False)"
    by (rule sat_mono [OF call]) simp_all
  then show ?thesis using nz m1(1) by (simp add: mg_ReleaseWantedSegment_def ReleaseWantedSegment_def)
qed

end
