(* ===== verification/Manager_Queue.thy ===== *)
theory Manager_Queue
  imports Manager_Flow
begin

unbundle bit_operations_syntax

text \<open>
  The wanted queue and the free slabs in the books: \<open>PopWantedQueue\<close>, the harvest, the requests for
  slabs.  \<open>kept B S K m\<close>: the books are closed, nothing is in transit and the clients are \<open>K\<close>.
\<close>

definition kept :: "(u16 \<Rightarrow> nat) \<Rightarrow> nat set \<Rightarrow> u16 list \<Rightarrow> manager \<Rightarrow> bool" where
  "kept B S K m \<longleftrightarrow> (\<exists>W. map fst W = K \<and> books B (\<lambda>_. 0) {#} S W m)"

lemma keptI: "books B (\<lambda>_. 0) {#} S W m \<Longrightarrow> kept B S (map fst W) m"
  unfolding kept_def by blast

section \<open>Messages to a client\<close>

lemma books_mono:
  assumes "books B d e S W m" "\<And>c. B c \<le> B' c"
  shows "books B' d e S W m"
  using assms order_trans [OF _ assms(2)] by (fastforce simp: books_def)

lemma books_client_queue:
  assumes "books B d e S W m" "map_of W c = Some q"
  obtains p where "map_of (mg_clients m) c = Some p" "px_wantedQueue p = q"
  using assms(2) booksD(7) [OF assms(1)] map_of_queues [of m c] by (cases "map_of (mg_clients m) c") (simp_all add: that)

lemma GetBlockInfo_books:
  assumes b: "books B d e S W m" and i: "unat (blockID div mg_blocksPerSlab m) < num_slabs m"
  obtains info where "with_shm (GetBlockInfo blockID) m = Ok info m"
proof -
  have mem: "unat (shm_numBlocks (mg_shm m)) = unat (slabsPerBuf m) * unat (mg_blocksPerSlab m)"
    "length (shm_infoVec (mg_shm m)) = length (infoVec m)" "mg_blocksPerSlab m \<noteq> 0"
    using booksD(5) [OF b] unfolding parts_ok_def shm_ok_def by auto
  have pos: "slabsPerBuf m \<noteq> 0" using booksD(1) [OF b] by (simp add: slab_inv_def slab_shape_def)
  then have nz: "shm_numBlocks (mg_shm m) \<noteq> 0" using mem(1,3) by (metis mult_is_0 unat_eq_zero unat_0)
  have "unat (blockID div shm_numBlocks (mg_shm m)) = unat (blockID div mg_blocksPerSlab m) div unat (slabsPerBuf m)"
    by (simp add: unat_div mem(1) div_mult2_eq mult.commute)
  also have "\<dots> < length (infoVec m)"
    using i pos by (simp add: num_slabs_def less_mult_imp_div_less mult.commute)
  finally have "GetBlockInfo blockID (mg_shm m) = Ok (shm_infoVec (mg_shm m) ! unat (blockID div shm_numBlocks (mg_shm m))
      ! unat (blockID mod shm_numBlocks (mg_shm m))) (mg_shm m)"
    using nz mem(2) by (simp add: GetBlockInfo_def Let_def)
  then show ?thesis using that by (simp add: with_shm_def)
qed

lemma px_SendBlockIDs_books:
  assumes b: "books B d e S W m" and c: "map_of (mg_clients m) c = Some p"
  shows "sat (px_SendBlockIDs c blocks m) (\<lambda>_ m'. books B d e S W m' \<and> geometry m' = geometry m) (\<lambda>_ _. False)"
proof -
  have ok: "calm p" using books_client(1) [OF b c] by (simp add: proxy_ok_def)
  note s = sends_same [OF calm_sends(2) [OF ok, of "map fst blocks"]]
  have "sat (on_proxy c (\<lambda>p. caught None (bind_o (SendBlockIDs (map fst blocks) p) (\<lambda>n p.
          Ok (Some n) (p\<lparr>px_stats := (px_stats p)\<lparr>ps_sentSegs := ps_sentSegs (px_stats p) + of_nat (length blocks),
                         ps_sentBytes := ps_sentBytes (px_stats p) + (\<Sum>(b, size) \<leftarrow> blocks. ucast size)\<rparr>\<rparr>)))) m)
    (\<lambda>_ m'. books B d e S W m' \<and> geometry m' = geometry m) (\<lambda>_ _. False)"
    using s books_same_proxy [OF b c]
    by (cases "SendBlockIDs (map fst blocks) p") (auto simp: on_proxy_def c caught_def same_books_def calm_def)
  then show ?thesis unfolding px_SendBlockIDs_def Let_def
    by (rule sat_bind) (auto simp: SentStats_def split: option.split)
qed

lemma report_drop_same: "calm p \<Longrightarrow> sat (report_drop segs bytes p) (\<lambda>_. same_books p) (\<lambda>_ _. False)"
proof -
  assume p: "calm p"
  obtain report d where r: "dr_GetReport (dr_Dropped segs bytes (px_drops p)) = (report, d)" by fastforce
  let ?p = "p\<lparr>px_drops := d\<rparr>"
  have p': "calm ?p" using p by (simp add: calm_def)
  have "sat (caught (- 1) (bind_o (SendDropReport s b ?p) (\<lambda>n. Ok (int n)))) (\<lambda>_. same_books ?p) (\<lambda>_ _. False)" for s b
    by (rule caught_send [OF calm_sends(4) [OF p']])
  moreover have "same_books ?p p' \<Longrightarrow> same_books p p'" for p' by (simp add: same_books_def)
  ultimately have "sat (caught (- 1) (bind_o (SendDropReport s b ?p) (\<lambda>n. Ok (int n)))) (\<lambda>_. same_books p) (\<lambda>_ _. False)" for s b
    by (blast intro: sat_mono)
  moreover have "same_books p ?p" by (simp add: same_books_def p')
  ultimately show ?thesis by (simp add: report_drop_def r Let_def split: option.split prod.split)
qed

lemma px_SendDropReport_books:
  assumes b: "books B d e S W m" and c: "map_of (mg_clients m) c = Some p"
  shows "sat (px_SendDropReport c segs bytes m) (\<lambda>_ m'. books B d e S W m' \<and> geometry m' = geometry m) (\<lambda>_ _. False)"
proof -
  have "calm p" using books_client(1) [OF b c] by (simp add: proxy_ok_def)
  from report_drop_same [OF this, of segs bytes] books_same_proxy [OF b c]
  have "sat (on_proxy c (report_drop segs bytes) m) (\<lambda>_ m'. books B d e S W m' \<and> geometry m' = geometry m) (\<lambda>_ _. False)"
    by (cases "report_drop segs bytes p") (auto simp: on_proxy_def c)
  then show ?thesis unfolding px_SendDropReport_def by (rule sat_bind) (simp add: DroppedStats_def)
qed

section \<open>Taking a slab for a client\<close>

lemma TakeConsSlab_refs:
  assumes inv: "tracker_inv n t" and i: "unat i < n" and room: "cons_refs t (unat i) < 2 ^ 16 - 1"
  shows "sat (TakeConsSlab i t) (\<lambda>taken t'. tracker_inv n t' \<and> prodSlabRefcnt t' = prodSlabRefcnt t
     \<and> cons_refs t' = (if taken then (cons_refs t)(unat i := Suc (cons_refs t (unat i))) else cons_refs t)) (\<lambda>_ _. False)"
proof (cases "consSlabsHeld t \<le> numConsSlabs t")
  case True
  from TakeConsSlab_spec [OF inv i room True] show ?thesis by (rule sat_mono) (auto split: if_splits)
next
  case False
  let ?t = "t\<lparr>numConsSlabs := consSlabsHeld t\<rparr>"
  have "TakeConsSlab i t = lift_o (\<lambda>t'. t'\<lparr>numConsSlabs := numConsSlabs t\<rparr>) (TakeConsSlab i ?t)"
    using False i tracker_invD(2) [OF inv] by (auto simp: TakeConsSlab_def Let_def)
  moreover have refs: "cons_refs (u\<lparr>numConsSlabs := k\<rparr>) = cons_refs u" "tracker_inv n (u\<lparr>numConsSlabs := k\<rparr>) = tracker_inv n u" for u k
    by (simp_all add: tracker_inv_def cons_refs_def fun_eq_iff)
  have "sat (TakeConsSlab i ?t) (\<lambda>taken t'. tracker_inv n t' \<and> prodSlabRefcnt t' = prodSlabRefcnt t
     \<and> cons_refs t' = (if taken then (cons_refs t)(unat i := Suc (cons_refs t (unat i))) else cons_refs t)) (\<lambda>_ _. False)"
    by (rule sat_mono [OF TakeConsSlab_spec [of n ?t i]]) (use inv i room refs in \<open>auto split: if_splits\<close>)
  ultimately show ?thesis by (simp add: refs)
qed

lemma TakeConsSlab_books:
  assumes b: "books B d e S W m" and c: "map_of (mg_clients m) c = Some p"
    and i: "unat s < num_slabs m" and room: "cons_refs (px_slabs p) (unat s) < 2 ^ 16 - 1"
  shows "sat (on_proxy c (on_slabs (TakeConsSlab s)) m) (\<lambda>taken m'. (\<exists>p'. m' = put_proxy c p' m)
     \<and> (if taken then books (B(c := Suc (B c))) (d(unat s := d (unat s) - 1)) e S W m' else books B d e S W m')) (\<lambda>_ _. False)"
proof -
  let ?t = "px_slabs p"
  have ok: "proxy_ok (num_slabs m) (mg_blocksPerSlab m) c p" by (rule books_client(1) [OF b c])
  then have t: "tracker_inv (num_slabs m) ?t" by (simp add: proxy_ok_def)
  have W: "om_assign c (px_wantedQueue p) W = W"
    using booksD(7) [OF b] map_of_queues [of m c] c by (intro om_assign_same) simp
  have mem: "ws_clientID (wantedSegmentBlocks m ! seg) = c" if "seg \<in> set (px_wantedQueue p)" for seg
    using booksD(7) [OF b] map_of_SomeD [OF c] b that by (force simp: queues_def books_def)
  show ?thesis
    unfolding on_proxy_def c option.case on_slabs_def sat_lift
  proof (rule sat_mono [OF TakeConsSlab_refs [OF t i room]], goal_cases)
    case (1 taken t')
    let ?p = "p\<lparr>px_slabs := t'\<rparr>" and ?B = "if taken then B(c := Suc (B c)) else B"
      and ?d = "if taken then d(unat s := d (unat s) - 1) else d"
    have ok': "proxy_ok (num_slabs m) (mg_blocksPerSlab m) c ?p" using ok 1 by (simp add: proxy_ok_def calm_def)
    have r: "cons_refs t' j = cons_refs ?t j + (if taken \<and> j = unat s then 1 else 0)" "prod_held t' j = prod_held ?t j" for j
      using 1 by (simp_all add: prod_held_def)
    have "books ?B ?d e S (om_assign c (px_wantedQueue ?p) W) (put_proxy c ?p m)"
    proof (rule books_put_proxy [OF b c ok'])
      show "cons_refs (px_slabs ?p) j + length (px_wantedQueue ?p) \<le> ?B c" for j
        using books_client(2) [OF b c, of j] by (auto simp: r)
    qed (use mem in \<open>simp_all add: r px_holds_def\<close>)
    then show ?case using W by (cases taken) auto
  qed
qed

end
