(* ===== verification/Manager_Drain.thy ===== *)
theory Manager_Drain
  imports Manager_Queue
begin

unbundle bit_operations_syntax

text \<open>
  Emptying the wanted queues: \<open>PopWantedQueue\<close>, which sends what its client takes, and
  \<open>EraseWantedSegment\<close> with the harvest above it, which drops segments to free their slabs.
\<close>

section \<open>The wanted queue\<close>

lemma books_client_of:
  assumes "books B d e S W m" "map_of W c = Some q"
  shows "\<exists>p. map_of (mg_clients m) c = Some p \<and> px_wantedQueue p = q"
  using books_client_queue [OF assms] by metis

lemma queue_of_client: "books B d e S W m \<Longrightarrow> map_of (mg_clients m) c = Some p \<Longrightarrow> map_of W c = Some (px_wantedQueue p)"
  using booksD(7) map_of_queues [of m c] by auto

lemma queued_front:
  assumes b: "books B d e S W m" and c: "map_of (mg_clients m) c = Some p" and q: "seg \<in> set (px_wantedQueue p)"
  shows "ws_clientID (wantedSegmentBlocks m ! seg) = c" "segment_slab m seg < num_slabs m"
    "seg \<in> set (wantedSegs (slab_at m (segment_slab m seg)))"
proof -
  have W: "(c, px_wantedQueue p) \<in> set W" using queue_of_client [OF b c] by (rule map_of_SomeD)
  then show "ws_clientID (wantedSegmentBlocks m ! seg) = c" using b q by (auto simp: books_def)
  have "seg \<in> set (queued_segs m)" by (rule books_queue_queued [OF b W q])
  from books_queued [OF b this] show "segment_slab m seg < num_slabs m"
    "seg \<in> set (wantedSegs (slab_at m (segment_slab m seg)))" by simp_all
qed

text \<open>A proxy that changes only its statistics.\<close>

lemma books_stats:
  assumes b: "books B d e S W m" and c: "map_of (mg_clients m) c = Some p"
    and f: "\<And>q. f q = Ok () (q\<lparr>px_stats := g q\<rparr>)"
  shows "sat (on_proxy c f m) (\<lambda>_ m'. books B d e S W m' \<and> geometry m' = geometry m) (\<lambda>_ _. False)"
proof -
  have "same_books p (p\<lparr>px_stats := g p\<rparr>)"
    using books_client(1) [OF b c] by (simp add: same_books_def proxy_ok_def calm_def)
  then show ?thesis using books_same_proxy [OF b c] by (simp add: on_proxy_def c f)
qed

lemma front_wanted_books:
  assumes b: "books B (\<lambda>_. 0) {#} S W m" and c: "map_of (mg_clients m) c = Some p"
    and q: "px_wantedQueue p = seg # q" and room: "B c < 2 ^ 16"
  shows "sat (front_wanted c p (ws_blockID (wantedSegmentBlocks m ! seg)) info m)
    (\<lambda>go m'. books (if go then B(c := Suc (B c)) else B) (\<lambda>_. 0) {#} S W m' \<and> geometry m' = geometry m) (\<lambda>_ _. False)"
proof -
  let ?blk = "ws_blockID (wantedSegmentBlocks m ! seg)" and ?B = "B(c := Suc (B c))"
  let ?sid = "?blk div px_blocksPerSlab p"
  have more: "books ?B d e S W m'" if "books B d e S W m'" for d e m' by (rule books_mono [OF that]) simp
  have bps: "px_blocksPerSlab p = mg_blocksPerSlab m" using books_client(1) [OF b c] by (simp add: proxy_ok_def)
  have i: "unat ?sid < num_slabs m" "wantedSegs (slab_at m (unat ?sid)) \<noteq> []"
    using queued_front(2,3) [OF b c, of seg] q bps by (auto simp: segment_slab_def)
  have "cons_refs (px_slabs p) (unat ?sid) < 2 ^ 16 - 1"
    using books_client(2) [OF b c, of "unat ?sid"] room q by simp
  note take = TakeConsSlab_books [OF b c i(1) this]
  show ?thesis
  proof (cases "bi_messageID info \<in> set (px_registered p)")
    case False
    then show ?thesis using more [OF b] by (simp add: front_wanted_def)
  next
    case True
    have send: "sat (bind_o (mg_IncrementHeldRefcnt [?sid] m1) (\<lambda>_ m. bind_o (px_SendBlockIDs c [(?blk, bi_size info)] m) (\<lambda>_. Ok True)))
        (\<lambda>go m'. books (if go then ?B else B) (\<lambda>_. 0) {#} S W m' \<and> geometry m' = geometry m) (\<lambda>_ _. False)"
      if m1: "m1 = put_proxy c p' m" "books ?B ((\<lambda>_. 0)(unat ?sid := - 1)) {#} S W m1" for m1 p'
    proof (rule sat_bind [OF mg_IncrementHeldRefcnt_books [OF m1(2)]], goal_cases)
      case (1 sid) then show ?case using i m1(1) by simp
    next
      case (2 j) then show ?case by (cases "unat ?sid = j") simp_all
    next
      case (3 u m2)
      have "(\<lambda>j. ((\<lambda>_. 0)(unat ?sid := - 1)) j + int (count_list (map unat [?sid]) j)) = (\<lambda>_. 0)" by (auto simp: fun_eq_iff)
      then have b2: "books ?B (\<lambda>_. 0) {#} S W m2" "geometry m2 = geometry m" using 3 m1(1) by simp_all
      obtain p2 where "map_of (mg_clients m2) c = Some p2" using books_client_of [OF b2(1) queue_of_client [OF b c]] by auto
      then show ?case by (rule sat_bind [OF px_SendBlockIDs_books [OF b2(1)]]) (use b2 in simp)
    qed
    have drop: "sat (bind_o (on_proxy c (drop_overage (bi_size info)) m1) (\<lambda>_ m. bind_o (px_SendDropReport c 1 (bi_size info) m) (\<lambda>_. Ok True)))
        (\<lambda>go m'. books (if go then ?B else B) (\<lambda>_. 0) {#} S W m' \<and> geometry m' = geometry m) (\<lambda>_ _. False)"
      if m1: "books B (\<lambda>_. 0) {#} S W m1" "geometry m1 = geometry m" for m1
    proof -
      obtain p1 where p1: "map_of (mg_clients m1) c = Some p1" using books_client_of [OF m1(1) queue_of_client [OF b c]] by auto
      show ?thesis
      proof (rule sat_bind [OF books_stats [OF m1(1) p1 drop_overage_def]], goal_cases)
        case (1 u m2)
        then obtain p2 where "map_of (mg_clients m2) c = Some p2" using books_client_of [OF _ queue_of_client [OF b c]] by blast
        with 1 show ?case by (intro sat_bind [OF px_SendDropReport_books]) (auto simp: m1(2) more)
      qed
    qed
    show ?thesis
      unfolding front_wanted_def if_P [OF True] Let_def
      by (rule sat_bind [OF take]) (use send drop b in \<open>auto split: if_splits\<close>)
  qed
qed

lemma pop_wanted_books:
  assumes b: "books (B(c := Suc (B c))) d e S W m" and c: "map_of (mg_clients m) c = Some p" and q: "px_wantedQueue p = seg # q"
  shows "sat (on_proxy c (pop_wanted sz) m) (\<lambda>_ m'. books B d (add_mset seg e) S (om_assign c q W) m' \<and> geometry m' = geometry m)
    (\<lambda>_ _. False)"
proof -
  let ?p = "p\<lparr>px_stats := (px_stats p)\<lparr>ps_wantedSegsOut := ps_wantedSegsOut (px_stats p) + 1,
                                      ps_wantedBytesOut := ps_wantedBytesOut (px_stats p) + ucast sz\<rparr>, px_wantedQueue := q\<rparr>"
  have ok: "proxy_ok (num_slabs m) (mg_blocksPerSlab m) c ?p" using books_client(1) [OF b c] by (simp add: proxy_ok_def calm_def)
  have r: "cons_refs (px_slabs ?p) i + length (px_wantedQueue ?p) \<le> B c" for i using books_client(2) [OF b c, of i] q by simp
  have "books B d (add_mset seg e) S (om_assign c (px_wantedQueue ?p) W) (put_proxy c ?p m)"
    by (rule books_put_proxy [where B' = B, OF b c ok r]) (use queued_front(1) [OF b c] q in \<open>simp_all add: px_holds_def\<close>)
  then show ?thesis using q by (simp add: on_proxy_def c pop_wanted_def)
qed

lemma keys_assign [simp]: "map fst (om_assign c v xs) = map fst xs"
  by (induction xs) auto

lemma PopWantedQueue_loop_books:
  assumes "books B (\<lambda>_. 0) {#} S W m" "map_of W c = Some q" "length q \<le> fuel" "B c < 2 ^ 16"
  shows "sat (PopWantedQueue_loop fuel c m) (\<lambda>_ m'. kept B S (map fst W) m' \<and> geometry m' = geometry m) (\<lambda>_ _. False)"
  using assms
proof (induction q arbitrary: W m fuel)
  case Nil
  then obtain p where "map_of (mg_clients m) c = Some p" "px_wantedQueue p = []" using books_client_of by blast
  then show ?case using keptI [OF Nil(1)] by (subst PopWantedQueue_loop.simps) simp
next
  case (Cons seg q)
  have b: "books B (\<lambda>_. 0) {#} S W m" by (rule Cons.prems(1))
  obtain p where p: "map_of (mg_clients m) c = Some p" "px_wantedQueue p = seg # q" using books_client_of [OF b Cons.prems(2)] by blast
  let ?blk = "ws_blockID (wantedSegmentBlocks m ! seg)"
  have bps: "px_blocksPerSlab p \<noteq> 0" using books_client(1) [OF b p(1)] books_blocks [OF b] by (simp add: proxy_ok_def)
  have "unat (?blk div mg_blocksPerSlab m) < num_slabs m" using queued_front(2) [OF b p(1), of seg] p(2) by (simp add: segment_slab_def)
  then obtain info where info: "with_shm (GetBlockInfo ?blk) m = Ok info m" by (rule GetBlockInfo_books [OF b])
  obtain f where f: "fuel = Suc f" "length q \<le> f" using Cons.prems(3) by (cases fuel) auto
  have "sat (bind_o (front_wanted c p ?blk info m) (\<lambda>go m.
                   if \<not> go then Ok () m
                   else bind_o (on_proxy c (pop_wanted (bi_size info)) m) (\<lambda>_ m.
                        bind_o (mg_ReleaseWantedSegment seg m) (\<lambda>_ m.
                        PopWantedQueue_loop f c m))))
    (\<lambda>_ m'. kept B S (map fst W) m' \<and> geometry m' = geometry m) (\<lambda>_ _. False)"
  proof (rule sat_bind [OF front_wanted_books [OF b p Cons.prems(4)]], goal_cases)
    case (1 go m1)
    show ?case
    proof (cases go)
      case False
      then show ?thesis using 1 keptI by simp
    next
      case True
      then have b1: "books (B(c := Suc (B c))) (\<lambda>_. 0) {#} S W m1" "geometry m1 = geometry m" using 1 by simp_all
      obtain p1 where p1: "map_of (mg_clients m1) c = Some p1" "px_wantedQueue p1 = seg # q"
        using books_client_of [OF b1(1) Cons.prems(2)] by blast
      have "sat (bind_o (on_proxy c (pop_wanted (bi_size info)) m1) (\<lambda>_ m. bind_o (mg_ReleaseWantedSegment seg m) (\<lambda>_ m. PopWantedQueue_loop f c m)))
        (\<lambda>_ m'. kept B S (map fst W) m' \<and> geometry m' = geometry m) (\<lambda>_ _. False)"
      proof (rule sat_bind [OF pop_wanted_books [OF b1(1) p1]], goal_cases)
        case (1 u m2)
        then have b2: "books B (\<lambda>_. 0) (add_mset seg {#}) S (om_assign c q W) m2" "geometry m2 = geometry m" using b1(2) by simp_all
        show ?case
        proof (rule sat_bind [OF mg_ReleaseWantedSegment_books [OF b2(1)]], goal_cases)
          case (2 u m3)
          have "map_of (om_assign c q W) c = Some q" using Cons.prems(2) by (simp add: map_of_om_assign)
          from Cons.IH [OF conjunct1 [OF 2] this f(2) Cons.prems(4)] show ?case using 2 b2(2) by simp
        qed simp
      qed
      then show ?thesis using True by simp
    qed
  qed
  then show ?case using p bps info unfolding f(1) by (subst PopWantedQueue_loop.simps) (simp add: Let_def cong: if_cong)
qed

lemma PopWantedQueue_books:
  assumes "kept B S K m" "c \<in> set K" "B c < 2 ^ 16"
  shows "sat (PopWantedQueue c m) (\<lambda>_ m'. kept B S K m' \<and> geometry m' = geometry m) (\<lambda>_ _. False)"
proof -
  obtain W where W: "map fst W = K" "books B (\<lambda>_. 0) {#} S W m" using assms(1) unfolding kept_def by blast
  obtain p where p: "map_of (mg_clients m) c = Some p" using books_key [OF W(2)] W(1) assms(2) by blast
  from PopWantedQueue_loop_books [OF W(2) queue_of_client [OF W(2) p] le_refl assms(3)] show ?thesis
    by (simp add: PopWantedQueue_def p W(1))
qed

section \<open>The harvest\<close>

lemma queue_owner:
  assumes b: "books B d {#} S W m" and seg: "seg \<in> set (queued_segs m)"
  obtains p where "map_of (mg_clients m) (ws_clientID (wantedSegmentBlocks m ! seg)) = Some p" "seg \<in> set (px_wantedQueue p)"
proof -
  have "seg \<in># mset (queued_segs m)" using seg by simp
  then have "seg \<in># (\<Sum>(c, q) \<leftarrow> W. mset q)" unfolding booksD(8) [OF b] by simp
  moreover have "seg \<in># (\<Sum>(c, q) \<leftarrow> W. mset q) \<Longrightarrow> \<exists>(c, q) \<in> set W. seg \<in> set q" by (induction W) auto
  ultimately obtain c q where cq: "(c, q) \<in> set W" "seg \<in> set q" by blast
  then obtain p where p: "(c, p) \<in> set (mg_clients m)" "q = px_wantedQueue p" using booksD(7) [OF b] by (auto simp: queues_def)
  have "map_of (mg_clients m) c = Some p" using p(1) om_ok_distinct [OF booksD(6) [OF b]] by simp
  moreover have "ws_clientID (wantedSegmentBlocks m ! seg) = c" using b cq by (auto simp: books_def)
  ultimately show ?thesis using that cq(2) p(2) by simp
qed

lemma books_queued_length: "books B d e S W m \<Longrightarrow> length (queued_segs m) = (\<Sum>(c, q) \<leftarrow> W. length q) + size e"
proof -
  assume "books B d e S W m"
  then have "size (mset (queued_segs m)) = size ((\<Sum>(c, q) \<leftarrow> W. mset q) + e)" using booksD(8) by metis
  moreover have "size (\<Sum>(c, q) \<leftarrow> W. mset q) = (\<Sum>(c, q) \<leftarrow> W. length q)" by (induction W) auto
  ultimately show ?thesis by simp
qed

lemma dequeue_dropped_books:
  assumes b: "books B d e S W m" and c: "map_of (mg_clients m) c = Some p" and q: "seg \<in> set (px_wantedQueue p)"
  shows "sat (on_proxy c (dequeue_dropped seg sz) m) (\<lambda>_ m'. books B d (add_mset seg e) S (om_assign c (remove1 seg (px_wantedQueue p)) W) m'
    \<and> geometry m' = geometry m) (\<lambda>_ _. False)"
proof -
  let ?q = "remove1 seg (px_wantedQueue p)"
  let ?p = "p\<lparr>px_stats := (px_stats p)\<lparr>ps_wantedSegsDropped := ps_wantedSegsDropped (px_stats p) + 1,
                       ps_wantedBytesDropped := ps_wantedBytesDropped (px_stats p) + ucast sz\<rparr>, px_wantedQueue := ?q\<rparr>"
  have ok: "proxy_ok (num_slabs m) (mg_blocksPerSlab m) c ?p" using books_client(1) [OF b c] by (simp add: proxy_ok_def calm_def)
  have r: "cons_refs (px_slabs ?p) i + length (px_wantedQueue ?p) \<le> B c" for i
    using books_client(2) [OF b c, of i] q by (simp add: length_remove1)
  have mem: "s \<in> set (px_wantedQueue p)" if "s \<in> set ?q" for s using that set_remove1_subset by fast
  have "books B d (add_mset seg e) S (om_assign c (px_wantedQueue ?p) W) (put_proxy c ?p m)"
    by (rule books_put_proxy [where B' = B, OF b c ok r])
      (use queued_front(1) [OF b c mem] q in \<open>simp_all add: px_holds_def\<close>)
  then show ?thesis using q by (simp add: on_proxy_def c dequeue_dropped_def)
qed

lemma sum_queues_remove:
  assumes "map_of W c = Some q" "seg \<in> set q"
  shows "Suc (\<Sum>(c, q) \<leftarrow> om_assign c (remove1 seg q) W. length q) = (\<Sum>(c, q) \<leftarrow> W. length q)"
  using sum_om_assign [OF assms(1), of "\<lambda>_. length" "remove1 seg q"] assms(2) length_pos_if_in_set [OF assms(2)]
  by (simp add: length_remove1 del: length_greater_0_conv)

lemma EraseWantedSegment_books:
  assumes b: "books B (\<lambda>_. 0) {#} S W m" and c: "map_of (mg_clients m) c = Some p" and q: "seg \<in> set (px_wantedQueue p)"
  shows "sat (EraseWantedSegment c seg m) (\<lambda>_ m'. (\<exists>W'. map fst W' = map fst W \<and> books B (\<lambda>_. 0) {#} S W' m')
     \<and> Suc (length (queued_segs m')) = length (queued_segs m) \<and> geometry m' = geometry m) (\<lambda>_ _. False)"
proof -
  let ?q = "remove1 seg (px_wantedQueue p)"
  let ?W = "om_assign c ?q W"
  let ?blk = "ws_blockID (wantedSegmentBlocks m ! seg)"
  have W: "map_of W c = Some (px_wantedQueue p)" by (rule queue_of_client [OF b c])
  have "unat (?blk div mg_blocksPerSlab m) < num_slabs m" using queued_front(2) [OF b c q] by (simp add: segment_slab_def)
  then obtain info where info: "with_shm (GetBlockInfo ?blk) m = Ok info m" by (rule GetBlockInfo_books [OF b])
  have n: "Suc (\<Sum>(c, q) \<leftarrow> ?W. length q) = length (queued_segs m)"
    using sum_queues_remove [OF W q] books_queued_length [OF b] by simp
  have drop: "sat (bind_o (on_proxy c (dequeue_dropped seg (bi_size info)) m) (\<lambda>_ m.
                bind_o (mg_ReleaseWantedSegment seg m) (\<lambda>_ m.
                bind_o (px_SendDropReport c 1 (bi_size info) m) (\<lambda>_. Ok ()))))
    (\<lambda>_ m'. books B (\<lambda>_. 0) {#} S ?W m' \<and> geometry m' = geometry m) (\<lambda>_ _. False)"
  proof (rule sat_bind [OF dequeue_dropped_books [OF b c q]], goal_cases)
    case (1 u m1)
    then have b1: "books B (\<lambda>_. 0) (add_mset seg {#}) S ?W m1" "geometry m1 = geometry m" by simp_all
    show ?case
    proof (rule sat_bind [OF mg_ReleaseWantedSegment_books [OF b1(1)]], goal_cases)
      case (2 u m2)
      have "map_of ?W c = Some ?q" using W by (simp add: map_of_om_assign)
      then obtain p2 where "map_of (mg_clients m2) c = Some p2" using books_client_of 2 by blast
      then show ?case using 2 b1(2) by (intro sat_bind [OF px_SendDropReport_books]) auto
    qed simp
  qed
  have len: "length (queued_segs m') = (\<Sum>(c, q) \<leftarrow> ?W. length q)" if "books B (\<lambda>_. 0) {#} S ?W m'" for m'
    using books_queued_length [OF that] by simp
  have "sat (bind_o (on_proxy c (dequeue_dropped seg (bi_size info)) m) (\<lambda>_ m.
                bind_o (mg_ReleaseWantedSegment seg m) (\<lambda>_ m.
                bind_o (px_SendDropReport c 1 (bi_size info) m) (\<lambda>_. Ok ()))))
    (\<lambda>_ m'. (\<exists>W'. map fst W' = map fst W \<and> books B (\<lambda>_. 0) {#} S W' m')
     \<and> Suc (length (queued_segs m')) = length (queued_segs m) \<and> geometry m' = geometry m) (\<lambda>_ _. False)"
    by (rule sat_mono [OF drop]) (use n len keys_assign [of c ?q W] in \<open>auto intro!: exI [of _ ?W]\<close>)
  moreover have "px_wantedQueue p \<noteq> []" using q by auto
  ultimately show ?thesis by (simp add: EraseWantedSegment_def info c)
qed

text \<open>The loop ends when enough slabs have become free; the difference is taken in \<open>size_t\<close>.\<close>

definition enough :: "u32 \<Rightarrow> u32 \<Rightarrow> manager \<Rightarrow> bool" where
  "enough orig cnt m \<longleftrightarrow> \<not> (of_nat (length (freeSlabs m)) :: u64) - ucast orig < ucast cnt"

lemma HarvestWantedSlabs_loop_books:
  assumes "kept B S K m" "length (queued_segs m) < fuel"
  shows "sat (HarvestWantedSlabs_loop fuel orig cnt m) (\<lambda>_ m'. kept B S K m' \<and> geometry m' = geometry m \<and> enough orig cnt m')
    (\<lambda>_ m'. kept B S K m' \<and> geometry m' = geometry m \<and> wantedSlabs m' = [])"
  using assms
proof (induction fuel arbitrary: m)
  case (Suc fuel)
  obtain W where W: "map fst W = K" "books B (\<lambda>_. 0) {#} S W m" using Suc.prems(1) unfolding kept_def by blast
  show ?case
  proof (cases "enough orig cnt m")
    case more: False
    show ?thesis
    proof (cases "wantedSlabs m")
      case Nil
      then show ?thesis using more Suc.prems(1) by (simp add: enough_def FrontWantedSegment_def)
    next
      case (Cons i ws)
      obtain seg where seg: "FrontWantedSegment m = Ok seg m" "seg \<in> set (wantedSegs (slab_at m i))" "i < num_slabs m"
        by (rule FrontWantedSegment_spec [OF booksD(1) [OF W(2)] Cons]) (rule that)
      let ?c = "ws_clientID (wantedSegmentBlocks m ! seg)"
      obtain p where p: "map_of (mg_clients m) ?c = Some p" "seg \<in> set (px_wantedQueue p)"
        by (rule queue_owner [OF W(2) queued_mem [OF seg(2,3)]])
      have "sat (bind_o (EraseWantedSegment ?c seg m) (\<lambda>_. HarvestWantedSlabs_loop fuel orig cnt))
        (\<lambda>_ m'. kept B S K m' \<and> geometry m' = geometry m \<and> enough orig cnt m') (\<lambda>_ m'. kept B S K m' \<and> geometry m' = geometry m \<and> wantedSlabs m' = [])"
      proof (rule sat_bind)
        show "sat (EraseWantedSegment ?c seg m) (\<lambda>_ m'. (\<exists>W'. map fst W' = map fst W \<and> books B (\<lambda>_. 0) {#} S W' m')
          \<and> Suc (length (queued_segs m')) = length (queued_segs m) \<and> geometry m' = geometry m)
          (\<lambda>_ m'. kept B S K m' \<and> geometry m' = geometry m \<and> wantedSlabs m' = [])"
          by (rule sat_mono [OF EraseWantedSegment_books [OF W(2) p]]) simp_all
      next
        fix u m1
        assume m1: "(\<exists>W'. map fst W' = map fst W \<and> books B (\<lambda>_. 0) {#} S W' m1)
          \<and> Suc (length (queued_segs m1)) = length (queued_segs m) \<and> geometry m1 = geometry m"
        then have "kept B S K m1" using W(1) by (auto simp: kept_def)
        from Suc.IH [OF this] show "sat (HarvestWantedSlabs_loop fuel orig cnt m1) (\<lambda>_ m'. kept B S K m' \<and> geometry m' = geometry m \<and> enough orig cnt m')
          (\<lambda>_ m'. kept B S K m' \<and> geometry m' = geometry m \<and> wantedSlabs m' = [])" using m1 Suc.prems(2) by simp
      qed
      then show ?thesis using more seg(1) p(1) by (simp add: enough_def Let_def)
    qed
  qed (use Suc.prems(1) in \<open>simp add: enough_def\<close>)
qed simp

lemma HarvestWantedSlabs_books:
  assumes "kept B S K m"
  shows "sat (HarvestWantedSlabs cnt m) (\<lambda>_ m'. kept B S K m' \<and> geometry m' = geometry m)
    (\<lambda>_ m'. kept B S K m' \<and> geometry m' = geometry m \<and> wantedSlabs m' = [])"
  unfolding HarvestWantedSlabs_def Let_def
  by (rule sat_bind [OF HarvestWantedSlabs_loop_books [OF assms]]) simp_all

lemma HarvestWantedSlabs_kept:
  assumes "kept B S K m"
  shows "sat (HarvestWantedSlabs cnt m) (\<lambda>_ m'. kept B S K m' \<and> geometry m' = geometry m)
    (\<lambda>_ m'. kept B S K m' \<and> geometry m' = geometry m)"
  by (rule sat_mono [OF HarvestWantedSlabs_books [OF assms]]) simp_all

section \<open>Requesting slabs\<close>

lemma keptE:
  assumes "kept B S K m"
  obtains W where "map fst W = K" "books B (\<lambda>_. 0) {#} S W m"
  using assms unfolding kept_def by blast

lemma kept_client:
  assumes "kept B S K m" "c \<in> set K"
  shows "\<exists>p. map_of (mg_clients m) c = Some p"
  using assms books_key unfolding kept_def by blast

lemma kept_same_proxy:
  assumes "kept B S K m" "map_of (mg_clients m) c = Some p" "same_books p p'"
  shows "kept B S K (put_proxy c p' m)"
  using books_same_proxy [OF _ assms(2,3)] assms(1) unfolding kept_def by blast

lemma RequestFreeSlabs_books:
  assumes k: "kept B S K m" and c: "c \<in> set K" and room: "unat (numRequests (mg_requests m)) < 2 ^ 32 - 1"
  shows "sat (RequestFreeSlabs n c level m) (\<lambda>_ m'. kept B S K m' \<and> geometry m' = geometry m)
    (\<lambda>_ m'. kept B S K m' \<and> geometry m' = geometry m)"
proof -
  let ?level = "level + (if mg_playbackMode m then 1 else 0)"
  obtain W where W: "map fst W = K" "books B (\<lambda>_. 0) {#} S W m" using k by (rule keptE)
  obtain p where p: "map_of (mg_clients m) c = Some p" using kept_client [OF k c] by blast
  show ?thesis
  proof (cases "?level = 0")
    case False
    let ?m = "m\<lparr>mg_requests := AddRequest ?level n (ucast (px_clientID p)) (px_addr p) (mg_requests m)\<rparr>"
    have b: "books B (\<lambda>_. 0) {#} S W ?m" by (rule books_requests [OF W(2) AddRequest_spec(1) [OF booksD(3) [OF W(2)] room]])
    have "sat (ServiceSlabRequests ?m) (\<lambda>_ m'. kept B S K m' \<and> geometry m' = geometry m)
      (\<lambda>_ m'. kept B S K m' \<and> geometry m' = geometry m)"
      by (rule sat_mono [OF ServiceSlabRequests_books [OF b _ refl]]) (use W(1) in \<open>auto simp: kept_def\<close>)
    then show ?thesis using False p by (simp add: RequestFreeSlabs_def Let_def)
  next
    case True
    have take: "sat (bind_o (mg_GetFreeSlabs n m1) (\<lambda>ids. on_proxy c (TakeFreeSlabs ids)))
        (\<lambda>_ m'. kept B S K m' \<and> geometry m' = geometry m) (\<lambda>_ _. False)"
      if m1: "kept B S K m1" "geometry m1 = geometry m" for m1
    proof -
      obtain W1 where W1: "map fst W1 = K" "books B (\<lambda>_. 0) {#} S W1 m1" using m1(1) by (rule keptE)
      show ?thesis unfolding mg_GetFreeSlabs_def
      proof (rule sat_bind [OF GetFreeSlabs_books [OF W1(2), of "Some HandleSlabStateChange"]], goal_cases)
        case (2 ids m2)
        have b2: "books B (\<lambda>i. 0 + int (count_list (map unat ids) i)) {#} S W1 m2" "geometry m2 = geometry m1"
          using 2 by (rule conjunct1) (use 2 in simp)
        obtain p2 where p2: "map_of (mg_clients m2) c = Some p2" using books_key [OF b2(1)] c W1(1) by blast
        have none: "unat i < num_slabs m2 \<and> prod_held (px_slabs p2) (unat i) = 0" if "i \<in> set ids" for i
        proof -
          have "clients_hold m2 (unat i) = 0" using 2 that by simp
          then show ?thesis using client_hold_le [OF p2, of "unat i"] geometryD [OF b2(2)] 2 that by (simp add: px_holds_def)
        qed
        have "sat (on_proxy c (TakeFreeSlabs ids) m2) (\<lambda>_ m'. books B (\<lambda>_. 0) {#} S W1 m' \<and> geometry m' = geometry m2) (\<lambda>_ _. False)"
          by (rule TakeFreeSlabs_books [OF b2(1) p2 _ none]) (use 2 in blast)+
        then show ?case by (rule sat_mono) (use b2(2) m1(2) W1(1) in \<open>auto simp: kept_def\<close>)
      qed simp
    qed
    show ?thesis
      by (simp only: RequestFreeSlabs_def Let_def True simp_thms if_False,
        intro sat_bind [OF HarvestWantedSlabs_kept [OF k]] sat_mono [OF take]) simp_all
  qed
qed

lemma FillProducerSlabs_books:
  assumes k: "kept B S K m" and c: "c \<in> set K" and room: "unat (numRequests (mg_requests m)) < 2 ^ 32 - 1"
  shows "sat (FillProducerSlabs c m) (\<lambda>_ m'. kept B S K m' \<and> geometry m' = geometry m)
    (\<lambda>_ m'. kept B S K m' \<and> geometry m' = geometry m)"
proof -
  obtain W where W: "map fst W = K" "books B (\<lambda>_. 0) {#} S W m" using k by (rule keptE)
  obtain p where p: "map_of (mg_clients m) c = Some p" using kept_client [OF k c] by blast
  let ?p = "p\<lparr>px_pendingRqsts := px_pendingRqsts p + (ProdSlabsNeeded (px_slabs p) - px_pendingRqsts p)\<rparr>"
  have "same_books p ?p" using books_client(1) [OF W(2) p] by (simp add: same_books_def proxy_ok_def calm_def)
  then have k': "kept B S K (put_proxy c ?p m)" by (rule kept_same_proxy [OF k p])
  have "unat (numRequests (mg_requests (put_proxy c ?p m))) < 2 ^ 32 - 1" using room by simp
  from RequestFreeSlabs_books [OF k' c this] k show ?thesis by (simp add: FillProducerSlabs_def p Let_def)
qed

end
