(* ===== verification/Manager_Handlers.thy ===== *)
theory Manager_Handlers
  imports Manager_Drain
begin

unbundle bit_operations_syntax

text \<open>
  The handlers that give slabs back keep the books: \<open>HandleBlockIDs\<close>, \<open>HandleSlabIDs\<close> and the
  acknowledgement of a drop report, and \<open>DeleteClient\<close>, which gives back all a client had.
\<close>

section \<open>Giving back\<close>

lemma DecrementConsSlabs_refs:
  assumes inv: "tracker_inv n t" and ids: "\<forall>i \<in> set ids. unat i < n"
  shows "sat (DecrementConsSlabs ids t) (\<lambda>_ t'. tracker_inv n t' \<and> prodSlabRefcnt t' = prodSlabRefcnt t
    \<and> (\<forall>j. cons_refs t j = cons_refs t' j + count_list (map unat ids) j)) (\<lambda>_ t'. t' = t)"
proof (cases "\<forall>j. count_list (map unat ids) j \<le> cons_refs t j")
  case True
  then show ?thesis
    using DecrementConsSlabs_loop_valid [OF inv ids True, of 0] by (auto simp: DecrementConsSlabs_def)
next
  case False
  then obtain j where j: "cons_refs t j < count_list (map unat ids) j" by (auto simp: not_le)
  have ids': "\<forall>j \<in> set ids. unat j < length (consSlabRefcnt t)" using ids tracker_invD(2) [OF inv] by simp
  from DecrementConsSlabs_loop_Ok [OF this, of 0] obtain errs where
    loop: "DecrementConsSlabs_loop ids 0 t = Ok errs (fold dec_cons ids t)" by blast
  have "0 < errs" by (rule DecrementConsSlabs_loop_invalid [OF inv ids j loop])
  then show ?thesis using loop fold_inc_dec [OF ids'] by (simp add: DecrementConsSlabs_def)
qed

text \<open>A change of the tracker that lets go of \<open>r i\<close> references to each slab \<open>i\<close>.\<close>

lemma books_release:
  assumes b: "books B d e S W m" and c: "map_of (mg_clients m) c = Some p"
    and t: "tracker_inv (num_slabs m) t" "\<And>i. px_holds p i = prod_held t i + cons_refs t i + r i" "\<And>i. cons_refs t i \<le> cons_refs (px_slabs p) i"
  shows "books B (\<lambda>i. d i + int (r i)) e S W (put_proxy c (p\<lparr>px_slabs := t\<rparr>) m)"
proof -
  let ?p = "p\<lparr>px_slabs := t\<rparr>"
  have ok: "proxy_ok (num_slabs m) (mg_blocksPerSlab m) c ?p"
    using books_client(1) [OF b c] t(1) by (simp add: proxy_ok_def calm_def)
  have le: "cons_refs (px_slabs ?p) i + length (px_wantedQueue ?p) \<le> B c" for i
    using books_client(2) [OF b c, of i] t(3) [of i] by simp
  have "books B (\<lambda>i. d i + int (r i)) e S (om_assign c (px_wantedQueue ?p) W) (put_proxy c ?p m)"
    by (rule books_put_proxy [where B' = B, OF b c ok le]) (use t(2) queued_front(1) [OF b c] in \<open>simp_all add: px_holds_def\<close>)
  moreover have "om_assign c (px_wantedQueue p) W = W" by (rule om_assign_same [OF queue_of_client [OF b c]])
  ultimately show ?thesis by simp
qed

lemma released_ones: "released (map (\<lambda>i. (i, 1)) ids) j = count_list (map unat ids) j"
  by (induction ids) auto

lemma kept_sat:
  assumes "sat r (\<lambda>_ m'. books B (\<lambda>_. 0) {#} S W m' \<and> geometry m' = g) (\<lambda>_ _. False)"
  shows "sat r (\<lambda>_ m'. kept B S (map fst W) m' \<and> geometry m' = g) (\<lambda>_ m'. kept B S (map fst W) m' \<and> geometry m' = g)"
  by (rule sat_mono [OF assms]) (auto simp: keptI)

lemma HandleBlockIDs_books:
  assumes k: "kept B {} K m" and c: "c \<in> set K" and room: "B c < 2 ^ 16"
    and ids: "\<And>b. b \<in> set ids \<Longrightarrow> unat (b div mg_blocksPerSlab m) < num_slabs m"
  shows "sat (px_HandleBlockIDs c ids m) (\<lambda>_ m'. kept B {} K m' \<and> geometry m' = geometry m)
    (\<lambda>_ m'. kept B {} K m' \<and> geometry m' = geometry m)"
proof -
  obtain W where W: "map fst W = K" "books B (\<lambda>_. 0) {#} {} W m" using k by (rule keptE)
  obtain p where p: "map_of (mg_clients m) c = Some p" using kept_client [OF k c] by blast
  have ok: "tracker_inv (num_slabs m) (px_slabs p)" "px_blocksPerSlab p = mg_blocksPerSlab m"
    using books_client(1) [OF W(2) p] by (simp_all add: proxy_ok_def)
  let ?ids = "map (\<lambda>b. b div mg_blocksPerSlab m) ids"
  have ids': "\<forall>i \<in> set ?ids. unat i < num_slabs m" using ids by auto
  have rel: "sat (on_proxy c (on_slabs (DecrementConsSlabs ?ids)) m)
      (\<lambda>_ m'. books B (\<lambda>i. 0 + int (count_list (map unat ?ids) i)) {#} {} W m' \<and> geometry m' = geometry m)
      (\<lambda>_ m'. kept B {} K m' \<and> geometry m' = geometry m)"
    unfolding on_proxy_def p option.case on_slabs_def sat_lift
  proof (rule sat_mono [OF DecrementConsSlabs_refs [OF ok(1) ids']], goal_cases)
    case (1 u t)
    have "books B (\<lambda>i. 0 + int (count_list (map unat ?ids) i)) {#} {} W (put_proxy c (p\<lparr>px_slabs := t\<rparr>) m)"
      by (rule books_release [OF W(2) p]) (use 1 in \<open>simp_all add: px_holds_def prod_held_def\<close>)
    then show ?case by simp
  next
    case (2 e t)
    then show ?case using k om_assign_same [OF p] by (simp add: put_proxy_def)
  qed
  have "sat (bind_o (on_proxy c (on_slabs (DecrementConsSlabs ?ids)) m) (\<lambda>_ m.
            bind_o (mg_DecrementHeldRefcnt (map (\<lambda>i. (i, 1)) ?ids) m) (\<lambda>_.
            PopWantedQueue c))) (\<lambda>_ m'. kept B {} K m' \<and> geometry m' = geometry m) (\<lambda>_ m'. kept B {} K m' \<and> geometry m' = geometry m)"
  proof (rule sat_bind [OF rel], goal_cases)
    case (1 u m1)
    let ?d = "\<lambda>i. 0 + int (count_list (map unat ?ids) i)"
    have b1: "books B ?d {#} {} W m1" "geometry m1 = geometry m" using 1 by (rule conjunct1) (use 1 in simp)
    have give: "sat (mg_DecrementHeldRefcnt (map (\<lambda>i. (i, 1)) ?ids) m1)
      (\<lambda>_ m'. books B (\<lambda>i. ?d i - int (released (map (\<lambda>i. (i, 1)) ?ids) i)) {#} {} W m' \<and> geometry m' = geometry m1
        \<and> requests m' \<le> requests m1) (\<lambda>_ _. False)"
      by (rule mg_DecrementHeldRefcnt_books [OF b1(1)]) (use ids' geometryD [OF b1(2)] in \<open>simp_all add: released_ones del: map_map\<close>)
    have zero: "(\<lambda>i. ?d i - int (released (map (\<lambda>i. (i, 1)) ?ids) i)) = (\<lambda>_. 0)" by (simp add: released_ones del: map_map)
    show ?case
    proof (rule sat_bind)
      show "sat (mg_DecrementHeldRefcnt (map (\<lambda>i. (i, 1)) ?ids) m1) (\<lambda>_ m'. kept B {} K m' \<and> geometry m' = geometry m)
        (\<lambda>_ m'. kept B {} K m' \<and> geometry m' = geometry m)"
        by (rule sat_mono [OF give [unfolded zero]]) (use b1(2) W(1) keptI in auto)
      fix u m2
      assume m2: "kept B {} K m2 \<and> geometry m2 = geometry m"
      show "sat (PopWantedQueue c m2) (\<lambda>_ m'. kept B {} K m' \<and> geometry m' = geometry m) (\<lambda>_ m'. kept B {} K m' \<and> geometry m' = geometry m)"
        by (rule sat_mono [OF PopWantedQueue_books [OF conjunct1 [OF m2] c room]]) (use m2 in simp_all)
    qed
  qed
  then show ?thesis using p ok(2) books_blocks [OF W(2)] by (simp add: px_HandleBlockIDs_def Let_def comp_def)
qed

lemma HandleSlabIDs_books:
  assumes k: "kept B {} K m" and c: "c \<in> set K" and room: "requests m < 2 ^ 32 - 1"
    and ids: "distinct ids" "\<And>i. i \<in> set ids \<Longrightarrow> unat i < num_slabs m"
  shows "sat (px_HandleSlabIDs c ids m) (\<lambda>_ m'. kept B {} K m' \<and> geometry m' = geometry m)
    (\<lambda>_ m'. kept B {} K m' \<and> geometry m' = geometry m)"
proof -
  obtain W where W: "map fst W = K" "books B (\<lambda>_. 0) {#} {} W m" using k by (rule keptE)
  obtain p where p: "map_of (mg_clients m) c = Some p" using kept_client [OF k c] by blast
  have ok: "tracker_inv (num_slabs m) (px_slabs p)" using books_client(1) [OF W(2) p] by (simp add: proxy_ok_def)
  have ids': "\<forall>i \<in> set ids. unat i < num_slabs m" using ids(2) by auto
  let ?d = "\<lambda>i. 0 + int (count_list (map unat ids) i)"
  have rel: "sat (on_proxy c (on_slabs (EraseProdSlabs ids)) m)
      (\<lambda>_ m'. books B ?d {#} {} W m' \<and> geometry m' = geometry m \<and> requests m' = requests m)
      (\<lambda>_ m'. kept B {} K m' \<and> geometry m' = geometry m)"
    unfolding on_proxy_def p option.case on_slabs_def sat_lift
  proof (rule sat_mono [OF EraseProdSlabs_spec [OF ok ids(1) ids']], goal_cases)
    case (1 u t)
    have "books B ?d {#} {} W (put_proxy c (p\<lparr>px_slabs := t\<rparr>) m)"
      by (rule books_release [OF W(2) p]) (use 1 in \<open>simp_all add: px_holds_def cons_refs_def\<close>)
    then show ?case by (simp add: requests_def)
  next
    case (2 e t)
    then show ?case using k om_assign_same [OF p] by (simp add: put_proxy_def)
  qed
  show ?thesis unfolding px_HandleSlabIDs_def
  proof (rule sat_bind [OF rel], goal_cases)
    case (1 u m1)
    have b1: "books B ?d {#} {} W m1" "geometry m1 = geometry m" "requests m1 = requests m"
      using 1 by (rule conjunct1) (use 1 in simp_all)
    have give: "sat (mg_DecrementHeldRefcnt (map (\<lambda>i. (i, 1)) ids) m1)
      (\<lambda>_ m'. books B (\<lambda>i. ?d i - int (released (map (\<lambda>i. (i, 1)) ids) i)) {#} {} W m' \<and> geometry m' = geometry m1
        \<and> requests m' \<le> requests m1) (\<lambda>_ _. False)"
      by (rule mg_DecrementHeldRefcnt_books [OF b1(1)]) (use ids' geometryD [OF b1(2)] in \<open>simp_all add: released_ones\<close>)
    have zero: "(\<lambda>i. ?d i - int (released (map (\<lambda>i. (i, 1)) ids) i)) = (\<lambda>_. 0)" by (simp add: released_ones)
    show ?case
    proof (rule sat_bind)
      show "sat (mg_DecrementHeldRefcnt (map (\<lambda>i. (i, 1)) ids) m1) (\<lambda>_ m'. kept B {} K m' \<and> geometry m' = geometry m \<and> requests m' < 2 ^ 32 - 1)
        (\<lambda>_ m'. kept B {} K m' \<and> geometry m' = geometry m)"
        by (rule sat_mono [OF give [unfolded zero]]) (use b1(2,3) W(1) keptI room in auto)
      fix u m2
      assume m2: "kept B {} K m2 \<and> geometry m2 = geometry m \<and> requests m2 < 2 ^ 32 - 1"
      then show "sat (FillProducerSlabs c m2) (\<lambda>_ m'. kept B {} K m' \<and> geometry m' = geometry m) (\<lambda>_ m'. kept B {} K m' \<and> geometry m' = geometry m)"
        using FillProducerSlabs_books [OF conjunct1 [OF m2] c] by (simp add: requests_def)
    qed
  qed
qed

lemma kept_on_proxy_same:
  assumes k: "kept B S K m" and c: "c \<in> set K"
    and f: "\<And>p. calm p \<Longrightarrow> sat (f p) (\<lambda>_ p'. same_books p p') (\<lambda>_ p'. same_books p p')"
  shows "sat (on_proxy c f m) (\<lambda>_ m'. kept B S K m' \<and> geometry m' = geometry m) (\<lambda>_ m'. kept B S K m' \<and> geometry m' = geometry m)"
proof -
  obtain W where W: "map fst W = K" "books B (\<lambda>_. 0) {#} S W m" using k by (rule keptE)
  obtain p where p: "map_of (mg_clients m) c = Some p" using kept_client [OF k c] by blast
  have "calm p" using books_client(1) [OF W(2) p] by (simp add: proxy_ok_def)
  from f [OF this] show ?thesis using kept_same_proxy [OF k p] by (cases "f p") (auto simp: on_proxy_def p)
qed

lemma HandleDropReportAck_books:
  assumes k: "kept B S K m" and c: "c \<in> set K"
  shows "sat (px_HandleDropReportAck c m) (\<lambda>_ m'. kept B S K m' \<and> geometry m' = geometry m) (\<lambda>_ m'. kept B S K m' \<and> geometry m' = geometry m)"
  unfolding px_HandleDropReportAck_def
proof (rule sat_bind [OF kept_on_proxy_same [OF k c]], goal_cases)
  case (1 p) then show ?case by (simp add: same_books_def calm_def)
next
  case (2 u m1)
  obtain W where W: "map fst W = K" "books B (\<lambda>_. 0) {#} S W m1" using 2 keptE by blast
  obtain p where p: "map_of (mg_clients m1) c = Some p" using kept_client [OF conjunct1 [OF 2] c] by blast
  show ?case
    by (rule sat_bind [OF kept_sat [OF px_SendDropReport_books [OF W(2) p, unfolded conjunct2 [OF 2]], unfolded W(1)]]) simp
qed

section \<open>Telling the others\<close>

lemma mg_SendRegistration_books:
  assumes "books B d e S W m" "set cs \<subseteq> set (map fst W)"
  shows "sat (mg_SendRegistration_loop type i g ids cs m) (\<lambda>_ m'. books B d e S W m' \<and> geometry m' = geometry m) (\<lambda>_ _. False)"
  using assms
proof (induction cs arbitrary: m)
  case (Cons c cs)
  have b: "books B d e S W m" by (rule Cons.prems(1))
  obtain p where p: "map_of (mg_clients m) c = Some p" using books_key [OF b] Cons.prems(2) by auto
  have calm: "calm p" using books_client(1) [OF b p] by (simp add: proxy_ok_def)
  show ?case
  proof (cases "px_wantRegistrations p")
    case True
    have "sat (px_SendRegistration type i g ids p) (\<lambda>_. same_books p) (\<lambda>_ _. False)"
      unfolding px_SendRegistration_def by (rule caught_send [OF calm_sends(10) [OF calm]])
    then have send: "sat (on_proxy c (px_SendRegistration type i g ids) m) (\<lambda>_ m'. books B d e S W m' \<and> geometry m' = geometry m) (\<lambda>_ _. False)"
      using books_same_proxy [OF b p] by (cases "px_SendRegistration type i g ids p") (auto simp: on_proxy_def p)
    have "sat (bind_o (on_proxy c (px_SendRegistration type i g ids) m) (\<lambda>r m.
        bind_o (mg_SendRegistration_loop type i g ids cs m) (\<lambda>s. Ok (r + s))))
      (\<lambda>_ m'. books B d e S W m' \<and> geometry m' = geometry m) (\<lambda>_ _. False)"
    proof (rule sat_bind [OF send], goal_cases)
      case (1 r m1)
      from Cons.IH [OF conjunct1 [OF 1]] Cons.prems(2)
      have "sat (mg_SendRegistration_loop type i g ids cs m1) (\<lambda>_ m'. books B d e S W m' \<and> geometry m' = geometry m1) (\<lambda>_ _. False)" by simp
      then show ?case by (rule sat_bind) (use 1 in simp)
    qed
    then show ?thesis using True p by simp
  next
    case False
    then show ?thesis using Cons p by simp
  qed
qed simp

lemma mg_SendRegistration_kept:
  assumes "kept B S K m"
  shows "sat (mg_SendRegistration type i g ids m) (\<lambda>_ m'. kept B S K m' \<and> geometry m' = geometry m) (\<lambda>_ _. False)"
proof -
  obtain W where W: "map fst W = K" "books B (\<lambda>_. 0) {#} S W m" using assms by (rule keptE)
  have "set (map fst (mg_clients m)) \<subseteq> set (map fst W)" using booksD(7) [OF W(2)] keys_queues [of m] by simp
  from mg_SendRegistration_books [OF W(2) this] show ?thesis
    unfolding mg_SendRegistration_def by (rule sat_mono) (use W(1) keptI in auto)
qed

lemma DeregisterAllMsgIDs_kept:
  assumes "kept B S K m" "geometry m = n"
  shows "sat (DeregisterAllMsgIDs ids p m) (\<lambda>_ m'. kept B S K m' \<and> geometry m' = n) (\<lambda>_ _. False)"
  using assms
proof (induction ids p m rule: DeregisterAllMsgIDs.induct)
  case (1 ids p m)
  show ?case
  proof (cases "ids = []")
    case False
    have "sat (bind_o (mg_SendRegistration kRegType_DeregisterList (px_clientID p) (groupID p) (take kMaxMsgIDs ids) m)
             (\<lambda>_ m. DeregisterAllMsgIDs (drop kMaxMsgIDs ids) p m)) (\<lambda>_ m'. kept B S K m' \<and> geometry m' = n) (\<lambda>_ _. False)"
      by (rule sat_bind [OF mg_SendRegistration_kept [OF 1(2)]]) (use 1 False in simp)
    then show ?thesis using False by (subst DeregisterAllMsgIDs.simps) simp
  qed (use 1 in \<open>simp add: DeregisterAllMsgIDs.simps\<close>)
qed

section \<open>A client that leaves\<close>

lemma release_all_books:
  assumes "books B d (mset q) S W m" "\<And>i. 0 \<le> d i"
  shows "sat (for_each mg_ReleaseWantedSegment q m) (\<lambda>_ m'. books B d {#} S W m' \<and> geometry m' = geometry m) (\<lambda>_ _. False)"
  using assms
proof (induction q arbitrary: m)
  case (Cons seg q)
  then have b: "books B d (add_mset seg (mset q)) S W m" by simp
  show ?case unfolding for_each.simps
  proof (rule sat_bind [OF mg_ReleaseWantedSegment_books [OF b Cons.prems(2)]], goal_cases)
    case (1 u m1)
    from Cons.IH [OF conjunct1 [OF 1] Cons.prems(2)] show ?case by (rule sat_mono) (use 1 in auto)
  qed
qed simp

lemma books_reserved [simp]: "books B d e S W (m\<lparr>numSlabsReserved := r\<rparr>) = books B d e S W m"
proof -
  have at: "slab_at (m\<lparr>numSlabsReserved := r\<rparr>) = slab_at m" by (simp add: fun_eq_iff slab_at_def)
  have n: "num_slabs (m\<lparr>numSlabsReserved := r\<rparr>) = num_slabs m" by (simp add: num_slabs_def)
  have q: "queued_segs (m\<lparr>numSlabsReserved := r\<rparr>) = queued_segs m" by (simp add: queued_segs_def at n)
  have "slab_inv (m\<lparr>numSlabsReserved := r\<rparr>) = slab_inv m"
    by (simp add: slab_inv_def slab_shape_def slab_lists_def seg_pool_def at n q)
  moreover have "parts_ok (m\<lparr>numSlabsReserved := r\<rparr>) = parts_ok m" "queues (m\<lparr>numSlabsReserved := r\<rparr>) = queues m"
    "clients_hold (m\<lparr>numSlabsReserved := r\<rparr>) = clients_hold m" "segment_slab (m\<lparr>numSlabsReserved := r\<rparr>) = segment_slab m"
    "held (m\<lparr>numSlabsReserved := r\<rparr>) = held m"
    by (simp_all add: parts_ok_def queues_def clients_hold_def segment_slab_def held_def at fun_eq_iff)
  ultimately show ?thesis by (simp add: books_def at n q)
qed

lemma geometry_reserved [simp]: "geometry (m\<lparr>numSlabsReserved := r\<rparr>) = geometry m"
  by (simp add: geometry_def num_slabs_def)

lemma ReleaseSlabReservation_books:
  "books B d e S W (snd (ReleaseSlabReservation n m)) = books B d e S W m" "geometry (snd (ReleaseSlabReservation n m)) = geometry m"
  by (simp_all add: ReleaseSlabReservation_def)

lemma books_erase:
  assumes b: "books B d e S W m" and c: "map_of (mg_clients m) c = Some p"
  shows "books B (\<lambda>i. d i + int (px_holds p i)) (mset (px_wantedQueue p) + e) S (om_erase c W)
    (m\<lparr>mg_clients := om_erase c (mg_clients m)\<rparr>)"
proof -
  let ?m = "m\<lparr>mg_clients := om_erase c (mg_clients m)\<rparr>"
  note ok = booksD(6) [OF b]
  have tr: "slab_manager.truncate ?m = slab_manager.truncate m" by (simp add: slab_manager.truncate_def)
  note more = slab_inv_more [OF tr]
  have q: "queues ?m = om_erase c W"
  proof -
    have "map (\<lambda>(c, p). (c, px_wantedQueue p)) (om_erase c xs) = om_erase c (map (\<lambda>(c, p). (c, px_wantedQueue p)) xs)" for xs
      by (induction xs) auto
    then show ?thesis unfolding booksD(7) [OF b, symmetric] queues_def by simp
  qed
  have sub: "set (om_erase c xs) \<subseteq> set xs" for xs :: "(u16 \<times> 'x) list"
    by (induction xs) (auto split: if_splits)
  have f: "parts_ok ?m = parts_ok m" "segment_slab ?m = segment_slab m"
    by (simp_all add: parts_ok_def segment_slab_def fun_eq_iff)
  have hold: "int (held ?m i) = int (clients_hold ?m i) + (d i + int (px_holds p i))" if "i < num_slabs m" for i
    using books_held [OF b that] sum_om_erase [OF c, of "\<lambda>_ p. px_holds p i"] by (simp add: clients_hold_def more)
  have "mset (queued_segs m) = (\<Sum>(c, q) \<leftarrow> om_erase c W. mset q) + (mset (px_wantedQueue p) + e)"
    using booksD(8) [OF b] sum_om_erase [OF queue_of_client [OF b c], of "\<lambda>_. mset"] by (simp add: ac_simps)
  moreover have "ws_clientID (wantedSegmentBlocks m ! seg) = k" if "(k, q) \<in> set (om_erase c W)" "seg \<in> set q" for k q seg
  proof -
    have "(k, q) \<in> set W" using that(1) sub by blast
    then show ?thesis using b that(2) by (auto simp: books_def)
  qed
  moreover have "proxy_ok (num_slabs m) (mg_blocksPerSlab m) k r" "cons_refs (px_slabs r) i + length (px_wantedQueue r) \<le> B k"
    if "(k, r) \<in> set (om_erase c (mg_clients m))" for k r i
    using books_entry [OF b, of k r] that sub [of "mg_clients m"] by auto
  ultimately show ?thesis
    by (intro booksI) (use booksD [OF b] hold q books_pinned [OF b] books_seg_slab [OF b] om_ok_erase [OF ok] in \<open>simp_all add: more f\<close>)
qed

lemma released_list:
  assumes "n \<le> 2 ^ 32" "distinct is" "set is \<subseteq> {..<n}"
  shows "released (map (\<lambda>i. (of_nat i, f i)) is) j = (if j \<in> set is then unat (f j) else 0)"
  using assms
proof (induction "is")
  case (Cons i "is")
  have "unat (of_nat i :: u32) = i" using Cons.prems by (intro unat_of_nat_u32) auto
  then show ?case using Cons by auto
qed simp

lemma scans_release:
  assumes inv: "tracker_inv n t" and n: "n < 2 ^ 32"
    and ps: "GetAndEraseProdSlabs (unat (prodSlabsHeld t)) t = (ps, t1)" and cs: "GetAndEraseConsSlabs (unat (consSlabsHeld t1)) t1 = (cs, t2)"
  shows "released (map (\<lambda>i. (i, 1)) ps) j = prod_held t j" "\<And>i. i \<in> set ps \<Longrightarrow> unat i < n"
    "released cs j = cons_refs t j" "\<And>i r. (i, r) \<in> set cs \<Longrightarrow> unat i < n \<and> r \<noteq> 0"
    "prodSlabsHeld t1 = prodSlabsHeld t" "prodSlabsHeld t = 0 \<Longrightarrow> ps = []" "consSlabsHeld t2 = consSlabsHeld t1" "consSlabsHeld t1 = 0 \<Longrightarrow> cs = []"
proof -
  have t1: "consSlabsHeld t1 = consSlabsHeld t" "consSlabRefcnt t1 = consSlabRefcnt t" "prodSlabsHeld t1 = prodSlabsHeld t"
    using ps by (auto simp: GetAndEraseProdSlabs_def split: prod.splits)
  then have "fst (GetAndEraseConsSlabs (unat (consSlabsHeld t)) t) = cs"
    using cs by (auto simp: GetAndEraseConsSlabs_def split: prod.splits)
  then have lists: "ps = map of_nat (filter (\<lambda>i. prod_held t i = 1) [0..<n])"
    "cs = map (\<lambda>i. (of_nat i, of_nat (cons_refs t i))) (filter (\<lambda>i. cons_refs t i \<noteq> 0) [0..<n])"
    using destructor_scans_complete [OF inv n] ps by auto
  have le: "n \<le> 2 ^ 32" using n by simp
  have ph: "prod_held t j = 0 \<or> prod_held t j = 1 \<and> j < n" using tracker_invD(1) [OF inv] by (auto simp: prod_held_def)
  have "released (map (\<lambda>i. (of_nat i, 1)) (filter (\<lambda>i. prod_held t i = 1) [0..<n])) j
      = (if j \<in> set (filter (\<lambda>i. prod_held t i = 1) [0..<n]) then unat (1 :: u32) else 0)"
    by (rule released_list [OF le]) auto
  then have "released (map (\<lambda>i. (of_nat i, 1)) (filter (\<lambda>i. prod_held t i = 1) [0..<n])) j = prod_held t j"
    using ph by auto
  then show "released (map (\<lambda>i. (i, 1)) ps) j = prod_held t j" by (simp add: lists(1) comp_def)
  have bound: "cons_refs t i < 2 ^ 16" for i
    using unsigned_less [of "consSlabRefcnt t ! i", where ?'a = nat] by (simp add: cons_refs_def)
  then have u: "unat (of_nat (cons_refs t i) :: u32) = cons_refs t i" for i
    by (intro unat_of_nat_u32) (rule less_trans [OF bound], simp)
  have "released cs j = (if j \<in> set (filter (\<lambda>i. cons_refs t i \<noteq> 0) [0..<n]) then unat (of_nat (cons_refs t j) :: u32) else 0)"
    unfolding lists(2) by (rule released_list [OF le]) auto
  moreover have "cons_refs t j = 0 \<or> j < n" using tracker_invD(2) [OF inv] by (auto simp: cons_refs_def)
  ultimately show "released cs j = cons_refs t j" using u by auto
  have un: "unat (of_nat i :: u32) = i" if "i < n" for i using that n by (intro unat_of_nat_u32) simp
  then show "unat i < n" if "i \<in> set ps" for i using that by (auto simp: lists(1))
  show "unat i < n \<and> r \<noteq> 0" if "(i, r) \<in> set cs" for i r
  proof -
    obtain k where k: "k < n" "i = of_nat k" "r = of_nat (cons_refs t k)" "cons_refs t k \<noteq> 0" using \<open>(i, r) \<in> set cs\<close> by (auto simp: lists(2))
    then have "unat r \<noteq> 0" using u [of k] by simp
    then show ?thesis using k un [of k] by auto
  qed
  show "prodSlabsHeld t1 = prodSlabsHeld t" by (rule t1)
  have z: "fst (GetAndEraseProd_loop k 0 bs) = []" "fst (GetAndEraseCons_loop k 0 rs) = []" for k bs rs by (cases bs; cases rs; simp)+
  show "ps = []" if "prodSlabsHeld t = 0" using ps that z(1) by (auto simp: GetAndEraseProdSlabs_def split: prod.splits) (metis fst_conv)
  show "cs = []" if "consSlabsHeld t1 = 0" using cs that z(2) by (auto simp: GetAndEraseConsSlabs_def split: prod.splits) (metis fst_conv)
  show "consSlabsHeld t2 = consSlabsHeld t1" using cs by (auto simp: GetAndEraseConsSlabs_def split: prod.splits)
qed

lemma ClientProxy_destroy_books:
  assumes b: "books B (\<lambda>i. int (px_holds p i)) (mset (px_wantedQueue p)) {} W m"
    and p: "tracker_inv (num_slabs m) (px_slabs p)"
  shows "sat (ClientProxy_destroy p m) (\<lambda>_ m'. kept B {} (map fst W) m' \<and> geometry m' = geometry m)
    (\<lambda>_ m'. kept B {} (map fst W) m' \<and> geometry m' = geometry m)"
proof -
  let ?t = "px_slabs p"
  obtain ps t1 where ps: "GetAndEraseProdSlabs (unat (prodSlabsHeld ?t)) ?t = (ps, t1)" by fastforce
  obtain cs t2 where cs: "GetAndEraseConsSlabs (unat (consSlabsHeld t1)) t1 = (cs, t2)" by fastforce
  have n: "num_slabs m < 2 ^ 32" using booksD(1) [OF b] by (simp add: slab_inv_def slab_shape_def)
  note scan = scans_release [OF p n ps cs]
  have prods: "(if prodSlabsHeld t1 \<noteq> 0 then caught () (mg_DecrementHeldRefcnt (map (\<lambda>i. (i, 1)) ps) m) else Ok () m)
      = caught () (mg_DecrementHeldRefcnt (map (\<lambda>i. (i, 1)) ps) m)" for m
    using scan(5,6) by (simp add: caught_def mg_DecrementHeldRefcnt_def DecrementHeldRefcnt_def)
  have conss: "(if consSlabsHeld t2 \<noteq> 0 then caught () (mg_DecrementHeldRefcnt cs m) else Ok () m)
      = caught () (mg_DecrementHeldRefcnt cs m)" for m
    using scan(7,8) by (simp add: caught_def mg_DecrementHeldRefcnt_def DecrementHeldRefcnt_def)
  let ?P = "\<lambda>d m'. books B d {#} {} W m' \<and> geometry m' = geometry m"
  have give1: "sat (caught () (mg_DecrementHeldRefcnt (map (\<lambda>i. (i, 1)) ps) m1)) (\<lambda>_. ?P (\<lambda>i. int (cons_refs ?t i))) (\<lambda>_ _. False)"
    if m1: "?P (\<lambda>i. int (px_holds p i)) m1" for m1
  proof -
    have b1: "books B (\<lambda>i. int (px_holds p i)) {#} {} W m1" using m1 by (rule conjunct1)
    have "(\<lambda>i. int (px_holds p i) - int (released (map (\<lambda>i. (i, 1)) ps) i)) = (\<lambda>i. int (cons_refs ?t i))"
      by (simp add: scan(1) px_holds_def)
    moreover have "sat (mg_DecrementHeldRefcnt (map (\<lambda>i. (i, 1)) ps) m1)
      (\<lambda>_ m'. books B (\<lambda>i. int (px_holds p i) - int (released (map (\<lambda>i. (i, 1)) ps) i)) {#} {} W m' \<and> geometry m' = geometry m1
        \<and> requests m' \<le> requests m1) (\<lambda>_ _. False)"
      by (rule mg_DecrementHeldRefcnt_books [OF b1])
        (use scan(2) geometryD [of m1 m] m1 in \<open>auto simp: scan(1) px_holds_def\<close>)
    ultimately show ?thesis using m1 by (cases "mg_DecrementHeldRefcnt (map (\<lambda>i. (i, 1)) ps) m1") (auto simp: caught_def)
  qed
  have give2: "sat (caught () (mg_DecrementHeldRefcnt cs m1)) (\<lambda>_. ?P (\<lambda>_. 0)) (\<lambda>_ _. False)"
    if m1: "?P (\<lambda>i. int (cons_refs ?t i)) m1" for m1
  proof -
    have b1: "books B (\<lambda>i. int (cons_refs ?t i)) {#} {} W m1" using m1 by (rule conjunct1)
    have "(\<lambda>i. int (cons_refs ?t i) - int (released cs i)) = (\<lambda>_. 0)" by (simp add: scan(3))
    moreover have "sat (mg_DecrementHeldRefcnt cs m1)
      (\<lambda>_ m'. books B (\<lambda>i. int (cons_refs ?t i) - int (released cs i)) {#} {} W m' \<and> geometry m' = geometry m1
        \<and> requests m' \<le> requests m1) (\<lambda>_ _. False)"
      by (rule mg_DecrementHeldRefcnt_books [OF b1]) (use scan(4) geometryD [of m1 m] m1 in \<open>auto simp: scan(3)\<close>)
    ultimately show ?thesis using m1 by (cases "mg_DecrementHeldRefcnt cs m1") (auto simp: caught_def)
  qed
  let ?K = "\<lambda>m'. kept B {} (map fst W) m' \<and> geometry m' = geometry m"
  have group: "sat (if groupID p \<noteq> 0
      then bind_o (lift_o (\<lambda>g. m1\<lparr>mg_groups := g\<rparr>) (DecGroupID (sint (groupID p)) (mg_groups m1))) (\<lambda>_. Ok ())
      else Ok () m1) (\<lambda>_. ?K) (\<lambda>_. ?K)" if m1: "?P (\<lambda>_. 0) m1" for m1
  proof -
    have "sat (DecGroupID (sint (groupID p)) (mg_groups m1)) (\<lambda>_. group_inv) (\<lambda>_. group_inv)"
      using m1 booksD(4) by (intro group_inv_Dec) blast
    then show ?thesis using m1 books_groups [of B "\<lambda>_. 0" "{#}" "{}" W m1]
      by (cases "DecGroupID (sint (groupID p)) (mg_groups m1)") (auto simp: kept_def)
  qed
  have dereg: "sat (caught () (DeregisterAllMsgIDs (px_registered p) p m1)) (\<lambda>_. ?K) (\<lambda>_. ?K)" if "?K m1" for m1
    using DeregisterAllMsgIDs_kept [of B "{}" "map fst W" m1 "geometry m" "px_registered p" p] that
    by (cases "DeregisterAllMsgIDs (px_registered p) p m1") (auto simp: caught_def)
  have mono: "sat r R (\<lambda>_ _. False) \<Longrightarrow> sat r R E" for r :: "(unit, manager) outcome" and R E by (cases r) auto
  have "sat (bind_o (for_each mg_ReleaseWantedSegment (px_wantedQueue p) m) (\<lambda>_ m.
      let (_, m) = ReleaseSlabReservation (numProdSlabs ?t + numConsSlabs ?t) m in
      bind_o (caught () (mg_DecrementHeldRefcnt (map (\<lambda>i. (i, 1)) ps) m)) (\<lambda>_ m.
      bind_o (caught () (mg_DecrementHeldRefcnt cs m)) (\<lambda>_ m.
      bind_o (if groupID p \<noteq> 0
               then bind_o (lift_o (\<lambda>g. m\<lparr>mg_groups := g\<rparr>) (DecGroupID (sint (groupID p)) (mg_groups m))) (\<lambda>_. Ok ())
               else Ok () m) (\<lambda>_ m.
      caught () (DeregisterAllMsgIDs (px_registered p) p m)))))) (\<lambda>_. ?K) (\<lambda>_. ?K)"
  proof (rule sat_bind [OF mono [OF release_all_books [OF b]]], goal_cases)
    case (2 u m1)
    let ?m = "snd (ReleaseSlabReservation (numProdSlabs ?t + numConsSlabs ?t) m1)"
    have "?P (\<lambda>i. int (px_holds p i)) ?m" using 2 by (simp add: ReleaseSlabReservation_books)
    then have "sat (bind_o (caught () (mg_DecrementHeldRefcnt (map (\<lambda>i. (i, 1)) ps) ?m)) (\<lambda>_ m.
      bind_o (caught () (mg_DecrementHeldRefcnt cs m)) (\<lambda>_ m.
      bind_o (if groupID p \<noteq> 0
               then bind_o (lift_o (\<lambda>g. m\<lparr>mg_groups := g\<rparr>) (DecGroupID (sint (groupID p)) (mg_groups m))) (\<lambda>_. Ok ())
               else Ok () m) (\<lambda>_ m.
      caught () (DeregisterAllMsgIDs (px_registered p) p m))))) (\<lambda>_. ?K) (\<lambda>_. ?K)"
      by (intro sat_bind [OF mono [OF give1]] sat_bind [OF mono [OF give2]] sat_bind [OF group] dereg)
    then show ?case by (simp add: case_prod_beta Let_def)
  qed simp
  then show ?thesis by (simp add: ClientProxy_destroy_def ps cs Let_def prods conss)
qed

lemma DeleteClient_books:
  assumes k: "kept B {} K m" and c: "c \<in> set K"
  shows "sat (DeleteClient c m) (\<lambda>_ m'. kept B {} (remove1 c K) m' \<and> geometry m' = geometry m)
    (\<lambda>_ m'. kept B {} (remove1 c K) m' \<and> geometry m' = geometry m)"
proof -
  obtain W where W: "map fst W = K" "books B (\<lambda>_. 0) {#} {} W m" using k by (rule keptE)
  obtain p where p: "map_of (mg_clients m) c = Some p" using kept_client [OF k c] by blast
  let ?m0 = "ErasingClientHook c m"
  have hook: "books B (\<lambda>_. 0) {#} {} W ?m0" "mg_clients ?m0 = mg_clients m" "geometry ?m0 = geometry m"
    using W(2) by (simp_all add: ErasingClientHook_def)
  let ?m = "?m0\<lparr>mg_clients := om_erase c (mg_clients ?m0)\<rparr>"
  have b: "books B (\<lambda>i. int (px_holds p i)) (mset (px_wantedQueue p)) {} (om_erase c W) ?m"
    using books_erase [OF hook(1), of c p] hook(2) p by simp
  have g: "geometry ?m = geometry m" using hook(3) by (simp add: geometry_def num_slabs_def)
  have "tracker_inv (num_slabs ?m) (px_slabs p)"
    using books_client(1) [OF W(2) p] geometryD [OF g] by (simp add: proxy_ok_def)
  moreover have "map fst (om_erase c xs) = remove1 c (map fst xs)" for xs :: "(u16 \<times> nat list) list"
    by (induction xs) auto
  ultimately show ?thesis
    using ClientProxy_destroy_books [OF b] g W(1) hook(2) by (simp add: DeleteClient_def p Let_def)
qed

end
