(* ===== verification/Manager_Segments.thy ===== *)
theory Manager_Segments
  imports Manager_Handlers
begin

unbundle bit_operations_syntax

text \<open>
  Blocks a client publishes keep the books: \<open>TakeBlocksAndInfo\<close> stores what is said about them, and
  \<open>SendSegments\<close> sends or queues them for each client.  The slabs \<open>S\<close> of the blocks stay held while
  that happens, because the sender holds them, so that a reference to one of them can be taken.
\<close>

section \<open>Block IDs in range\<close>

definition block_ok :: "manager \<Rightarrow> u32 \<Rightarrow> bool" where
  "block_ok m b \<longleftrightarrow> unat b < num_slabs m * unat (mg_blocksPerSlab m)"

lemma block_ok_geometry: "geometry m' = geometry m \<Longrightarrow> block_ok m' b = block_ok m b"
  by (drule geometryD) (simp add: block_ok_def)

lemma block_ok_slab: "block_ok m b \<Longrightarrow> unat (b div mg_blocksPerSlab m) < num_slabs m"
  by (simp add: block_ok_def unat_div less_mult_imp_div_less)

lemma total_blocks:
  assumes "parts_ok m"
  shows "unat (TotalNumBlocks (mg_shm m)) = num_slabs m * unat (mg_blocksPerSlab m)"
proof -
  let ?l = "length (infoVec m)" and ?s = "mg_shm m"
  have l: "length (shm_headerVec ?s) = ?l" "?l \<le> unat (shm_maxNumBuffers ?s)"
    and n: "unat (shm_numBlocks ?s) = unat (slabsPerBuf m) * unat (mg_blocksPerSlab m)"
    and cap: "unat (slabsPerBuf m) * unat (mg_blocksPerSlab m) * unat (shm_maxNumBuffers ?s) < 2 ^ 32"
    using assms by (auto simp: parts_ok_def shm_ok_def)
  have "unat (slabsPerBuf m) * unat (mg_blocksPerSlab m) * ?l \<le> unat (slabsPerBuf m) * unat (mg_blocksPerSlab m) * unat (shm_maxNumBuffers ?s)"
    using l(2) by simp
  then have "unat (shm_numBlocks ?s) * ?l < 2 ^ 32" unfolding n using cap by (rule le_less_trans)
  then have less: "?l * unat (shm_numBlocks ?s) < 2 ^ 32" by (simp add: mult.commute)
  have "unat (of_nat ?l * shm_numBlocks ?s) = ?l * unat (shm_numBlocks ?s) mod 2 ^ 32"
    by (simp add: unat_word_ariths unsigned_of_nat take_bit_eq_mod mod_mult_left_eq)
  then show ?thesis using less by (simp add: TotalNumBlocks_def l(1) n num_slabs_def ac_simps)
qed

lemma memory_blocks:
  assumes "parts_ok m"
  shows "shm_numBlocks (mg_shm m) \<noteq> 0 \<or> slabsPerBuf m = 0"
    "unat (b div shm_numBlocks (mg_shm m)) = unat (b div mg_blocksPerSlab m) div unat (slabsPerBuf m)"
proof -
  have n: "unat (shm_numBlocks (mg_shm m)) = unat (slabsPerBuf m) * unat (mg_blocksPerSlab m)" "mg_blocksPerSlab m \<noteq> 0"
    using assms by (auto simp: parts_ok_def)
  then show "shm_numBlocks (mg_shm m) \<noteq> 0 \<or> slabsPerBuf m = 0" by (metis mult_is_0 unat_0 unat_eq_zero)
  show "unat (b div shm_numBlocks (mg_shm m)) = unat (b div mg_blocksPerSlab m) div unat (slabsPerBuf m)"
    by (simp add: unat_div n div_mult2_eq mult.commute)
qed

lemma books_numBlocks: "books B d e S W m \<Longrightarrow> shm_numBlocks (mg_shm m) \<noteq> 0"
  using memory_blocks(1) [OF booksD(5)] booksD(1) by (auto simp: slab_inv_def slab_shape_def)

lemma books_buffer:
  assumes b: "books B d e S W m" and i: "block_ok m b"
  shows "unat (b div shm_numBlocks (mg_shm m)) < length (shm_headerVec (mg_shm m))"
proof -
  have "unat (b div mg_blocksPerSlab m) < num_slabs m" using i by (rule block_ok_slab)
  then show ?thesis
    using memory_blocks(2) [OF booksD(5) [OF b], of b] booksD(5) [OF b]
    by (simp add: parts_ok_def num_slabs_def less_mult_imp_div_less mult.commute)
qed

lemma mg_GetBlockPtr_cases:
  assumes "books B d e S W m"
  shows "(\<exists>a. mg_GetBlockPtr b m = Ok a m) \<or> (\<exists>err. mg_GetBlockPtr b m = Throw err m)"
  using books_numBlocks [OF assms] by (simp add: mg_GetBlockPtr_def with_shm_def GetBlockPtr_def Let_def)

lemma mg_GetBlockPtr_ok:
  assumes "books B d e S W m" "block_ok m b"
  shows "\<exists>a. mg_GetBlockPtr b m = Ok a m"
  using books_numBlocks [OF assms(1)] books_buffer [OF assms] by (simp add: mg_GetBlockPtr_def with_shm_def GetBlockPtr_def Let_def)

section \<open>Storing the information\<close>

lemma books_shm:
  assumes b: "books B d e S W m" and s: "parts_ok (m\<lparr>mg_shm := s\<rparr>)"
  shows "books B d e S W (m\<lparr>mg_shm := s\<rparr>)"
proof -
  have t: "slab_manager.truncate (m\<lparr>mg_shm := s\<rparr>) = slab_manager.truncate m" by (simp add: slab_manager.truncate_def)
  have e: "queues (m\<lparr>mg_shm := s\<rparr>) = queues m" "clients_hold (m\<lparr>mg_shm := s\<rparr>) = clients_hold m"
    "segment_slab (m\<lparr>mg_shm := s\<rparr>) = segment_slab m"
    by (simp_all add: queues_def clients_hold_def segment_slab_def fun_eq_iff)
  show ?thesis using b s unfolding books_def slab_inv_more [OF t] e by simp
qed

lemma geometry_shm [simp]: "geometry (m\<lparr>mg_shm := s\<rparr>) = geometry m"
  by (simp add: geometry_def num_slabs_def)

lemma SetBlockInfo_ok:
  assumes "shm_ok s" "shm_numBlocks s \<noteq> 0" "unat (b div shm_numBlocks s) < length (shm_headerVec s)"
  shows "\<exists>v. SetBlockInfo b info s = Ok () (s\<lparr>shm_infoVec := v\<rparr>) \<and> shm_ok (s\<lparr>shm_infoVec := v\<rparr>)"
proof -
  let ?q = "unat (b div shm_numBlocks s)" and ?r = "unat (b mod shm_numBlocks s)"
  let ?v = "(shm_infoVec s)[?q := (shm_infoVec s ! ?q)[?r := info]]"
  have l: "length (shm_infoVec s) = length (shm_headerVec s)" using assms(1) by (simp add: shm_ok_def)
  have "\<forall>x \<in> set ?v. length x = unat (shm_numBlocks s)"
    using assms(1,3) set_update_subset_insert [of "shm_infoVec s" ?q "(shm_infoVec s ! ?q)[?r := info]"]
    by (force simp: shm_ok_def)
  then have "shm_ok (s\<lparr>shm_infoVec := ?v\<rparr>)" using assms(1) by (simp add: shm_ok_def buffer_header_def)
  then show ?thesis using assms(2,3) l by (intro exI [of _ ?v]) (simp add: SetBlockInfo_def Let_def)
qed

lemma store_info_books:
  assumes k: "kept B S K m" and tot: "tot = TotalNumBlocks (mg_shm m)"
  shows "sat (store_info tot (b, info) m)
    (\<lambda>_ m'. kept B S K m' \<and> TotalNumBlocks (mg_shm m') = tot \<and> geometry m' = geometry m \<and> block_ok m b)
    (\<lambda>_ m'. kept B S K m' \<and> geometry m' = geometry m)"
proof (cases "b \<ge> tot")
  case True
  then show ?thesis using k by (simp add: store_info_def)
next
  case False
  obtain W where W: "map fst W = K" "books B (\<lambda>_. 0) {#} S W m" using k by (rule keptE)
  have mem: "parts_ok m" by (rule booksD(5) [OF W(2)])
  have ok: "block_ok m b" using False total_blocks [OF mem] by (simp add: block_ok_def tot word_less_nat_alt not_le)
  obtain v where v: "SetBlockInfo b info (mg_shm m) = Ok () ((mg_shm m)\<lparr>shm_infoVec := v\<rparr>)" "shm_ok ((mg_shm m)\<lparr>shm_infoVec := v\<rparr>)"
    using SetBlockInfo_ok [of "mg_shm m" b info] mem books_numBlocks [OF W(2)] books_buffer [OF W(2) ok] by (auto simp: parts_ok_def)
  let ?s = "(mg_shm m)\<lparr>shm_infoVec := v\<rparr>"
  have "parts_ok (m\<lparr>mg_shm := ?s\<rparr>)" using mem v(2) unfolding parts_ok_def BlocksPerSlab_def by (elim conjE) (intro conjI; simp)
  then have "books B (\<lambda>_. 0) {#} S W (m\<lparr>mg_shm := ?s\<rparr>)" by (rule books_shm [OF W(2)])
  then have "kept B S K (m\<lparr>mg_shm := ?s, mg_stats := st\<rparr>)" for st using W(1) by (auto simp: kept_def)
  then show ?thesis using False books_blocks [OF W(2)] v(1) ok tot
    by (simp add: store_info_def with_shm_def TotalNumBlocks_def)
qed

lemma store_infos_books:
  assumes "kept B S K m" "tot = TotalNumBlocks (mg_shm m)"
  shows "sat (for_each (store_info tot) bs m)
    (\<lambda>_ m'. kept B S K m' \<and> geometry m' = geometry m \<and> (\<forall>b \<in> fst ` set bs. block_ok m b))
    (\<lambda>_ m'. kept B S K m' \<and> geometry m' = geometry m)"
  using assms
proof (induction bs arbitrary: m)
  case (Cons x bs)
  obtain b info where x: "x = (b, info)" by (cases x)
  show ?case unfolding for_each.simps x
  proof (rule sat_bind [OF store_info_books [OF Cons.prems]], goal_cases)
    case (1 u m1)
    then have "kept B S K m1" "tot = TotalNumBlocks (mg_shm m1)" by simp_all
    from Cons.IH [OF this] show ?case by (rule sat_mono) (use 1 block_ok_geometry [of m1 m] in auto)
  qed
qed simp

section \<open>Segments for a client\<close>

lemma TakeConsSlab_shift:
  assumes b: "books B d e S W m" and W: "map_of W c = Some q" and i: "unat s < num_slabs m" and room: "B c < 2 ^ 16 - 1"
  shows "sat (on_proxy c (on_slabs (TakeConsSlab s)) m) (\<lambda>taken m'. geometry m' = geometry m
     \<and> (if taken then books (B(c := Suc (B c))) (d(unat s := d (unat s) - 1)) e S W m' else books B d e S W m')) (\<lambda>_ _. False)"
proof -
  obtain p where p: "map_of (mg_clients m) c = Some p" using books_client_of [OF b W] by blast
  have "cons_refs (px_slabs p) (unat s) < 2 ^ 16 - 1" using books_client(2) [OF b p, of "unat s"] room by simp
  from TakeConsSlab_books [OF b p i this] show ?thesis by (rule sat_mono) auto
qed

abbreviation sent_refs :: "manager \<Rightarrow> (u32 \<times> u32) list \<Rightarrow> nat \<Rightarrow> int" where
  "sent_refs m send i \<equiv> int (count_list (map (\<lambda>(b, _). unat (b div mg_blocksPerSlab m)) send) i)"

lemma sort_segments_books:
  assumes "books B d e S W m" "map_of W c = Some q" "\<forall>b \<in> fst ` set bs. block_ok m b" "B c + length bs < 2 ^ 16"
  shows "sat (sort_segments c blocked bs m) (\<lambda>(send, want) m'.
     books (B(c := B c + length send)) (\<lambda>i. d i - sent_refs m send i) e S W m' \<and> geometry m' = geometry m
     \<and> fst ` set send \<subseteq> fst ` set bs \<and> fst ` set want \<subseteq> fst ` set bs \<and> length send + length want \<le> length bs) (\<lambda>_ _. False)"
  using assms
proof (induction bs arbitrary: blocked m B d)
  case (Cons x bs)
  obtain b info where x: "x = (b, info)" by (cases x)
  obtain p where p: "map_of (mg_clients m) c = Some p" using books_client_of [OF Cons.prems(1,2)] by blast
  have ok: "block_ok m b" using Cons.prems(3) x by simp
  have "(\<exists>w. (if bi_messageID info = kCCIMessageID then
                    bind_o (mg_GetBlockPtr b m) (\<lambda>a m.
                      let dst = dstClientID (mg_mem m) a in Ok (dst = c \<or> ucast dst = kCCIBcastID) m)
                  else Ok (bi_messageID info \<in> set (px_registered p)) m) = Ok w m)"
    using mg_GetBlockPtr_ok [OF Cons.prems(1) ok] by (auto simp: Let_def)
  then obtain w where w: "(if bi_messageID info = kCCIMessageID then
                    bind_o (mg_GetBlockPtr b m) (\<lambda>a m.
                      let dst = dstClientID (mg_mem m) a in Ok (dst = c \<or> ucast dst = kCCIBcastID) m)
                  else Ok (bi_messageID info \<in> set (px_registered p)) m) = Ok w m" by blast
  show ?case
  proof (cases w)
    case False
    have "sat (sort_segments c blocked bs m) (\<lambda>(send, want) m'.
     books (B(c := B c + length send)) (\<lambda>i. d i - sent_refs m send i) e S W m' \<and> geometry m' = geometry m
     \<and> fst ` set send \<subseteq> fst ` set bs \<and> fst ` set want \<subseteq> fst ` set bs \<and> length send + length want \<le> length bs) (\<lambda>_ _. False)"
      by (rule Cons.IH) (use Cons.prems in simp_all)
    then have "sat (sort_segments c blocked bs m) (\<lambda>(send, want) m'.
     books (B(c := B c + length send)) (\<lambda>i. d i - sent_refs m send i) e S W m' \<and> geometry m' = geometry m
     \<and> fst ` set send \<subseteq> fst ` set (x # bs) \<and> fst ` set want \<subseteq> fst ` set (x # bs) \<and> length send + length want \<le> length (x # bs)) (\<lambda>_ _. False)"
      by (rule sat_mono) (simp_all split: prod.splits, blast)
    moreover have "sort_segments c blocked (x # bs) m = sort_segments c blocked bs m"
      unfolding x sort_segments.simps p option.case w using False by simp
    ultimately show ?thesis by (simp only:)
  next
    case True
    have room: "B c < 2 ^ 16 - 1" using Cons.prems(4) by simp
    have take: "sat (if blocked then Ok False m
        else if mg_blocksPerSlab m = 0 then Crash DivideByZero
        else on_proxy c (on_slabs (TakeConsSlab (b div mg_blocksPerSlab m))) m) (\<lambda>took m'. geometry m' = geometry m
     \<and> (if took then books (B(c := Suc (B c))) (d(unat (b div mg_blocksPerSlab m) := d (unat (b div mg_blocksPerSlab m)) - 1)) e S W m'
        else books B d e S W m')) (\<lambda>_ _. False)"
      using TakeConsSlab_shift [OF Cons.prems(1,2) block_ok_slab [OF ok] room] books_blocks [OF Cons.prems(1)] Cons.prems(1) by simp
    have "sat (bind_o (if blocked then Ok False m
        else if mg_blocksPerSlab m = 0 then Crash DivideByZero
        else on_proxy c (on_slabs (TakeConsSlab (b div mg_blocksPerSlab m))) m) (\<lambda>tookSlab m.
            bind_o (sort_segments c (\<not> tookSlab) bs m) (\<lambda>(send, want).
              Ok (if tookSlab then ((b, bi_size info) # send, want) else (send, (b, bi_size info) # want)))))
      (\<lambda>(send, want) m'.
     books (B(c := B c + length send)) (\<lambda>i. d i - sent_refs m send i) e S W m' \<and> geometry m' = geometry m
     \<and> fst ` set send \<subseteq> fst ` set (x # bs) \<and> fst ` set want \<subseteq> fst ` set (x # bs) \<and> length send + length want \<le> length (x # bs)) (\<lambda>_ _. False)"
    proof (rule sat_bind [OF take], goal_cases)
      case (1 took m1)
      let ?B = "if took then B(c := Suc (B c)) else B"
      let ?d = "if took then d(unat (b div mg_blocksPerSlab m) := d (unat (b div mg_blocksPerSlab m)) - 1) else d"
      have g: "geometry m1 = geometry m" and b1: "books ?B ?d e S W m1" using 1 by (simp_all split: if_splits)
      have "\<forall>b \<in> fst ` set bs. block_ok m1 b" using Cons.prems(3) block_ok_geometry [OF g] by simp
      note ih = Cons.IH [OF b1 Cons.prems(2) this, of "\<not> took"]
      have bps: "mg_blocksPerSlab m1 = mg_blocksPerSlab m" using geometryD [OF g] by simp
      show ?case
      proof (rule sat_bind [OF ih], goal_cases)
        case 1 then show ?case using Cons.prems(4) by simp
      next
        case (2 sw m2)
        obtain send want where sw: "sw = (send, want)" by (cases sw)
        have b2: "books (?B(c := ?B c + length send)) (\<lambda>i. ?d i - sent_refs m1 send i) e S W m2"
          using 2 unfolding sw prod.case by (rule conjunct1)
        have sizes: "fst ` set send \<subseteq> fst ` set bs" "fst ` set want \<subseteq> fst ` set bs" "length send + length want \<le> length bs"
          "geometry m2 = geometry m" using 2 g by (simp_all add: sw)
        show ?case
        proof (cases took)
          case True
          have "(\<lambda>i. ?d i - sent_refs m1 send i) = (\<lambda>i. d i - sent_refs m ((b, bi_size info) # send) i)"
            using True bps by (auto simp: fun_eq_iff)
          moreover have "?B(c := ?B c + length send) = B(c := B c + length ((b, bi_size info) # send))" using True by (simp add: fun_eq_iff)
          ultimately show ?thesis using b2 sizes sw True x by auto
        next
          case False
          then show ?thesis using b2 sizes sw x bps by auto
        qed
      qed
    qed
    moreover have "sort_segments c blocked (x # bs) m = bind_o (if blocked then Ok False m
        else if mg_blocksPerSlab m = 0 then Crash DivideByZero
        else on_proxy c (on_slabs (TakeConsSlab (b div mg_blocksPerSlab m))) m) (\<lambda>tookSlab m.
            bind_o (sort_segments c (\<not> tookSlab) bs m) (\<lambda>(send, want).
              Ok (if tookSlab then ((b, bi_size info) # send, want) else (send, (b, bi_size info) # want))))"
      unfolding x sort_segments.simps p option.case w using True by simp
    ultimately show ?thesis by (simp only:)
  qed
qed simp

end
