(* ===== verification/Manager_Publish.thy ===== *)
theory Manager_Publish
  imports Manager_Segments
begin

unbundle bit_operations_syntax

text \<open>
  \<open>SendSegments\<close> and the handler of published blocks above it.
\<close>

section \<open>Queueing\<close>

lemma books_keys_client: "books B d e S W m \<Longrightarrow> map_of W c \<noteq> None \<Longrightarrow> \<exists>p. map_of (mg_clients m) c = Some p"
  using books_client_of by blast

lemma enqueue_wanted_books:
  assumes b: "books B d (add_mset seg e) S W m" and W: "map_of W c = Some q" and seg: "ws_clientID (wantedSegmentBlocks m ! seg) = c"
  shows "sat (on_proxy c (enqueue_wanted seg sz) m) (\<lambda>_ m'. books (B(c := Suc (B c))) d e S (om_assign c (q @ [seg]) W) m'
    \<and> geometry m' = geometry m) (\<lambda>_ _. False)"
proof -
  obtain p where p: "map_of (mg_clients m) c = Some p" "px_wantedQueue p = q" using books_client_of [OF b W] by blast
  let ?p = "p\<lparr>px_wantedQueue := px_wantedQueue p @ [seg],
             px_stats := (px_stats p)\<lparr>ps_wantedBytesIn := ps_wantedBytesIn (px_stats p) + ucast sz\<rparr>\<rparr>"
  have ok: "proxy_ok (num_slabs m) (mg_blocksPerSlab m) c ?p" using books_client(1) [OF b p(1)] by (simp add: proxy_ok_def calm_def)
  have r: "cons_refs (px_slabs ?p) i + length (px_wantedQueue ?p) \<le> (B(c := Suc (B c))) c" for i
    using books_client(2) [OF b p(1), of i] by simp
  have "books (B(c := Suc (B c))) d e S (om_assign c (px_wantedQueue ?p) W) (put_proxy c ?p m)"
    by (rule books_put_proxy [where B' = "B(c := Suc (B c))", OF b p(1) ok r])
      (use queued_front(1) [OF b p(1)] seg in \<open>auto simp: px_holds_def\<close>)
  then show ?thesis using p(2) by (simp add: on_proxy_def p(1) enqueue_wanted_def)
qed

lemma queue_wanted_books:
  assumes "books B (\<lambda>_. 0) {#} S W m" "map_of W c = Some q"
    "\<And>b sz. (b, sz) \<in> set want \<Longrightarrow> block_ok m b \<and> unat (b div mg_blocksPerSlab m) \<in> S"
  shows "sat (for_each (\<lambda>(b, size) m. bind_o (mg_GetWantedSegment c b m) (\<lambda>seg m. on_proxy c (enqueue_wanted seg size) m)) want m)
    (\<lambda>_ m'. kept (B(c := B c + length want)) S (map fst W) m' \<and> geometry m' = geometry m) (\<lambda>_ _. False)"
  using assms
proof (induction want arbitrary: B q W m)
  case Nil
  then show ?case by (auto simp: kept_def)
next
  case (Cons x want)
  obtain b sz where x: "x = (b, sz)" by (cases x)
  have i: "unat (b div mg_blocksPerSlab m) < num_slabs m" "unat (b div mg_blocksPerSlab m) \<in> S"
    using Cons.prems(3) [of b sz] x block_ok_slab by auto
  have step: "sat (bind_o (mg_GetWantedSegment c b m) (\<lambda>seg m. on_proxy c (enqueue_wanted seg sz) m))
    (\<lambda>_ m'. (\<exists>seg. books (B(c := Suc (B c))) (\<lambda>_. 0) {#} S (om_assign c (q @ [seg]) W) m') \<and> geometry m' = geometry m) (\<lambda>_ _. False)"
  proof (rule sat_bind [OF mg_GetWantedSegment_books [OF Cons.prems(1) i, of c]], goal_cases)
    case (1 seg m1)
    then have b1: "books B (\<lambda>_. 0) (add_mset seg {#}) S W m1" "ws_clientID (wantedSegmentBlocks m1 ! seg) = c" by blast+
    show ?case by (rule sat_mono [OF enqueue_wanted_books [OF b1(1) Cons.prems(2) b1(2)]]) (use 1 in auto)
  qed
  show ?case unfolding for_each.simps x prod.case
  proof (rule sat_bind [OF step], goal_cases)
    case (1 u m1)
    then obtain seg where b1: "books (B(c := Suc (B c))) (\<lambda>_. 0) {#} S (om_assign c (q @ [seg]) W) m1" by blast
    have g: "geometry m1 = geometry m" using 1 by blast
    have W1: "map_of (om_assign c (q @ [seg]) W) c = Some (q @ [seg])" using Cons.prems(2) by (simp add: map_of_om_assign)
    have rest: "block_ok m1 b \<and> unat (b div mg_blocksPerSlab m1) \<in> S" if "(b, sz) \<in> set want" for b sz
      using Cons.prems(3) [of b sz] that block_ok_geometry [OF g] geometryD [OF g] by simp
    have eq: "(B(c := Suc (B c)))(c := (B(c := Suc (B c))) c + length want) = B(c := B c + length (x # want))" by (simp add: fun_eq_iff)
    show ?case using Cons.IH [OF b1 W1 rest] g unfolding eq by (simp add: x)
  qed
qed

section \<open>Segments to one client\<close>

lemma SendSegments_books:
  assumes k: "kept B S K m" and c: "c \<in> set K" and room: "B c + length bs < 2 ^ 16"
    and bs: "\<And>b. b \<in> fst ` set bs \<Longrightarrow> block_ok m b \<and> unat (b div mg_blocksPerSlab m) \<in> S"
  shows "sat (SendSegments c bs m) (\<lambda>_ m'. kept (B(c := B c + length bs)) S K m' \<and> geometry m' = geometry m) (\<lambda>_ _. False)"
proof -
  obtain W where W: "map fst W = K" "books B (\<lambda>_. 0) {#} S W m" using k by (rule keptE)
  obtain p where p: "map_of (mg_clients m) c = Some p" using kept_client [OF k c] by blast
  have q: "map_of W c = Some (px_wantedQueue p)" by (rule queue_of_client [OF W(2) p])
  have ok: "\<forall>b \<in> fst ` set bs. block_ok m b" using bs by blast
  note sort = sort_segments_books [OF W(2) q ok room, of "px_wantedQueue p \<noteq> []"]
  let ?send = "\<lambda>send m. if send \<noteq> [] then bind_o (mg_IncrementHeldRefcnt (map (\<lambda>(b, _). b div mg_blocksPerSlab m) send) m) (\<lambda>_ m.
                    bind_o (px_SendBlockIDs c send m) (\<lambda>_. Ok ())) else Ok () m"
  have send: "sat (?send send m1) (\<lambda>_ m'. books B' (\<lambda>_. 0) {#} S W m' \<and> geometry m' = geometry m) (\<lambda>_ _. False)"
    if m1: "books B' (\<lambda>i. 0 - sent_refs m send i) {#} S W m1" "geometry m1 = geometry m" "fst ` set send \<subseteq> fst ` set bs" for B' send m1
  proof (cases "send = []")
    case True
    then show ?thesis using m1(1,2) by simp
  next
    case False
    let ?ids = "map (\<lambda>(b, _). b div mg_blocksPerSlab m1) send"
    have g: "mg_blocksPerSlab m1 = mg_blocksPerSlab m" "num_slabs m1 = num_slabs m" using geometryD [OF m1(2)] by simp_all
    have refs: "0 - sent_refs m send i + int (count_list (map unat ?ids) i) = 0" for i
      by (simp add: g case_prod_unfold comp_def)
    have "sat (mg_IncrementHeldRefcnt ?ids m1) (\<lambda>_ m'. books B' (\<lambda>i. 0 - sent_refs m send i + int (count_list (map unat ?ids) i)) {#} S W m'
      \<and> geometry m' = geometry m1) (\<lambda>_ _. False)"
    proof (rule mg_IncrementHeldRefcnt_books [OF m1(1)])
      fix sid assume "sid \<in> set ?ids"
      then obtain b where "b \<in> fst ` set bs" "sid = b div mg_blocksPerSlab m" using m1(3) g by force
      then show "unat sid < num_slabs m1 \<and> (unat sid \<in> S \<or> wantedSegs (slab_at m1 (unat sid)) \<noteq> [])"
        using bs [of b] block_ok_slab g by auto
    qed (simp only: refs)
    then have inc: "sat (mg_IncrementHeldRefcnt ?ids m1) (\<lambda>_ m'. books B' (\<lambda>_. 0) {#} S W m' \<and> geometry m' = geometry m) (\<lambda>_ _. False)"
      by (simp only: refs m1(2))
    have "sat (bind_o (mg_IncrementHeldRefcnt ?ids m1) (\<lambda>_ m. bind_o (px_SendBlockIDs c send m) (\<lambda>_. Ok ())))
      (\<lambda>_ m'. books B' (\<lambda>_. 0) {#} S W m' \<and> geometry m' = geometry m) (\<lambda>_ _. False)"
    proof (rule sat_bind [OF inc], goal_cases)
      case (1 u m2)
      obtain p2 where "map_of (mg_clients m2) c = Some p2" using books_client_of [OF conjunct1 [OF 1] q] by blast
      from px_SendBlockIDs_books [OF conjunct1 [OF 1] this] show ?case by (rule sat_bind) (use 1 in simp)
    qed
    then show ?thesis using False by simp
  qed
  let ?finish = "\<lambda>want m. bind_o (for_each (\<lambda>(b, size) m. bind_o (mg_GetWantedSegment c b m) (\<lambda>seg m.
                    on_proxy c (enqueue_wanted seg size) m)) want m) (\<lambda>_ m.
          bind_o (on_proxy c (\<lambda>p. Ok () (p\<lparr>px_stats := (px_stats p)\<lparr>ps_wantedSegsIn :=
                    ps_wantedSegsIn (px_stats p) + of_nat (length want)\<rparr>\<rparr>)) m) (\<lambda>_.
          PopWantedQueue c))"
  have finish: "sat (?finish want m2) (\<lambda>_ m'. kept (B(c := B c + length bs)) S K m' \<and> geometry m' = geometry m) (\<lambda>_ _. False)"
    if m2: "books (B(c := n)) (\<lambda>_. 0) {#} S W m2" "geometry m2 = geometry m" "fst ` set want \<subseteq> fst ` set bs"
      "n + length want \<le> B c + length bs" for n want m2
  proof -
    have want: "block_ok m2 b \<and> unat (b div mg_blocksPerSlab m2) \<in> S" if "(b, sz) \<in> set want" for b sz
    proof -
      have "b \<in> fst ` set bs" using that m2(3) by force
      then show ?thesis using bs block_ok_geometry [OF m2(2)] geometryD [OF m2(2)] by simp
    qed
    let ?B = "B(c := B c + length bs)"
    have queue: "sat (for_each (\<lambda>(b, size) m. bind_o (mg_GetWantedSegment c b m) (\<lambda>seg m. on_proxy c (enqueue_wanted seg size) m)) want m2)
      (\<lambda>_ m'. kept ?B S K m' \<and> geometry m' = geometry m) (\<lambda>_ _. False)"
    proof (rule sat_mono [OF queue_wanted_books [OF m2(1) q want]], goal_cases)
      case (2 u m3)
      then obtain W3 where "map fst W3 = K" "books ((B(c := n))(c := (B(c := n)) c + length want)) (\<lambda>_. 0) {#} S W3 m3"
        using W(1) unfolding kept_def by blast
      moreover from this(2) have "books ?B (\<lambda>_. 0) {#} S W3 m3" by (rule books_mono) (use m2(4) in auto)
      ultimately show ?case using 2 m2(2) by (auto simp: kept_def)
    qed simp_all
    show ?thesis
    proof (rule sat_bind [OF queue], goal_cases)
      case (1 u m3)
      have stats: "sat (on_proxy c (\<lambda>p. Ok () (p\<lparr>px_stats := (px_stats p)\<lparr>ps_wantedSegsIn :=
                    ps_wantedSegsIn (px_stats p) + of_nat (length want)\<rparr>\<rparr>)) m3)
        (\<lambda>_ m'. kept ?B S K m' \<and> geometry m' = geometry m) (\<lambda>_ _. False)"
      proof -
        obtain W3 where W3: "map fst W3 = K" "books ?B (\<lambda>_. 0) {#} S W3 m3" using 1 keptE by blast
        obtain p3 where p3: "map_of (mg_clients m3) c = Some p3" using kept_client [OF conjunct1 [OF 1] c] by blast
        show ?thesis by (rule sat_mono [OF books_stats [OF W3(2) p3 refl]]) (use 1 W3(1) in \<open>auto simp: kept_def\<close>)
      qed
      show ?case
      proof (rule sat_bind [OF stats], goal_cases)
        case (1 u m4)
        from PopWantedQueue_books [OF conjunct1 [OF 1] c] show ?case by (rule sat_mono) (use 1 room in simp_all)
      qed
    qed
  qed
  have "sat (bind_o (sort_segments c (px_wantedQueue p \<noteq> []) bs m) (\<lambda>(send, want) m. bind_o (?send send m) (\<lambda>_. ?finish want)))
    (\<lambda>_ m'. kept (B(c := B c + length bs)) S K m' \<and> geometry m' = geometry m) (\<lambda>_ _. False)"
  proof (rule sat_bind [OF sort], goal_cases)
    case (1 sw m1)
    obtain s w where sw: "sw = (s, w)" by (cases sw)
    have b1: "books (B(c := B c + length s)) (\<lambda>i. 0 - sent_refs m s i) {#} S W m1"
      using 1 unfolding sw prod.case by (rule conjunct1)
    have f: "geometry m1 = geometry m" "fst ` set s \<subseteq> fst ` set bs" "fst ` set w \<subseteq> fst ` set bs" "length s + length w \<le> length bs"
      using 1 by (simp_all add: sw)
    show ?case unfolding sw prod.case
      by (rule sat_bind [OF send [OF b1 f(1,2)]], rule finish [where n = "B c + length s"]) (use f in simp_all)
  qed
  then show ?thesis by (simp add: SendSegments_def p)
qed

section \<open>Segments to all\<close>

lemma send_to_all_books:
  assumes "kept B S K m" "distinct cs" "set cs \<subseteq> set K" "\<And>c. c \<in> set cs \<Longrightarrow> B c + length bs < 2 ^ 16"
    and bs: "\<And>b. b \<in> fst ` set bs \<Longrightarrow> block_ok m b \<and> unat (b div mg_blocksPerSlab m) \<in> S"
  shows "sat (for_each (\<lambda>cid m. case map_of (mg_clients m) cid of
             None \<Rightarrow> Crash NullDereference
           | Some p \<Rightarrow> if sendFailed p \<or> gid \<noteq> 0 \<and> gid = groupID p then Ok () m else SendSegments cid bs m) cs m)
    (\<lambda>_ m'. kept (\<lambda>c. if c \<in> set cs then B c + length bs else B c) S K m' \<and> geometry m' = geometry m) (\<lambda>_ _. False)"
  using assms
proof (induction cs arbitrary: B m)
  case (Cons c cs)
  obtain p where p: "map_of (mg_clients m) c = Some p" using kept_client [OF Cons.prems(1)] Cons.prems(3) by auto
  let ?B = "B(c := B c + length bs)"
  have "kept ?B S K m" using Cons.prems(1) books_mono [where B' = ?B] unfolding kept_def by (metis fun_upd_apply le_add1 order_refl)
  then have step: "sat (if sendFailed p \<or> gid \<noteq> 0 \<and> gid = groupID p then Ok () m else SendSegments c bs m)
    (\<lambda>_ m'. kept ?B S K m' \<and> geometry m' = geometry m) (\<lambda>_ _. False)"
    using SendSegments_books [OF Cons.prems(1), of c bs] Cons.prems(3,4,5) by simp
  have eq: "(\<lambda>x. if x \<in> set cs then ?B x + length bs else ?B x) = (\<lambda>x. if x \<in> set (c # cs) then B x + length bs else B x)"
    using Cons.prems(2) by (auto simp: fun_eq_iff)
  show ?case unfolding for_each.simps p option.case
  proof (rule sat_bind [OF step], goal_cases)
    case (1 u m1)
    have g: "geometry m1 = geometry m" using 1 by blast
    have ok: "block_ok m1 b \<and> unat (b div mg_blocksPerSlab m1) \<in> S" if "b \<in> fst ` set bs" for b
      using Cons.prems(5) [OF that] block_ok_geometry [OF g] geometryD [OF g] by simp
    have room: "?B x + length bs < 2 ^ 16" if "x \<in> set cs" for x using Cons.prems(2,4) that by auto
    have "distinct cs" "set cs \<subseteq> set K" using Cons.prems(2,3) by auto
    from Cons.IH [OF conjunct1 [OF 1] this room ok] show ?case unfolding eq g .
  qed
qed simp

lemma books_pin:
  assumes "books B d e S W m" "\<And>i. i \<in> S' \<Longrightarrow> held m i \<noteq> 0"
  shows "books B d e S' W m"
  using assms unfolding books_def by blast

lemma kept_keys: "kept B S K m \<Longrightarrow> map fst (mg_clients m) = K"
  unfolding kept_def using booksD(7) keys_queues by metis

lemma TakeBlocksAndInfo_books:
  assumes k: "kept B S K m" and room: "\<And>c. c \<in> set K \<Longrightarrow> B c + length bs < 2 ^ 16"
    and S: "\<And>b. b \<in> fst ` set bs \<Longrightarrow> block_ok m b \<Longrightarrow> unat (b div mg_blocksPerSlab m) \<in> S"
  shows "sat (TakeBlocksAndInfo bs gid m) (\<lambda>_ m'. kept (\<lambda>c. B c + length bs) S K m' \<and> geometry m' = geometry m)
    (\<lambda>_ m'. kept B S K m' \<and> geometry m' = geometry m)"
  unfolding TakeBlocksAndInfo_def
proof (rule sat_bind [OF store_infos_books [OF k refl]], goal_cases)
  case (1 u m1)
  let ?m = "m1\<lparr>mg_stats := (mg_stats m1)\<lparr>ms_rcvdSegs := ms_rcvdSegs (mg_stats m1) + of_nat (length bs)\<rparr>\<rparr>"
  have k1: "kept B S K ?m" using 1 by (simp add: kept_def)
  have g: "geometry ?m = geometry m" using 1 by simp
  have keys: "map fst (mg_clients m1) = K" using kept_keys [OF k1] by simp
  obtain W where "books B (\<lambda>_. 0) {#} S W ?m" using k1 keptE by blast
  from om_ok_distinct [OF booksD(6) [OF this]] have d: "distinct K" using keys by simp
  have ok: "block_ok ?m b \<and> unat (b div mg_blocksPerSlab ?m) \<in> S" if "b \<in> fst ` set bs" for b
    using S [OF that] that 1 block_ok_geometry [OF g] geometryD [OF g] by auto
  show ?case unfolding keys
  proof (rule sat_mono [OF send_to_all_books [OF k1 d order_refl room ok]], goal_cases)
    case (3 u m2)
    then obtain W where "map fst W = K" "books (\<lambda>c. if c \<in> set K then B c + length bs else B c) (\<lambda>_. 0) {#} S W m2"
      unfolding kept_def by blast
    moreover from this(2) have "books (\<lambda>c. B c + length bs) (\<lambda>_. 0) {#} S W m2" by (rule books_mono) simp
    ultimately show ?case using 3 g by (auto simp: kept_def)
  qed simp_all
qed

lemma check_cci_same:
  assumes "books B d e S W m"
  shows "sat (check_cci c bs m) (\<lambda>_ m'. m' = m) (\<lambda>_ m'. m' = m)"
proof (induction bs)
  case (Cons x bs)
  obtain b info where x: "x = (b, info)" by (cases x)
  then show ?case using Cons mg_GetBlockPtr_cases [OF assms, of b] by auto
qed simp

lemma HandleBlocksAndInfo_books:
  assumes k: "kept B {} K m" and c: "c \<in> set K" and room: "\<And>c. c \<in> set K \<Longrightarrow> B c + length bs < 2 ^ 16"
    and held: "\<And>b. b \<in> fst ` set bs \<Longrightarrow> block_ok m b \<Longrightarrow> held m (unat (b div mg_blocksPerSlab m)) \<noteq> 0"
  shows "sat (px_HandleBlocksAndInfo c bs m) (\<lambda>_ m'. kept (\<lambda>c. B c + length bs) {} K m' \<and> geometry m' = geometry m)
    (\<lambda>_ m'. kept (\<lambda>c. B c + length bs) {} K m' \<and> geometry m' = geometry m)"
proof -
  let ?S = "{unat (b div mg_blocksPerSlab m) | b. b \<in> fst ` set bs \<and> block_ok m b}" and ?B = "\<lambda>c. B c + length bs"
  obtain W where W: "map fst W = K" "books B (\<lambda>_. 0) {#} {} W m" using k by (rule keptE)
  obtain p where p: "map_of (mg_clients m) c = Some p" using kept_client [OF k c] by blast
  have pin: "books B (\<lambda>_. 0) {#} ?S W m" by (rule books_pin [OF W(2)]) (use held in auto)
  have drop: "kept ?B {} K m'" if "kept B' S' K m'" "\<And>c. B' c \<le> ?B c" for m' B' S'
  proof -
    from that(1) obtain W' where W': "map fst W' = K" "books B' (\<lambda>_. 0) {#} S' W' m'" by (rule keptE)
    have "books ?B (\<lambda>_. 0) {#} {} W' m'" by (rule books_pin [OF books_mono [OF W'(2) that(2)]]) simp
    then show ?thesis using W'(1) by (auto simp: kept_def)
  qed
  have k': "kept B ?S K m" using keptI [OF pin] W(1) by simp
  have take: "sat (TakeBlocksAndInfo bs (groupID p) m) (\<lambda>_ m'. kept ?B {} K m' \<and> geometry m' = geometry m)
    (\<lambda>_ m'. kept ?B {} K m' \<and> geometry m' = geometry m)"
    by (rule sat_mono [OF TakeBlocksAndInfo_books [OF k' room]]) (auto intro: drop)
  show ?thesis unfolding px_HandleBlocksAndInfo_def
  proof (rule sat_bind [OF sat_mono [OF check_cci_same [OF W(2)]]], rule asm_rl, assumption, goal_cases)
    case (1 e m1)
    then show ?case using drop [OF k] by simp
  next
    case (2 u m1)
    show ?case unfolding 2 p option.case
    proof (rule sat_bind [OF take], goal_cases)
      case (1 u m2)
      let ?f = "\<lambda>q. Ok () (q\<lparr>px_stats := (px_stats q)\<lparr>ps_rcvdSegs := ps_rcvdSegs (px_stats q) + of_nat (length bs),
             ps_rcvdBytes := ps_rcvdBytes (px_stats q) + (\<Sum>(b, info) \<leftarrow> bs. ucast (bi_size info))\<rparr>\<rparr>)"
      have "sat (on_proxy c ?f m2) (\<lambda>_ m'. kept ?B {} K m' \<and> geometry m' = geometry m2) (\<lambda>_ m'. kept ?B {} K m' \<and> geometry m' = geometry m2)"
        by (rule kept_on_proxy_same [OF conjunct1 [OF 1] c]) (simp add: same_books_def calm_def)
      then show ?case using 1 by simp
    qed
  qed
qed

end
