(* ===== verification/Manager_Growth.thy ===== *)
theory Manager_Growth
  imports Manager_Publish
begin

unbundle bit_operations_syntax

text \<open>
  More slabs: a reservation that fails adds a buffer, tells the clients and tries again.  The new
  slabs are free, the trackers of the clients grow with the memory, and the loop ends because there
  are at most \<open>maxNumBuffers\<close> buffers.
\<close>

section \<open>Telling the clients\<close>

lemma tracker_grow:
  assumes "tracker_inv n t" "n \<le> unat N"
  shows "tracker_inv (unat N) (TotalNumSlabs N t)" "prod_held (TotalNumSlabs N t) = prod_held t" "cons_refs (TotalNumSlabs N t) = cons_refs t"
proof -
  note l = tracker_invD(1,2) [OF assms(1)]
  have r: "resize (unat N) x xs = xs @ replicate (unat N - n) x" if "length xs = n" for x :: 'x and xs
    using that assms(2) by (simp add: resize_def)
  show "tracker_inv (unat N) (TotalNumSlabs N t)"
    using assms l by (simp add: tracker_inv_def TotalNumSlabs_def r [OF l(1)] r [OF l(2)])
  show "prod_held (TotalNumSlabs N t) = prod_held t" "cons_refs (TotalNumSlabs N t) = cons_refs t"
    using l by (auto simp: fun_eq_iff prod_held_def cons_refs_def TotalNumSlabs_def r [OF l(1)] r [OF l(2)] nth_append)
qed

definition told :: "u32 \<Rightarrow> u32 \<Rightarrow> proxy \<Rightarrow> proxy \<Rightarrow> bool" where
  "told N bps p p' \<longleftrightarrow> same_books (p\<lparr>px_slabs := TotalNumSlabs N (px_slabs p), px_blocksPerSlab := bps\<rparr>) p'"

lemma CheckBufferParams_told:
  assumes "calm p"
  shows "sat (CheckBufferParams N bps fmt p) (\<lambda>_. told N bps p) (\<lambda>_ _. False)"
proof -
  let ?p = "p\<lparr>px_slabs := TotalNumSlabs N (px_slabs p), px_blocksPerSlab := bps\<rparr>"
  have "calm ?p" using assms by (simp add: calm_def)
  from sends_same [OF calm_sends(3) [OF this, of kCtrlString_ShmName fmt]] show ?thesis
    unfolding CheckBufferParams_def Let_def told_def
    by (cases "SendCtrlString kCtrlString_ShmName fmt ?p") (auto simp: caught_def dest: sat_OkD sat_ThrowD)
qed

lemma om_assign_map:
  "distinct (map fst xs) \<Longrightarrow> map_of xs c \<noteq> None \<Longrightarrow> om_assign c v xs = map (\<lambda>(k, w). (k, if k = c then v else w)) xs"
proof (induction xs)
  case (Cons x xs)
  obtain k w where x: "x = (k, w)" by (cases x)
  show ?case
  proof (cases "k = c")
    case True
    have "map (\<lambda>(k, w). (k, if k = c then v else w)) xs = xs"
      by (rule map_idI) (use Cons.prems(1) True x in \<open>force\<close>)
    then show ?thesis using True x by simp
  next
    case False
    then show ?thesis using Cons x by simp
  qed
qed simp

abbreviation tell :: "u16 \<Rightarrow> manager \<Rightarrow> (unit, manager) outcome" where
  "tell cid m \<equiv> on_proxy cid
         (CheckBufferParams (shm_TotalNumSlabs (mg_shm m)) (mg_blocksPerSlab m) (shm_nameFormat (mg_shm m))) m"

lemma tell_loop:
  assumes "distinct (map fst (mg_clients m))" "set cs \<subseteq> set (map fst (mg_clients m))" "distinct cs"
    "\<And>k w. (k, w) \<in> set (mg_clients m) \<Longrightarrow> calm w" "N = shm_TotalNumSlabs (mg_shm m)" "bps = mg_blocksPerSlab m"
  shows "sat (for_each tell cs m)
    (\<lambda>_ m'. \<exists>g. m' = m\<lparr>mg_clients := map (\<lambda>(k, w). (k, if k \<in> set cs then g k else w)) (mg_clients m)\<rparr>
       \<and> (\<forall>(k, w) \<in> set (mg_clients m). k \<in> set cs \<longrightarrow> told N bps w (g k))) (\<lambda>_ _. False)"
  using assms
proof (induction cs arbitrary: m)
  case Nil
  have "map (\<lambda>(k, w). (k, w)) (mg_clients m) = mg_clients m" by (simp add: case_prod_unfold)
  then show ?case by simp
next
  case (Cons c cs)
  obtain p where p: "map_of (mg_clients m) c = Some p"
    using Cons.prems(2) map_of_eq_None_iff [of "mg_clients m" c] by (cases "map_of (mg_clients m) c") auto
  have calm: "calm p" using Cons.prems(4) [OF map_of_SomeD [OF p]] .
  obtain p' where p': "CheckBufferParams N bps (shm_nameFormat (mg_shm m)) p = Ok () p'" "told N bps p p'"
    using CheckBufferParams_told [OF calm, of N bps "shm_nameFormat (mg_shm m)"] by (cases "CheckBufferParams N bps (shm_nameFormat (mg_shm m)) p") auto
  let ?m = "put_proxy c p' m"
  have cl: "mg_clients ?m = map (\<lambda>(k, w). (k, if k = c then p' else w)) (mg_clients m)"
    using om_assign_map [OF Cons.prems(1)] p by simp
  have calm': "calm w" if "(k, w) \<in> set (mg_clients ?m)" for k w
    using that Cons.prems(4) p'(2) unfolding cl by (auto simp: told_def same_books_def)
  have ih: "sat (for_each tell cs ?m)
    (\<lambda>_ m'. \<exists>g. m' = ?m\<lparr>mg_clients := map (\<lambda>(k, w). (k, if k \<in> set cs then g k else w)) (mg_clients ?m)\<rparr>
       \<and> (\<forall>(k, w) \<in> set (mg_clients ?m). k \<in> set cs \<longrightarrow> told N bps w (g k))) (\<lambda>_ _. False)"
    by (rule Cons.IH) (use Cons.prems calm' in \<open>simp_all\<close>)
  have "sat (for_each tell cs ?m)
    (\<lambda>_ m'. \<exists>g. m' = m\<lparr>mg_clients := map (\<lambda>(k, w). (k, if k \<in> set (c # cs) then g k else w)) (mg_clients m)\<rparr>
       \<and> (\<forall>(k, w) \<in> set (mg_clients m). k \<in> set (c # cs) \<longrightarrow> told N bps w (g k))) (\<lambda>_ _. False)"
  proof (rule sat_mono [OF ih], elim exE conjE, goal_cases)
    case (1 u m' g)
    let ?g = "\<lambda>k. if k = c then p' else g k"
    have c: "c \<notin> set cs" using Cons.prems(3) by simp
    have "map (\<lambda>(k, w). (k, if k \<in> set cs then g k else w)) (mg_clients ?m)
      = map (\<lambda>(k, w). (k, if k \<in> set (c # cs) then ?g k else w)) (mg_clients m)"
      unfolding cl using c by auto
    then have "m' = m\<lparr>mg_clients := map (\<lambda>(k, w). (k, if k \<in> set (c # cs) then ?g k else w)) (mg_clients m)\<rparr>"
      unfolding 1(1) by (simp add: put_proxy_def)
    moreover have "told N bps w (?g k)" if k: "(k, w) \<in> set (mg_clients m)" "k \<in> set (c # cs)" for k w
    proof (cases "k = c")
      case True
      then have "w = p" using k(1) p Cons.prems(1) by (simp add: map_of_eq_Some_iff)
      then show ?thesis using True p'(2) by simp
    next
      case False
      then have "(k, w) \<in> set (mg_clients ?m)" unfolding cl using k(1) by force
      then show ?thesis using 1(2) False k(2) by auto
    qed
    ultimately show ?case unfolding Ball_def split_paired_All prod.case by (intro exI [of _ ?g]) blast
  qed simp
  moreover have "for_each tell (c # cs) m
      = for_each tell cs ?m" using p'(1) Cons.prems(5,6) by (simp add: on_proxy_def p)
  ultimately show ?case by (simp only:)
qed

section \<open>One more buffer\<close>

definition grown :: "shm_mapper \<Rightarrow> manager \<Rightarrow> manager" where
  "grown s m = NumBuffers (Suc (length (infoVec m))) (m\<lparr>mg_shm := s\<rparr>)"

lemma grown_fields [simp]:
  "mg_clients (grown s m) = mg_clients m" "mg_requests (grown s m) = mg_requests m" "mg_groups (grown s m) = mg_groups m"
  "mg_shm (grown s m) = s" "mg_blocksPerSlab (grown s m) = mg_blocksPerSlab m" "whichStateChange (grown s m) = whichStateChange m"
  "slabsPerBuf (grown s m) = slabsPerBuf m" "length (infoVec (grown s m)) = Suc (length (infoVec m))"
  "wantedSegmentBlocks (grown s m) = wantedSegmentBlocks m" "mg_nextNewClientID (grown s m) = mg_nextNewClientID m"
  by (simp_all add: grown_def NumBuffers_def add_buffer_def Let_def)

lemma grown_nonempty [simp]: "infoVec (grown s m) \<noteq> []"
  using grown_fields(8) [of s m] by (metis length_0_conv nat.simps(3))

lemma parts_ok_grown:
  assumes mem: "parts_ok m" and s: "shm_ok s" "shm_frame (mg_shm m) s" "length (shm_headerVec s) = Suc (length (shm_headerVec (mg_shm m)))"
  shows "parts_ok (grown s m)"
proof -
  have f: "shm_numBlocks s = shm_numBlocks (mg_shm m)" "shm_maxNumBuffers s = shm_maxNumBuffers (mg_shm m)" "BlocksPerSlab s = BlocksPerSlab (mg_shm m)"
    using s(2) by (simp_all add: shm_frame_def BlocksPerSlab_def)
  show ?thesis
    using mem s(1,3) unfolding parts_ok_def grown_fields f by (elim conjE) (intro conjI; simp)
qed

lemma slab_at_grown:
  assumes b: "books B d e S W m" and fits: "num_slabs m + unat (slabsPerBuf m) < 2 ^ 32"
  shows "slab_inv (grown s m)" "num_slabs (grown s m) = num_slabs m + unat (slabsPerBuf m)"
    "i < num_slabs m \<Longrightarrow> slab_at (grown s m) i = slab_at m i"
    "num_slabs m \<le> i \<Longrightarrow> i < num_slabs (grown s m) \<Longrightarrow> slab_at (grown s m) i = SlabInfo (of_nat i)"
proof -
  let ?m = "m\<lparr>mg_shm := s\<rparr>" and ?c = "\<lambda>x. x\<lparr>numSlabsNonreservable := pctNonreservable x (NumSlabs x)\<rparr>"
  have g: "grown s m = ?c (add_buffer ?m)" by (simp add: grown_def NumBuffers_def Let_def)
  have at: "slab_at (m'\<lparr>numSlabsNonreservable := c\<rparr>) = slab_at m'" "num_slabs (m'\<lparr>numSlabsNonreservable := c\<rparr>) = num_slabs m'"
    for m' :: manager and c by (simp_all add: fun_eq_iff slab_at_def num_slabs_def)
  have inv: "slab_inv (m'\<lparr>numSlabsNonreservable := c\<rparr>) = slab_inv m'" for m' :: manager and c
    by (simp add: slab_inv_def slab_shape_def slab_lists_def seg_pool_def queued_segs_def)
  have tr: "slab_manager.truncate ?m = slab_manager.truncate m" by (simp add: slab_manager.truncate_def)
  note more = slab_inv_more [OF tr]
  have sh: "slab_inv ?m" "slab_shape ?m" using booksD(1) [OF b] more(1) by (simp_all add: slab_inv_def)
  show "slab_inv (grown s m)" unfolding g inv by (rule add_buffer_inv [OF sh(1)]) (use fits more(3) in simp)
  show n: "num_slabs (grown s m) = num_slabs m + unat (slabsPerBuf m)" unfolding g at by (simp add: num_slabs_add_buffer more(3))
  show "slab_at (grown s m) i = slab_at m i" if "i < num_slabs m"
    unfolding g at using slab_at_add_buffer(1) [OF sh(2), of i] that more(3,5) by simp
  show "slab_at (grown s m) i = SlabInfo (of_nat i)" if "num_slabs m \<le> i" "i < num_slabs (grown s m)"
    unfolding g at using slab_at_add_buffer(2) [OF sh(2), of i] that n more(3) by simp
qed

lemma beyond_holds_none:
  assumes b: "books B d e S W m" and i: "num_slabs m \<le> i"
  shows "clients_hold m i = 0"
proof -
  have "px_holds p i = 0" if "(c, p) \<in> set (mg_clients m)" for c p
    using books_entry(1) [OF b that] tracker_invD(1,2) [of "num_slabs m" "px_slabs p"] i
    by (auto simp: proxy_ok_def px_holds_def prod_held_def cons_refs_def)
  then show ?thesis by (auto simp: clients_hold_def)
qed

lemma books_grown:
  assumes b: "books B (\<lambda>_. 0) {#} {} W m" and s: "shm_ok s" "shm_frame (mg_shm m) s" "length (shm_headerVec s) = Suc (length (shm_headerVec (mg_shm m)))"
    and g: "\<And>c p. (c, p) \<in> set (mg_clients m) \<Longrightarrow> told (shm_TotalNumSlabs s) (mg_blocksPerSlab m) p (g c)"
  shows "books B (\<lambda>_. 0) {#} {} W ((grown s m)\<lparr>mg_clients := map (\<lambda>(c, p). (c, g c)) (mg_clients m)\<rparr>)"
proof -
  let ?g = "grown s m" and ?n = "num_slabs m"
  let ?m = "?g\<lparr>mg_clients := map (\<lambda>(c, p). (c, g c)) (mg_clients m)\<rparr>"
  have mem: "parts_ok m" by (rule booksD(5) [OF b])
  have memg: "parts_ok ?g" by (rule parts_ok_grown [OF mem s])
  have fits: "?n + unat (slabsPerBuf m) < 2 ^ 32"
  proof -
    let ?l = "Suc (length (infoVec m))"
    have l: "?l \<le> unat (shm_maxNumBuffers s)" using s(1,3) mem by (auto simp: shm_ok_def parts_ok_def)
    have p: "unat (slabsPerBuf m) * unat (mg_blocksPerSlab m) * unat (shm_maxNumBuffers s) < 2 ^ 32" "0 < unat (mg_blocksPerSlab m)"
      using memg by (auto simp: parts_ok_def unat_gt_0_iff)
    have "?n + unat (slabsPerBuf m) = unat (slabsPerBuf m) * 1 * ?l" by (simp add: num_slabs_def)
    also have "\<dots> \<le> unat (slabsPerBuf m) * unat (mg_blocksPerSlab m) * unat (shm_maxNumBuffers s)"
      by (intro mult_mono l order_refl) (use p(2) in simp_all)
    finally show ?thesis using p(1) by (rule le_less_trans)
  qed
  note at = slab_at_grown [OF b fits, where s = s]
  have n: "unat (shm_TotalNumSlabs s) = num_slabs ?g"
  proof -
    have bps: "BlocksPerSlab s = mg_blocksPerSlab m" "0 < unat (mg_blocksPerSlab m)" using memg by (auto simp: parts_ok_def unat_gt_0_iff)
    show ?thesis using total_blocks [OF memg] bps(2) unfolding shm_TotalNumSlabs_def bps(1) by (simp add: unat_div)
  qed
  have tr: "slab_manager.truncate ?m = slab_manager.truncate ?g" by (simp add: slab_manager.truncate_def)
  note more = slab_inv_more [OF tr]
  have px: "told (shm_TotalNumSlabs s) (mg_blocksPerSlab m) p (g c)" "proxy_ok ?n (mg_blocksPerSlab m) c p"
    "tracker_inv (num_slabs ?g) (px_slabs (g c))" "prod_held (px_slabs (g c)) = prod_held (px_slabs p)"
    "cons_refs (px_slabs (g c)) = cons_refs (px_slabs p)" if "(c, p) \<in> set (mg_clients m)" for c p
  proof -
    show t: "told (shm_TotalNumSlabs s) (mg_blocksPerSlab m) p (g c)" by (rule g [OF that])
    show ok: "proxy_ok ?n (mg_blocksPerSlab m) c p" by (rule books_entry(1) [OF b that])
    have "?n \<le> unat (shm_TotalNumSlabs s)" using n at(2) by simp
    moreover have "tracker_inv ?n (px_slabs p)" using ok by (simp add: proxy_ok_def)
    ultimately show "tracker_inv (num_slabs ?g) (px_slabs (g c))" "prod_held (px_slabs (g c)) = prod_held (px_slabs p)"
      "cons_refs (px_slabs (g c)) = cons_refs (px_slabs p)"
      using tracker_grow [of ?n "px_slabs p" "shm_TotalNumSlabs s"] t n by (simp_all add: told_def same_books_def)
  qed
  have h: "map (\<lambda>(c, p). px_holds p i) (mg_clients ?m) = map (\<lambda>(c, p). px_holds p i) (mg_clients m)" for i
    using px(4,5) by (auto simp: px_holds_def)
  have hold: "clients_hold ?m = clients_hold m" unfolding clients_hold_def h ..
  have "map (\<lambda>(c, p). (c, px_wantedQueue p)) (mg_clients ?m) = map (\<lambda>(c, p). (c, px_wantedQueue p)) (mg_clients m)"
    using px(1) by (auto simp: told_def same_books_def)
  then have q: "queues ?m = W" unfolding queues_def using booksD(7) [OF b] by (simp only: queues_def)
  have ws: "wantedSegs (slab_at ?g i) = (if i < ?n then wantedSegs (slab_at m i) else [])" if "i < num_slabs ?g" for i
    using at(3) [of i] at(4) [of i] that by (simp add: SlabInfo_def)
  have held: "held ?g i = (if i < ?n then held m i else 0)" if "i < num_slabs ?g" for i
    using at(3) [of i] at(4) [of i] that by (simp add: held_def SlabInfo_def)
  have segs: "queued_segs ?g = queued_segs m"
  proof -
    have "map (\<lambda>i. wantedSegs (slab_at ?g i)) [0..<?n] = map (\<lambda>i. wantedSegs (slab_at m i)) [0..<?n]"
      by (rule map_cong) (use ws at(2) in simp_all)
    moreover have "concat (map (\<lambda>i. wantedSegs (slab_at ?g i)) [?n..<?n + unat (slabsPerBuf m)]) = []"
      by (simp add: ws at(2))
    ultimately show ?thesis
      unfolding queued_segs_def at(2) upt_add_eq_append [of 0 ?n "unat (slabsPerBuf m)", OF le0] map_append concat_append by (simp only: append_Nil2)
  qed
  have bal: "int (held ?m i) = int (clients_hold ?m i) + 0" if "i < num_slabs ?m" for i
    using that books_held [OF b, of i] beyond_holds_none [OF b, of i] held [of i] by (simp add: more hold)
  have entry: "\<exists>p. (c, p) \<in> set (mg_clients m) \<and> p' = g c" if "(c, p') \<in> set (mg_clients ?m)" for c p'
    using that by auto
  show ?thesis
  proof (rule booksI)
    show "parts_ok ?m" using memg unfolding parts_ok_def by (elim conjE) (intro conjI; simp)
    show "om_ok (mg_clients ?m)" using booksD(6) [OF b] by (simp add: om_ok_def case_prod_unfold comp_def)
    show "queues ?m = W" by (rule q)
    show "mset (queued_segs ?m) = (\<Sum>(c, q) \<leftarrow> W. mset q) + {#}" using booksD(8) [OF b] by (simp add: more segs)
  next
    fix c p' assume "(c, p') \<in> set (mg_clients ?m)"
    then obtain p where p: "(c, p) \<in> set (mg_clients m)" "p' = g c" using entry by blast
    show "proxy_ok (num_slabs ?m) (mg_blocksPerSlab ?m) c p'"
      using px(1,2,3) [OF p(1)] by (simp add: p(2) proxy_ok_def more told_def same_books_def)
    show "cons_refs (px_slabs p') i + length (px_wantedQueue p') \<le> B c" for i
      using px(1,5) [OF p(1)] books_entry(2) [OF b p(1), of i] by (simp add: p(2) told_def same_books_def)
  next
    fix c q seg assume "(c, q) \<in> set W" "seg \<in> set q"
    then show "ws_clientID (wantedSegmentBlocks ?m ! seg) = c" using b by (auto simp: books_def)
  next
    fix i seg assume "i < num_slabs ?m" "seg \<in> set (wantedSegs (slab_at ?m i))"
    then have "i < ?n" "seg \<in> set (wantedSegs (slab_at m i))" using ws [of i] by (auto simp: more split: if_splits)
    from books_seg_slab [OF b this] show "segment_slab ?m seg = i" by (simp add: segment_slab_def)
  qed (use booksD [OF b] bal at(1) in \<open>simp_all add: more\<close>)
qed

section \<open>Reservations\<close>

text \<open>What adding a buffer leaves alone.\<close>

definition resources :: "manager \<Rightarrow> u32 \<times> nat \<times> u32" where
  "resources m = (mg_blocksPerSlab m, requests m, shm_maxNumBuffers (mg_shm m))"

abbreviation unlocked :: "string \<Rightarrow> bool" where
  "unlocked e \<equiv> e = ''failed to lock MCSB buffer memory''"

lemma tell_buffers_books:
  assumes b: "books B (\<lambda>_. 0) {#} {} W m" and s: "shm_ok s" "shm_frame (mg_shm m) s" "length (shm_headerVec s) = Suc (length (shm_headerVec (mg_shm m)))"
  shows "sat (tell_buffers (grown s m)) (\<lambda>_ m'. books B (\<lambda>_. 0) {#} {} W m' \<and> resources m' = resources m \<and> mg_shm m' = s) (\<lambda>_ _. False)"
proof -
  let ?g = "grown s m"
  have d: "distinct (map fst (mg_clients m))" by (rule om_ok_distinct [OF booksD(6) [OF b]])
  have calm: "calm p" if "(c, p) \<in> set (mg_clients m)" for c p using books_entry(1) [OF b that] by (simp add: proxy_ok_def)
  have loop: "sat (for_each tell (map fst (mg_clients m)) ?g)
    (\<lambda>_ m'. \<exists>g. m' = ?g\<lparr>mg_clients := map (\<lambda>(k, w). (k, if k \<in> set (map fst (mg_clients m)) then g k else w)) (mg_clients ?g)\<rparr>
       \<and> (\<forall>(k, w) \<in> set (mg_clients ?g). k \<in> set (map fst (mg_clients m)) \<longrightarrow> told (shm_TotalNumSlabs s) (mg_blocksPerSlab m) w (g k)))
    (\<lambda>_ _. False)"
    by (rule tell_loop) (use d calm in auto)
  have "sat (for_each tell (map fst (mg_clients m)) ?g)
    (\<lambda>_ m'. books B (\<lambda>_. 0) {#} {} W m' \<and> resources m' = resources m \<and> mg_shm m' = s) (\<lambda>_ _. False)"
  proof (rule sat_mono [OF loop], elim exE conjE, goal_cases)
    case (1 u m' g)
    have "map (\<lambda>(k, w). (k, if k \<in> set (map fst (mg_clients m)) then g k else w)) (mg_clients ?g) = map (\<lambda>(k, w). (k, g k)) (mg_clients m)"
      by force
    then have m': "m' = ?g\<lparr>mg_clients := map (\<lambda>(k, w). (k, g k)) (mg_clients m)\<rparr>" using 1(1) by (simp only:)
    have t: "told (shm_TotalNumSlabs s) (mg_blocksPerSlab m) p (g c)" if "(c, p) \<in> set (mg_clients m)" for c p
      using 1(2) that by force
    have "books B (\<lambda>_. 0) {#} {} W m'" unfolding m' by (rule books_grown [OF b s t])
    moreover have "resources m' = resources m" "mg_shm m' = s" using s(2) by (simp_all add: m' resources_def requests_def shm_frame_def)
    ultimately show ?case by blast
  qed simp
  then show ?thesis by (simp add: tell_buffers_def)
qed

lemma IncreaseNumBuffers_books:
  assumes b: "books B (\<lambda>_. 0) {#} {} W m"
  shows "sat (IncreaseNumBuffers 0 m) (\<lambda>r m'. books B (\<lambda>_. 0) {#} {} W m' \<and> resources m' = resources m
      \<and> (r = 0 \<longrightarrow> length (shm_headerVec (mg_shm m')) = Suc (length (shm_headerVec (mg_shm m)))))
    (\<lambda>e m'. unlocked e \<or> books B (\<lambda>_. 0) {#} {} W m')"
proof -
  let ?s = "mg_shm m"
  let ?l = "length (shm_headerVec ?s)"
  let ?n = "of_nat ?l + 1 :: u32"
  have mem: "parts_ok m" by (rule booksD(5) [OF b])
  then have ok: "shm_ok ?s" "?l = length (infoVec m)" "?l \<noteq> 0" "?l \<le> unat (shm_maxNumBuffers ?s)" by (auto simp: parts_ok_def shm_ok_def)
  have l: "?l < 2 ^ 32" using ok(4) unsigned_less [of "shm_maxNumBuffers ?s", where ?'a = nat] by simp
  then have ul: "unat (of_nat ?l :: u32) = ?l" by (rule unat_of_nat_u32)
  have nz: "(of_nat ?l :: u32) \<noteq> 0" using ul ok(3) by (metis unat_0)
  have "unat ?n = Suc ?l mod 2 ^ 32" using ul by (simp add: unat_word_ariths)
  then have n: "unat ?n = Suc ?l \<or> ?n = 0" using l by (cases "Suc ?l = 2 ^ 32") (auto simp flip: unat_eq_zero)
  have same: "books B (\<lambda>_. 0) {#} {} W (m\<lparr>mg_shm := s\<rparr>) \<and> resources (m\<lparr>mg_shm := s\<rparr>) = resources m"
    if s: "shm_ok s" "shm_frame ?s s" "length (shm_headerVec s) = ?l" for s
  proof -
    have f: "shm_numBlocks s = shm_numBlocks ?s" "shm_maxNumBuffers s = shm_maxNumBuffers ?s" "BlocksPerSlab s = BlocksPerSlab ?s"
      using s(2) by (simp_all add: shm_frame_def BlocksPerSlab_def)
    have "parts_ok (m\<lparr>mg_shm := s\<rparr>)" using mem s(1,3) f ok(2) unfolding parts_ok_def by (elim conjE) (intro conjI; simp add: num_slabs_def)
    then show ?thesis using books_shm [OF b] f by (simp add: resources_def requests_def)
  qed
  let ?R = "\<lambda>m1. \<exists>s. m1 = m\<lparr>mg_shm := s\<rparr> \<and> shm_ok s \<and> shm_frame ?s s
    \<and> (length (shm_headerVec s) = ?l \<or> length (shm_headerVec s) = Suc ?l \<and> unat ?n = Suc ?l)"
  have grow: "sat (with_shm (shm_NumBuffers ?n) m) (\<lambda>_. ?R) (\<lambda>e m'. unlocked e \<or> books B (\<lambda>_. 0) {#} {} W m')"
    unfolding with_shm_def sat_lift
  proof (rule sat_mono [OF shm_NumBuffers_spec [OF ok(1), of ?n]], goal_cases)
    case (1 r s)
    then show ?case using n by (intro exI [of _ s]) (auto split: if_splits)
  next
    case (2 e s)
    then have "length (shm_headerVec s) = ?l" using n by auto
    then show ?case using same [of s] 2 by simp
  qed
  have "sat (bind_o (with_shm (shm_NumBuffers ?n) m) (\<lambda>_ m.
          if of_nat (length (shm_headerVec (mg_shm m))) \<noteq> ?n then Ok (- 1 :: int) m
          else if shm_lockErrors (mg_shm m) \<noteq> 0 \<and> \<not> mg_allowUnlockedMemory m
          then Throw ''failed to lock MCSB buffer memory'' m
          else bind_o (tell_buffers (NumBuffers (unat ?n) m)) (\<lambda>_. Ok 0)))
    (\<lambda>r m'. books B (\<lambda>_. 0) {#} {} W m' \<and> resources m' = resources m
      \<and> (r = 0 \<longrightarrow> length (shm_headerVec (mg_shm m')) = Suc ?l))
    (\<lambda>e m'. unlocked e \<or> books B (\<lambda>_. 0) {#} {} W m')"
  proof (rule sat_bind [OF grow], elim exE conjE, goal_cases)
    case (1 r m1 s)
    show ?case
    proof (cases "length (shm_headerVec s) = ?l")
      case True
      then show ?thesis using same [of s] 1 by simp
    next
      case False
      then have len: "length (shm_headerVec s) = Suc ?l" "unat ?n = Suc ?l" using 1 by simp_all
      have g: "NumBuffers (unat ?n) m1 = grown s m" using 1 len(2) ok(2) by (simp add: grown_def)
      have n': "of_nat (length (shm_headerVec (mg_shm m1))) = ?n" using 1 len(1) by (simp add: add.commute)
      from tell_buffers_books [OF b 1(2,3) len(1)] have "sat (bind_o (tell_buffers (grown s m)) (\<lambda>_. Ok (0 :: int)))
        (\<lambda>r m'. books B (\<lambda>_. 0) {#} {} W m' \<and> resources m' = resources m
          \<and> (r = 0 \<longrightarrow> length (shm_headerVec (mg_shm m')) = Suc ?l))
        (\<lambda>e m'. unlocked e \<or> books B (\<lambda>_. 0) {#} {} W m')"
        by (cases "tell_buffers (grown s m)") (auto simp: len(1))
      then show ?thesis using n' g by simp
    qed
  qed
  then show ?thesis using nz by (simp add: IncreaseNumBuffers_def Let_def)
qed

lemma reserve_loop_books:
  assumes "books B (\<lambda>_. 0) {#} {} W m" "unat (shm_maxNumBuffers (mg_shm m)) < fuel + length (shm_headerVec (mg_shm m))"
  shows "sat (reserve_loop fuel k m) (\<lambda>_ m'. books B (\<lambda>_. 0) {#} {} W m' \<and> resources m' = resources m)
    (\<lambda>e m'. unlocked e \<or> books B (\<lambda>_. 0) {#} {} W m')"
  using assms
proof (induction fuel arbitrary: m)
  case 0
  have "length (shm_headerVec (mg_shm m)) \<le> unat (shm_maxNumBuffers (mg_shm m))"
    using booksD(5) [OF 0(1)] by (auto simp: parts_ok_def shm_ok_def)
  then show ?case using 0(2) by simp
next
  case (Suc fuel)
  let ?m = "snd (GetSlabReservation k m)"
  have same: "mg_shm ?m = mg_shm m" "resources ?m = resources m" and b: "books B (\<lambda>_. 0) {#} {} W ?m"
    using Suc.prems(1) by (simp_all add: GetSlabReservation_def resources_def requests_def)
  have inc: "sat (bind_o (IncreaseNumBuffers 0 ?m) (\<lambda>r m. if r = 0 then reserve_loop fuel k m else Ok failed m))
    (\<lambda>_ m'. books B (\<lambda>_. 0) {#} {} W m' \<and> resources m' = resources m) (\<lambda>e m'. unlocked e \<or> books B (\<lambda>_. 0) {#} {} W m')" for failed
  proof (rule sat_bind [OF IncreaseNumBuffers_books [OF b]], goal_cases)
    case (1 r m1)
    show ?case
    proof (cases "r = 0")
      case True
      have "unat (shm_maxNumBuffers (mg_shm m1)) < fuel + length (shm_headerVec (mg_shm m1))"
        using 1 True Suc.prems(2) same by (simp add: resources_def)
      from Suc.IH [OF conjunct1 [OF 1] this] show ?thesis using True 1 same(2) by simp
    next
      case False
      then show ?thesis using 1 same(2) by simp
    qed
  qed
  then show ?case using b same(2) by (simp add: case_prod_beta Let_def)
qed

lemma mg_GetSlabReservation_books:
  assumes "books B (\<lambda>_. 0) {#} {} W m"
  shows "sat (mg_GetSlabReservation k m) (\<lambda>_ m'. books B (\<lambda>_. 0) {#} {} W m' \<and> resources m' = resources m)
    (\<lambda>e m'. unlocked e \<or> books B (\<lambda>_. 0) {#} {} W m')"
  unfolding mg_GetSlabReservation_def by (rule reserve_loop_books [OF assms]) simp

end
