(* ===== verification/Manager_Calls.thy ===== *)
theory Manager_Calls
  imports Manager_Growth
begin

unbundle bit_operations_syntax

text \<open>
  Every message a client can send: the handlers that change no slab, and all of them together.  A
  state is \<open>settled\<close> when its books are closed.
\<close>

section \<open>Handlers without slabs\<close>

abbreviation keeps_kept :: "(u16 \<Rightarrow> nat) \<Rightarrow> nat set \<Rightarrow> u16 list \<Rightarrow> ('a, manager) outcome \<Rightarrow> bool" where
  "keeps_kept B S K r \<equiv> sat r (\<lambda>_. kept B S K) (\<lambda>_. kept B S K)"

lemma keeps_same:
  assumes "kept B S K m" "c \<in> set K" "\<And>p. calm p \<Longrightarrow> sat (f p) (\<lambda>_ p'. same_books p p') (\<lambda>_ p'. same_books p p')"
  shows "keeps_kept B S K (on_proxy c f m)"
  by (rule sat_mono [OF kept_on_proxy_same [OF assms]]) simp_all

lemma kept_bind:
  assumes "keeps_kept B S K r" "\<And>a m. kept B S K m \<Longrightarrow> keeps_kept B S K (f a m)"
  shows "keeps_kept B S K (bind_o r f)"
  using assms by (rule sat_bind)

lemma kept_groups: "kept B S K m \<Longrightarrow> group_inv g \<Longrightarrow> kept B S K (m\<lparr>mg_groups := g\<rparr>)"
  using books_groups unfolding kept_def by blast

lemma kept_group_inv: "kept B S K m \<Longrightarrow> group_inv (mg_groups m)"
  using booksD(4) unfolding kept_def by blast

lemma SendGroupID_same:
  assumes "calm (p :: proxy)"
  shows "sat (SendGroupID gid loc p) (\<lambda>_. same_books p) (\<lambda>_. same_books p)"
proof -
  let ?p = "if loc then p\<lparr>groupID := gid\<rparr> else p"
  have "calm ?p" using assms by (simp add: calm_def)
  from sends_same [OF calm_sends(11) [OF this, of gid]]
  have "sat (SendGroupID gid loc p) (\<lambda>_. same_books ?p) (\<lambda>_. same_books ?p)" by (simp add: SendGroupID_def Let_def)
  moreover have "same_books ?p q \<Longrightarrow> same_books p q" for q by (simp add: same_books_def split: if_splits)
  ultimately show ?thesis by (blast intro: sat_mono)
qed

lemma HandleCtrlString_kept:
  assumes k: "kept B S K m" and c: "c \<in> set K"
  shows "keeps_kept B S K (px_HandleCtrlString c which str m)"
proof -
  obtain p where p: "map_of (mg_clients m) c = Some p" using kept_client [OF k c] by blast
  have name: "keeps_kept B S K (on_proxy c (\<lambda>p. Ok () (p\<lparr>px_clientName := str\<rparr>)) m)"
    by (rule keeps_same [OF k c]) (simp add: same_books_def calm_def)
  obtain gid g where g: "GetGroupID (map (\<lambda>b. char_of (unat b)) str) True True (mg_groups m) = Some (gid, g)" "group_inv g"
    using group_inv_GetGroupID [OF kept_group_inv [OF k]] by blast
  have "keeps_kept B S K (bind_o (on_proxy c (SendGroupID (of_int gid) True) (m\<lparr>mg_groups := g\<rparr>)) (\<lambda>_. Ok ()))"
    by (rule kept_bind [OF keeps_same [OF kept_groups [OF k g(2)] c SendGroupID_same]]) simp_all
  then have "keeps_kept B S K (px_HandleGroupIDStr c str m)" using k by (simp add: px_HandleGroupIDStr_def p g(1))
  then show ?thesis using name k by (simp add: px_HandleCtrlString_def)
qed

lemma registrations_only:
  shows "sat (register_ids ids p) (\<lambda>_ p'. \<exists>x. p' = p\<lparr>px_registered := x\<rparr>) (\<lambda>_ p'. \<exists>x. p' = p\<lparr>px_registered := x\<rparr>)"
    and "sat (deregister_ids ids p) (\<lambda>_ p'. \<exists>x. p' = p\<lparr>px_registered := x\<rparr>) (\<lambda>_ p'. \<exists>x. p' = p\<lparr>px_registered := x\<rparr>)"
proof (induction ids arbitrary: p)
  have self: "\<exists>x. p = p\<lparr>px_registered := x\<rparr>" for p :: proxy by (rule exI [of _ "px_registered p"]) simp
  case Nil
  show "sat (register_ids [] p) (\<lambda>_ p'. \<exists>x. p' = p\<lparr>px_registered := x\<rparr>) (\<lambda>_ p'. \<exists>x. p' = p\<lparr>px_registered := x\<rparr>)"
    "sat (deregister_ids [] p) (\<lambda>_ p'. \<exists>x. p' = p\<lparr>px_registered := x\<rparr>) (\<lambda>_ p'. \<exists>x. p' = p\<lparr>px_registered := x\<rparr>)"
    for p by (simp only: register_ids.simps deregister_ids.simps sat.simps, rule self)+
next
  have self: "\<exists>x. p = p\<lparr>px_registered := x\<rparr>" for p :: proxy by (rule exI [of _ "px_registered p"]) simp
  case (Cons i ids)
  let ?Q = "\<lambda>p p'. \<exists>x. p' = p\<lparr>px_registered := x\<rparr>"
  have ok: "sat r (\<lambda>_. ?Q (p\<lparr>px_registered := y\<rparr>)) (\<lambda>_. ?Q (p\<lparr>px_registered := y\<rparr>)) \<Longrightarrow>
      sat (bind_o r (\<lambda>ns. Ok (i # ns))) (\<lambda>_. ?Q p) (\<lambda>_. ?Q p)" for r :: "(u32 list, proxy) outcome" and p y
    by (cases r) auto
  show "sat (register_ids (i # ids) p) (\<lambda>_. ?Q p) (\<lambda>_. ?Q p)" for p
  proof (cases "i = kCCIMessageID \<or> i \<in> set (px_registered p)")
    case False
    from ok [OF Cons.IH(1)] show ?thesis using False by simp
  next
    case True
    then have "register_ids (i # ids) p = register_ids ids p \<or> (\<exists>e. register_ids (i # ids) p = Throw e p)" by auto
    then show ?thesis
    proof
      assume "register_ids (i # ids) p = register_ids ids p"
      then show ?thesis using Cons.IH(1) [of p] by (simp only:)
    next
      assume "\<exists>e. register_ids (i # ids) p = Throw e p"
      then show ?thesis by (elim exE) (simp only: sat.simps, rule self)
    qed
  qed
  show "sat (deregister_ids (i # ids) p) (\<lambda>_. ?Q p) (\<lambda>_. ?Q p)" for p
    using ok [OF Cons.IH(2) [of "p\<lparr>px_registered := remove1 i (px_registered p)\<rparr>"]] Cons.IH(2) [of p] unfolding deregister_ids.simps by (cases "i \<in> set (px_registered p)") (simp_all only: if_True if_False)
qed

lemma registrations_same:
  assumes "calm p"
  shows "sat (if a then register_ids ids p else deregister_ids ids p) (\<lambda>_. same_books p) (\<lambda>_. same_books p)"
proof -
  have "\<exists>x. p' = p\<lparr>px_registered := x\<rparr> \<Longrightarrow> same_books p p'" for p' using assms by (auto simp: same_books_def calm_def)
  then show ?thesis using registrations_only [of ids p] by (auto elim!: sat_mono)
qed

lemma HandleRegistration_kept:
  assumes k: "kept B S K m" and c: "c \<in> set K"
  shows "keeps_kept B S K (px_HandleRegistration c type cid gid ids m)"
proof -
  obtain p where p: "map_of (mg_clients m) c = Some p" using kept_client [OF k c] by blast
  let ?f = "\<lambda>p. if type = kRegType_RegisterList then register_ids ids p else deregister_ids ids p"
  have "keeps_kept B S K (bind_o (on_proxy c ?f m) (\<lambda>ns m.
      if ns = [] then Ok () m else bind_o (mg_SendRegistration type cid gid ns m) (\<lambda>_. Ok ())))"
  proof (rule kept_bind [OF keeps_same [OF k c registrations_same]], assumption)
    fix ns m1 assume k1: "kept B S K m1"
    have "keeps_kept B S K (mg_SendRegistration type cid gid ns m1)"
      by (rule sat_mono [OF mg_SendRegistration_kept [OF k1]]) simp_all
    then have "keeps_kept B S K (bind_o (mg_SendRegistration type cid gid ns m1) (\<lambda>_. Ok ()))" by (rule kept_bind) simp
    then show "keeps_kept B S K (if ns = [] then Ok () m1 else bind_o (mg_SendRegistration type cid gid ns m1) (\<lambda>_. Ok ()))"
      using k1 by simp
  qed
  moreover have "(if type = kRegType_RegisterList then register_ids ids else deregister_ids ids) = ?f" by auto
  ultimately show ?thesis using k by (simp add: px_HandleRegistration_def p)
qed

section \<open>Telling a client what the others have registered\<close>

lemma send_registered_same:
  "calm q \<Longrightarrow> sat (send_registered ids q) (\<lambda>_. same_books q) (\<lambda>_ _. False)"
proof (induction ids q rule: send_registered.induct)
  case (1 ids q)
  show ?case
  proof (cases "ids = []")
    case True
    then show ?thesis using 1(2) by (simp add: send_registered.simps same_books_def)
  next
    case False
    have send: "sat (caught 0 (SendRegistration kRegType_RegisterList (px_clientID q) (groupID q) (take kMaxMsgIDs ids) q))
      (\<lambda>_. same_books q) (\<lambda>_ _. False)"
      by (rule sat_caught [OF sends_same [OF calm_sends(10) [OF 1(2)]]])
    have "sat (bind_o (caught 0 (SendRegistration kRegType_RegisterList (px_clientID q) (groupID q) (take kMaxMsgIDs ids) q))
             (\<lambda>_ q. send_registered (drop kMaxMsgIDs ids) q)) (\<lambda>_. same_books q) (\<lambda>_ _. False)"
    proof (rule sat_bind [OF send], goal_cases)
      case (1 a s)
      then have "calm s" by (simp add: same_books_def)
      from \<open>\<And>x s. _ \<Longrightarrow> calm s \<Longrightarrow> _\<close> [OF False this] show ?case by (rule sat_mono) (use 1 in \<open>auto simp: same_books_def\<close>)
    qed
    then show ?thesis using False by (subst send_registered.simps) simp
  qed
qed

lemma SendRegistrationsToFD_kept:
  assumes k: "kept B S K m" and q: "q \<in> set K" and r: "r \<in> set K"
  shows "keeps_kept B S K (px_SendRegistrationsToFD q r m)"
proof (cases "q = r")
  case True
  have "keeps_kept B S K (on_proxy q (\<lambda>p. send_registered (px_registered p) p) m)"
    by (rule keeps_same [OF k q]) (rule sat_mono [OF send_registered_same], simp_all)
  then show ?thesis using True by (simp add: px_SendRegistrationsToFD_def)
next
  case False
  obtain pq where pq: "map_of (mg_clients m) q = Some pq" using kept_client [OF k q] by blast
  obtain pr where pr: "map_of (mg_clients m) r = Some pr" using kept_client [OF k r] by blast
  obtain W where W: "books B (\<lambda>_. 0) {#} S W m" using k keptE by blast
  have calm: "calm pq" "calm pr" using books_client(1) [OF W pq] books_client(1) [OF W pr] by (simp_all add: proxy_ok_def)
  let ?s = "pq\<lparr>sock_out := sock_out pr, kernel := kernel pr\<rparr>"
  have "calm ?s" using calm(2) by (simp add: calm_def)
  then have send: "sat (send_registered (px_registered pq) ?s) (\<lambda>_. same_books ?s) (\<lambda>_ _. False)" by (rule send_registered_same)
  have keep: "kept B S K (put_proxy r (pr\<lparr>sock_out := sock_out p, kernel := kernel p\<rparr>) (put_proxy q (p\<lparr>sock_out := sock_out pq, kernel := kernel pq\<rparr>) m))"
    if p: "same_books ?s p" for p
  proof (rule kept_same_proxy [OF kept_same_proxy [OF k pq]])
    show "same_books pq (p\<lparr>sock_out := sock_out pq, kernel := kernel pq\<rparr>)" using p calm(1) by (simp add: same_books_def calm_def)
    show "same_books pr (pr\<lparr>sock_out := sock_out p, kernel := kernel p\<rparr>)" using p by (simp add: same_books_def calm_def)
    show "map_of (mg_clients (put_proxy q (p\<lparr>sock_out := sock_out pq, kernel := kernel pq\<rparr>) m)) r = Some pr"
      using False pr pq by (simp add: map_of_om_assign)
  qed
  from send have "keeps_kept B S K (lift_o (\<lambda>p. put_proxy r (pr\<lparr>sock_out := sock_out p, kernel := kernel p\<rparr>)
                      (put_proxy q (p\<lparr>sock_out := sock_out pq, kernel := kernel pq\<rparr>) m)) (send_registered (px_registered pq) ?s))"
    unfolding sat_lift by (rule sat_mono) (simp_all add: keep)
  then show ?thesis using False by (simp add: px_SendRegistrationsToFD_def pq pr)
qed

lemma HandleRegistrationsWanted_kept:
  assumes k: "kept B S K m" and c: "c \<in> set K"
  shows "keeps_kept B S K (px_HandleRegistrationsWanted c a b m)"
proof -
  have all: "keeps_kept B S K (mg_SendRegistrationsToFD c m1)" if k1: "kept B S K m1" for m1
    unfolding mg_SendRegistrationsToFD_def kept_keys [OF k1]
    by (rule sat_for_each [where I = "kept B S K", OF _ k1]) (rule SendRegistrationsToFD_kept [OF _ _ c])
  have wanted: "keeps_kept B S K (on_proxy c (\<lambda>p. Ok () (p\<lparr>px_wantRegistrations := a\<rparr>)) m)"
    by (rule keeps_same [OF k c]) (simp add: same_books_def calm_def)
  show ?thesis unfolding px_HandleRegistrationsWanted_def by (rule kept_bind [OF wanted]) (simp add: all)
qed

section \<open>More slabs\<close>

lemma HandleNumSlabs_kept:
  assumes k: "kept B {} K m" and c: "c \<in> set K" and room: "requests m < 2 ^ 32 - 1"
  shows "sat (px_HandleNumSlabs c prods conss m) (\<lambda>_. kept B {} K) (\<lambda>e m'. unlocked e \<or> kept B {} K m')"
proof -
  obtain p where p: "map_of (mg_clients m) c = Some p" using kept_client [OF k c] by blast
  obtain W where W: "map fst W = K" "books B (\<lambda>_. 0) {#} {} W m" using k by (rule keptE)
  let ?P = "\<lambda>m'. kept B {} K m' \<and> requests m' < 2 ^ 32 - 1"
  have reserve: "sat (mg_GetSlabReservation n m) (\<lambda>_. ?P) (\<lambda>e m'. unlocked e \<or> kept B {} K m')" for n
    by (rule sat_mono [OF mg_GetSlabReservation_books [OF W(2)]]) (use W(1) room keptI in \<open>auto simp: resources_def\<close>)
  have answer: "sat (on_proxy c (\<lambda>p. SendNumSlabs a b (if ok then p\<lparr>px_slabs := (px_slabs p)\<lparr>numProdSlabs := a, numConsSlabs := b\<rparr>\<rparr> else p)) m1)
    (\<lambda>_. ?P) (\<lambda>e m'. unlocked e \<or> kept B {} K m')" if m1: "?P m1" for a b ok m1
  proof -
    obtain p1 where p1: "map_of (mg_clients m1) c = Some p1" using kept_client [OF conjunct1 [OF m1] c] by blast
    obtain W1 where W1: "map fst W1 = K" "books B (\<lambda>_. 0) {#} {} W1 m1" using m1 keptE by blast
    let ?t = "if ok then (px_slabs p1)\<lparr>numProdSlabs := a, numConsSlabs := b\<rparr> else px_slabs p1"
    let ?p = "p1\<lparr>px_slabs := ?t\<rparr>"
    have t: "tracker_inv (num_slabs m1) ?t" "prod_held ?t = prod_held (px_slabs p1)" "cons_refs ?t = cons_refs (px_slabs p1)"
      using books_client(1) [OF W1(2) p1] by (auto simp: proxy_ok_def tracker_inv_def prod_held_def cons_refs_def fun_eq_iff)
    have "books B (\<lambda>i. 0 + int 0) {#} {} W1 (put_proxy c ?p m1)"
      by (rule books_release [OF W1(2) p1 t(1)]) (simp_all add: t px_holds_def)
    then have k1: "kept B {} K (put_proxy c ?p m1)" using W1(1) by (auto simp: kept_def)
    have c1: "map_of (mg_clients (put_proxy c ?p m1)) c = Some ?p" using p1 by (simp add: map_of_om_assign)
    have "calm ?p" using books_client(1) [OF W1(2) p1] by (simp add: proxy_ok_def calm_def)
    note send = sends_same [OF calm_sends(5) [OF this, of a b]]
    have put: "put_proxy c p' (put_proxy c ?p m1) = put_proxy c p' m1" for p'
    proof -
      have "om_assign c p' (om_assign c x xs) = om_assign c p' xs" for x xs by (induction xs) auto
      then show ?thesis by (simp add: put_proxy_def)
    qed
    have eq: "(if ok then p1\<lparr>px_slabs := (px_slabs p1)\<lparr>numProdSlabs := a, numConsSlabs := b\<rparr>\<rparr> else p1) = ?p" by simp
    have keep: "?P (put_proxy c p' m1)" if "same_books ?p p'" for p'
      using kept_same_proxy [OF k1 c1 that] m1 by (simp add: put requests_def)
    show ?thesis unfolding on_proxy_def p1 option.case eq sat_lift
      by (rule sat_mono [OF send]) (use keep in blast)+
  qed
  have fill: "sat (FillProducerSlabs c m1) (\<lambda>_. kept B {} K) (\<lambda>e m'. unlocked e \<or> kept B {} K m')" if "?P m1" for m1
    by (rule sat_mono [OF FillProducerSlabs_books [OF conjunct1 [OF that] c]]) (use that in \<open>simp_all add: requests_def\<close>)
  let ?prod = "numProdSlabs (px_slabs p)" and ?cons = "numConsSlabs (px_slabs p)"
  have "sat (bind_o (mg_GetSlabReservation (growth prods ?prod + growth conss ?cons) m) (\<lambda>failed m.
            let prod = (if failed = 0 then ?prod + growth prods ?prod else ?prod); cons = (if failed = 0 then ?cons + growth conss ?cons else ?cons) in
            bind_o (on_proxy c (\<lambda>p. SendNumSlabs prod cons
                (if failed = 0 then p\<lparr>px_slabs := (px_slabs p)\<lparr>numProdSlabs := prod, numConsSlabs := cons\<rparr>\<rparr> else p)) m) (\<lambda>_ m.
            if failed \<noteq> 0 then Throw ''Manager::ReserveSlabs was denied'' m
            else FillProducerSlabs c m)))
    (\<lambda>_. kept B {} K) (\<lambda>e m'. unlocked e \<or> kept B {} K m')"
    unfolding Let_def
  proof (rule sat_bind [OF reserve], rule sat_bind [OF answer], assumption, goal_cases)
    case (1 failed m1 a m2)
    then show ?case using fill by simp
  qed
  then show ?thesis by (simp add: px_HandleNumSlabs_def p Let_def)
qed

section \<open>Every message\<close>

definition settled :: "manager \<Rightarrow> bool" where
  "settled m \<longleftrightarrow> (\<exists>B W. books B (\<lambda>_. 0) {#} {} W m)"

text \<open>How many references and wanted segments a client has at most for one slab.\<close>

definition refs_below :: "nat \<Rightarrow> proxy \<Rightarrow> bool" where
  "refs_below n p \<longleftrightarrow> length (px_wantedQueue p) < n \<and> (\<forall>r \<in> set (consSlabRefcnt (px_slabs p)). unat r + length (px_wantedQueue p) < n)"

definition holds_slab :: "manager \<Rightarrow> u16 \<Rightarrow> nat \<Rightarrow> bool" where
  "holds_slab m c i \<longleftrightarrow> (case map_of (mg_clients m) c of None \<Rightarrow> False | Some p \<Rightarrow> px_holds p i \<noteq> 0)"

text \<open>
  What the manager needs of a message: slab and block IDs that exist, slabs given back once, blocks
  in slabs the sender holds; room in the 16-bit counts of references and in the 32-bit count of
  requests.
\<close>

definition admissible :: "u16 \<Rightarrow> endpoint_call \<Rightarrow> manager \<Rightarrow> bool" where
  "admissible c call m \<longleftrightarrow>
     (case call of
        HandleBlockIDs ids \<Rightarrow> (\<forall>b \<in> set ids. block_ok m b)
          \<and> (\<forall>(k, p) \<in> set (mg_clients m). k = c \<longrightarrow> refs_below (2 ^ 16) p)
      | HandleSlabIDs ids \<Rightarrow> distinct ids \<and> (\<forall>i \<in> set ids. unat i < num_slabs m) \<and> requests m < 2 ^ 32 - 1
      | HandleBlocksAndInfo ids infos \<Rightarrow>
          (\<forall>b \<in> set ids. block_ok m b \<longrightarrow> holds_slab m c (unat (b div mg_blocksPerSlab m)))
          \<and> length ids < 2 ^ 16 \<and> (\<forall>(k, p) \<in> set (mg_clients m). refs_below (2 ^ 16 - length ids) p)
      | HandleNumSlabs prods conss \<Rightarrow> requests m < 2 ^ 32 - 1
      | _ \<Rightarrow> True)"

lemma refs_belowD:
  assumes "refs_below n p"
  shows "cons_refs (px_slabs p) i + length (px_wantedQueue p) < n"
  using assms by (auto simp: refs_below_def cons_refs_def)

text \<open>The bound of one client, and of all.\<close>

lemma books_rebound:
  assumes "books B d e S W m"
    and "\<And>c p i. (c, p) \<in> set (mg_clients m) \<Longrightarrow> cons_refs (px_slabs p) i + length (px_wantedQueue p) \<le> B' c"
  shows "books B' d e S W m"
  using assms unfolding books_def by blast

lemma settled_kept: "settled m \<Longrightarrow> \<exists>B. kept B {} (map fst (mg_clients m)) m"
  unfolding settled_def kept_def using booksD(7) keys_queues by metis

lemma kept_settled: "kept B {} K m \<Longrightarrow> settled m"
  unfolding settled_def kept_def by blast

lemma HandleSlabs_kept:
  assumes k: "kept B {} K m" and c: "c \<in> set K"
  shows "admissible c (HandleSlabIDs ids) m \<Longrightarrow> keeps_kept B {} K (px_HandleSlabIDs c ids m)"
  using HandleSlabIDs_books [OF k c, of ids] by (auto simp: admissible_def elim!: sat_mono)

lemma proxy_call_settled:
  assumes s: "settled m" and c: "c \<in> set (map fst (mg_clients m))" and adm: "admissible c call m"
  shows "sat (proxy_call c call m) (\<lambda>_ m'. settled m' \<and> map fst (mg_clients m') = map fst (mg_clients m))
    (\<lambda>e m'. unlocked e \<or> settled m' \<and> map fst (mg_clients m') = map fst (mg_clients m))"
proof -
  let ?K = "map fst (mg_clients m)"
  let ?Q = "\<lambda>m'. settled m' \<and> map fst (mg_clients m') = ?K"
  obtain B where k: "kept B {} ?K m" using settled_kept [OF s] by blast
  obtain W where W: "map fst W = ?K" "books B (\<lambda>_. 0) {#} {} W m" using k by (rule keptE)
  have ends: "sat r (\<lambda>_. ?Q) (\<lambda>e m'. unlocked e \<or> ?Q m')"
    if "sat r (\<lambda>_. kept B' {} ?K) (\<lambda>e m'. unlocked e \<or> kept B' {} ?K m')" for r :: "(unit, manager) outcome" and B'
    by (rule sat_mono [OF that]) (auto dest: kept_settled kept_keys)
  have ends2: "sat r (\<lambda>_. ?Q) (\<lambda>e m'. unlocked e \<or> ?Q m')" if "keeps_kept B' {} ?K r" for r :: "(unit, manager) outcome" and B'
    by (rule ends [where B' = B'], rule sat_mono [OF that]) blast+
  have same: "keeps_kept B {} ?K (bind_o (on_proxy c f m) (\<lambda>_. Ok ()))"
    if "\<And>p. calm p \<Longrightarrow> sat (f p) (\<lambda>_ p'. same_books p p') (\<lambda>_ p'. same_books p p')" for f :: "proxy \<Rightarrow> (nat, proxy) outcome"
    by (rule kept_bind [OF keeps_same [OF k c that]]) simp_all
  have field: "keeps_kept B {} ?K (on_proxy c (\<lambda>p. Ok () (f p)) m)" if "\<And>p. same_books p (f p) = calm p" for f
    by (rule keeps_same [OF k c]) (simp add: that)
  show ?thesis
  proof (cases call)
    case (HandleBlockIDs ids)
    have ids: "\<And>b. b \<in> set ids \<Longrightarrow> unat (b div mg_blocksPerSlab m) < num_slabs m"
      using adm block_ok_slab by (auto simp: admissible_def HandleBlockIDs)
    have low: "\<And>p. (c, p) \<in> set (mg_clients m) \<Longrightarrow> refs_below (2 ^ 16) p" using adm by (auto simp: admissible_def HandleBlockIDs)
    have "books (B(c := 2 ^ 16 - 1)) (\<lambda>_. 0) {#} {} W m"
    proof (rule books_rebound [OF W(2)])
      fix k p i assume kp: "(k, p) \<in> set (mg_clients m)"
      show "cons_refs (px_slabs p) i + length (px_wantedQueue p) \<le> (B(c := 2 ^ 16 - 1)) k"
        using refs_belowD [OF low, of p i] books_entry(2) [OF W(2) kp, of i] kp by (cases "k = c") auto
    qed
    then have "kept (B(c := 2 ^ 16 - 1)) {} ?K m" using W(1) unfolding kept_def by blast
    then have k': "kept (B(c := 2 ^ 16 - 1)) {} ?K m" .
    have "keeps_kept (B(c := 2 ^ 16 - 1)) {} ?K (px_HandleBlockIDs c ids m)"
      by (rule sat_mono [OF HandleBlockIDs_books [OF k' c _ ids]]) simp_all
    from ends2 [OF this] show ?thesis by (simp add: proxy_call_def HandleBlockIDs)
  next
    case (HandleSlabIDs ids)
    then show ?thesis using ends2 [OF HandleSlabs_kept [OF k c]] adm by (simp add: proxy_call_def)
  next
    case (HandleBlocksAndInfo ids infos)
    let ?bs = "zip ids infos" and ?n = "2 ^ 16 - length ids"
    have low: "\<And>k p. (k, p) \<in> set (mg_clients m) \<Longrightarrow> refs_below ?n p" and len: "length ids < 2 ^ 16"
      and held: "\<And>b. b \<in> set ids \<Longrightarrow> block_ok m b \<Longrightarrow> holds_slab m c (unat (b div mg_blocksPerSlab m))"
      using adm by (auto simp: admissible_def HandleBlocksAndInfo)
    have "books (\<lambda>_. ?n - 1) (\<lambda>_. 0) {#} {} W m"
    proof (rule books_rebound [OF W(2)])
      fix k p i assume kp: "(k, p) \<in> set (mg_clients m)"
      show "cons_refs (px_slabs p) i + length (px_wantedQueue p) \<le> ?n - 1"
        using refs_belowD [OF low [OF kp], of i] by simp
    qed
    then have k': "kept (\<lambda>_. ?n - 1) {} ?K m" using W(1) unfolding kept_def by blast
    have pin: "held m (unat (b div mg_blocksPerSlab m)) \<noteq> 0" if b: "b \<in> fst ` set ?bs" "block_ok m b" for b
    proof -
      let ?i = "unat (b div mg_blocksPerSlab m)"
      have "b \<in> set ids" using b(1) by (auto dest: set_zip_leftD)
      from held [OF this b(2)] obtain p where p: "map_of (mg_clients m) c = Some p" "px_holds p ?i \<noteq> 0"
        by (auto simp: holds_slab_def split: option.splits)
      then have "clients_hold m ?i \<noteq> 0" using client_hold_le [OF p(1), of ?i] by simp
      then show ?thesis using books_held [OF W(2) block_ok_slab [OF b(2)]] by simp
    qed
    have room: "?n - 1 + length ?bs < 2 ^ 16" using len by simp
    have "keeps_kept (\<lambda>c. ?n - 1 + length ?bs) {} ?K (px_HandleBlocksAndInfo c ?bs m)"
      by (rule sat_mono [OF HandleBlocksAndInfo_books [OF k' c room pin]]) simp_all
    from ends2 [OF this] show ?thesis by (simp add: proxy_call_def HandleBlocksAndInfo)
  next
    case (HandleManagerEcho bs)
    then show ?thesis using ends2 [OF same [OF sends_same [OF calm_sends(8)]]] by (simp add: proxy_call_def)
  next
    case (HandleSequenceToken t)
    then show ?thesis using ends2 [OF same [OF sends_same [OF calm_sends(6)]]] by (simp add: proxy_call_def)
  next
    case (HandleRegistration type i g ids)
    then show ?thesis using ends2 [OF HandleRegistration_kept [OF k c]] by (simp add: proxy_call_def)
  next
    case HandleDropReportAck
    have "keeps_kept B {} ?K (px_HandleDropReportAck c m)" by (rule sat_mono [OF HandleDropReportAck_books [OF k c]]) simp_all
    from ends2 [OF this] show ?thesis by (simp add: proxy_call_def HandleDropReportAck)
  next
    case (HandleCtrlString which str)
    then show ?thesis using ends2 [OF HandleCtrlString_kept [OF k c]] by (simp add: proxy_call_def)
  next
    case (HandleNumSlabs prods conss)
    then show ?thesis using ends [OF HandleNumSlabs_kept [OF k c]] adm by (simp add: proxy_call_def admissible_def)
  next
    case (HandleClientPID pid)
    then show ?thesis using ends2 [OF field] by (simp add: proxy_call_def same_books_def calm_def)
  next
    case (HandleRegistrationsWanted a b)
    then show ?thesis using ends2 [OF HandleRegistrationsWanted_kept [OF k c]] by (simp add: proxy_call_def)
  next
    case (HandleProdNiceLevel level)
    then show ?thesis using ends2 [OF field] by (simp add: proxy_call_def same_books_def calm_def)
  qed (use s in \<open>simp_all add: proxy_call_def base_handler_def\<close>)
qed

end
