(* ===== verification/Manager_Invariant.thy ===== *)
theory Manager_Invariant
  imports Manager_Calls Id_Allocation
begin

unbundle bit_operations_syntax

text \<open>
  The manager over its whole life: it is made, clients come, send messages and leave.  Every state on
  the way is settled, whatever the messages, as long as they are \<open>admissible\<close>.
\<close>

section \<open>Client IDs\<close>

definition ids_live :: "manager \<Rightarrow> bool" where
  "ids_live m \<longleftrightarrow> mg_nextNewClientID m \<le> kMaxClientID"

definition used_ids :: "manager \<Rightarrow> int set" where
  "used_ids m = uint ` set (map fst (mg_clients m))"

lemma advance_clients [simp]: "mg_clients (advance_clientID m) = mg_clients m"
  by (simp add: advance_clientID_def)

lemma uint_inc_u16: "c < 9999 \<Longrightarrow> uint (c + 1 :: u16) = uint c + 1"
  by (simp add: uint_word_ariths word_less_def take_bit_eq_mod)

interpretation client_ids: cyclic_allocator 0 9999 "\<lambda>m. uint (mg_nextNewClientID m)" used_ids ids_live
  advance_clientID "\<lambda>m. (mg_nextNewClientID m, advance_clientID m)" GetNewClientID
proof unfold_locales
  fix m :: manager
  assume live: "ids_live m"
  then have c: "uint (mg_nextNewClientID m) \<le> 9999" by (simp add: ids_live_def kMaxClientID_def word_le_def)
  show "uint (mg_nextNewClientID (advance_clientID m))
      = (if uint (mg_nextNewClientID m) = 9999 then 0 else uint (mg_nextNewClientID m) + 1)"
    using c uint_inc_u16 [of "mg_nextNewClientID m"]
    by (auto simp: advance_clientID_def kMaxClientID_def word_le_def word_less_def)
  show "used_ids (advance_clientID m) = used_ids m" by (simp add: used_ids_def advance_clientID_def)
  show "ids_live (advance_clientID m)"
    using c uint_inc_u16 [of "mg_nextNewClientID m"]
    by (auto simp: ids_live_def advance_clientID_def kMaxClientID_def word_le_def word_less_def)
  show "uint (mg_nextNewClientID m) \<in> {0..9999}" using c by simp
  have "uint (mg_nextNewClientID m) \<in> used_ids m \<longleftrightarrow> map_of (mg_clients m) (mg_nextNewClientID m) \<noteq> None"
  proof -
    have "inj (uint :: u16 \<Rightarrow> int)" by (rule injI) (simp add: word_uint_eq_iff)
    then show ?thesis unfolding used_ids_def by (simp add: inj_image_mem_iff map_of_eq_None_iff)
  qed
  then show "GetNewClientID m = (if uint (mg_nextNewClientID m) \<in> used_ids m then GetNewClientID (advance_clientID m)
      else Some (mg_nextNewClientID m, advance_clientID m))"
    by (subst GetNewClientID.simps) (simp add: Let_def)
qed

lemma GetNewClientID_Some:
  assumes "GetNewClientID m = Some (c, m')" "ids_live m"
  shows "map_of (mg_clients m) c = None \<and> c \<le> kMaxClientID \<and> (\<exists>n \<le> kMaxClientID. m' = m\<lparr>mg_nextNewClientID := n\<rparr>)"
proof -
  let ?P = "\<lambda>m r. ids_live m \<longrightarrow> map_of (mg_clients m) (fst r) = None \<and> fst r \<le> kMaxClientID
    \<and> (\<exists>n \<le> kMaxClientID. snd r = m\<lparr>mg_nextNewClientID := n\<rparr>)"
  have "?P m r" if "GetNewClientID m = Some r" for r
  proof (rule GetNewClientID.raw_induct [OF _ that, where P = ?P], goal_cases)
    case (1 f m r)
    show ?case
    proof
      assume live: "ids_live m"
      have live': "ids_live (advance_clientID m)" by (rule client_ids.live_skip [OF live])
      have adv: "advance_clientID m = m\<lparr>mg_nextNewClientID := mg_nextNewClientID (advance_clientID m)\<rparr>"
        "mg_clients (advance_clientID m) = mg_clients m" by (simp_all add: advance_clientID_def)
      show "map_of (mg_clients m) (fst r) = None \<and> fst r \<le> kMaxClientID \<and> (\<exists>n \<le> kMaxClientID. snd r = m\<lparr>mg_nextNewClientID := n\<rparr>)"
      proof (cases "map_of (mg_clients m) (mg_nextNewClientID m) = None")
        case True
        then have "r = (mg_nextNewClientID m, advance_clientID m)" using 1(2) by (simp add: Let_def)
        then show ?thesis using True live live' adv by (auto simp: ids_live_def)
      next
        case False
        then have "f (advance_clientID m) = Some r" using 1(2) by (auto simp: Let_def)
        from 1(1) [OF this] live' adv(2)
        have "map_of (mg_clients m) (fst r) = None" "fst r \<le> kMaxClientID"
          "\<exists>n \<le> kMaxClientID. snd r = (advance_clientID m)\<lparr>mg_nextNewClientID := n\<rparr>" by auto
        then show ?thesis by (auto simp: advance_clientID_def)
      qed
    qed
  qed
  from this [OF assms(1)] assms(2) show ?thesis by simp
qed

lemma GetNewClientID_returns:
  assumes "ids_live m" "length (mg_clients m) < 10000"
  shows "\<exists>c m'. GetNewClientID m = Some (c, m')"
proof -
  have "card (used_ids m) \<le> length (mg_clients m)"
    unfolding used_ids_def by (metis List.finite_set card_image_le card_length length_map order_trans)
  then have "\<exists>x \<in> {0..9999}. x \<notin> used_ids m"
    using assms(2) by (intro free_id_exists) (simp_all add: used_ids_def)
  then show ?thesis using client_ids.scan_returns [OF assms(1)] by (metis surj_pair)
qed

section \<open>A client that connects\<close>

lemma books_insert:
  assumes b: "books B d e S W m" and c: "map_of (mg_clients m) c = None"
    and p: "proxy_ok (num_slabs m) (mg_blocksPerSlab m) c p" "px_wantedQueue p = []" "\<And>i. px_holds p i = 0"
  shows "books B d e S (om_insert c [] W) (m\<lparr>mg_clients := om_insert c p (mg_clients m)\<rparr>)"
proof -
  let ?m = "m\<lparr>mg_clients := om_insert c p (mg_clients m)\<rparr>"
  have tr: "slab_manager.truncate ?m = slab_manager.truncate m" by (simp add: slab_manager.truncate_def)
  note more = slab_inv_more [OF tr]
  have f: "parts_ok ?m = parts_ok m" "segment_slab ?m = segment_slab m" by (simp_all add: parts_ok_def segment_slab_def fun_eq_iff)
  have "map (\<lambda>(c, p). (c, px_wantedQueue p)) (om_insert c p xs) = om_insert c [] (map (\<lambda>(c, p). (c, px_wantedQueue p)) xs)" for xs
    using p(2) by (induction xs) auto
  then have q: "queues ?m = om_insert c [] W" unfolding booksD(7) [OF b, symmetric] queues_def by simp
  have cW: "map_of W c = None" using booksD(7) [OF b] c map_of_queues [of m c] by simp
  have mem: "(k, v) = (c, x) \<or> (k, v) \<in> set xs" if "(k, v) \<in> set (om_insert c x xs)" for k v x and xs :: "(u16 \<times> 'x) list"
    using that by (induction xs) (auto split: if_splits)
  have h: "clients_hold ?m = clients_hold m"
    using sum_om_insert [OF c, of "\<lambda>_ p. px_holds p i" p for i] p(3) by (simp add: clients_hold_def fun_eq_iff)
  have "mset (queued_segs m) = (\<Sum>(c, q) \<leftarrow> om_insert c [] W. mset q) + e"
    using booksD(8) [OF b] sum_om_insert [OF cW, of "\<lambda>_. mset" "[]"] by simp
  moreover have "ws_clientID (wantedSegmentBlocks m ! seg) = k" if "(k, q) \<in> set (om_insert c [] W)" "seg \<in> set q" for k q seg
  proof -
    have "(k, q) \<in> set W" using mem [OF that(1)] that(2) by auto
    then show ?thesis using b that(2) by (auto simp: books_def)
  qed
  moreover have "proxy_ok (num_slabs m) (mg_blocksPerSlab m) k r \<and> cons_refs (px_slabs r) i + length (px_wantedQueue r) \<le> B k"
    if "(k, r) \<in> set (om_insert c p (mg_clients m))" for k r i
    using mem [OF that] books_entry [OF b, of k r] p by (auto simp: px_holds_def)
  ultimately show ?thesis
    by (intro booksI) (use booksD [OF b] books_held [OF b] q books_pinned [OF b] books_seg_slab [OF b] in \<open>simp_all add: more f h\<close>)
qed

lemma ClientProxy_new:
  assumes answers: "\<forall>a \<in> set answers. whole_answer a" and mem: "parts_ok m" and c: "c \<le> kMaxClientID"
  shows "sat (ClientProxy adr answers c m) (\<lambda>_ p. proxy_ok (num_slabs m) (mg_blocksPerSlab m) c p
    \<and> px_wantedQueue p = [] \<and> (\<forall>i. px_holds p i = 0)) (\<lambda>_ _. True)"
proof -
  let ?Q = "\<lambda>p. calm p \<and> px_clientID p = c \<and> px_slabs p = SlabTracker \<and> px_wantedQueue p = []"
  have step: "?Q p'" if "same_books p p'" "?Q p" for p p' using that by (simp add: same_books_def)
  have first: "sat (SocketEndpoint p) (\<lambda>_. ?Q) (\<lambda>_ _. True)" if "?Q p" for p :: proxy
  proof -
    let ?p = "p\<lparr>sendFailed := False, validPeer := False, throwOnPeerDisconnect := True, groupID := 0, blockRetry := True\<rparr>"
    have q: "?Q ?p" using that by (simp add: calm_def)
    then have "calm ?p" by blast
    from sends_same [OF calm_sends(9) [OF this]] show ?thesis
      unfolding SocketEndpoint_def by (rule sat_mono) (use step [OF _ q] in blast)+
  qed
  have second: "sat (SendClientID c (p\<lparr>throwOnPeerDisconnect := False, blockRetry := False\<rparr>)) (\<lambda>_. ?Q) (\<lambda>_ _. True)" if "?Q p" for p :: proxy
  proof -
    let ?p = "p\<lparr>throwOnPeerDisconnect := False, blockRetry := False\<rparr>"
    have q: "?Q ?p" using that by (simp add: calm_def)
    then have "calm ?p" by blast
    from sends_same [OF calm_sends(7) [OF this, of c]] show ?thesis by (rule sat_mono) (use step [OF _ q] in blast)+
  qed
  let ?N = "shm_TotalNumSlabs (mg_shm m)"
  have n: "unat ?N = num_slabs m"
  proof -
    have bps: "BlocksPerSlab (mg_shm m) = mg_blocksPerSlab m" "0 < unat (mg_blocksPerSlab m)" using mem by (auto simp: parts_ok_def unat_gt_0_iff)
    show ?thesis using total_blocks [OF mem] bps(2) unfolding shm_TotalNumSlabs_def bps(1) by (simp add: unat_div)
  qed
  have empty: "tracker_inv 0 SlabTracker" "prod_held SlabTracker i = 0" "cons_refs SlabTracker i = 0" for i
    by (simp_all add: tracker_inv_def SlabTracker_def prod_held_def cons_refs_def)
  note grow = tracker_grow [OF empty(1), of ?N]
  have third: "sat (CheckBufferParams ?N (mg_blocksPerSlab m) fmt p) (\<lambda>_ p. proxy_ok (num_slabs m) (mg_blocksPerSlab m) c p
    \<and> px_wantedQueue p = [] \<and> (\<forall>i. px_holds p i = 0)) (\<lambda>_ _. True)" if "?Q p" for p fmt
  proof (rule sat_mono [OF CheckBufferParams_told], goal_cases)
    case 1 show ?case using that by blast
  next
    case (2 u p')
    then show ?case using that grow empty c by (simp add: told_def same_books_def proxy_ok_def px_holds_def n)
  qed simp
  show ?thesis unfolding ClientProxy_def Let_def
    by (rule sat_bind [OF first], simp add: calm_def answers, rule sat_bind [OF second], assumption, rule third)
qed

lemma AddConnectedClient_settled:
  assumes s: "settled m" and answers: "\<forall>a \<in> set answers. whole_answer a" and r: "AddConnectedClient adr answers m = Ok () m'"
  shows "settled m'"
proof (cases "length (mg_clients m) \<ge> unat (mg_maxNumClients m)")
  case True
  then show ?thesis using r s by (simp add: AddConnectedClient_def)
next
  case False
  obtain B W where b: "books B (\<lambda>_. 0) {#} {} W m" using s by (auto simp: settled_def)
  have live: "ids_live m" using books_next_id [OF b] by (simp add: ids_live_def)
  obtain c m1 where get: "GetNewClientID m = Some (c, m1)" using False r by (auto simp: AddConnectedClient_def split: option.splits)
  obtain n where n: "map_of (mg_clients m) c = None" "c \<le> kMaxClientID" "n \<le> kMaxClientID" "m1 = m\<lparr>mg_nextNewClientID := n\<rparr>"
    using GetNewClientID_Some [OF get live] by auto
  have b1: "books B (\<lambda>_. 0) {#} {} W m1" unfolding n(4) by (rule books_clientID [OF b n(3)])
  note new = ClientProxy_new [OF answers booksD(5) [OF b1] n(2), of adr]
  show ?thesis
  proof (cases "ClientProxy adr answers c m1")
    case (Ok u p)
    have c1: "map_of (mg_clients m1) c = None" using n(1,4) by simp
    have "books B (\<lambda>_. 0) {#} {} (om_insert c [] W) (m1\<lparr>mg_clients := om_insert c p (mg_clients m1)\<rparr>)"
      by (rule books_insert [OF b1 c1]) (use new Ok in simp_all)
    then have "settled (m1\<lparr>mg_clients := om_insert c p (mg_clients m1)\<rparr>)" unfolding settled_def by blast
    then show ?thesis using r False get Ok by (simp add: AddConnectedClient_def)
  next
    case (Throw e p)
    then have "m' = m1" using r False get by (simp add: AddConnectedClient_def)
    then show ?thesis using b1 unfolding settled_def by blast
  next
    case (Crash x)
    then show ?thesis using new by simp
  qed
qed

section \<open>A new manager\<close>

lemma slabs_of_new:
  assumes "spb \<noteq> 0" "unat spb * n < 2 ^ 32"
  shows "slabsPerBuf (SlabManager spb n pct) = spb" "length (infoVec (SlabManager spb n pct)) = n"
proof -
  let ?m = "\<lparr>slabsPerBuf = spb, numSlabsReserved = 0, pctNonreservable = pct,
       numSlabsNonreservable = 0, infoVec = [], freeSlabs = [], heldSlabs = [], wantedSlabs = [],
       freeWantedSegs = [], wantedSegmentBlocks = [], whichStateChange = 0\<rparr>"
  have "slabsPerBuf ((add_buffer ^^ k) m) = slabsPerBuf m" "length (infoVec ((add_buffer ^^ k) m)) = length (infoVec m) + k"
    for k and m :: slab_manager by (induction k) (simp_all add: add_buffer_def Let_def)
  then show "slabsPerBuf (SlabManager spb n pct) = spb" "length (infoVec (SlabManager spb n pct)) = n"
    by (simp_all add: SlabManager_def NumBuffers_def Let_def)
qed

lemma books_new:
  assumes m: "slab_manager.truncate m = (SlabManager spb n pct)\<lparr>whichStateChange := kHeldToFree OR kWantedToFree\<rparr>"
    and spb: "spb \<noteq> 0" "unat spb * n < 2 ^ 32"
    and parts: "srm_inv (mg_requests m)" "group_inv (mg_groups m)" "parts_ok m" "mg_clients m = []"
  shows "settled m"
proof -
  let ?s = "SlabManager spb n pct"
  let ?t = "?s\<lparr>whichStateChange := kHeldToFree OR kWantedToFree\<rparr>"
  note inv = SlabManager_inv [OF spb, of pct]
  have tr: "slab_manager.truncate m = slab_manager.truncate ?t" using m by (simp add: slab_manager.truncate_def)
  have at: "slab_at ?t = slab_at ?s" "num_slabs ?t = num_slabs ?s" by (simp_all add: fun_eq_iff slab_at_def num_slabs_def)
  have "slab_inv ?t = slab_inv ?s" by (simp add: slab_inv_def slab_shape_def slab_lists_def seg_pool_def queued_segs_def at)
  then have i: "slab_inv m" using slab_inv_more(1) [OF tr] inv(1) by simp
  have more: "num_slabs m = num_slabs ?s" "slab_at m = slab_at ?s" using slab_inv_more(3,5) [OF tr] at by simp_all
  have "slab_is_free (slab_at m j)" if "j < num_slabs m" for j
  proof -
    have "j \<in> set (freeSlabs ?s)" using that inv(2,3) more(1) by simp
    then show ?thesis using inv(1) more(2) by (simp add: slab_inv_def slab_lists_def)
  qed
  then have free: "held m j = 0" "wantedSegs (slab_at m j) = []" if "j < num_slabs m" for j
    using that by (simp_all add: slab_is_free_def held_def)
  have "queued_segs m = []" unfolding queued_segs_def using free(2) by (simp add: concat_eq_Nil_conv)
  moreover have "whichStateChange m = whichStateChange ?t" using m by (metis slab_manager.truncate_def slab_manager.select_convs(11))
  ultimately have "books (\<lambda>_. 0) (\<lambda>_. 0) {#} {} [] m"
    by (intro booksI) (use i parts free in \<open>simp_all add: queues_def clients_hold_def om_ok_def\<close>)
  then show ?thesis unfolding settled_def by blast
qed

text \<open>
  What the parameters must satisfy: blocks fit into slabs and slabs into buffers, there is a buffer,
  and block IDs are 32-bit numbers.
\<close>

definition params_ok :: "shm_mapper \<Rightarrow> u32 \<Rightarrow> u32 \<Rightarrow> bool" where
  "params_ok shm spb nBuffers \<longleftrightarrow>
     shm_headerVec shm = [] \<and> shm_infoVec shm = [] \<and> BlocksPerSlab shm \<noteq> 0 \<and> spb \<noteq> 0 \<and> nBuffers \<noteq> 0
     \<and> nBuffers \<le> shm_maxNumBuffers shm \<and> unat (shm_numBlocks shm) = unat spb * unat (BlocksPerSlab shm)
     \<and> unat spb * unat (BlocksPerSlab shm) * unat (shm_maxNumBuffers shm) < 2 ^ 32"

lemma Manager_settled:
  assumes ok: "params_ok shm spb n" and req: "srm_inv reqs"
  shows "sat (Manager shm spb n pct reqs mx allow playback verb mem) (\<lambda>_. settled) (\<lambda>_ _. True)"
proof -
  let ?s = "SlabManager spb (unat n) pct" and ?which = "kHeldToFree OR kWantedToFree"
  let ?m = "(slab_manager.extend ?s (manager.fields shm GroupManager reqs [] 0 mx allow playback (BlocksPerSlab shm)
            ManagerStats None verb mem))\<lparr>whichStateChange := ?which\<rparr>"
  have le: "unat n \<le> unat (shm_maxNumBuffers shm)" and cap: "unat spb * unat (BlocksPerSlab shm) * unat (shm_maxNumBuffers shm) < 2 ^ 32"
    and pos: "0 < unat (BlocksPerSlab shm)" "spb \<noteq> 0" "unat n \<noteq> 0" "n \<noteq> 0"
    using ok by (auto simp: params_ok_def word_le_nat_alt unat_gt_0_iff unat_eq_zero)
  have "unat spb * unat n \<le> unat spb * unat (BlocksPerSlab shm) * unat (shm_maxNumBuffers shm)"
    using pos(1) le by (simp add: mult_le_mono)
  then have fits: "unat spb * unat n < 2 ^ 32" using cap by (rule le_less_trans)
  note new = slabs_of_new [OF pos(2) fits, of pct]
  have f: "slabsPerBuf ?m = spb" "length (infoVec ?m) = unat n" "mg_shm ?m = shm" "mg_clients ?m = []"
    "mg_blocksPerSlab ?m = BlocksPerSlab shm" "mg_requests ?m = reqs" "mg_groups ?m = GroupManager" "mg_nextNewClientID ?m = 0"
    using new by (simp_all add: slab_manager.extend_def manager.fields_def)
  have shm: "shm_ok shm" using ok by (simp add: params_ok_def shm_ok_def)
  have grow: "sat (with_shm (shm_NumBuffers n) ?m) (\<lambda>_ m'. \<exists>s. m' = ?m\<lparr>mg_shm := s\<rparr> \<and> shm_ok s \<and> shm_frame shm s
      \<and> length (shm_headerVec s) = unat n) (\<lambda>_ _. True)"
    unfolding with_shm_def sat_lift f
  proof (rule sat_mono [OF shm_NumBuffers_spec [OF shm, of n]], goal_cases)
    case (1 r s)
    then show ?case using ok pos by (intro exI [of _ s]) (auto simp: params_ok_def split: if_splits)
  qed simp
  have tell: "sat (bind_o (tell_buffers (NumBuffers (unat n) m')) (\<lambda>_. Ok (0 :: int))) (\<lambda>_. settled) (\<lambda>_ _. True)"
    if m': "m' = ?m\<lparr>mg_shm := s\<rparr>" "shm_ok s" "shm_frame shm s" "length (shm_headerVec s) = unat n" for m' s
  proof -
    have g: "NumBuffers (unat n) m' = m'" using m'(1) f(2) by (simp add: NumBuffers_def)
    have "tell_buffers m' = Ok () m'" using m'(1) f(4) by (simp add: tell_buffers_def)
    moreover have "settled m'"
    proof (rule books_new [OF _ pos(2) fits])
      show "slab_manager.truncate m' = ?s\<lparr>whichStateChange := ?which\<rparr>"
        by (simp add: m'(1) slab_manager.truncate_def slab_manager.extend_def)
      have fr: "shm_numBlocks s = shm_numBlocks shm" "shm_maxNumBuffers s = shm_maxNumBuffers shm" "BlocksPerSlab s = BlocksPerSlab shm"
        using m'(3) by (simp_all add: shm_frame_def BlocksPerSlab_def)
      have ne: "infoVec m' \<noteq> []" using f(2) pos(3) m'(1) by auto
      have fm: "slabsPerBuf m' = spb" "length (infoVec m') = unat n" "mg_shm m' = s" "mg_blocksPerSlab m' = BlocksPerSlab shm"
        "mg_nextNewClientID m' = 0" using f by (simp_all add: m'(1))
      show "parts_ok m'" unfolding parts_ok_def fm fr using ok m'(2,4) ne by (simp add: params_ok_def)
      show "srm_inv (mg_requests m')" "group_inv (mg_groups m')" "mg_clients m' = []"
        using f req group_inv_new by (simp_all add: m'(1))
    qed
    ultimately show ?thesis using g by simp
  qed
  have "sat (bind_o (with_shm (shm_NumBuffers n) ?m) (\<lambda>_ m.
          if of_nat (length (shm_headerVec (mg_shm m))) \<noteq> n then Ok (- 1 :: int) m
          else if shm_lockErrors (mg_shm m) \<noteq> 0 \<and> \<not> mg_allowUnlockedMemory m
          then Throw ''failed to lock MCSB buffer memory'' m
          else bind_o (tell_buffers (NumBuffers (unat n) m)) (\<lambda>_. Ok 0))) (\<lambda>_. settled) (\<lambda>_ _. True)"
  proof (rule sat_bind [OF grow], elim exE conjE, goal_cases)
    case (1 r m1 s)
    then show ?case using tell [OF 1(1-4)] by simp
  qed
  moreover have "n \<noteq> of_nat (length (shm_headerVec (mg_shm ?m)))" using ok pos f by (simp add: params_ok_def)
  ultimately have inc: "sat (IncreaseNumBuffers n ?m) (\<lambda>_. settled) (\<lambda>_ _. True)"
    using pos(4) by (simp only: IncreaseNumBuffers_def Let_def if_False)
  show ?thesis unfolding Manager_def Let_def by (rule sat_bind [OF inc]) simp
qed

section \<open>The life of a manager\<close>

text \<open>
  \<open>thrown\<close> is what \<open>Readable\<close> does when a handler throws: it deletes the client.  A failure to lock the
  memory leaves the \<open>ShmMapper\<close> with a buffer the \<open>SlabManager\<close> does not have, and ends the run here.
\<close>

inductive mg_step :: "manager \<Rightarrow> manager \<Rightarrow> bool" where
  message: "c \<in> set (map fst (mg_clients m)) \<Longrightarrow> admissible c call m \<Longrightarrow> proxy_call c call m = Ok () m' \<Longrightarrow> mg_step m m'"
| thrown: "c \<in> set (map fst (mg_clients m)) \<Longrightarrow> admissible c call m \<Longrightarrow> proxy_call c call m = Throw e m1 \<Longrightarrow> \<not> unlocked e \<Longrightarrow>
    DeleteClient c m1 = Ok () m' \<Longrightarrow> mg_step m m'"
| hangup: "c \<in> set (map fst (mg_clients m)) \<Longrightarrow> DeleteClient c m = Ok () m' \<Longrightarrow> mg_step m m'"
| connect: "\<forall>a \<in> set answers. whole_answer a \<Longrightarrow> AddConnectedClient adr answers m = Ok () m' \<Longrightarrow> mg_step m m'"
| timer: "mg_step m (HandleTimer m)"
| idle: "mg_step m (HandleIdle m)"

inductive mg_reachable :: "manager \<Rightarrow> bool" where
  start: "params_ok shm spb n \<Longrightarrow> SlabRequestManager levels = Ok () reqs \<Longrightarrow>
    Manager shm spb n pct reqs mx allow playback verb mem = Ok () m \<Longrightarrow> mg_reachable m"
| step: "mg_reachable m \<Longrightarrow> mg_step m m' \<Longrightarrow> mg_reachable m'"

lemma DeleteClient_settled:
  assumes s: "settled m" and c: "c \<in> set (map fst (mg_clients m))"
  shows "sat (DeleteClient c m) (\<lambda>_ m'. settled m' \<and> map fst (mg_clients m') = remove1 c (map fst (mg_clients m)))
    (\<lambda>_ m'. settled m')"
proof -
  obtain B where k: "kept B {} (map fst (mg_clients m)) m" using settled_kept [OF s] by blast
  show ?thesis by (rule sat_mono [OF DeleteClient_books [OF k c]]) (auto dest: kept_settled kept_keys)
qed

lemma settled_fields [simp]:
  "settled (m\<lparr>mg_stats := a\<rparr>) = settled m" "settled (m\<lparr>mg_statsIter := b\<rparr>) = settled m"
  by (simp_all add: settled_def)

lemma mg_step_settled:
  assumes "mg_step m m'" "settled m"
  shows "settled m'"
  using assms
proof (cases rule: mg_step.cases)
  case (message c call)
  then show ?thesis using proxy_call_settled [OF assms(2) message(1,2)] by simp
next
  case (thrown c call e m1)
  then have m1: "settled m1" "map fst (mg_clients m1) = map fst (mg_clients m)"
    using proxy_call_settled [OF assms(2) thrown(1,2)] by simp_all
  then show ?thesis using DeleteClient_settled [OF m1(1), of c] thrown(1,5) by simp
next
  case (hangup c)
  then show ?thesis using DeleteClient_settled [OF assms(2) hangup(1)] by simp
next
  case (connect answers adr)
  then show ?thesis using AddConnectedClient_settled [OF assms(2)] by blast
next
  case timer
  then show ?thesis using assms(2) by (simp add: HandleTimer_def)
next
  case idle
  then show ?thesis using assms(2) by (simp add: HandleIdle_def split: option.split)
qed

lemma mg_reachable_settled: "mg_reachable m \<Longrightarrow> settled m"
proof (induction rule: mg_reachable.induct)
  case (start shm spb n levels reqs pct mx allow playback verb mem m)
  then show ?case using Manager_settled [OF start(1) srm_inv_new [OF start(2)]] by (metis sat_OkD)
next
  case (step m m')
  then show ?case using mg_step_settled by blast
qed

section \<open>What settled means\<close>

lemma settled_free:
  assumes "settled m" and i: "i < num_slabs m"
  shows "i \<in> set (freeSlabs m) \<longleftrightarrow>
    (\<forall>(c, p) \<in> set (mg_clients m). px_holds p i = 0 \<and> (\<forall>seg \<in> set (px_wantedQueue p). segment_slab m seg \<noteq> i))"
proof -
  obtain B W where b: "books B (\<lambda>_. 0) {#} {} W m" using assms(1) by (auto simp: settled_def)
  have ls: "slab_lists m" using booksD(1) [OF b] by (simp add: slab_inv_def)
  have "i \<in> set (freeSlabs m) \<longleftrightarrow> held m i = 0 \<and> wantedSegs (slab_at m i) = []"
  proof
    assume "held m i = 0 \<and> wantedSegs (slab_at m i) = []"
    moreover have "i \<in> set (freeSlabs m @ heldSlabs m @ wantedSlabs m)"
      using ls i pool_set [of "freeSlabs m @ heldSlabs m @ wantedSlabs m" "num_slabs m"] by (simp add: slab_lists_def)
    ultimately show "i \<in> set (freeSlabs m)" using ls by (auto simp: slab_lists_def slab_is_wanted_def held_def unat_eq_zero)
  qed (use ls in \<open>simp add: slab_lists_def slab_is_free_def held_def\<close>)
  also have "held m i = 0 \<longleftrightarrow> (\<forall>(c, p) \<in> set (mg_clients m). px_holds p i = 0)"
    using books_held [OF b i] by (auto simp: clients_hold_def sum_list_eq_0_iff)
  also have "wantedSegs (slab_at m i) = [] \<longleftrightarrow> (\<forall>(c, p) \<in> set (mg_clients m). \<forall>seg \<in> set (px_wantedQueue p). segment_slab m seg \<noteq> i)"
  proof
    assume none: "wantedSegs (slab_at m i) = []"
    have "segment_slab m seg \<noteq> i" if cp: "(c, p) \<in> set (mg_clients m)" "seg \<in> set (px_wantedQueue p)" for c p seg
    proof
      assume i': "segment_slab m seg = i"
      have "map_of (mg_clients m) c = Some p" using cp(1) om_ok_distinct [OF booksD(6) [OF b]] by simp
      from queued_front(3) [OF b this cp(2)] show False using none i' by simp
    qed
    then show "\<forall>(c, p) \<in> set (mg_clients m). \<forall>seg \<in> set (px_wantedQueue p). segment_slab m seg \<noteq> i" by blast
  next
    assume none: "\<forall>(c, p) \<in> set (mg_clients m). \<forall>seg \<in> set (px_wantedQueue p). segment_slab m seg \<noteq> i"
    show "wantedSegs (slab_at m i) = []"
    proof (rule ccontr)
      assume "wantedSegs (slab_at m i) \<noteq> []"
      then obtain seg where seg: "seg \<in> set (wantedSegs (slab_at m i))" by (cases "wantedSegs (slab_at m i)") auto
      obtain p where "map_of (mg_clients m) (ws_clientID (wantedSegmentBlocks m ! seg)) = Some p" "seg \<in> set (px_wantedQueue p)"
        by (rule queue_owner [OF b queued_mem [OF seg i]])
      then show False using none books_seg_slab [OF b i seg] map_of_SomeD by fastforce
    qed
  qed
  finally show ?thesis by auto
qed

end
