(* ===== verification/Manager_Safety.thy ===== *)
theory Manager_Safety
  imports Manager_Invariant
begin

unbundle bit_operations_syntax

text \<open>
  What holds of the manager in every state it can reach.
\<close>

section \<open>A manager with a client\<close>

declare GetNewClientID.simps [code]
declare NewGroupStr.simps [code]

definition example_shm :: shm_mapper where
  "example_shm = ShmMapper 4096 [] False 1024 4096 8 2 {} []"

definition example_requests :: slab_request_manager where
  "example_requests = (case SlabRequestManager 1 of Ok u q \<Rightarrow> q)"

definition example_new :: manager where
  "example_new = (case Manager example_shm 2 1 (\<lambda>_. 0) example_requests 10 False False 0 (\<lambda>_. 0) of Ok u m \<Rightarrow> m)"

definition example_manager :: manager where
  "example_manager = (case AddConnectedClient 1 [] example_new of Ok u m \<Rightarrow> m)"

fun is_Ok :: "('a, 's) outcome \<Rightarrow> bool" where
  "is_Ok (Ok a s) = True"
| "is_Ok r = False"

lemma is_Ok_unit: "is_Ok r \<Longrightarrow> r = Ok () (case r of Ok u s \<Rightarrow> s)" for r :: "(unit, 's) outcome"
  by (cases r) auto

lemma example_params: "params_ok example_shm 2 1"
  by (simp add: params_ok_def example_shm_def ShmMapper_def BlocksPerSlab_def)

lemma example_starts:
  "is_Ok (SlabRequestManager 1)"
  "is_Ok (Manager example_shm 2 1 (\<lambda>_. 0) example_requests 10 False False 0 (\<lambda>_. 0))"
  "is_Ok (AddConnectedClient 1 [] example_new)"
  by code_simp+

definition outline :: "manager \<Rightarrow> u16 list \<times> nat \<times> u32 \<times> nat list" where
  "outline m = (map fst (mg_clients m), num_slabs m, numRequests (mg_requests m), freeSlabs m)"

lemma example_outline: "outline example_manager = ([0], 2, 0, [0, 1])"
  by code_simp

lemma example_clients:
  "map fst (mg_clients example_manager) = [0]" "num_slabs example_manager = 2"
  "numRequests (mg_requests example_manager) = 0" "freeSlabs example_manager = [0, 1]"
  using example_outline by (simp_all add: outline_def)

lemma example_reachable: "mg_reachable example_manager"
proof -
  have "mg_reachable example_new"
    unfolding example_new_def
    by (rule start [OF example_params _ is_Ok_unit [OF example_starts(2)]])
      (unfold example_requests_def, rule is_Ok_unit [OF example_starts(1)])
  then show ?thesis
    unfolding example_manager_def by (rule step) (rule connect [OF _ is_Ok_unit [OF example_starts(3)]], simp)
qed

section \<open>Serving requests\<close>

text \<open>The service stops only when nothing is asked for or nothing is free.\<close>

lemma ServiceSlabRequests_exhausts:
  "ServiceSlabRequests m = Ok u m' \<Longrightarrow> numRequests (mg_requests m') = 0 \<or> freeSlabs m' = []"
proof (induction m rule: ServiceSlabRequests.induct)
  case (1 m)
  show ?case
  proof (cases "numRequests (mg_requests m) = 0 \<or> freeSlabs m = []")
    case True
    then show ?thesis using 1(4) by (simp add: ServiceSlabRequests.simps [of m])
  next
    case False
    obtain req q where take: "TakeLowestRequest (mg_requests m) = Ok req q"
      using 1(4) False by (simp add: ServiceSlabRequests.simps [of m] Let_def split: outcome.splits)
    let ?m = "m\<lparr>mg_requests := q\<rparr>" and ?cid = "ucast (rq_id req) :: u16"
    show ?thesis
    proof (cases "map_of (mg_clients m) ?cid")
      case None
      then have "ServiceSlabRequests ?m = Ok u m'" using 1(4) False take by (simp add: ServiceSlabRequests.simps [of m] Let_def)
      then show ?thesis using 1(1) [OF False refl take refl refl] None by simp
    next
      case (Some p)
      show ?thesis
      proof (cases "px_addr p = rq_arg req")
        case other: False
        then have "ServiceSlabRequests ?m = Ok u m'" using 1(4) False take Some by (simp add: ServiceSlabRequests.simps [of m] Let_def)
        then show ?thesis using 1(2) [OF False refl take refl refl] Some other by simp
      next
        case True
        obtain ids m2 where get: "GetFreeSlabs None 1 (- 1) 0 ?m = Ok ids m2"
          using 1(4) False take Some True by (simp add: ServiceSlabRequests.simps [of m] Let_def split: outcome.splits)
        obtain v m3 where give: "on_proxy ?cid (TakeFreeSlabs ids) m2 = Ok v m3"
          using 1(4) False take Some True get by (simp add: ServiceSlabRequests.simps [of m] Let_def split: outcome.splits)
        let ?k = "LowestLevelPending (mg_requests m)" and ?n = "rq_numSlabs req - 1"
        let ?m4 = "if ?n \<noteq> 0 then m3\<lparr>mg_requests := AddRequest ?k ?n (rq_id req) (rq_arg req) (mg_requests m3)\<rparr> else m3"
        have "ServiceSlabRequests ?m4 = Ok u m'"
          using 1(4) False take Some True get give by (simp add: ServiceSlabRequests.simps [of m] Let_def)
        then show ?thesis using 1(3) [OF False refl take refl refl _ _ get give refl] Some True by simp
      qed
    qed
  qed
qed

section \<open>A manager without a buffer\<close>

lemma reserve_loop_stuck:
  assumes "shm_headerVec (mg_shm m) = []" "fst (GetSlabReservation k m) \<noteq> 0"
  shows "reserve_loop fuel k m = Crash NonTermination"
proof (induction fuel)
  case (Suc fuel)
  have "snd (GetSlabReservation k m) = m" using assms(2) by (auto simp: GetSlabReservation_def split: if_splits)
  moreover have "IncreaseNumBuffers 0 m = Ok 0 m" using assms(1) by (simp add: IncreaseNumBuffers_def)
  ultimately show ?case using Suc assms(2) by (cases "GetSlabReservation k m") simp
qed simp

section \<open>Properties\<close>

text \<open>
  C2: in every state the manager can reach, a slab is free exactly when no client holds it, as
  producer or consumer, and no segment in a client's wanted queue lies in it.
\<close>

theorem reachable_free_slabs:
  assumes "mg_reachable m" "i < num_slabs m"
  shows "i \<in> set (freeSlabs m) \<longleftrightarrow>
    (\<forall>(c, p) \<in> set (mg_clients m). px_holds p i = 0 \<and> (\<forall>seg \<in> set (px_wantedQueue p). segment_slab m seg \<noteq> i))"
  by (rule settled_free [OF mg_reachable_settled [OF assms(1)] assms(2)])

theorem reachable_free_slabs_witness:
  "(1 \<in> set (freeSlabs example_manager)) = list_all (\<lambda>(c, p). px_holds p 1 = 0
     \<and> list_all (\<lambda>seg. segment_slab example_manager seg \<noteq> 1) (px_wantedQueue p)) (mg_clients example_manager)"
  using reachable_free_slabs [OF example_reachable, of 1] by (simp add: example_clients list_all_iff case_prod_unfold)



text \<open>
  C3: a client that leaves takes nothing with it: when the manager has deleted it, every slab is
  free unless another client holds or wants it; and deleting a client never crashes.
\<close>

theorem client_leaves_nothing:
  assumes "mg_reachable m" "c \<in> set (map fst (mg_clients m))"
  shows "sat (DeleteClient c m) (\<lambda>_ m'. map fst (mg_clients m') = remove1 c (map fst (mg_clients m))
      \<and> (\<forall>i < num_slabs m'. i \<in> set (freeSlabs m') \<longleftrightarrow> (\<forall>(k, p) \<in> set (mg_clients m').
            px_holds p i = 0 \<and> (\<forall>seg \<in> set (px_wantedQueue p). segment_slab m' seg \<noteq> i))))
    (\<lambda>_. settled)"
  by (rule sat_mono [OF DeleteClient_settled [OF mg_reachable_settled [OF assms(1)] assms(2)]]) (use settled_free in blast)+

theorem client_leaves_nothing_witness:
  "sat (DeleteClient 0 example_manager) (\<lambda>_ m'. mg_clients m' = []) (\<lambda>_ _. True)"
  by (rule sat_mono [OF client_leaves_nothing [OF example_reachable]]) (simp_all add: example_clients)

text \<open>
  C4: in every state the manager can reach, each client is stored under its own ID, which is at most
  9999, its tracker has an entry for each slab of the shared memory and counts those that are held,
  and it divides by the same number of blocks per slab as the manager.
\<close>

theorem clients_well_formed:
  assumes "mg_reachable m" "(c, p) \<in> set (mg_clients m)"
  shows "px_clientID p = c \<and> c \<le> kMaxClientID \<and> tracker_inv (num_slabs m) (px_slabs p) \<and> px_blocksPerSlab p = mg_blocksPerSlab m"
proof -
  obtain B W where "books B (\<lambda>_. 0) {#} {} W m" using mg_reachable_settled [OF assms(1)] by (auto simp: settled_def)
  from books_entry(1) [OF this assms(2)] show ?thesis by (simp add: proxy_ok_def)
qed

theorem clients_well_formed_witness:
  "\<exists>p. map_of (mg_clients example_manager) 0 = Some p \<and> px_clientID p = 0 \<and> tracker_inv 2 (px_slabs p)"
proof -
  have "map_of (mg_clients example_manager) 0 \<noteq> None" using example_clients(1) by (metis list.set_intros(1) list.set_map map_of_eq_None_iff)
  then obtain p where p: "map_of (mg_clients example_manager) 0 = Some p" by blast
  from clients_well_formed [OF example_reachable map_of_SomeD [OF p]] p show ?thesis by (simp add: example_clients)
qed

text \<open>
  C7: the harvest of wanted slabs always ends: each turn drops a segment, and when it throws no
  wanted slab is left.
\<close>

theorem harvest_ends:
  assumes "mg_reachable m"
  shows "sat (HarvestWantedSlabs cnt m) (\<lambda>_. settled) (\<lambda>_ m'. settled m' \<and> wantedSlabs m' = [])"
proof -
  obtain B where "kept B {} (map fst (mg_clients m)) m" using settled_kept [OF mg_reachable_settled [OF assms]] by blast
  from HarvestWantedSlabs_books [OF this] show ?thesis by (rule sat_mono) (auto intro: kept_settled)
qed

theorem harvest_ends_witness:
  "HarvestWantedSlabs 1 example_manager \<noteq> Crash NonTermination"
  by (rule sat_not_Crash [OF harvest_ends [OF example_reachable]])

text \<open>
  C8: as long as fewer than 10000 clients are connected, the search for a new client ID ends, with
  an ID of at most 9999 that no client has.
\<close>

theorem new_client_ID:
  assumes "mg_reachable m" "length (mg_clients m) < 10000"
  shows "\<exists>c m'. GetNewClientID m = Some (c, m') \<and> map_of (mg_clients m) c = None \<and> c \<le> kMaxClientID"
proof -
  obtain B W where "books B (\<lambda>_. 0) {#} {} W m" using mg_reachable_settled [OF assms(1)] by (auto simp: settled_def)
  then have live: "ids_live m" using books_next_id by (simp add: ids_live_def)
  obtain c m' where "GetNewClientID m = Some (c, m')" using GetNewClientID_returns [OF live assms(2)] by blast
  with GetNewClientID_Some [OF this live] show ?thesis by blast
qed

theorem new_client_ID_witness:
  "\<exists>c m'. GetNewClientID example_manager = Some (c, m') \<and> c \<noteq> 0"
proof -
  have "length (mg_clients example_manager) = 1" using example_clients(1) by (metis One_nat_def length_map list.size(3,4) add.commute plus_1_eq_Suc)
  then obtain c m' where c: "GetNewClientID example_manager = Some (c, m')" "map_of (mg_clients example_manager) c = None"
    using new_client_ID [OF example_reachable] by auto
  moreover have "c \<noteq> 0" using c(2) example_clients(1) by (auto simp: map_of_eq_None_iff simp flip: list.set_map)
  ultimately show ?thesis by blast
qed

text \<open>
  C6: the loop that adds buffers until a reservation fits ends in every state the manager can reach,
  after at most \<open>maxNumBuffers\<close> turns, and leaves the books closed unless the new memory cannot be
  locked.
\<close>

theorem reservation_ends:
  assumes "mg_reachable m"
  shows "sat (mg_GetSlabReservation k m) (\<lambda>_. settled) (\<lambda>e m'. unlocked e \<or> settled m')"
proof -
  obtain B W where "books B (\<lambda>_. 0) {#} {} W m" using mg_reachable_settled [OF assms] by (auto simp: settled_def)
  from mg_GetSlabReservation_books [OF this] show ?thesis by (rule sat_mono) (auto simp: settled_def)
qed

theorem reservation_ends_witness:
  "mg_GetSlabReservation 5 example_manager \<noteq> Crash NonTermination"
  by (rule sat_not_Crash [OF reservation_ends [OF example_reachable]])

text \<open>
  C9: a manager whose shared memory has no buffer never comes back from a reservation that does not
  fit: \<open>IncreaseNumBuffers(0)\<close> takes the 0 for the number of buffers there are already and reports
  success without adding one.
\<close>

theorem reservation_without_buffers_loops:
  assumes "shm_headerVec (mg_shm m) = []" "fst (GetSlabReservation k m) \<noteq> 0"
  shows "\<forall>fuel. reserve_loop fuel k m = Crash NonTermination"
  using reserve_loop_stuck [OF assms] by blast

theorem reservation_without_buffers_loops_witness:
  "\<forall>fuel. reserve_loop fuel 3 (example_new\<lparr>mg_shm := example_shm\<rparr>) = Crash NonTermination"
proof (rule reservation_without_buffers_loops)
  show "shm_headerVec (mg_shm (example_new\<lparr>mg_shm := example_shm\<rparr>)) = []" by (simp add: example_shm_def ShmMapper_def)
  show "fst (GetSlabReservation 3 (example_new\<lparr>mg_shm := example_shm\<rparr>)) \<noteq> 0" by code_simp
qed

text \<open>
  C5: no client waits for a slab while one is free: when the manager has served the requests, none
  is left or no slab is, and in every state the manager can reach the service ends without a crash.
\<close>

theorem service_exhausts:
  assumes "mg_reachable m"
  shows "sat (ServiceSlabRequests m) (\<lambda>_ m'. settled m' \<and> (numRequests (mg_requests m') = 0 \<or> freeSlabs m' = [])) (\<lambda>_ _. False)"
proof -
  obtain B W where b: "books B (\<lambda>_. 0) {#} {} W m" using mg_reachable_settled [OF assms] by (auto simp: settled_def)
  have "sat (ServiceSlabRequests m) (\<lambda>_ m'. books B (\<lambda>_. 0) {#} {} W m' \<and> geometry m' = geometry m) (\<lambda>_ _. False)"
    by (rule ServiceSlabRequests_books [OF b _ refl]) simp
  then show ?thesis using ServiceSlabRequests_exhausts [of m] by (cases "ServiceSlabRequests m") (auto simp: settled_def)
qed

theorem service_exhausts_witness:
  "sat (ServiceSlabRequests example_manager) (\<lambda>_ m'. numRequests (mg_requests m') = 0 \<or> freeSlabs m' = []) (\<lambda>_ _. False)"
  by (rule sat_mono [OF service_exhausts [OF example_reachable]]) simp_all

end
