(* ===== verification/Spec2Isabelle.thy ===== *)
theory Spec2Isabelle
  imports Intrusive_List Crc32c Socket_Endpoint Drop_Reporter Group_Manager Slab_Request_Manager Slab_Tracker Slab_Manager
    Shm_Mapper Send_Manager Recv_Manager Shm_Client Client_Impl Client_Messages Client_Delivery
    Manager_Slabs Manager_Proxies Manager_Safety
begin

text \<open>
  MCSB, the Multi-Client Shared Buffer.
\<close>

end
